(* ===== verification/VC_Prelude.thy ===== *)
theory VC_Prelude
  imports Main "HOL-Library.Word" "HOL-Library.Monad_Syntax"
begin

text \<open>
  Shared vocabulary of the development: machine types, the C operations whose behaviour the
  language leaves undefined outside a range, and generic lemmas on lists, options and words.

  Convention. A C function that may run into undefined behaviour (an access outside an object, a
  shift by too much, an overflow of signed arithmetic, a division by zero, a null dereference) is
  modelled by a function into \<open>'a option\<close>: \<open>None\<close> means that the execution is undefined, \<open>Some r\<close>
  that it completes with result \<open>r\<close>. A claim that code is safe is therefore a proved equation or
  inequation about \<open>Some\<close>, never a hypothesis.
\<close>

unbundle bit_operations_syntax

type_synonym u8 = "8 word"
type_synonym u16 = "16 word"
type_synonym u32 = "32 word"
type_synonym u64 = "64 word"

named_theorems c_simps \<open>evaluation rules of the C operations\<close>
named_theorems c_bounds \<open>range facts about the C operations\<close>

subsection \<open>The 32-bit int of the C code\<close>

definition in_int :: "int \<Rightarrow> bool" where
  "in_int x \<longleftrightarrow> - 2147483648 \<le> x \<and> x \<le> 2147483647"

text \<open>The result of a signed addition, subtraction or multiplication: undefined outside \<open>int\<close>.\<close>

definition c_int :: "int \<Rightarrow> int option" where
  "c_int x = (if in_int x then Some x else None)"

text \<open>Conversion of an unsigned 32-bit value to \<open>int\<close> (two's complement).\<close>

definition to_int :: "u32 \<Rightarrow> int" where
  "to_int w = sint w"

text \<open>\<open>1 << n\<close> on \<open>int\<close>: defined while the result is representable.\<close>

definition c_shl1 :: "int \<Rightarrow> int option" where
  "c_shl1 n = (if 0 \<le> n \<and> n \<le> 30 then Some (2 ^ nat n) else None)"

text \<open>Shifts of an unsigned 32-bit value: defined for a count between 0 and 31.\<close>

definition c_shl :: "u32 \<Rightarrow> int \<Rightarrow> u32 option" where
  "c_shl w n = (if 0 \<le> n \<and> n < 32 then Some (push_bit (nat n) w) else None)"

definition c_shr :: "u32 \<Rightarrow> int \<Rightarrow> u32 option" where
  "c_shr w n = (if 0 \<le> n \<and> n < 32 then Some (drop_bit (nat n) w) else None)"

text \<open>Division and remainder truncate towards zero; a zero divisor is undefined.\<close>

definition c_div :: "int \<Rightarrow> int \<Rightarrow> int option" where
  "c_div a b = (if b = 0 then None else c_int (sgn a * sgn b * (\<bar>a\<bar> div \<bar>b\<bar>)))"

definition c_mod :: "int \<Rightarrow> int \<Rightarrow> int option" where
  "c_mod a b = (if b = 0 then None else Some (sgn a * (\<bar>a\<bar> mod \<bar>b\<bar>)))"

lemma to_int_of_nat: "n < 2 ^ 31 \<Longrightarrow> to_int (of_nat n) = int n"
  by (simp add: to_int_def sint_uint unsigned_of_nat take_bit_nat_eq_self take_bit_int_eq_self
      signed_take_bit_int_eq_self)

lemma to_int_small: "uint w < 2 ^ 31 \<Longrightarrow> to_int w = uint w"
proof -
  assume "uint w < 2 ^ 31"
  then have "int (unat w) < int (2 ^ 31)" by simp
  then have "unat w < 2 ^ 31" by (simp only: of_nat_less_iff)
  then show ?thesis using to_int_of_nat [of "unat w"] by simp
qed

lemma to_int_word_of_int: "0 \<le> x \<Longrightarrow> x \<le> 2147483647 \<Longrightarrow> to_int (word_of_int x) = x"
  using to_int_of_nat [of "nat x"] by simp

subsection \<open>Array accesses\<close>

definition c_read :: "'a list \<Rightarrow> int \<Rightarrow> 'a option" where
  "c_read xs i = (if 0 \<le> i \<and> i < int (length xs) then Some (xs ! nat i) else None)"

definition c_write :: "'a list \<Rightarrow> int \<Rightarrow> 'a \<Rightarrow> 'a list option" where
  "c_write xs i v = (if 0 \<le> i \<and> i < int (length xs) then Some (xs[nat i := v]) else None)"

lemma c_int_Some [simp]: "in_int x \<Longrightarrow> c_int x = Some x"
  by (simp add: c_int_def)

lemma c_int_eq_Some: "c_int x = Some y \<longleftrightarrow> in_int x \<and> y = x"
  by (auto simp: c_int_def)

lemma c_read_Some [simp]: "0 \<le> i \<Longrightarrow> i < int (length xs) \<Longrightarrow> c_read xs i = Some (xs ! nat i)"
  by (simp add: c_read_def)

lemma c_read_eq_Some: "c_read xs i = Some v \<longleftrightarrow> 0 \<le> i \<and> i < int (length xs) \<and> v = xs ! nat i"
  by (auto simp: c_read_def)

lemma c_write_Some [simp]:
  "0 \<le> i \<Longrightarrow> i < int (length xs) \<Longrightarrow> c_write xs i v = Some (xs[nat i := v])"
  by (simp add: c_write_def)

lemma c_write_eq_Some:
  "c_write xs i v = Some ys \<longleftrightarrow> 0 \<le> i \<and> i < int (length xs) \<and> ys = xs[nat i := v]"
  by (auto simp: c_write_def)

lemma c_write_length: "c_write xs i v = Some ys \<Longrightarrow> length ys = length xs"
  by (auto simp: c_write_def split: if_splits)

lemma c_shl_Some [simp]: "0 \<le> n \<Longrightarrow> n < 32 \<Longrightarrow> c_shl w n = Some (push_bit (nat n) w)"
  by (simp add: c_shl_def)

lemma c_shr_Some [simp]: "0 \<le> n \<Longrightarrow> n < 32 \<Longrightarrow> c_shr w n = Some (drop_bit (nat n) w)"
  by (simp add: c_shr_def)

lemma c_shl1_Some [simp]: "0 \<le> n \<Longrightarrow> n \<le> 30 \<Longrightarrow> c_shl1 n = Some (2 ^ nat n)"
  by (simp add: c_shl1_def)

lemmas c_defs [c_simps] =
  c_int_def in_int_def c_shl1_def c_shl_def c_shr_def c_div_def c_mod_def c_read_def c_write_def

subsection \<open>Options\<close>

lemma bind_Some_iff: "Option.bind x f = Some y \<longleftrightarrow> (\<exists>a. x = Some a \<and> f a = Some y)"
  by (cases x) auto

lemma bind_Some_elim:
  assumes "Option.bind x f = Some y"
  obtains a where "x = Some a" "f a = Some y"
  using assms by (cases x) auto

subsection \<open>Completion with a postcondition\<close>

text \<open>\<open>completes m Q\<close>: the computation is defined and its result satisfies \<open>Q\<close>. The rules below step
  through a function in the order of its statements.\<close>

definition completes :: "'a option \<Rightarrow> ('a \<Rightarrow> bool) \<Rightarrow> bool" where
  "completes m Q \<longleftrightarrow> (case m of None \<Rightarrow> False | Some x \<Rightarrow> Q x)"

lemma completes_Some [simp]: "completes (Some x) Q = Q x"
  by (simp add: completes_def)

lemma completes_None [simp]: "\<not> completes None Q"
  by (simp add: completes_def)

lemma completes_bind: "completes (Option.bind m f) Q = completes m (\<lambda>x. completes (f x) Q)"
  by (cases m) auto

lemma completes_mono: "completes m P \<Longrightarrow> (\<And>x. P x \<Longrightarrow> Q x) \<Longrightarrow> completes m Q"
  by (cases m) auto

lemma completes_iff: "completes m Q \<longleftrightarrow> (\<exists>x. m = Some x \<and> Q x)"
  by (cases m) auto

lemma completes_c_int: "in_int x \<Longrightarrow> Q x \<Longrightarrow> completes (c_int x) Q"
  by simp

lemma completes_if:
  "(b \<Longrightarrow> completes m Q) \<Longrightarrow> (\<not> b \<Longrightarrow> completes n Q) \<Longrightarrow> completes (if b then m else n) Q"
  by simp

lemma completes_let: "completes (f x) Q \<Longrightarrow> completes (let y = x in f y) Q"
  by simp

lemma completes_prod: "completes (f (fst p) (snd p)) Q \<Longrightarrow> completes (case p of (a, b) \<Rightarrow> f a b) Q"
  by (simp add: case_prod_beta)

lemmas wp_simps = completes_bind prod.case completes_Some Let_def if_True if_False option.case

lemma completes_eq: "completes m (\<lambda>x. x = y) \<longleftrightarrow> m = Some y"
  by (cases m) auto

subsection \<open>Bit lists, most significant bit first\<close>

definition bits_val :: "bool list \<Rightarrow> nat" where
  "bits_val bs = foldl (\<lambda>a b. 2 * a + of_bool b) 0 bs"

lemma bits_val_foldl: "foldl (\<lambda>a b. 2 * a + of_bool b) n bs = n * 2 ^ length bs + bits_val bs"
proof (induction bs arbitrary: n)
  case Nil
  then show ?case by (simp add: bits_val_def)
next
  case (Cons b bs)
  have "foldl (\<lambda>a b. 2 * a + of_bool b) n (b # bs) = (2 * n + of_bool b) * 2 ^ length bs + bits_val bs"
    using Cons.IH by simp
  moreover have "bits_val (b # bs) = of_bool b * 2 ^ length bs + bits_val bs"
    using Cons.IH [of "of_bool b"] by (simp add: bits_val_def)
  ultimately show ?case by (simp add: algebra_simps)
qed

lemma bits_val_Nil [simp]: "bits_val [] = 0"
  by (simp add: bits_val_def)

lemma bits_val_Cons: "bits_val (b # bs) = of_bool b * 2 ^ length bs + bits_val bs"
  using bits_val_foldl [of "of_bool b" bs] by (simp add: bits_val_def)

lemma bits_val_append: "bits_val (xs @ ys) = bits_val xs * 2 ^ length ys + bits_val ys"
  using bits_val_foldl [of "bits_val xs" ys] by (simp add: bits_val_def)

lemma bits_val_snoc: "bits_val (xs @ [b]) = 2 * bits_val xs + of_bool b"
  by (simp add: bits_val_append bits_val_Cons)

lemma bits_val_less: "bits_val bs < 2 ^ length bs"
  by (induction bs rule: rev_induct) (auto simp: bits_val_snoc)

lemma bits_val_replicate_False [simp]: "bits_val (replicate n False) = 0"
  by (induction n) (auto simp: bits_val_Cons)

text \<open>The \<open>n\<close> low bits of a number, most significant first.\<close>

definition to_bits :: "nat \<Rightarrow> nat \<Rightarrow> bool list" where
  "to_bits n v = map (\<lambda>i. bit v (n - 1 - i)) [0..<n]"

lemma length_to_bits [simp]: "length (to_bits n v) = n"
  by (simp add: to_bits_def)

lemma to_bits_Suc: "to_bits (Suc n) v = bit v n # to_bits n v"
proof -
  have "[0..<Suc n] = 0 # map Suc [0..<n]"
    by (simp add: upt_conv_Cons map_Suc_upt)
  then show ?thesis by (simp add: to_bits_def)
qed

lemma bits_val_to_bits: "bits_val (to_bits n v) = v mod 2 ^ n"
proof (induction n)
  case 0
  then show ?case by (simp add: to_bits_def)
next
  case (Suc n)
  have "v mod 2 ^ Suc n = of_bool (bit v n) * 2 ^ n + v mod 2 ^ n"
    using take_bit_Suc_from_most [of n v] by (simp add: take_bit_eq_mod)
  then show ?case by (simp add: to_bits_Suc bits_val_Cons Suc)
qed

lemma nth_to_bits: "i < n \<Longrightarrow> to_bits n v ! i = bit v (n - 1 - i)"
  by (simp add: to_bits_def)

lemma to_bits_add: "to_bits (m + n) v = to_bits m (v div 2 ^ n) @ to_bits n v"
proof (rule nth_equalityI)
  show "length (to_bits (m + n) v) = length (to_bits m (v div 2 ^ n) @ to_bits n v)"
    by simp
next
  fix i assume "i < length (to_bits (m + n) v)"
  then show "to_bits (m + n) v ! i = (to_bits m (v div 2 ^ n) @ to_bits n v) ! i"
    by (auto simp: nth_append nth_to_bits drop_bit_eq_div [symmetric] bit_drop_bit_eq ac_simps
        intro!: arg_cong [where f = "bit v"])
qed

end
