(* ===== verification/Bitstream.thy ===== *)
theory Bitstream
  imports VC_Prelude
begin

text \<open>
  The bit reader and writer of \<open>VirtualCamera/AnsyncDecoder/bs.h\<close>: the state \<open>bs_t\<close>, the reading
  functions the SPS/PPS parser calls, the writing functions and the size functions. A pointer into
  the buffer is its offset from \<open>p_start\<close>; the buffer is the list of bytes that exist there, so
  an access outside the list is an access outside the object. The field \<open>i_bits_encoded\<close>, which no
  function reads or writes, is left out.
\<close>

section \<open>State\<close>

record bs_t =
  p_start :: "u8 list"
  bs_p :: int
  p_end :: int
  i_left :: int

definition bs_init :: "u8 list \<Rightarrow> int \<Rightarrow> bs_t" where
  "bs_init p_data i_data = \<lparr>p_start = p_data, bs_p = 0, p_end = i_data, i_left = 8\<rparr>"

definition bs_pos :: "bs_t \<Rightarrow> int option" where
  "bs_pos s = do { a \<leftarrow> c_int (8 * bs_p s); b \<leftarrow> c_int (a + 8); c_int (b - i_left s) }"

definition bs_eof :: "bs_t \<Rightarrow> bool" where
  "bs_eof s \<longleftrightarrow> bs_p s \<ge> p_end s"

section \<open>Reading\<close>

definition i_mask :: "u32 list" where
  "i_mask = [0x00,
     0x01,       0x03,       0x07,       0x0f,
     0x1f,       0x3f,       0x7f,       0xff,
     0x1ff,      0x3ff,      0x7ff,      0xfff,
     0x1fff,     0x3fff,     0x7fff,     0xffff,
     0x1ffff,    0x3ffff,    0x7ffff,    0xfffff,
     0x1fffff,   0x3fffff,   0x7fffff,   0xffffff,
     0x1ffffff,  0x3ffffff,  0x7ffffff,  0xfffffff,
     0x1fffffff, 0x3fffffff, 0x7fffffff, 0xffffffff]"

text \<open>The loop of \<open>bs_read\<close>: \<open>i_result\<close> accumulates, \<open>i_count\<close> bits are still to be read.\<close>

function bs_read_loop :: "bs_t \<Rightarrow> int \<Rightarrow> u32 \<Rightarrow> (u32 \<times> bs_t) option" where
  "bs_read_loop s i_count i_result =
     (if i_count > 0 then
        if bs_p s \<ge> p_end s then Some (i_result, s)
        else case c_read (p_start s) (bs_p s) of None \<Rightarrow> None | Some b \<Rightarrow>
          let i_shr = i_left s - i_count in
          if i_shr \<ge> 0 then
            do { v \<leftarrow> c_shr (ucast b) i_shr;
                 m \<leftarrow> c_read i_mask i_count;
                 let i_result' = i_result OR (v AND m);
                     left' = i_left s - i_count in
                 Some (i_result',
                   if left' = 0 then s\<lparr>bs_p := bs_p s + 1, i_left := 8\<rparr> else s\<lparr>i_left := left'\<rparr>) }
          else
            case c_read i_mask (i_left s) of None \<Rightarrow> None | Some m \<Rightarrow>
            (case c_shl (ucast b AND m) (- i_shr) of None \<Rightarrow> None | Some v \<Rightarrow>
               bs_read_loop (s\<lparr>bs_p := bs_p s + 1, i_left := 8\<rparr>) (i_count - i_left s) (i_result OR v))
      else Some (i_result, s))"
  by pat_completeness auto
termination
  by (relation "measure (\<lambda>(s, i_count, r). nat (p_end s - bs_p s))") auto

declare bs_read_loop.simps [simp del]

definition bs_read :: "bs_t \<Rightarrow> int \<Rightarrow> (u32 \<times> bs_t) option" where
  "bs_read s i_count = bs_read_loop s i_count 0"

definition bs_read1 :: "bs_t \<Rightarrow> (u32 \<times> bs_t) option" where
  "bs_read1 s =
     (if bs_p s < p_end s then
        do { b \<leftarrow> c_read (p_start s) (bs_p s);
             let left' = i_left s - 1;
             v \<leftarrow> c_shr (ucast b) left';
             let i_result = v AND 0x01;
             Some (i_result,
               if left' = 0 then s\<lparr>bs_p := bs_p s + 1, i_left := 8\<rparr> else s\<lparr>i_left := left'\<rparr>) }
      else Some (0, s))"

definition bs_get_bits_long :: "bs_t \<Rightarrow> int \<Rightarrow> (u32 \<times> bs_t) option" where
  "bs_get_bits_long s n = bs_read s n"

text \<open>
  \<open>bs_show\<close> assembles the next four bytes in \<open>int\<close> arithmetic before the conversion to
  \<open>uint32_t\<close>, and reads the four bytes whatever \<open>p_end\<close> is.
\<close>

definition bs_show :: "bs_t \<Rightarrow> int \<Rightarrow> u32 option" where
  "bs_show s i_count =
     (if bs_p s < p_end s \<and> i_count > 0 then
        do { b0 \<leftarrow> c_read (p_start s) (bs_p s);
             b1 \<leftarrow> c_read (p_start s) (bs_p s + 1);
             b2 \<leftarrow> c_read (p_start s) (bs_p s + 2);
             b3 \<leftarrow> c_read (p_start s) (bs_p s + 3);
             w0 \<leftarrow> c_int (uint b0 * 2 ^ 24);
             w \<leftarrow> c_int (w0 + uint b1 * 2 ^ 16 + uint b2 * 2 ^ 8 + uint b3);
             (if 0 \<le> 8 - i_left s \<and> 8 - i_left s < 32 then Some () else None);
             c \<leftarrow> c_int (w * 2 ^ nat (8 - i_left s));
             c_shr (word_of_int c) (32 - i_count) }
      else Some 0)"

function bs_skip_loop :: "bs_t \<Rightarrow> bs_t" where
  "bs_skip_loop s =
     (if i_left s \<le> 0 then bs_skip_loop (s\<lparr>bs_p := bs_p s + 1, i_left := i_left s + 8\<rparr>) else s)"
  by pat_completeness auto
termination
  by (relation "measure (\<lambda>s. nat (1 - i_left s))") auto

declare bs_skip_loop.simps [simp del]

definition bs_skip :: "bs_t \<Rightarrow> int \<Rightarrow> bs_t" where
  "bs_skip s i_count = bs_skip_loop (s\<lparr>i_left := i_left s - i_count\<rparr>)"

text \<open>The loop of \<open>bs_read_ue\<close> counts leading zero bits; the bit that ends it is consumed.\<close>

function bs_ue_zeros :: "bs_t \<Rightarrow> int \<Rightarrow> (int \<times> bs_t) option" where
  "bs_ue_zeros s i =
     (case bs_read1 s of None \<Rightarrow> None
      | Some (b, s') \<Rightarrow>
          if b = 0 \<and> bs_p s' < p_end s' \<and> i < 32 then bs_ue_zeros s' (i + 1) else Some (i, s'))"
  by pat_completeness auto
termination
  by (relation "measure (\<lambda>(s, i). nat (32 - i))") auto

declare bs_ue_zeros.simps [simp del]

definition bs_read_ue :: "bs_t \<Rightarrow> (int \<times> bs_t) option" where
  "bs_read_ue s =
     do { (i, s) \<leftarrow> bs_ue_zeros s 0;
          one \<leftarrow> c_shl1 i;
          (r, s) \<leftarrow> bs_read s i;
          Some (to_int (word_of_int (one - 1) + r), s) }"

definition bs_read_se :: "bs_t \<Rightarrow> (int \<times> bs_t) option" where
  "bs_read_se s =
     do { (val, s) \<leftarrow> bs_read_ue s;
          v \<leftarrow> (if val AND 0x01 \<noteq> 0 then do { a \<leftarrow> c_int (val + 1); c_div a 2 }
               else do { a \<leftarrow> c_div val 2; c_int (- a) });
          Some (v, s) }"

definition bs_read_te :: "bs_t \<Rightarrow> int \<Rightarrow> (int \<times> bs_t) option" where
  "bs_read_te s x =
     (if x = 1 then do { (b, s) \<leftarrow> bs_read1 s; Some (to_int (1 - b), s) }
      else if x > 1 then bs_read_ue s
      else Some (0, s))"

section \<open>Writing\<close>

text \<open>The byte under construction holds its bits at the low end; \<open>i_left\<close> counts the free ones.\<close>

function bs_write_loop :: "bs_t \<Rightarrow> int \<Rightarrow> u32 \<Rightarrow> bs_t option" where
  "bs_write_loop s i_count i_bits =
     (if i_count > 0 then
        case (if i_count < 32 then do { m \<leftarrow> c_shl1 i_count; Some (i_bits AND word_of_int (m - 1)) }
              else Some i_bits) of None \<Rightarrow> None | Some i_bits \<Rightarrow>
        (case c_read (p_start s) (bs_p s) of None \<Rightarrow> None | Some b \<Rightarrow>
           if i_count < i_left s then
             do { v \<leftarrow> c_shl (ucast b) i_count;
                  buf \<leftarrow> c_write (p_start s) (bs_p s) (ucast (v OR i_bits));
                  Some (s\<lparr>p_start := buf, i_left := i_left s - i_count\<rparr>) }
           else
             case do { v \<leftarrow> c_shl (ucast b) (i_left s);
                       w \<leftarrow> c_shr i_bits (i_count - i_left s);
                       c_write (p_start s) (bs_p s) (ucast (v OR w)) } of None \<Rightarrow> None
             | Some buf \<Rightarrow>
                 bs_write_loop (s\<lparr>p_start := buf, bs_p := bs_p s + 1, i_left := 8\<rparr>)
                   (i_count - i_left s) i_bits)
      else Some s)"
  by pat_completeness auto
termination
  by (relation "measure (\<lambda>(s, i_count, i_bits). nat (int (length (p_start s)) - bs_p s))")
    (auto simp: bind_Some_iff c_read_eq_Some c_write_eq_Some)

declare bs_write_loop.simps [simp del]

definition bs_write :: "bs_t \<Rightarrow> int \<Rightarrow> u32 \<Rightarrow> bs_t option" where
  "bs_write s i_count i_bits =
     (if bs_p s \<ge> p_end s - 4 then Some s else bs_write_loop s i_count i_bits)"

definition bs_write1 :: "bs_t \<Rightarrow> u32 \<Rightarrow> bs_t option" where
  "bs_write1 s i_bit =
     (if bs_p s < p_end s then
        do { b \<leftarrow> c_read (p_start s) (bs_p s);
             let b1 = push_bit 1 b;
             buf \<leftarrow> c_write (p_start s) (bs_p s) (ucast (ucast b1 OR i_bit));
             let left' = i_left s - 1;
             Some (if left' = 0 then s\<lparr>p_start := buf, bs_p := bs_p s + 1, i_left := 8\<rparr>
                   else s\<lparr>p_start := buf, i_left := left'\<rparr>) }
      else Some s)"

definition bs_align_0 :: "bs_t \<Rightarrow> bs_t option" where
  "bs_align_0 s =
     (if i_left s \<noteq> 8 then
        do { b \<leftarrow> c_read (p_start s) (bs_p s);
             v \<leftarrow> c_shl (ucast b) (i_left s);
             buf \<leftarrow> c_write (p_start s) (bs_p s) (ucast v);
             Some (s\<lparr>p_start := buf, i_left := 8, bs_p := bs_p s + 1\<rparr>) }
      else Some s)"

definition bs_align_1 :: "bs_t \<Rightarrow> bs_t option" where
  "bs_align_1 s =
     (if i_left s \<noteq> 8 then
        do { b \<leftarrow> c_read (p_start s) (bs_p s);
             v \<leftarrow> c_shl (ucast b) (i_left s);
             one \<leftarrow> c_shl1 (i_left s);
             buf \<leftarrow> c_write (p_start s) (bs_p s) (ucast v OR word_of_int (one - 1));
             Some (s\<lparr>p_start := buf, i_left := 8, bs_p := bs_p s + 1\<rparr>) }
      else Some s)"

definition bs_align :: "bs_t \<Rightarrow> bs_t option" where
  "bs_align s = bs_align_0 s"

definition i_size0_255 :: "int list" where
  "i_size0_255 = [1, 1, 2, 2, 3, 3, 3, 3] @ replicate 8 4 @ replicate 16 5 @
     replicate 32 6 @ replicate 64 7 @ replicate 128 8"

definition bs_write_ue :: "bs_t \<Rightarrow> u32 \<Rightarrow> bs_t option" where
  "bs_write_ue s val =
     (if val = 0 then bs_write1 s 1
      else
        let val = val + 1; tmp = val; i_size = 0;
            (tmp, i_size) = (if tmp \<ge> 0x00010000 then (drop_bit 16 tmp, i_size + 16) else (tmp, i_size));
            (tmp, i_size) = (if tmp \<ge> 0x100 then (drop_bit 8 tmp, i_size + 8) else (tmp, i_size))
        in do { n \<leftarrow> c_read i_size0_255 (uint tmp);
                bs_write s (2 * (i_size + n) - 1) val })"

definition bs_write_se :: "bs_t \<Rightarrow> int \<Rightarrow> bs_t option" where
  "bs_write_se s val =
     do { v \<leftarrow> (if val \<le> 0 then do { a \<leftarrow> c_int (- val); c_int (a * 2) }
               else do { a \<leftarrow> c_int (val * 2); c_int (a - 1) });
          bs_write_ue s (word_of_int v) }"

definition bs_write_te :: "bs_t \<Rightarrow> int \<Rightarrow> int \<Rightarrow> bs_t option" where
  "bs_write_te s x val =
     (if x = 1 then bs_write1 s (word_of_int (1 AND NOT val))
      else if x > 1 then bs_write_ue s (word_of_int val)
      else Some s)"

definition bs_rbsp_trailing :: "bs_t \<Rightarrow> bs_t option" where
  "bs_rbsp_trailing s =
     do { s \<leftarrow> bs_write1 s 1;
          if i_left s \<noteq> 8 then bs_write s (i_left s) 0x00 else Some s }"

section \<open>Sizes\<close>

definition i_size0_254 :: "int list" where
  "i_size0_254 = [1, 3, 3, 5, 5, 5, 5] @ replicate 8 7 @ replicate 16 9 @ replicate 32 11 @
     replicate 64 13 @ replicate 128 15"

definition bs_size_ue :: "u32 \<Rightarrow> int option" where
  "bs_size_ue val =
     (if val < 255 then c_read i_size0_254 (uint val)
      else
        let i_size = 0; val = val + 1;
            (val, i_size) =
              (if val \<ge> 0x10000 then (drop_bit 16 val - 1, i_size + 32) else (val, i_size));
            (val, i_size) =
              (if val \<ge> 0x100 then (drop_bit 8 val - 1, i_size + 16) else (val, i_size))
        in do { n \<leftarrow> c_read i_size0_254 (uint val); Some (n + i_size) })"

definition bs_size_se :: "int \<Rightarrow> int option" where
  "bs_size_se val =
     do { v \<leftarrow> (if val \<le> 0 then do { a \<leftarrow> c_int (- val); c_int (a * 2) }
               else do { a \<leftarrow> c_int (val * 2); c_int (a - 1) });
          bs_size_ue (word_of_int v) }"

definition bs_size_te :: "int \<Rightarrow> int \<Rightarrow> int option" where
  "bs_size_te x val =
     (if x = 1 then Some 1 else if x > 1 then bs_size_ue (word_of_int val) else Some 0)"

section \<open>Correctness of the reader\<close>

lemma i_mask_eq: "i_mask = map mask [0..<33]"
  by code_simp

lemma i_mask_nth: "n \<le> 32 \<Longrightarrow> i_mask ! n = mask n"
  by (simp add: i_mask_eq nth_append del: upt_Suc upt_rec_numeral)

lemma length_i_mask: "length i_mask = 33"
  by (simp add: i_mask_def)

lemma c_read_i_mask [simp]: "0 \<le> n \<Longrightarrow> n \<le> 32 \<Longrightarrow> c_read i_mask n = Some (mask (nat n))"
  by (simp add: c_read_def length_i_mask i_mask_nth)

definition bs_wf :: "bs_t \<Rightarrow> bool" where
  "bs_wf s \<longleftrightarrow> 0 \<le> bs_p s \<and> p_end s \<le> int (length (p_start s)) \<and> 1 \<le> i_left s \<and> i_left s \<le> 8"

definition bitpos :: "bs_t \<Rightarrow> nat" where
  "bitpos s = nat (8 * bs_p s + 8 - i_left s)"

definition bit_at :: "u8 list \<Rightarrow> nat \<Rightarrow> bool" where
  "bit_at d k = bit (d ! (k div 8)) (7 - k mod 8)"

definition remaining :: "bs_t \<Rightarrow> bool list" where
  "remaining s = map (bit_at (p_start s)) [bitpos s..<nat (8 * p_end s)]"

lemma bits_of_chunk:
  assumes "n \<le> l" "l \<le> 8"
  shows "map (bit_at d) [8 * q + (8 - l)..<8 * q + (8 - l) + n] = to_bits n (unat (d ! q) div 2 ^ (l - n))"
proof (rule nth_equalityI)
  show "length (map (bit_at d) [8 * q + (8 - l)..<8 * q + (8 - l) + n]) =
    length (to_bits n (unat (d ! q) div 2 ^ (l - n)))" by simp
next
  fix i assume "i < length (map (bit_at d) [8 * q + (8 - l)..<8 * q + (8 - l) + n])"
  then have i: "i < n" by simp
  define j where "j = 8 - l + i"
  have j: "j < 8" and eq: "8 * q + (8 - l) + i = 8 * q + j" using i assms by (auto simp: j_def)
  then have "(8 * q + (8 - l) + i) div 8 = q" "(8 * q + (8 - l) + i) mod 8 = j"
    by (simp_all only: eq) simp_all
  moreover have "7 - j = l - n + (n - Suc i)" using i assms by (simp add: j_def)
  ultimately show "map (bit_at d) [8 * q + (8 - l)..<8 * q + (8 - l) + n] ! i =
    to_bits n (unat (d ! q) div 2 ^ (l - n)) ! i"
    using i by (simp add: nth_to_bits bit_at_def drop_bit_eq_div [symmetric] bit_drop_bit_eq
       bit_unsigned_iff)
qed

lemma word_chunk:
  fixes b :: u8
  assumes "n \<le> 32"
  shows "(drop_bit k (ucast b :: u32)) AND mask n = of_nat ((unat b div 2 ^ k) mod 2 ^ n)"
proof -
  have "(drop_bit k (ucast b :: u32)) AND mask n = of_nat (take_bit n (drop_bit k (unat b)))"
    by (rule bit_word_eqI) (auto simp: bit_simps dest: bit_imp_le_length)
  then show ?thesis by (simp add: take_bit_eq_mod drop_bit_eq_div)
qed

lemma disjunctive_add_push_take: "push_bit k (x :: u32) + take_bit k y = push_bit k x OR take_bit k y"
  by (rule disjunctive_add) (auto simp: bit_push_bit_iff bit_take_bit_iff)

lemma or_push_add:
  assumes "b < 2 ^ k"
  shows "(of_nat (a * 2 ^ k) :: u32) OR of_nat b = of_nat (a * 2 ^ k + b)"
proof -
  have "(of_nat (a * 2 ^ k) :: u32) = push_bit k (of_nat a)" by (simp add: push_bit_eq_mult)
  moreover have "(of_nat b :: u32) = take_bit k (of_nat b)" 
    using assms by (metis of_nat_take_bit take_bit_nat_eq_self)
  ultimately have "(of_nat (a * 2 ^ k) :: u32) + of_nat b = (of_nat (a * 2 ^ k) :: u32) OR of_nat b"
    by (metis disjunctive_add_push_take)
  then show ?thesis by simp
qed

lemma chunk_remaining:
  assumes "bs_wf s" "bs_p s < p_end s" "n \<le> nat (i_left s)"
  shows "take n (remaining s) =
      to_bits n (unat (p_start s ! nat (bs_p s)) div 2 ^ (nat (i_left s) - n))"
    and "n \<le> length (remaining s)"
proof -
  define q where "q = nat (bs_p s)"
  define l where "l = nat (i_left s)"
  define e where "e = nat (p_end s)"
  have q: "bs_p s = int q" and l: "i_left s = int l" and e: "p_end s = int e"
    using assms by (auto simp: q_def l_def e_def bs_wf_def)
  have l8: "1 \<le> l" "l \<le> 8" "q < e" using assms by (auto simp: bs_wf_def q l e)
  have pos: "bitpos s = 8 * q + (8 - l)" using l8 by (simp add: bitpos_def q l)
  have le: "8 * q + (8 - l) + n \<le> 8 * e" using assms(3) l8 by (simp add: l)
  then show "n \<le> length (remaining s)" by (simp add: remaining_def pos e nat_mult_distrib)
  have "take n (remaining s) = map (bit_at (p_start s)) [8 * q + (8 - l)..<8 * q + (8 - l) + n]"
    using le by (simp add: remaining_def pos e nat_mult_distrib take_map)
  then show "take n (remaining s) =
      to_bits n (unat (p_start s ! nat (bs_p s)) div 2 ^ (nat (i_left s) - n))"
    using assms(3) l8 bits_of_chunk [of n l "p_start s" q] by (simp add: q l)
qed

lemma drop_remaining:
  assumes "bitpos t = bitpos s + n" "p_start t = p_start s" "p_end t = p_end s"
  shows "remaining t = drop n (remaining s)"
  using assms by (simp add: remaining_def drop_map)

lemma remaining_eof: 
  assumes "bs_wf s" "p_end s \<le> bs_p s"
  shows "remaining s = []"
proof -
  have "nat (8 * p_end s) \<le> bitpos s"
    unfolding bitpos_def by (rule nat_mono) (use assms in \<open>simp add: bs_wf_def\<close>)
  then show ?thesis by (simp add: remaining_def)
qed

text \<open>The value of the next \<open>n\<close> bits, missing bits read as zero.\<close>

definition next_bits :: "bs_t \<Rightarrow> nat \<Rightarrow> bool list" where
  "next_bits s n = take n (remaining s @ replicate n False)"

lemma length_next_bits [simp]: "length (next_bits s n) = n"
  by (simp add: next_bits_def)

lemma take_append_replicate:
  "k \<le> m \<Longrightarrow> take k (xs @ replicate m x) = take k (xs @ replicate k x)"
  by (auto simp: min_def)

lemma next_bits_split:
  assumes "l \<le> n" "l \<le> length (remaining s)" "remaining t = drop l (remaining s)"
  shows "next_bits s n = take l (remaining s) @ next_bits t (n - l)"
proof -
  have "next_bits s n = take l (remaining s) @ take (n - l) (drop l (remaining s) @ replicate n False)"
    using assms take_add [of l "n - l" "remaining s @ replicate n False"] by (simp add: next_bits_def)
  then show ?thesis
    using take_append_replicate [of "n - l" n "drop l (remaining s)" False] assms(3)
    by (simp add: next_bits_def)
qed

lemma bs_read_loop_spec:
  assumes "bs_wf s" "0 \<le> n" "n \<le> 32"
  shows "\<exists>s'. bs_read_loop s n r = Some (r OR of_nat (bits_val (next_bits s (nat n))), s') \<and>
    bs_wf s' \<and> p_start s' = p_start s \<and> p_end s' = p_end s \<and> remaining s' = drop (nat n) (remaining s)"
  using assms
proof (induction s n r rule: bs_read_loop.induct)
  case (1 s n r)
  define q l where "q = nat (bs_p s)" and "l = nat (i_left s)"
  have q: "bs_p s = int q" and l: "i_left s = int l"
    using 1 by (auto simp: q_def l_def bs_wf_def)
  have l8: "1 \<le> l" "l \<le> 8" using "1.prems" by (auto simp: bs_wf_def l)
  consider (zero) "n = 0" | (eof) "n > 0" "p_end s \<le> bs_p s"
    | (fits) "n > 0" "bs_p s < p_end s" "n \<le> i_left s"
    | (more) "n > 0" "bs_p s < p_end s" "i_left s < n"
    using "1.prems"(2) by linarith
  then show ?case
  proof cases
    case zero
    then show ?thesis using "1.prems" by (simp add: bs_read_loop.simps next_bits_def)
  next
    case eof
    then show ?thesis using "1.prems" remaining_eof [OF "1.prems"(1) eof(2)]
      by (simp add: bs_read_loop.simps [of s n r] next_bits_def)
  next
    case fits
    define k where "k = nat n"
    have k: "n = int k" "k \<le> l" using fits by (auto simp: k_def l)
    let ?t = "if i_left s - n = 0 then s\<lparr>bs_p := bs_p s + 1, i_left := 8\<rparr> else s\<lparr>i_left := i_left s - n\<rparr>"
    have rd: "c_read (p_start s) (bs_p s) = Some (p_start s ! q)"
      using fits "1.prems" by (simp add: bs_wf_def q)
    have v: "drop_bit (l - k) (ucast (p_start s ! q) :: u32) AND mask k = of_nat (bits_val (next_bits s k))"
      using chunk_remaining [OF "1.prems"(1) fits(2), of k] k "1.prems"
      by (simp add: word_chunk next_bits_def l q bits_val_to_bits)
    have eq: "bs_read_loop s n r = Some (r OR of_nat (bits_val (next_bits s (nat n))), ?t)"
      using fits "1.prems" l8 rd v k
      by (simp add: bs_read_loop.simps [of s "int k" r] l nat_diff_distrib')
    have "bitpos ?t = bitpos s + k"
      using k l8 by (auto simp: bitpos_def l q)
    then have "remaining ?t = drop (nat n) (remaining s)"
      by (intro drop_remaining) (auto simp: k)
    moreover have "bs_wf ?t" using "1.prems" fits by (auto simp: bs_wf_def)
    ultimately show ?thesis using eq by auto
  next
    case more
    define k where "k = nat n"
    have k: "n = int k" "l < k" "k \<le> 32" using more "1.prems" by (auto simp: k_def l)
    let ?t = "s\<lparr>bs_p := bs_p s + 1, i_left := 8\<rparr>"
    let ?v = "push_bit (k - l) (ucast (p_start s ! q) AND mask l) :: u32"
    have rd: "c_read (p_start s) (bs_p s) = Some (p_start s ! q)"
      using more "1.prems" by (simp add: bs_wf_def q)
    have wf: "bs_wf ?t" using "1.prems" more by (auto simp: bs_wf_def)
    have ch: "take l (remaining s) = to_bits l (unat (p_start s ! q))" "l \<le> length (remaining s)"
      using chunk_remaining [OF "1.prems"(1) more(2), of l] by (simp_all add: l q)
    have rem: "remaining ?t = drop l (remaining s)"
      by (rule drop_remaining) (use l8 in \<open>auto simp: bitpos_def l q\<close>)
    have v: "?v = of_nat (bits_val (take l (remaining s)) * 2 ^ (k - l))"
      using word_chunk [of l 0 "p_start s ! q"] l8 by (simp add: ch bits_val_to_bits push_bit_eq_mult)
    have or: "?v OR of_nat (bits_val (next_bits ?t (k - l))) = of_nat (bits_val (next_bits s k))"
      unfolding v using k ch(2) bits_val_less [of "next_bits ?t (k - l)"]
      by (subst or_push_add) (auto simp: next_bits_split [OF _ _ rem] bits_val_append)
    have eq: "bs_read_loop s n r = bs_read_loop ?t (n - i_left s) (r OR ?v)"
      using more "1.prems" l8 rd k
      by (simp add: bs_read_loop.simps [of s "int k" r] l nat_diff_distrib' Let_def)
    have IH: "\<exists>s'. bs_read_loop ?t (n - i_left s) (r OR ?v) =
        Some ((r OR ?v) OR of_nat (bits_val (next_bits ?t (nat (n - i_left s)))), s') \<and>
        bs_wf s' \<and> p_start s' = p_start ?t \<and> p_end s' = p_end ?t \<and>
        remaining s' = drop (nat (n - i_left s)) (remaining ?t)"
      by (rule "1.IH" [OF _ _ rd refl _ _ _ wf])
        (use more "1.prems" k l8 in \<open>auto simp: l nat_diff_distrib'\<close>)
    then show ?thesis
      unfolding eq using or rem k by (auto simp: l nat_diff_distrib' or.assoc)
  qed
qed

subsection \<open>The reading functions over the remaining bits\<close>

definition bs_ext :: "bs_t \<Rightarrow> bs_t \<Rightarrow> bool" where
  "bs_ext s s' \<longleftrightarrow> bs_wf s' \<and> p_start s' = p_start s \<and> p_end s' = p_end s"

lemma bs_read_spec:
  assumes "bs_wf s" "0 \<le> n" "n \<le> 32"
  obtains s' where "bs_read s n = Some (of_nat (bits_val (next_bits s (nat n))), s')"
    "bs_ext s s'" "remaining s' = drop (nat n) (remaining s)"
  using bs_read_loop_spec [OF assms, of 0] by (auto simp: bs_read_def bs_ext_def)

lemma bs_read1_eq_read: "bs_wf s \<Longrightarrow> bs_read1 s = bs_read s 1"
  by (auto simp: bs_read1_def bs_read_def bs_read_loop.simps [of s 1 0] bs_wf_def Let_def
      and_one_eq mask_Suc_0 split: option.splits)

lemma remaining_Nil_iff: "bs_wf s \<Longrightarrow> remaining s = [] \<longleftrightarrow> bs_eof s"
proof (cases "bs_p s < p_end s")
  case True
  assume wf: "bs_wf s"
  then have "1 \<le> nat (i_left s)" by (auto simp: bs_wf_def)
  then show ?thesis using chunk_remaining(2) [OF wf True, of 1] True by (auto simp: bs_eof_def)
next
  case False
  assume "bs_wf s"
  then show ?thesis using False remaining_eof [of s] by (simp add: bs_eof_def)
qed

lemma bs_read1_spec:
  assumes "bs_wf s"
  obtains s' where "bs_read1 s = Some (of_bool (remaining s \<noteq> [] \<and> hd (remaining s)), s')"
    "bs_ext s s'" "remaining s' = tl (remaining s)"
proof -
  obtain s' where s': "bs_read s 1 = Some (of_nat (bits_val (next_bits s (nat 1))), s')"
    "bs_ext s s'" "remaining s' = drop (nat 1) (remaining s)"
    using bs_read_spec [OF assms, of 1] by auto
  moreover have "bits_val (next_bits s 1) = of_bool (remaining s \<noteq> [] \<and> hd (remaining s))"
    by (cases "remaining s") (auto simp: next_bits_def bits_val_Cons)
  ultimately show thesis using that assms by (auto simp: bs_read1_eq_read drop_Suc)
qed

lemma bs_read1_Nil: "bs_wf s \<Longrightarrow> remaining s = [] \<Longrightarrow> bs_read1 s = Some (0, s)"
  by (simp add: remaining_Nil_iff bs_eof_def bs_read1_def)

lemma bs_read1_Cons:
  "bs_wf s \<Longrightarrow> remaining s = b # bs \<Longrightarrow>
    \<exists>t. bs_read1 s = Some (of_bool b, t) \<and> bs_ext s t \<and> remaining t = bs"
  by (rule bs_read1_spec [of s]) auto

lemma bs_skip_loop_spec:
  assumes "0 \<le> bs_p s" "i_left s \<le> 8" "p_end s \<le> int (length (p_start s))"
  shows "bs_ext s (bs_skip_loop s) \<and> bitpos (bs_skip_loop s) = bitpos s"
  using assms
proof (induction s rule: bs_skip_loop.induct)
  case (1 s)
  show ?case
  proof (cases "i_left s \<le> 0")
    case True
    then show ?thesis using 1 by (simp add: bs_skip_loop.simps [of s] bs_ext_def bitpos_def)
  next
    case False
    then show ?thesis using 1 by (simp add: bs_skip_loop.simps [of s] bs_ext_def bs_wf_def)
  qed
qed

lemma bs_skip_spec:
  assumes "bs_wf s" "0 \<le> n"
  shows "bs_ext s (bs_skip s n)" "remaining (bs_skip s n) = drop (nat n) (remaining s)"
proof -
  let ?t = "s\<lparr>i_left := i_left s - n\<rparr>"
  have *: "bs_ext ?t (bs_skip s n)" "bitpos (bs_skip s n) = bitpos ?t"
    using bs_skip_loop_spec [of ?t] assms by (auto simp: bs_skip_def bs_wf_def)
  then show "bs_ext s (bs_skip s n)" by (simp add: bs_ext_def)
  show "remaining (bs_skip s n) = drop (nat n) (remaining s)"
    by (rule drop_remaining) (use * assms in \<open>auto simp: bs_ext_def bitpos_def bs_wf_def\<close>)
qed

text \<open>
  The Exp-Golomb code on a list of bits, as \<open>bs_read_ue\<close> reads it: a run of zeros that a one, the
  end of the data or the 33rd bit ends, then as many bits as zeros were counted, missing ones read
  as zero. From 31 zeros on, \<open>(1 << i) - 1\<close> is undefined in C.
\<close>

fun ue_zeros :: "bool list \<Rightarrow> nat \<Rightarrow> nat \<times> bool list" where
  "ue_zeros [] i = (i, [])"
| "ue_zeros (b # bs) i =
     (if \<not> b \<and> bs \<noteq> [] \<and> i < 32 then ue_zeros bs (Suc i) else (i, bs))"

definition ue_decode :: "bool list \<Rightarrow> (nat \<times> bool list) option" where
  "ue_decode bs = (let (i, r) = ue_zeros bs 0 in
     if i \<le> 30 then Some (2 ^ i - 1 + bits_val (take i (r @ replicate i False)), drop i r)
     else None)"

lemma ue_zeros_le: "ue_zeros bs i = (j, r) \<Longrightarrow> i \<le> 32 \<Longrightarrow> i \<le> j \<and> j \<le> 32"
  by (induction bs i rule: ue_zeros.induct) (auto split: if_splits)

lemma ue_zeros_run:
  "i + k \<le> 32 \<Longrightarrow> ue_zeros (replicate k False @ True # bs) i = (i + k, bs)"
  by (induction k arbitrary: i) auto

lemma bs_ue_zeros_spec:
  assumes "bs_wf s"
  shows "\<exists>s'. bs_ue_zeros s (int i) = Some (int (fst (ue_zeros (remaining s) i)), s') \<and>
    bs_ext s s' \<and> remaining s' = snd (ue_zeros (remaining s) i)"
  using assms
proof (induction "remaining s" i arbitrary: s rule: ue_zeros.induct)
  case (1 i)
  then show ?case using bs_read1_Nil [of s] remaining_Nil_iff [of s]
    by (auto simp: bs_ue_zeros.simps [of s] bs_ext_def bs_eof_def)
next
  case (2 b bs i)
  obtain t where t: "bs_read1 s = Some (of_bool b, t)" "bs_ext s t" "remaining t = bs"
    using bs_read1_Cons [OF "2.prems" "2.hyps"(2) [symmetric]] by blast
  then have eof: "bs_p t < p_end t \<longleftrightarrow> bs \<noteq> []"
    using remaining_Nil_iff [of t] by (auto simp: bs_ext_def bs_eof_def)
  show ?case
  proof (cases "\<not> b \<and> bs \<noteq> [] \<and> i < 32")
    case True
    have IH: "\<exists>s'. bs_ue_zeros t (int (Suc i)) = Some (int (fst (ue_zeros (remaining t) (Suc i))), s') \<and>
      bs_ext t s' \<and> remaining s' = snd (ue_zeros (remaining t) (Suc i))"
      by (rule "2.hyps"(1)) (use True t in \<open>auto simp: bs_ext_def\<close>)
    then show ?thesis
      using True t eof "2.hyps"(2) [symmetric]
      by (auto simp: bs_ue_zeros.simps [of s] bs_ext_def add.commute)
  next
    case False
    then show ?thesis using t eof "2.hyps"(2) [symmetric]
      by (auto simp: bs_ue_zeros.simps [of s])
  qed
qed

lemma bs_read_ue_spec:
  assumes "bs_wf s"
  shows "case ue_decode (remaining s) of
      None \<Rightarrow> bs_read_ue s = None
    | Some (v, r) \<Rightarrow> \<exists>s'. bs_read_ue s = Some (int v, s') \<and> bs_ext s s' \<and> remaining s' = r"
proof -
  obtain i r where ir: "ue_zeros (remaining s) 0 = (i, r)" by force
  obtain t where t: "bs_ue_zeros s 0 = Some (int i, t)" "bs_ext s t" "remaining t = r"
    using bs_ue_zeros_spec [OF assms, of 0] ir by auto
  show ?thesis
  proof (cases "i \<le> 30")
    case False
    then show ?thesis using t ir by (simp add: ue_decode_def bs_read_ue_def c_shl1_def)
  next
    case True
    obtain s' where s': "bs_read t (int i) = Some (of_nat (bits_val (next_bits t i)), s')"
      "bs_ext t s'" "remaining s' = drop i r"
      using bs_read_spec [of t "int i"] t True by (auto simp: bs_ext_def)
    define v where "v = bits_val (next_bits t i)"
    have v: "v < 2 ^ i" using bits_val_less [of "next_bits t i"] by (simp add: v_def)
    have "(2::nat) ^ i \<le> 2 ^ 30" using True by (intro power_increasing) auto
    then have small: "2 ^ i - 1 + v < 2 ^ 31" using v by simp
    have "word_of_int (2 ^ i - 1) + of_nat v = (of_nat (2 ^ i - 1 + v) :: u32)"
      by (simp only: of_nat_add) (simp add: of_nat_diff)
    then have "to_int (word_of_int (2 ^ i - 1) + of_nat v) = int (2 ^ i - 1 + v)"
      using to_int_of_nat [OF small] by simp
    then show ?thesis
      using t s' ir True
      by (auto simp: ue_decode_def bs_read_ue_def v_def next_bits_def bs_ext_def)
  qed
qed

lemma ue_decode_bound: "ue_decode bs = Some (v, r) \<Longrightarrow> v \<le> 2 ^ 31 - 2"
proof -
  assume "ue_decode bs = Some (v, r)"
  then obtain i q where i: "i \<le> 30" "v = 2 ^ i - 1 + bits_val (take i (q @ replicate i False))"
    by (auto simp: ue_decode_def split: prod.splits if_splits)
  have "bits_val (take i (q @ replicate i False)) < 2 ^ i"
    by (rule less_le_trans [OF bits_val_less]) simp
  moreover have "(2::nat) ^ i \<le> 2 ^ 30" using i by (intro power_increasing) auto
  ultimately show ?thesis using i by simp
qed

lemma ue_decode_code:
  assumes "k \<le> 30" "x < 2 ^ k"
  shows "ue_decode (replicate k False @ True # to_bits k x @ rest) = Some (2 ^ k - 1 + x, rest)"
  using assms ue_zeros_run [of 0 k "to_bits k x @ rest"]
  by (simp add: ue_decode_def bits_val_to_bits)

definition se_decode :: "nat \<Rightarrow> int" where
  "se_decode v = (if odd v then int (v + 1) div 2 else - (int v div 2))"

lemma c_div2: "0 \<le> a \<Longrightarrow> a \<le> 2147483647 \<Longrightarrow> c_div a 2 = Some (a div 2)"
proof -
  assume a: "0 \<le> a" "a \<le> 2147483647"
  then have "in_int (a div 2)" unfolding in_int_def by linarith
  then show ?thesis using a by (auto simp: c_div_def sgn_if)
qed

lemma bs_read_se_spec:
  assumes "bs_wf s"
  shows "case ue_decode (remaining s) of
      None \<Rightarrow> bs_read_se s = None
    | Some (v, r) \<Rightarrow>
        \<exists>s'. bs_read_se s = Some (se_decode v, s') \<and> bs_ext s s' \<and> remaining s' = r"
proof (cases "ue_decode (remaining s)")
  case None
  then show ?thesis using bs_read_ue_spec [OF assms] by (simp add: bs_read_se_def)
next
  case (Some vr)
  obtain v r where vr: "vr = (v, r)" by force
  then obtain s' where s': "bs_read_ue s = Some (int v, s')" "bs_ext s s'" "remaining s' = r"
    using bs_read_ue_spec [OF assms] Some by auto
  have v: "v \<le> 2147483646" using ue_decode_bound [of "remaining s" v r] Some vr by simp
  have "int v AND 1 \<noteq> 0 \<longleftrightarrow> odd v" by (simp add: and_one_eq) presburger
  moreover have "c_int (int v + 1) = Some (int v + 1)" using v by (simp add: in_int_def)
  moreover have "c_div (int v + 1) 2 = Some ((int v + 1) div 2)"
    "c_div (int v) 2 = Some (int v div 2)"
    using v by (simp_all add: c_div2)
  moreover have "c_int (- (int v div 2)) = Some (- (int v div 2))"
    by (rule c_int_Some) (use v in \<open>unfold in_int_def, linarith\<close>)
  moreover have "odd v \<Longrightarrow> int v div 2 + 1 = (1 + int v) div 2" by presburger
  ultimately have "bs_read_se s = Some (se_decode v, s')"
    using s' by (simp add: bs_read_se_def se_decode_def)
  then show ?thesis using s' Some vr by auto
qed

section \<open>Correctness of the writer\<close>

text \<open>The bits written so far: the complete bytes, then the filled part of the byte under construction.\<close>

definition written :: "bs_t \<Rightarrow> bool list" where
  "written s = map (bit_at (p_start s)) [0..<8 * nat (bs_p s)] @
     to_bits (8 - nat (i_left s)) (unat (p_start s ! nat (bs_p s)))"

lemma to_bits_mod: "to_bits n (v mod 2 ^ m) = to_bits n v" if "n \<le> m"
  using that by (intro nth_equalityI)
    (auto simp: nth_to_bits bit_take_bit_iff simp flip: take_bit_eq_mod)

lemma bits_shift_in:
  fixes b :: u8 and v :: u32
  assumes "m + n \<le> 8"
  shows "to_bits (m + n) (unat (ucast (push_bit n (ucast b :: u32) OR (v AND mask n)) :: u8)) =
    to_bits m (unat b) @ to_bits n (unat v)"
proof (rule nth_equalityI)
  fix i assume "i < length (to_bits (m + n) (unat (ucast (push_bit n (ucast b :: u32) OR (v AND mask n)) :: u8)))"
  then have i: "i < m + n" by simp
  have idx: "m + n - Suc i - n = m - Suc i" if "i < m" using that by simp
  have idx2: "m + n - Suc i = n - Suc (i - m)" if "\<not> i < m" using that i by simp
  show "to_bits (m + n) (unat (ucast (push_bit n (ucast b :: u32) OR (v AND mask n)) :: u8)) ! i =
    (to_bits m (unat b) @ to_bits n (unat v)) ! i"
    using i assms by (cases "i < m")
      (auto simp: nth_append nth_to_bits bit_simps idx idx2 dest: bit_imp_le_length)
qed simp

lemma byte_bits_at: "map (bit_at d) [8 * q..<8 * q + 8] = to_bits 8 (unat (d ! q))"
  using bits_of_chunk [of 8 8 d q] by simp

lemma map_bit_at_update:
  "map (bit_at (d[q := x])) [0..<8 * q] = map (bit_at d) [0..<8 * q]"
  by (auto simp: bit_at_def intro!: map_cong arg_cong [where f = "\<lambda>b. bit b _"] nth_list_update_neq)

definition bs_room :: "bs_t \<Rightarrow> nat \<Rightarrow> bool" where
  "bs_room s n \<longleftrightarrow> 0 \<le> bs_p s \<and> 1 \<le> i_left s \<and> i_left s \<le> 8 \<and>
     8 * nat (bs_p s) + (8 - nat (i_left s)) + n \<le> 8 * length (p_start s)"

lemma bs_room_bitpos:
  "bs_room s n \<longleftrightarrow> 0 \<le> bs_p s \<and> 1 \<le> i_left s \<and> i_left s \<le> 8 \<and>
     bitpos s + n \<le> 8 * length (p_start s)"
  by (auto simp: bs_room_def bitpos_def)

lemma bs_room_bitpos_eq: "bs_room s n \<Longrightarrow> int (bitpos s) = 8 * bs_p s + 8 - i_left s"
  by (auto simp: bs_room_def bitpos_def)

lemma bs_write_loop_spec:
  assumes "bs_room s n" "n \<le> 30"
  shows "\<exists>s'. bs_write_loop s (int n) v = Some s' \<and> written s' = written s @ to_bits n (unat v) \<and>
    bs_room s' 0 \<and> length (p_start s') = length (p_start s) \<and> p_end s' = p_end s \<and> bitpos s' = bitpos s + n"
  using assms
proof (induction s "int n" v arbitrary: n rule: bs_write_loop.induct)
  case (1 s v)
  define q l d where "q = nat (bs_p s)" and "l = nat (i_left s)" and "d = p_start s"
  have s: "bs_p s = int q" "i_left s = int l" "p_start s = d" "1 \<le> l" "l \<le> 8"
    using "1.prems" by (auto simp: q_def l_def d_def bs_room_def)
  show ?case
  proof (cases "n = 0")
    case True
    then show ?thesis using "1.prems" by (simp add: bs_write_loop.simps to_bits_def bs_room_def)
  next
    case False
    have room: "8 * q + (8 - l) + n \<le> 8 * length d" using "1.prems" by (simp add: bs_room_def s)
    then have ql: "q < length d" using False s by linarith
    let ?v = "v AND mask n"
    have m: "(if int n < 32 then do { m \<leftarrow> c_shl1 (int n); Some (v AND word_of_int (m - 1)) } else Some v) = Some ?v"
      using "1.prems" by (simp add: mask_eq_exp_minus_1)
    show ?thesis
    proof (cases "n < l")
      case True
      let ?x = "ucast (push_bit n (ucast (d ! q)) OR ?v) :: u8"
      let ?t = "s\<lparr>p_start := d[q := ?x], i_left := i_left s - int n\<rparr>"
      have "bs_write_loop s (int n) v = Some ?t"
        using m True False ql "1.prems" by (simp add: bs_write_loop.simps [of s] s)
      moreover have "written ?t = written s @ to_bits n (unat v)"
        using bits_shift_in [of "8 - l" n "d ! q" v] True ql s
        by (simp add: written_def map_bit_at_update nat_diff_distrib')
      moreover have "bs_room ?t 0" "bitpos ?t = bitpos s + n"
        using room True s by (auto simp: bs_room_def bitpos_def nat_diff_distrib')
      ultimately show ?thesis by (auto simp: s)
    next
      case False
      let ?x = "ucast (push_bit l (ucast (d ! q)) OR (drop_bit (n - l) ?v)) :: u8"
      let ?t = "s\<lparr>p_start := d[q := ?x], bs_p := bs_p s + 1, i_left := 8\<rparr>"
      have mv: "drop_bit (n - l) ?v = drop_bit (n - l) v AND mask l"
        using False by (intro bit_word_eqI) (auto simp: bit_simps dest: bit_imp_le_length)
      have x: "to_bits 8 (unat ?x) = to_bits (8 - l) (unat (d ! q)) @ to_bits l (unat v div 2 ^ (n - l))"
        unfolding mv using bits_shift_in [of "8 - l" l "d ! q" "drop_bit (n - l) v"] s
        by (simp add: unat_drop_bit_eq flip: drop_bit_eq_div)
      have eq: "bs_write_loop s (int n) v = bs_write_loop ?t (int (n - l)) ?v"
        using m False \<open>n \<noteq> 0\<close> ql "1.prems" s
        by (simp add: bs_write_loop.simps [of s] of_nat_diff nat_diff_distrib')
      have "int n - i_left s = int (n - l)" using s False by simp
      moreover have "bs_room ?t (n - l)" using room s False by (auto simp: bs_room_def)
      ultimately have IH: "\<exists>s'. bs_write_loop ?t (int (n - l)) ?v = Some s' \<and>
          written s' = written ?t @ to_bits (n - l) (unat ?v) \<and> bs_room s' 0 \<and>
          length (p_start s') = length (p_start ?t) \<and> p_end s' = p_end ?t \<and>
          bitpos s' = bitpos ?t + (n - l)"
        using "1.hyps" [OF _ m, of "d ! q" "d[q := ?x]" "n - l"] False \<open>n \<noteq> 0\<close> ql "1.prems" s
        by (simp add: nat_diff_distrib')
      have "written ?t = written s @ to_bits l (unat v div 2 ^ (n - l))"
      proof -
        have "written ?t = map (bit_at (d[q := ?x])) ([0..<8 * q] @ [8 * q..<8 * q + 8])"
          using upt_add_eq_append [of 0 "8 * q" 8] s
          by (simp add: written_def nat_add_distrib to_bits_def [of 0] add.commute)
        also have "\<dots> = map (bit_at d) [0..<8 * q] @ to_bits 8 (unat ?x)"
          using byte_bits_at [of "d[q := ?x]" q] ql
          by (simp only: map_append map_bit_at_update nth_list_update_eq)
        finally show ?thesis using s unfolding x by (simp add: written_def)
      qed
      moreover have "to_bits n (unat v) = to_bits l (unat v div 2 ^ (n - l)) @ to_bits (n - l) (unat v)"
        using to_bits_add [of l "n - l" "unat v"] False by simp
      moreover have "to_bits (n - l) (unat ?v) = to_bits (n - l) (unat v)"
        using to_bits_mod [of "n - l" n "unat v"] "1.prems"
        by (simp add: unsigned_take_bit_eq flip: take_bit_eq_mod take_bit_eq_mask)
      moreover have "bitpos ?t = bitpos s + l" using s by (auto simp: bitpos_def)
      ultimately show ?thesis using IH False unfolding eq by (auto simp: s)
    qed
  qed
qed
lemma bs_write_spec:
  assumes "bs_room s n" "n \<le> 30" "bs_p s < p_end s - 4" "v < 2 ^ n"
  obtains s' where "bs_write s (int n) (of_nat v) = Some s'" "written s' = written s @ to_bits n v"
    "bs_room s' 0" "length (p_start s') = length (p_start s)" "p_end s' = p_end s" "bitpos s' = bitpos s + n"
proof -
  have "v < 2 ^ 32"
    by (rule less_le_trans [OF assms(4)]) (use assms(2) in \<open>intro power_increasing; simp\<close>)
  then have "unat (of_nat v :: u32) = v" by (simp add: unat_of_nat)
  then show thesis using bs_write_loop_spec [OF assms(1,2), of "of_nat v"] assms(3) that
    by (auto simp: bs_write_def)
qed

lemma shift_in_u8:
  fixes b :: u8 and v :: u32
  shows "(ucast (ucast (b * 2) OR v) :: u8) = ucast ((ucast b :: u32) * 2 OR v)"
proof -
  have "(ucast (ucast (2 * b) OR v) :: u8) = ucast (2 * (ucast b :: u32) OR v)"
    by (rule bit_word_eqI) (auto simp: bit_simps bit_double_iff)
  then show ?thesis by (simp add: mult.commute)
qed

lemmas shift_in_u8_bits = shift_in_u8 [of _ 0, simplified] shift_in_u8 [of _ 1]

lemma bs_write1_spec:
  assumes "bs_room s 1" "bs_p s < p_end s"
  obtains s' where "bs_write1 s (of_bool b) = Some s'" "written s' = written s @ [b]"
    "bs_room s' 0" "length (p_start s') = length (p_start s)" "p_end s' = p_end s" "bitpos s' = bitpos s + 1"
proof -
  have "bs_write1 s (of_bool b) = bs_write_loop s 1 (of_bool b)"
    using assms by (auto simp: bs_write1_def bs_write_loop.simps [of s 1] bs_write_loop.simps [of _ 0] bs_room_def
        Let_def shift_in_u8_bits)
  moreover have "bit (unat (of_bool b :: u32)) 0 = b" by (cases b) (simp_all add: bit_0)
  ultimately show thesis using bs_write_loop_spec [OF assms(1), of "of_bool b"] that
    by (auto simp: to_bits_def simp del: bit_unsigned_iff)
qed

fun bit_count :: "nat \<Rightarrow> nat" where
  "bit_count n = (if n = 0 then 0 else Suc (bit_count (n div 2)))"

declare bit_count.simps [simp del]

lemma bit_count_0 [simp]: "bit_count 0 = 0"
  by (simp add: bit_count.simps)

lemma bit_count_1 [simp]: "bit_count (Suc 0) = Suc 0"
  by (simp add: bit_count.simps)

lemma bit_count_bounds: "0 < n \<Longrightarrow> 2 ^ (bit_count n - 1) \<le> n \<and> n < 2 ^ bit_count n \<and> 0 < bit_count n"
proof (induction n rule: bit_count.induct)
  case (1 n)
  show ?case
  proof (cases "n div 2 = 0")
    case True
    then have "n = 1" using 1 by simp
    then show ?thesis by simp
  next
    case False
    then have IH: "2 ^ (bit_count (n div 2) - 1) \<le> n div 2" "n div 2 < 2 ^ bit_count (n div 2)"
      "0 < bit_count (n div 2)" using 1 by auto
    have e: "bit_count n = Suc (bit_count (n div 2))" using 1 by (simp add: bit_count.simps [of n])
    obtain k where k: "bit_count (n div 2) = Suc k" using IH(3) gr0_conv_Suc by blast
    show ?thesis using IH(1,2) unfolding e k by (simp add: less_mult_imp_div_less) linarith
  qed
qed

lemma bit_count_unique: "2 ^ k \<le> n \<Longrightarrow> n < 2 ^ Suc k \<Longrightarrow> bit_count n = Suc k"
proof (induction k arbitrary: n)
  case 0
  then have "n = 1" by simp
  then show ?case by simp
next
  case (Suc k)
  then have "bit_count (n div 2) = Suc k" by (intro Suc.IH) auto
  moreover have "n \<noteq> 0" using Suc.prems by (auto intro: ccontr)
  ultimately show ?case by (simp add: bit_count.simps [of n])
qed

lemma bit_count_drop: "2 ^ m \<le> n \<Longrightarrow> bit_count n = m + bit_count (n div 2 ^ m)"
proof (induction m arbitrary: n)
  case (Suc m)
  have "2 ^ m \<le> n div 2" using Suc.prems by simp
  then have "bit_count (n div 2) = m + bit_count (n div 2 div 2 ^ m)" by (rule Suc.IH)
  moreover have "n \<noteq> 0" using Suc.prems by (auto intro: ccontr)
  ultimately show ?case by (simp add: bit_count.simps [of n] div_mult2_eq)
qed simp

text \<open>The Exp-Golomb code of \<open>v\<close>: as many zeros as \<open>v + 1\<close> has bits after its first, then \<open>v + 1\<close>.\<close>

definition ue_code :: "nat \<Rightarrow> bool list" where
  "ue_code v = (let k = bit_count (v + 1) - 1 in
     replicate k False @ True # to_bits k (v + 1 - 2 ^ k))"

lemma ue_code_to_bits: "ue_code v = to_bits (2 * bit_count (v + 1) - 1) (v + 1)"
proof -
  define k where "k = bit_count (v + 1) - 1"
  have k: "bit_count (v + 1) = Suc k" "2 ^ k \<le> v + 1" "v + 1 < 2 ^ Suc k"
    using bit_count_bounds [of "v + 1"] by (simp_all add: k_def)
  define x where "x = v + 1 - 2 ^ k"
  have x: "v + 1 = 2 ^ k + x" "x < 2 ^ k" using k by (auto simp: x_def)
  have "to_bits (k + Suc k) (v + 1) = to_bits k ((v + 1) div 2 ^ Suc k) @ to_bits (Suc k) (v + 1)"
    by (rule to_bits_add)
  also have "(v + 1) div 2 ^ Suc k = 0" using k by simp
  also have "to_bits (Suc k) (v + 1) = True # to_bits k (v + 1)"
    using x by (simp add: to_bits_Suc bit_iff_odd div_add1_eq)
  also have "to_bits k (v + 1) = to_bits k x"
    using to_bits_mod [of k k "v + 1"] to_bits_mod [of k k x] x by simp
  also have "to_bits k 0 = replicate k False"
    by (simp add: to_bits_def map_replicate_const)
  finally show ?thesis unfolding ue_code_def k(1) by (simp add: Let_def x_def mult_2)
qed

lemma length_ue_code: "length (ue_code v) = 2 * bit_count (v + 1) - 1"
  by (simp add: ue_code_to_bits)

lemma ue_decode_ue_code:
  assumes "v < 2 ^ 31 - 1"
  shows "ue_decode (ue_code v @ rest) = Some (v, rest)"
proof -
  define k where "k = bit_count (Suc v) - Suc 0"
  have k: "2 ^ k \<le> v + 1" "v + 1 < 2 ^ Suc k"
    using bit_count_bounds [of "v + 1"] by (simp_all add: k_def)
  have "(2::nat) ^ k < 2 ^ 31" using k(1) assms by simp
  then have "k \<le> 30" using power_less_imp_less_exp [of "2::nat" k 31] by simp
  then show ?thesis
    using ue_decode_code [of k "v + 1 - 2 ^ k" rest] k
    by (simp add: ue_code_def Let_def flip: k_def)
qed

lemma i_size0_255_bit_count: "\<forall>t \<in> set [1..<256]. i_size0_255 ! t = int (bit_count t)"
  by code_simp

lemma bit_count_mono: "m \<le> n \<Longrightarrow> bit_count m \<le> bit_count n"
proof (induction n arbitrary: m rule: bit_count.induct)
  case (1 n)
  then show ?case
    by (cases "m = 0") (auto simp: bit_count.simps [of m] bit_count.simps [of n] div_le_mono)
qed

lemma bit_count_less: "n < 2 ^ k \<Longrightarrow> bit_count n \<le> k"
  using bit_count_unique [of "k - 1" "2 ^ k - 1"] bit_count_mono [of n "2 ^ k - 1"]
  by (cases k) auto

lemma i_size0_255_read:
  assumes "0 < t" "t < 256" 
  shows "c_read i_size0_255 (int t) = Some (int (bit_count t))"
proof -
  have "t \<in> set [1..<256]" using assms by simp
  moreover have "length i_size0_255 = 256" by (simp add: i_size0_255_def)
  ultimately show ?thesis using i_size0_255_bit_count assms by (simp del: upt_rec_numeral)
qed

lemma uint_of_nat_u32: "n < 2 ^ 32 \<Longrightarrow> uint (of_nat n :: u32) = int n"
  by (simp add: unsigned_of_nat take_bit_nat_eq_self)

lemma uint_drop_u32: "uint (drop_bit n (x :: u32)) = uint x div 2 ^ n"
proof -
  have "take_bit 32 (uint x) = uint x"
    using uint_bounded [of x] by (simp add: take_bit_int_eq_self)
  then show ?thesis by (simp only: unsigned_drop_bit_eq) (simp add: drop_bit_eq_div)
qed

lemma bs_write_ue_eq:
  assumes "v < 32767"
  shows "bs_write_ue s (of_nat v) =
    (if v = 0 then bs_write1 s 1
     else bs_write s (int (2 * bit_count (v + 1) - 1)) (of_nat (v + 1)))"
proof (cases "v = 0")
  case False
  define w where "w = v + 1"
  define x where "x = (of_nat w :: u32)"
  have w: "0 < w" "w \<le> 32767" using assms by (auto simp: w_def)
  have u: "uint x = int w" using w by (simp add: x_def unsigned_of_nat take_bit_nat_eq_self)
  have "unat (of_nat v :: u32) = v" using assms by (simp add: unat_of_nat)
  then have v0: "(of_nat v :: u32) \<noteq> 0" using False by (metis unat_0)
  have x: "(of_nat v :: u32) + 1 = x" by (simp add: x_def w_def)
  have big: "\<not> x \<ge> 0x10000" "x \<ge> 0x100 \<longleftrightarrow> 256 \<le> w"
    using u w by (auto simp: word_le_def)
  have d: "uint (drop_bit 8 x) = int (w div 256)"
    by (simp add: uint_drop_u32 u zdiv_int)
  have pos: "0 < bit_count w" using bit_count_bounds [of w] w by simp
  show ?thesis
  proof (cases "256 \<le> w")
    case True
    then have "bit_count w = 8 + bit_count (w div 256)" using bit_count_drop [of 8 w] by simp
    moreover have "c_read i_size0_255 (int (w div 256)) = Some (int (bit_count (w div 256)))"
      by (rule i_size0_255_read) (use w True in \<open>auto simp: div_greater_zero_iff\<close>)
    ultimately have "bs_write_ue s (of_nat v) = bs_write s (2 * (8 + int (bit_count (w div 256))) - 1) x"
      "int (2 * bit_count w - 1) = 2 * (8 + int (bit_count (w div 256))) - 1"
      using v0 big d True by (simp_all add: bs_write_ue_def Let_def x)
    then show ?thesis using False by (simp only: w_def [symmetric] x_def [symmetric]) simp
  next
    case small: False
    then have "bs_write_ue s (of_nat v) = bs_write s (2 * int (bit_count w) - 1) x"
      "int (2 * bit_count w - 1) = 2 * int (bit_count w) - 1"
      using v0 big u pos i_size0_255_read [of w] w by (simp_all add: bs_write_ue_def Let_def x of_nat_diff)
    then show ?thesis using False by (simp only: w_def [symmetric] x_def [symmetric]) simp
  qed
qed (simp add: bs_write_ue_def)

lemma bs_room_le: "bs_room s n \<Longrightarrow> m \<le> n \<Longrightarrow> bs_room s m"
  by (simp add: bs_room_def)

lemma ue_code_0: "ue_code 0 = [True]"
  by (simp add: ue_code_def to_bits_def)

lemma bs_write_ue_spec:
  assumes "bs_room s (length (ue_code v))" "v < 32767" "bs_p s < p_end s - 4"
  obtains s' where "bs_write_ue s (of_nat v) = Some s'" "written s' = written s @ ue_code v"
    "bs_room s' 0" "length (p_start s') = length (p_start s)" "p_end s' = p_end s"
    "bitpos s' = bitpos s + length (ue_code v)"
proof (cases "v = 0")
  case True
  then show thesis using bs_write1_spec [of s True] assms that
    by (auto simp: bs_write_ue_eq [of 0, simplified] ue_code_0)
next
  case False
  define n where "n = 2 * bit_count (v + 1) - 1"
  have b: "bit_count (v + 1) \<le> 15" using assms by (intro bit_count_less) simp
  have "v + 1 < 2 ^ bit_count (v + 1)" "0 < bit_count (v + 1)"
    using bit_count_bounds [of "v + 1"] by auto
  then have "v + 1 < 2 ^ n"
    using power_increasing [of "bit_count (v + 1)" n "2::nat"] unfolding n_def by linarith
  moreover have "bs_room s n" "n \<le> 30" using assms b by (auto simp: length_ue_code n_def)
  ultimately obtain s' where "bs_write s (int n) (of_nat (v + 1)) = Some s'"
    "written s' = written s @ to_bits n (v + 1)" "bs_room s' 0"
    "length (p_start s') = length (p_start s)" "p_end s' = p_end s" "bitpos s' = bitpos s + n"
    using bs_write_spec [of s n "v + 1"] assms(3) by blast
  then show thesis
    using that False assms
    by (simp add: bs_write_ue_eq ue_code_to_bits [of v] n_def)
qed

section \<open>Round trip\<close>

fun write_ues :: "nat list \<Rightarrow> bs_t \<Rightarrow> bs_t option" where
  "write_ues [] s = bs_rbsp_trailing s"
| "write_ues (v # vs) s = do { s \<leftarrow> bs_write_ue s (of_nat v); write_ues vs s }"

fun read_ues :: "nat \<Rightarrow> bs_t \<Rightarrow> int list option" where
  "read_ues 0 s = Some []"
| "read_ues (Suc n) s = do { (v, s) \<leftarrow> bs_read_ue s; vs \<leftarrow> read_ues n s; Some (v # vs) }"

lemma read_ues_spec:
  assumes "bs_wf s" "\<forall>v \<in> set vs. v < 32767" "remaining s = concat (map ue_code vs) @ rest"
  shows "read_ues (length vs) s = Some (map int vs)"
  using assms
proof (induction vs arbitrary: s)
  case (Cons v vs)
  obtain s' where "bs_read_ue s = Some (int v, s')" "bs_ext s s'"
    "remaining s' = concat (map ue_code vs) @ rest"
    using bs_read_ue_spec [OF Cons.prems(1)] Cons.prems ue_decode_ue_code [of v] by auto
  then show ?case using Cons by (auto simp: bs_ext_def)
qed simp

lemma to_bits_0 [simp]: "to_bits n 0 = replicate n False"
  by (simp add: to_bits_def map_replicate_const)

lemma bs_rbsp_trailing_spec:
  assumes "bs_room s 8" "bs_p s < p_end s - 5"
  obtains s' k where "bs_rbsp_trailing s = Some s'"
    "written s' = written s @ True # replicate k False" "i_left s' = 8" "0 \<le> bs_p s'" "bs_p s' \<le> int (length (p_start s))"
    "length (p_start s') = length (p_start s)" "p_end s' = p_end s"
proof -
  obtain t where t: "bs_write1 s 1 = Some t" "written t = written s @ [True]" "bs_room t 0"
    "length (p_start t) = length (p_start s)" "p_end t = p_end s" "bitpos t = bitpos s + 1"
    using bs_write1_spec [of s True] assms by (auto simp: bs_room_le)
  show thesis
  proof (cases "i_left t = 8")
    case True
    then show thesis using t that [of t 0]
      by (simp add: bs_rbsp_trailing_def bs_room_def nat_le_iff)
  next
    case False
    define l where "l = nat (i_left t)"
    have l: "i_left t = int l" "l < 8" using t(3) False by (auto simp: l_def bs_room_def)
    have "bs_room t l" "bs_p t < p_end t - 4"
      using t assms l by (auto simp: bs_room_def bitpos_def)
    then obtain s' where s': "bs_write t (int l) (of_nat 0) = Some s'"
      "written s' = written t @ to_bits l 0" "bs_room s' 0"
      "length (p_start s') = length (p_start t)" "p_end s' = p_end t" "bitpos s' = bitpos t + l"
      using bs_write_spec [of t l 0] l by auto
    have "i_left s' = 8"
      using bs_room_bitpos_eq [OF s'(3)] bs_room_bitpos_eq [OF t(3)] s'(3,6) l
      unfolding bs_room_bitpos by presburger
    then show thesis using that [of s' l] s' t False l
      by (simp add: bs_rbsp_trailing_def bs_room_def nat_le_iff)
  qed
qed

lemma length_ue_code_le: "v < 32767 \<Longrightarrow> length (ue_code v) \<le> 29"
  using bit_count_less [of "v + 1" 15] by (simp add: length_ue_code)

lemma write_ues_spec:
  assumes "bs_room s (32 * length vs + 64)" "\<forall>v \<in> set vs. v < 32767"
    "bs_p s + 4 * int (length vs) + 8 \<le> p_end s"
  shows "\<exists>s' k. write_ues vs s = Some s' \<and>
    written s' = written s @ concat (map ue_code vs) @ True # replicate k False \<and>
    i_left s' = 8 \<and> 0 \<le> bs_p s' \<and> p_end s' = p_end s \<and> length (p_start s') = length (p_start s) \<and>
    bs_p s' \<le> int (length (p_start s))"
  using assms
proof (induction vs arbitrary: s)
  case Nil
  then have "bs_room s 8" "bs_p s < p_end s - 5" by (auto intro: bs_room_le)
  then show ?case by (rule bs_rbsp_trailing_spec) auto
next
  case (Cons v vs)
  have l: "length (ue_code v) \<le> 29" using length_ue_code_le Cons.prems by simp
  obtain t where t: "bs_write_ue s (of_nat v) = Some t" "written t = written s @ ue_code v"
    "bs_room t 0" "length (p_start t) = length (p_start s)" "p_end t = p_end s"
    "bitpos t = bitpos s + length (ue_code v)"
    by (rule bs_write_ue_spec [of s v]) (use Cons.prems l in \<open>auto intro: bs_room_le\<close>)
  have "bs_p t \<le> bs_p s + 4"
    using t(3,6) l Cons.prems(1) by (auto simp: bs_room_def bitpos_def)
  moreover have "bs_room t (32 * length vs + 64)"
    using t(3,4,6) l Cons.prems(1) by (auto simp: bs_room_bitpos)
  ultimately show ?case using Cons.IH [of t] Cons.prems t by auto
qed

lemma written_aligned:
  assumes "i_left s = 8" "0 \<le> bs_p s" "bs_p s \<le> p_end s"
  shows "\<exists>rest. remaining (bs_init (p_start s) (p_end s)) = written s @ rest"
proof -
  have "8 * nat (bs_p s) \<le> nat (8 * p_end s)" using assms by simp
  then have "[0..<nat (8 * p_end s)] = [0..<8 * nat (bs_p s)] @ [8 * nat (bs_p s)..<nat (8 * p_end s)]"
    by (metis le_add_diff_inverse upt_add_eq_append zero_le)
  then show ?thesis using assms
    by (auto simp: remaining_def bs_init_def bitpos_def written_def to_bits_def [of 0])
qed

lemma ue_round_trip_aux:
  assumes "\<forall>v \<in> set vs. v < 32767" "4 * length vs + 8 \<le> N"
  shows "\<exists>s. write_ues vs (bs_init (replicate N 0) (int N)) = Some s \<and>
    read_ues (length vs) (bs_init (p_start s) (int N)) = Some (map int vs)"
proof -
  let ?s = "bs_init (replicate N 0) (int N)"
  have "bs_room ?s (32 * length vs + 64)" "bs_p ?s + 4 * int (length vs) + 8 \<le> p_end ?s"
    "written ?s = []"
    using assms(2) by (simp_all add: bs_room_def bs_init_def written_def to_bits_def)
  then obtain s k where s: "write_ues vs ?s = Some s"
    "written s = concat (map ue_code vs) @ True # replicate k False"
    "i_left s = 8" "0 \<le> bs_p s" "p_end s = int N" "length (p_start s) = N" "bs_p s \<le> p_end s"
    using write_ues_spec [of ?s vs] assms(1) by (auto simp: bs_init_def)
  moreover have "bs_wf (bs_init (p_start s) (int N))" using s by (simp add: bs_wf_def bs_init_def)
  moreover obtain rest where "remaining (bs_init (p_start s) (int N)) = written s @ rest"
    using written_aligned [of s] s by auto
  ultimately show ?thesis
    using read_ues_spec [of _ vs "True # replicate k False @ rest"] assms(1) by auto
qed

section \<open>The size functions\<close>

lemma i_size0_254_bit_count: "\<forall>t \<in> set [0..<255]. i_size0_254 ! t = 2 * int (bit_count (t + 1)) - 1"
  by code_simp

lemma i_size0_254_read:
  "t < 255 \<Longrightarrow> c_read i_size0_254 (int t) = Some (2 * int (bit_count (t + 1)) - 1)"
proof -
  assume t: "t < 255"
  then have "t \<in> set [0..<255]" by simp
  moreover have "length i_size0_254 = 255" by (simp add: i_size0_254_def)
  ultimately show ?thesis using i_size0_254_bit_count t by (simp del: upt_rec_numeral)
qed

lemma bs_size_ue_spec:
  assumes "v + 1 < 65536"
  shows "bs_size_ue (of_nat v) = Some (int (length (ue_code v)))"
proof -
  define w where "w = v + 1"
  define x where "x = (of_nat w :: u32)"
  have w: "0 < w" "w < 65536" using assms by (auto simp: w_def)
  have u: "uint x = int w" using w by (simp add: x_def unsigned_of_nat take_bit_nat_eq_self)
  have uv: "uint (of_nat v :: u32) = int v" using assms by (simp add: unsigned_of_nat take_bit_nat_eq_self)
  have x: "(of_nat v :: u32) + 1 = x" by (simp add: x_def w_def)
  have big: "\<not> x \<ge> 0x10000" "x \<ge> 0x100 \<longleftrightarrow> 256 \<le> w" "(of_nat v :: u32) < 255 \<longleftrightarrow> v < 255"
    using u uv w by (auto simp: word_le_def word_less_def)
  have pos: "0 < bit_count w" using bit_count_bounds [of w] w by simp
  show ?thesis
  proof (cases "v < 255")
    case True
    then show ?thesis using big uv pos i_size0_254_read [of v]
      by (simp add: bs_size_ue_def length_ue_code w_def of_nat_diff)
  next
    case False
    then have "256 \<le> w" by (simp add: w_def)
    then have q: "0 < w div 256" "w div 256 < 256" using w by (auto simp: div_greater_zero_iff)
    define d where "d = drop_bit 8 x - 1"
    have "uint (drop_bit 8 x) = uint (of_nat (w div 256) :: u32)"
      using u w by (simp only: uint_drop_u32) (simp add: uint_of_nat_u32 zdiv_int)
    then have "drop_bit 8 x = of_nat (w div 256)" by (simp only: word_uint_eq_iff)
    then have "d = of_nat (w div 256 - 1)" using q by (simp add: d_def of_nat_diff)
    then have d: "uint d = int (w div 256 - 1)" using q by (simp only:) (rule uint_of_nat_u32, simp)
    have "bit_count w = 8 + bit_count (w div 256)" using bit_count_drop [of 8 w] \<open>256 \<le> w\<close> by simp
    moreover have "c_read i_size0_254 (uint d) = Some (2 * int (bit_count (w div 256)) - 1)"
      unfolding d using i_size0_254_read [of "w div 256 - 1"] q by simp
    ultimately have "bs_size_ue (of_nat v) = Some (15 + 2 * int (bit_count (w div 256)))"
      "int (2 * bit_count w - 1) = 15 + 2 * int (bit_count (w div 256))"
      using False big \<open>256 \<le> w\<close> by (simp_all add: bs_size_ue_def Let_def x d_def [symmetric])
    then show ?thesis by (simp only: length_ue_code w_def [symmetric])
  qed
qed

lemma bs_size_ue_out_of_bounds: "bs_size_ue 0x1000000 = None"
  by (simp add: bs_size_ue_def Let_def c_read_def i_size0_254_def)

lemma bs_write_ue_undefined: "bs_write_ue (bs_init (replicate 16 0) 16) 32767 = None"
  by code_simp

section \<open>Reading without undefined behaviour\<close>

text \<open>
  \<open>bs_read_ue\<close> is undefined after 31 leading zeros, so a caller is safe on data whose zero runs are
  shorter. H.264 data has this property by its emulation prevention: inside a NAL unit two zero bytes
  are followed by a byte of at least three, so no run of zero bits is longer than 29.
\<close>

definition short_zero_runs :: "bool list \<Rightarrow> bool" where
  "short_zero_runs bs \<longleftrightarrow> (\<forall>k. fst (ue_zeros (drop k bs) 0) \<le> 29)"

lemma short_zero_runs_drop: "short_zero_runs bs \<Longrightarrow> short_zero_runs (drop n bs)"
  by (auto simp: short_zero_runs_def)

definition rd_safe :: "bs_t \<Rightarrow> bool" where
  "rd_safe s \<longleftrightarrow> bs_wf s \<and> short_zero_runs (remaining s)"

lemma ue_zeros_suffix: "ue_zeros bs i = (j, r) \<Longrightarrow> \<exists>n. r = drop n bs"
proof (induction bs i rule: ue_zeros.induct)
  case (2 b bs i)
  then show ?case by (auto split: if_splits intro: exI [of _ "Suc _"] exI [of _ 1])
qed auto

lemma ue_decode_safe:
  assumes "short_zero_runs bs"
  shows "\<exists>v r. ue_decode bs = Some (v, r) \<and> v \<le> 2 ^ 30 - 2 \<and> short_zero_runs r"
proof -
  obtain i q where iq: "ue_zeros bs 0 = (i, q)" by force
  have i: "i \<le> 29" using assms [unfolded short_zero_runs_def, rule_format, of 0] iq by simp
  obtain n where n: "q = drop n bs" using ue_zeros_suffix [OF iq] by blast
  have "bits_val (take i (q @ replicate i False)) < 2 ^ i"
    by (rule less_le_trans [OF bits_val_less]) simp
  moreover have "(2::nat) ^ i \<le> 2 ^ 29" using i by (intro power_increasing) auto
  ultimately show ?thesis using i iq short_zero_runs_drop [OF assms, of "i + n"]
    by (simp add: ue_decode_def n)
qed

lemma rd_safe_ue:
  assumes "rd_safe s" "\<And>v t. 0 \<le> v \<Longrightarrow> v \<le> 1073741822 \<Longrightarrow> rd_safe t \<Longrightarrow> Q (v, t)"
  shows "completes (bs_read_ue s) Q"
proof -
  obtain v r where "ue_decode (remaining s) = Some (v, r)" "v \<le> 2 ^ 30 - 2" "short_zero_runs r"
    using ue_decode_safe [of "remaining s"] assms(1) by (auto simp: rd_safe_def)
  then show ?thesis using bs_read_ue_spec [of s] assms
    by (auto simp: completes_iff rd_safe_def bs_ext_def)
qed

lemma rd_safe_se:
  assumes "rd_safe s" "\<And>v t. - 1073741822 \<le> v \<Longrightarrow> v \<le> 1073741822 \<Longrightarrow> rd_safe t \<Longrightarrow> Q (v, t)"
  shows "completes (bs_read_se s) Q"
proof -
  obtain v r where v: "ue_decode (remaining s) = Some (v, r)" "v \<le> 2 ^ 30 - 2" "short_zero_runs r"
    using ue_decode_safe [of "remaining s"] assms(1) by (auto simp: rd_safe_def)
  moreover have "- 1073741822 \<le> se_decode v" "se_decode v \<le> 1073741822"
    using v(2) by (auto simp: se_decode_def)
  ultimately show ?thesis using bs_read_se_spec [of s] assms
    by (auto simp: completes_iff rd_safe_def bs_ext_def)
qed

lemma to_int_bits_le:
  assumes "n \<le> 31" "w = of_nat (bits_val (next_bits s n))"
  shows "0 \<le> to_int w \<and> to_int w < 2 ^ n"
proof -
  have b: "bits_val (next_bits s n) < 2 ^ n" using bits_val_less [of "next_bits s n"] by simp
  moreover have "(2::nat) ^ n \<le> 2 ^ 31" using assms by (intro power_increasing) auto
  ultimately have "to_int w = int (bits_val (next_bits s n))" using assms by (simp add: to_int_of_nat)
  then show ?thesis using b by simp
qed

lemma rd_safe_read:
  assumes "rd_safe s" "0 \<le> n" "n \<le> 32"
    "\<And>v t. rd_safe t \<Longrightarrow> (n \<le> 31 \<Longrightarrow> 0 \<le> to_int v \<and> to_int v < 2 ^ nat n) \<Longrightarrow> Q (v, t)"
  shows "completes (bs_read s n) Q"
proof -
  obtain t where t: "bs_read s n = Some (of_nat (bits_val (next_bits s (nat n))), t)"
    "bs_ext s t" "remaining t = drop (nat n) (remaining s)"
    using bs_read_spec assms by (auto simp: rd_safe_def)
  have "rd_safe t" using t assms(1) by (auto simp: rd_safe_def bs_ext_def short_zero_runs_drop)
  then show ?thesis using t assms(4) [of t "of_nat (bits_val (next_bits s (nat n)))"]
    to_int_bits_le [of "nat n" _ s] by (auto simp: nat_le_iff)
qed

lemma rd_safe_skip: "rd_safe s \<Longrightarrow> 0 \<le> n \<Longrightarrow> rd_safe (bs_skip s n)"
  using bs_skip_spec [of s n] by (auto simp: rd_safe_def bs_ext_def short_zero_runs_drop)


text \<open>No start code, and none of the byte pairs an encoder must escape, inside the data.\<close>

fun no_start_code :: "u8 list \<Rightarrow> bool" where
  "no_start_code (a # b # c # xs) \<longleftrightarrow> \<not> (a = 0 \<and> b = 0 \<and> c < 3) \<and> no_start_code (b # c # xs)"
| "no_start_code _ \<longleftrightarrow> True"

lemma no_start_code_nth:
  "no_start_code d \<Longrightarrow> i + 2 < length d \<Longrightarrow> d ! i = 0 \<Longrightarrow> d ! (i + 1) = 0 \<Longrightarrow> 3 \<le> d ! (i + 2)"
proof (induction d arbitrary: i rule: no_start_code.induct)
  case (1 a b c xs)
  then show ?case by (cases i) (auto simp: not_less)
qed auto

lemma ue_zeros_False:
  "ue_zeros bs i = (j, r) \<Longrightarrow> i \<le> j \<and> j - i \<le> length bs \<and> (\<forall>k < j - i. \<not> bs ! k)"
proof (induction bs i rule: ue_zeros.induct)
  case (2 b bs i)
  show ?case
  proof (cases "\<not> b \<and> bs \<noteq> [] \<and> i < 32")
    case True
    then have IH: "Suc i \<le> j" "j - Suc i \<le> length bs" "\<forall>k < j - Suc i. \<not> bs ! k"
      using 2 by auto
    have "\<not> (b # bs) ! k" if "k < j - i" for k
      using IH(3) True that by (cases k) auto
    then show ?thesis using IH by auto
  next
    case False
    then show ?thesis using "2.prems" by auto
  qed
qed auto

lemma bit_at_byte: "k < 8 \<Longrightarrow> bit_at d (8 * q + k) \<longleftrightarrow> bit (d ! q) (7 - k)"
  by (simp add: bit_at_def)

lemma byte_zero: "(\<forall>k < 8. \<not> bit_at d (8 * q + k)) \<Longrightarrow> d ! q = 0"
proof (rule bit_word_eqI)
  fix n assume z: "\<forall>k < 8. \<not> bit_at d (8 * q + k)" and "n < LENGTH(8)"
  then have "\<not> bit_at d (8 * q + (7 - n))" by (intro z [rule_format]) simp
  then show "bit (d ! q) n \<longleftrightarrow> bit 0 n" using \<open>n < LENGTH(8)\<close> by (simp add: bit_at_def)
qed

lemma byte_less_2: "(\<forall>k < 7. \<not> bit_at d (8 * q + k)) \<Longrightarrow> d ! q < 2"
proof -
  assume z: "\<forall>k < 7. \<not> bit_at d (8 * q + k)"
  have "\<not> bit (d ! q) (n + 1)" for n
  proof (cases "n < 7")
    case True
    then have "\<not> bit_at d (8 * q + (6 - n))" by (intro z [rule_format]) simp
    then show ?thesis using True bit_at_byte [of "6 - n" d q]
      by (simp add: Suc_diff_le numeral_eq_Suc)
  next
    case False
    then show ?thesis using bit_imp_le_length [of "d ! q" "n + 1"] by auto
  qed
  then have "bit (d ! q) n \<longleftrightarrow> bit (take_bit 1 (d ! q)) n" for n
    by (cases n) (auto simp: bit_take_bit_iff bit_0)
  then have "d ! q = take_bit 1 (d ! q)" by (intro bit_word_eqI) blast
  also have "\<dots> = of_bool (odd (d ! q))" by (simp add: take_bit_Suc mod_2_eq_odd)
  finally have "d ! q = of_bool (odd (d ! q))" .
  moreover have "of_bool b < (2 :: u8)" for b by (cases b) simp_all
  ultimately show ?thesis by metis
qed

lemma no_start_code_short_runs:
  assumes "no_start_code d" "0 \<le> n" "n \<le> int (length d)"
  shows "rd_safe (bs_init d n)"
proof -
  have wf: "bs_wf (bs_init d n)" using assms by (simp add: bs_wf_def bs_init_def)
  have rem: "remaining (bs_init d n) = map (bit_at d) [0..<nat (8 * n)]"
    by (simp add: remaining_def bitpos_def bs_init_def)
  have "fst (ue_zeros (drop p (remaining (bs_init d n))) 0) \<le> 29" for p
  proof (rule ccontr)
    assume not: "\<not> ?thesis"
    obtain j r where jr: "ue_zeros (drop p (remaining (bs_init d n))) 0 = (j, r)" by force
    then have j: "30 \<le> j" using not by simp
    from ue_zeros_False [OF jr] have len: "j \<le> nat (8 * n) - p"
      and z: "\<forall>k < j. \<not> drop p (remaining (bs_init d n)) ! k" by (auto simp: rem)
    have zero: "\<not> bit_at d (p + k)" if "k < 30" for k
      using z [rule_format, of k] that j len by (simp add: rem)
    define q where "q = (p + 7) div 8"
    have q: "p \<le> 8 * q" "8 * q \<le> p + 7" unfolding q_def by presburger+
    have at: "\<not> bit_at d (8 * q + k)" if "k < 23" for k
      using zero [of "8 * q + k - p"] q that by simp
    have "\<not> bit_at d (8 * (q + 1) + k)" if "k < 8" for k using at [of "8 + k"] that by (simp add: algebra_simps)
    moreover have "\<not> bit_at d (8 * (q + 2) + k)" if "k < 7" for k using at [of "16 + k"] that by (simp add: algebra_simps)
    ultimately have "d ! q = 0" "d ! (q + 1) = 0" "d ! (q + 2) < 2"
      using at byte_zero [of d q] byte_zero [of d "q + 1"] byte_less_2 [of d "q + 2"] by auto
    moreover have "q + 2 < length d" using len j q assms by linarith
    ultimately have "3 \<le> d ! (q + 2)" "d ! (q + 2) < 2" using no_start_code_nth [OF assms(1), of q] by auto
    then show False by (simp add: word_le_nat_alt word_less_nat_alt)
  qed
  then show ?thesis using wf by (simp add: rd_safe_def short_zero_runs_def)
qed

lemma rd_safe_ue_obtain:
  assumes "rd_safe s" obtains v t where "bs_read_ue s = Some (v, t)" "rd_safe t" "0 \<le> v" "v \<le> 1073741822"
proof -
  have "completes (bs_read_ue s) (\<lambda>(v, t). rd_safe t \<and> 0 \<le> v \<and> v \<le> 1073741822)"
    using assms by (rule rd_safe_ue) auto
  then show thesis using that by (auto simp: completes_iff)
qed

lemma rd_safe_read_obtain:
  assumes "rd_safe s" obtains v t where "bs_read s 1 = Some (v, t)" "rd_safe t"
proof -
  have "completes (bs_read s 1) (\<lambda>(v, t). rd_safe t)"
    using assms by (rule rd_safe_read) auto
  then show thesis using that by (auto simp: completes_iff)
qed

subsection \<open>Reading encoded fields\<close>

lemma bs_eof_iff: "bs_wf s \<Longrightarrow> bs_eof s \<longleftrightarrow> remaining s = []"
  using remaining_Nil_iff by blast

lemma ue_code_not_Nil [simp]: "ue_code v \<noteq> []"
  by (simp add: ue_code_def Let_def)

lemma completes_bits:
  assumes "bs_wf s" "remaining s = to_bits (nat n) v @ rest" "v < 2 ^ nat n" "0 \<le> n" "n \<le> 31"
    "\<And>t w. bs_wf t \<Longrightarrow> remaining t = rest \<Longrightarrow> to_int w = int v \<Longrightarrow> (w = 0 \<longleftrightarrow> v = 0) \<Longrightarrow> Q (w, t)"
  shows "completes (bs_read s n) Q"
proof -
  obtain t where t: "bs_read s n = Some (of_nat (bits_val (next_bits s (nat n))), t)"
    "bs_ext s t" "remaining t = drop (nat n) (remaining s)"
    using bs_read_spec [of s n] assms by auto
  have "bits_val (next_bits s (nat n)) = v"
    using assms(2,3) by (simp add: next_bits_def bits_val_to_bits)
  moreover have "(2::nat) ^ nat n \<le> 2 ^ 31" using assms(5) by (intro power_increasing) auto
  then have "v < 2 ^ 31" using assms(3) by simp
  then have "to_int (of_nat v) = int v" by (rule to_int_of_nat)
  moreover have "(of_nat v :: u32) = 0 \<longleftrightarrow> v = 0"
    using \<open>to_int (of_nat v) = int v\<close> by (auto simp: to_int_def)
  ultimately show ?thesis using t assms(2) by (auto simp: bs_ext_def intro!: assms(6))
qed

lemma completes_ue:
  assumes "bs_wf s" "remaining s = ue_code v @ rest" "v < 2 ^ 30"
    "\<And>t. bs_wf t \<Longrightarrow> remaining t = rest \<Longrightarrow> Q (int v, t)"
  shows "completes (bs_read_ue s) Q"
  using bs_read_ue_spec [OF assms(1)] ue_decode_ue_code [of v rest] assms(2-)
  by (auto simp: completes_iff bs_ext_def)

section \<open>Properties\<close>

text \<open>\<open>bs_read\<close> on a well-formed reader is defined for every count up to 32; its value is the
  next \<open>i_count\<close> bits of the data, most significant first, bits past the end reading as zero, and
  the reader that it leaves is well-formed, over the same data, with exactly these bits consumed.\<close>

theorem bs_read_returns_next_bits:
  assumes "bs_wf s" "0 \<le> i_count" "i_count \<le> 32"
  shows "\<exists>s'. bs_read s i_count =
      Some (of_nat (bits_val (take (nat i_count) (remaining s @ replicate (nat i_count) False))), s') \<and>
    bs_wf s' \<and> p_start s' = p_start s \<and> p_end s' = p_end s \<and>
    remaining s' = drop (nat i_count) (remaining s)"
  using bs_read_spec [OF assms] by (auto simp: next_bits_def bs_ext_def)

theorem bs_read_returns_next_bits_witness:
  "\<exists>s'. bs_read (bs_init [0xA5, 0x3C] 2) 12 =
      Some (of_nat (bits_val (take 12 (remaining (bs_init [0xA5, 0x3C] 2) @ replicate 12 False))), s') \<and>
    remaining s' = drop 12 (remaining (bs_init [0xA5, 0x3C] 2))"
  using bs_read_returns_next_bits [of "bs_init [0xA5, 0x3C] 2" 12]
  by (auto simp: bs_wf_def bs_init_def)

text \<open>C9: \<open>bs_read_ue\<close> and \<open>bs_read_se\<close> decode the Exp-Golomb code of the bits that remain, and
  stay inside the data; they are undefined exactly when more than 30 leading zeros are counted.\<close>

theorem bs_read_golomb:
  assumes "bs_wf s"
  shows "case ue_decode (remaining s) of
      None \<Rightarrow> bs_read_ue s = None \<and> bs_read_se s = None
    | Some (v, r) \<Rightarrow>
        (\<exists>s'. bs_read_ue s = Some (int v, s') \<and> bs_wf s' \<and> remaining s' = r) \<and>
        (\<exists>s'. bs_read_se s = Some (se_decode v, s') \<and> bs_wf s' \<and> remaining s' = r)"
  using bs_read_ue_spec [OF assms] bs_read_se_spec [OF assms]
  by (auto simp: bs_ext_def split: option.splits)

theorem bs_read_golomb_witness:
  "bs_wf (bs_init [0x28] 1) \<and> ue_decode (remaining (bs_init [0x28] 1)) = Some (4, [False, False, False]) \<and>
   (\<exists>s'. bs_read_se (bs_init [0x28] 1) = Some (- 2, s') \<and> bs_wf s' \<and>
     remaining s' = [False, False, False])"
proof -
  have wf: "bs_wf (bs_init [0x28] 1)" by (simp add: bs_wf_def bs_init_def)
  moreover have "ue_decode (remaining (bs_init [0x28] 1)) = Some (4, [False, False, False])"
    by code_simp
  ultimately show ?thesis using bs_read_golomb [OF wf] by (simp add: se_decode_def)
qed

text \<open>unsigned Exp-Golomb round trip: a list of values written with \<open>bs_write_ue\<close> and closed
  with \<open>bs_rbsp_trailing\<close> into a large enough buffer is read back by \<open>bs_read_ue\<close>.\<close>

theorem ue_round_trip:
  assumes "\<forall>v \<in> set vs. v < 32767" "4 * length vs + 8 \<le> N"
  shows "\<exists>s. write_ues vs (bs_init (replicate N 0) (int N)) = Some s \<and>
    read_ues (length vs) (bs_init (p_start s) (int N)) = Some (map int vs)"
  by (rule ue_round_trip_aux [OF assms])

theorem ue_round_trip_witness:
  "\<exists>s. write_ues [0, 5, 1000] (bs_init (replicate 20 0) 20) = Some s \<and>
    read_ues 3 (bs_init (p_start s) 20) = Some [0, 5, 1000]"
  using ue_round_trip [of "[0, 5, 1000]" 20] by (simp add: numeral_3_eq_3)

text \<open>\<open>bs_size_ue\<close> is the number of bits of the code of a 16-bit value, table look-ups included.\<close>

theorem bs_size_ue_is_code_length:
  assumes "v < 65535"
  shows "bs_size_ue (of_nat v) = Some (int (length (ue_code v)))"
  using bs_size_ue_spec [of v] assms by simp

theorem bs_size_ue_is_code_length_witness:
  "bs_size_ue 1000 = Some 19 \<and> length (ue_code 1000) = 19"
proof -
  have "length (ue_code 1000) = 19" by code_simp
  then show ?thesis using bs_size_ue_is_code_length [of 1000] by simp
qed

end
