(* ===== verification/Sps_Pps.thy ===== *)
theory Sps_Pps
  imports Bitstream
begin

text \<open>
  The H.264 parameter-set parser of \<open>VirtualCamera/AnsyncDecoder/sps_pps.c\<close>, which the decoder uses
  to learn the picture size before it opens the codec. The reader \<open>s\<close> and the structure being filled
  are threaded explicitly; \<open>None\<close> stands for undefined behaviour (see the prelude), so the theorems
  about \<open>Some\<close> say that the parser never leaves the NAL, never writes outside its arrays and
  never overflows. A section of a function that can return early yields \<open>Some c\<close> in its first
  component when the function returns \<open>c\<close> there.
\<close>

section \<open>Data\<close>

record h264_crop =
  crop_left :: int
  crop_right :: int
  crop_top :: int
  crop_bottom :: int

record h264_vui =
  b_aspect_ratio_info_present :: int
  i_sar_width :: int
  i_sar_height :: int
  b_signal_type_present :: int
  i_vidformat :: int
  b_fullrange :: int
  b_color_description_present :: int
  i_colorprim :: int
  i_transfer :: int
  i_colmatrix :: int
  i_chroma_loc_top :: int
  b_timing_info_present :: int
  i_num_units_in_tick :: int
  i_time_scale :: int
  b_fixed_frame_rate :: int
  nal_hrd_parameters_present_flag :: int
  vcl_hrd_parameters_present_flag :: int
  pic_struct_present_flag :: int
  b_bitstream_restriction :: int
  i_num_reorder_frames :: int

text \<open>Fields no function of the file touches are left out.\<close>

record h264_sps_t =
  i_id :: int
  i_profile_idc :: int
  i_level_idc :: int
  b_constraint_set0 :: int
  b_constraint_set1 :: int
  b_constraint_set2 :: int
  i_chroma_format_idc :: int
  i_log2_max_frame_num :: int
  i_poc_type :: int
  i_log2_max_poc_lsb :: int
  b_delta_pic_order_always_zero :: int
  i_offset_for_non_ref_pic :: int
  i_offset_for_top_to_bottom_field :: int
  i_num_ref_frames_in_poc_cycle :: int
  i_offset_for_ref_frame :: "int list"
  i_num_ref_frames :: int
  b_gaps_in_frame_num_value_allowed :: int
  i_mb_width :: int
  i_mb_height :: int
  b_frame_mbs_only :: int
  b_mb_adaptive_frame_field :: int
  b_direct8x8_inference :: int
  b_crop :: int
  crop :: h264_crop
  b_vui :: int
  vui :: h264_vui
  scaling_matrix_present :: int
  scaling_matrix4 :: "u8 list list"
  scaling_matrix8 :: "u8 list list"

record h264_pps_t =
  pps_id :: int
  i_sps_id :: int
  b_cabac :: int
  b_pic_order :: int
  i_num_slice_groups :: int
  i_slice_group_map_type :: int
  i_run_length :: "int list"
  i_top_left :: "int list"
  i_bottom_right :: "int list"
  b_slice_group_change_direction :: int
  i_slice_group_change_rate :: int
  i_pic_size_in_map_units :: int
  i_num_ref_idx_l0_active :: int
  i_num_ref_idx_l1_active :: int
  b_weighted_pred :: int
  b_weighted_bipred :: int
  i_pic_init_qp :: int
  i_pic_init_qs :: int
  i_chroma_qp_index_offset :: int
  b_deblocking_filter_control :: int
  b_constrained_intra_pred :: int
  b_redundant_pic_cnt :: int
  b_transform_8x8_mode :: int

section \<open>Scaling matrices\<close>

definition zigzag_scan :: "int list" where
  "zigzag_scan = [
    0+0*4, 1+0*4, 0+1*4, 0+2*4,
    1+1*4, 2+0*4, 3+0*4, 2+1*4,
    1+2*4, 0+3*4, 1+3*4, 2+2*4,
    3+1*4, 3+2*4, 2+3*4, 3+3*4]"

definition ff_zigzag_direct :: "int list" where
  "ff_zigzag_direct = [
    0,   1,  8, 16,  9,  2,  3, 10,
    17, 24, 32, 25, 18, 11,  4,  5,
    12, 19, 26, 33, 40, 48, 41, 34,
    27, 20, 13,  6,  7, 14, 21, 28,
    35, 42, 49, 56, 57, 50, 43, 36,
    29, 22, 15, 23, 30, 37, 44, 51,
    58, 59, 52, 45, 38, 31, 39, 46,
    53, 60, 61, 54, 47, 55, 62, 63]"

definition default_scaling4 :: "u8 list list" where
  "default_scaling4 = [
   [6,13,20,28,
   13,20,28,32,
   20,28,32,37,
   28,32,37,42],
   [10,14,20,24,
   14,20,24,27,
   20,24,27,30,
   24,27,30,34]]"

definition default_scaling8 :: "u8 list list" where
  "default_scaling8 = [
   [6,10,13,16,18,23,25,27,
   10,11,16,18,23,25,27,29,
   13,16,18,23,25,27,29,31,
   16,18,23,25,27,29,31,33,
   18,23,25,27,29,31,33,36,
   23,25,27,29,31,33,36,38,
   25,27,29,31,33,36,38,40,
   27,29,31,33,36,38,40,42],
   [9,13,15,17,19,21,22,24,
   13,13,17,19,21,22,24,25,
   15,17,19,21,22,24,25,27,
   17,19,21,22,24,25,27,28,
   19,21,22,24,25,27,28,30,
   21,22,24,25,27,28,30,32,
   22,24,25,27,28,30,32,33,
   24,25,27,28,30,32,33,35]]"

text \<open>
  The loop over \<open>i\<close>: the first argument is the number of factors still to be set, so \<open>i\<close> is
  \<open>sz\<close> minus it; \<open>lst\<close> and \<open>nxt\<close> are the C variables \<open>last\<close> and \<open>next\<close>.
\<close>

fun scaling_loop ::
  "nat \<Rightarrow> int \<Rightarrow> int list \<Rightarrow> u8 list \<Rightarrow> int \<Rightarrow> int \<Rightarrow> bs_t \<Rightarrow> u8 list \<Rightarrow> (bs_t \<times> u8 list) option" where
  "scaling_loop 0 sz scan jvt_list lst nxt s factors = Some (s, factors)"
| "scaling_loop (Suc n) sz scan jvt_list lst nxt s factors =
     (case (if nxt \<noteq> 0 then do { (u, s) \<leftarrow> bs_read_ue s; t \<leftarrow> c_int (lst + u); Some (t AND 0xff, s) }
            else Some (nxt, s)) of
        None \<Rightarrow> None
      | Some (nxt, s) \<Rightarrow>
          if sz - int (Suc n) = 0 \<and> nxt = 0 then Some (s, jvt_list)
          else
            let v = word_of_int (if nxt \<noteq> 0 then nxt else lst) :: u8 in
            (case do { j \<leftarrow> c_read scan (sz - int (Suc n)); c_write factors j v } of
               None \<Rightarrow> None
             | Some factors \<Rightarrow> scaling_loop n sz scan jvt_list (uint v) nxt s factors))"

definition decode_scaling_list ::
  "bs_t \<Rightarrow> u8 list \<Rightarrow> nat \<Rightarrow> u8 list \<Rightarrow> u8 list \<Rightarrow> (bs_t \<times> u8 list) option" where
  "decode_scaling_list s factors sz jvt_list fallback_list =
     (let scan = (if sz = 16 then zigzag_scan else ff_zigzag_direct) in
      do { (b, s) \<leftarrow> bs_read s 1;
           if b = 0 then Some (s, fallback_list)
           else scaling_loop sz (int sz) scan jvt_list 8 8 s factors })"

text \<open>
  \<open>scaling_matrix4\<close> and \<open>scaling_matrix8\<close> are passed by reference in C and returned here; the
  argument \<open>pps\<close> is the transform flag of the picture parameter set, \<open>None\<close> for a null pointer.
  The entries of a matrix are read and written through checked accesses.
\<close>

definition decode_into ::
  "bs_t \<Rightarrow> u8 list list \<Rightarrow> int \<Rightarrow> nat \<Rightarrow> u8 list \<Rightarrow> u8 list \<Rightarrow> (bs_t \<times> u8 list list) option" where
  "decode_into s m k sz jvt_list fallback_list =
     do { factors \<leftarrow> c_read m k;
          (s, factors) \<leftarrow> decode_scaling_list s factors sz jvt_list fallback_list;
          m \<leftarrow> c_write m k factors;
          Some (s, m) }"

definition decode_scaling_matrices ::
  "bs_t \<Rightarrow> h264_sps_t \<Rightarrow> int option \<Rightarrow> int \<Rightarrow> u8 list list \<Rightarrow> u8 list list \<Rightarrow>
    (bs_t \<times> h264_sps_t \<times> u8 list list \<times> u8 list list) option" where
  "decode_scaling_matrices s sps pps is_sps m4 m8 =
     (let fallback_sps = (is_sps = 0 \<and> scaling_matrix_present sps \<noteq> 0);
          d4 = default_scaling4; d8 = default_scaling8;
          fallback0 = (if fallback_sps then scaling_matrix4 sps ! 0 else d4 ! 0);
          fallback1 = (if fallback_sps then scaling_matrix4 sps ! 3 else d4 ! 1);
          fallback2 = (if fallback_sps then scaling_matrix8 sps ! 0 else d8 ! 0);
          fallback3 = (if fallback_sps then scaling_matrix8 sps ! 3 else d8 ! 1)
      in do {
        (b, s) \<leftarrow> bs_read s 1;
        if b = 0 then Some (s, sps, m4, m8)
        else do {
          let sps = sps\<lparr>scaling_matrix_present := scaling_matrix_present sps OR is_sps\<rparr>;
          (s, m4) \<leftarrow> decode_into s m4 0 16 (d4 ! 0) fallback0;
          (s, m4) \<leftarrow> decode_into s m4 1 16 (d4 ! 0) (m4 ! 0);
          (s, m4) \<leftarrow> decode_into s m4 2 16 (d4 ! 0) (m4 ! 1);
          (s, m4) \<leftarrow> decode_into s m4 3 16 (d4 ! 1) fallback1;
          (s, m4) \<leftarrow> decode_into s m4 4 16 (d4 ! 1) (m4 ! 3);
          (s, m4) \<leftarrow> decode_into s m4 5 16 (d4 ! 1) (m4 ! 4);
          if is_sps \<noteq> 0 \<or> (case pps of None \<Rightarrow> False | Some t \<Rightarrow> t \<noteq> 0) then do {
            (s, m8) \<leftarrow> decode_into s m8 0 64 (d8 ! 0) fallback2;
            (s, m8) \<leftarrow> (if i_chroma_format_idc sps = 3 then do {
                (s, m8) \<leftarrow> decode_into s m8 1 64 (d8 ! 0) (m8 ! 0);
                decode_into s m8 2 64 (d8 ! 0) (m8 ! 1) } else Some (s, m8));
            (s, m8) \<leftarrow> decode_into s m8 3 64 (d8 ! 1) fallback3;
            (s, m8) \<leftarrow> (if i_chroma_format_idc sps = 3 then do {
                (s, m8) \<leftarrow> decode_into s m8 4 64 (d8 ! 1) (m8 ! 3);
                decode_into s m8 5 64 (d8 ! 1) (m8 ! 4) } else Some (s, m8));
            Some (s, sps, m4, m8) }
          else Some (s, sps, m4, m8) } })"

section \<open>Video usability information\<close>

definition decode_hrd_parameters :: "bs_t \<Rightarrow> h264_sps_t \<Rightarrow> int" where
  "decode_hrd_parameters s sps = 0"

definition vui_aspect_ratio :: "bs_t \<Rightarrow> h264_vui \<Rightarrow> (int option \<times> bs_t \<times> h264_vui) option" where
  "vui_aspect_ratio s v = do {
     (flag, s) \<leftarrow> bs_read s 1;
     let v = v\<lparr>b_aspect_ratio_info_present := to_int flag\<rparr>;
     if to_int flag \<noteq> 0 then do {
       (aspect_ratio_idc, s) \<leftarrow> bs_read s 8;
       if aspect_ratio_idc = 255 then do {
         (w, s) \<leftarrow> bs_read s 16;
         (h, s) \<leftarrow> bs_read s 16;
         Some (None, s, v\<lparr>i_sar_width := to_int w, i_sar_height := to_int h\<rparr>) }
       else if aspect_ratio_idc < 17 then Some (None, s, v)
       else Some (Some (-1), s, v) }
     else Some (None, s, v\<lparr>i_sar_width := 0, i_sar_height := 0\<rparr>) }"

definition vui_signal_type :: "bs_t \<Rightarrow> h264_vui \<Rightarrow> (bs_t \<times> h264_vui) option" where
  "vui_signal_type s v = do {
     (b, s) \<leftarrow> bs_read s 1;
     (b, s) \<leftarrow> (if b \<noteq> 0 then bs_read s 1 else Some (b, s));
     (b, s) \<leftarrow> bs_read s 1;
     let v = v\<lparr>b_signal_type_present := to_int b\<rparr>;
     if to_int b \<noteq> 0 then do {
       (b, s) \<leftarrow> bs_read s 3;
       let v = v\<lparr>i_vidformat := to_int b\<rparr>;
       (b, s) \<leftarrow> bs_read s 1;
       let v = v\<lparr>b_fullrange := to_int b\<rparr>;
       (b, s) \<leftarrow> bs_read s 1;
       let v = v\<lparr>b_color_description_present := to_int b\<rparr>;
       if to_int b \<noteq> 0 then do {
         (p, s) \<leftarrow> bs_read s 8;
         (t, s) \<leftarrow> bs_read s 8;
         (m, s) \<leftarrow> bs_read s 8;
         Some (s, v\<lparr>i_colorprim := (if to_int p \<ge> 9 then 2 else to_int p),
                    i_transfer := (if to_int t \<ge> 8 then 2 else to_int t),
                    i_colmatrix := (if to_int m \<ge> 9 then 2 else to_int m)\<rparr>) }
       else Some (s, v) }
     else Some (s, v) }"

definition vui_chroma_loc :: "bs_t \<Rightarrow> h264_vui \<Rightarrow> (bs_t \<times> h264_vui) option" where
  "vui_chroma_loc s v = do {
     (b, s) \<leftarrow> bs_read s 1;
     if b \<noteq> 0 then do {
       (u, s) \<leftarrow> bs_read_ue s;
       u \<leftarrow> c_int (u + 1);
       let v = v\<lparr>i_chroma_loc_top := u\<rparr>;
       (u, s) \<leftarrow> bs_read_ue s;
       Some (s, v) }
     else Some (s, v) }"

definition vui_timing :: "bs_t \<Rightarrow> h264_vui \<Rightarrow> (int option \<times> bs_t \<times> h264_vui) option" where
  "vui_timing s v = do {
     (b, s) \<leftarrow> bs_read s 1;
     let v = v\<lparr>b_timing_info_present := to_int b\<rparr>;
     if to_int b \<noteq> 0 then do {
       (n, s) \<leftarrow> bs_get_bits_long s 32;
       (t, s) \<leftarrow> bs_get_bits_long s 32;
       let v = v\<lparr>i_num_units_in_tick := to_int n, i_time_scale := to_int t\<rparr>;
       if to_int n = 0 \<or> to_int t = 0 then Some (Some (-1), s, v)
       else do {
         (b, s) \<leftarrow> bs_read s 1;
         Some (None, s, v\<lparr>b_fixed_frame_rate := to_int b\<rparr>) } }
     else Some (None, s, v) }"

definition vui_bitstream_restriction :: "bs_t \<Rightarrow> h264_vui \<Rightarrow> (int option \<times> bs_t \<times> h264_vui) option" where
  "vui_bitstream_restriction s v = do {
     (b, s) \<leftarrow> bs_read s 1;
     let v = v\<lparr>b_bitstream_restriction := to_int b\<rparr>;
     if to_int b \<noteq> 0 then do {
       (b, s) \<leftarrow> bs_read s 1;
       (u, s) \<leftarrow> bs_read_ue s;
       (u, s) \<leftarrow> bs_read_ue s;
       (u, s) \<leftarrow> bs_read_ue s;
       (u, s) \<leftarrow> bs_read_ue s;
       (u, s) \<leftarrow> bs_read_ue s;
       let v = v\<lparr>i_num_reorder_frames := u\<rparr>;
       (u, s) \<leftarrow> bs_read_ue s;
       let v = (if bs_eof s then v\<lparr>i_num_reorder_frames := 0, b_bitstream_restriction := 0\<rparr> else v);
       if (word_of_int (i_num_reorder_frames v) :: u32) > 16 then Some (Some (-1), s, v)
       else Some (None, s, v) }
     else Some (None, s, v) }"

definition decode_vui_parameters :: "bs_t \<Rightarrow> h264_sps_t \<Rightarrow> (int \<times> bs_t \<times> h264_sps_t) option" where
  "decode_vui_parameters s sps = do {
     (r, s, v) \<leftarrow> vui_aspect_ratio s (vui sps);
     case r of Some c \<Rightarrow> Some (c, s, sps\<lparr>vui := v\<rparr>) | None \<Rightarrow> do {
       (s, v) \<leftarrow> vui_signal_type s v;
       (s, v) \<leftarrow> vui_chroma_loc s v;
       (r, s, v) \<leftarrow> vui_timing s v;
       case r of Some c \<Rightarrow> Some (c, s, sps\<lparr>vui := v\<rparr>) | None \<Rightarrow> do {
         (b, s) \<leftarrow> bs_read s 1;
         let v = v\<lparr>nal_hrd_parameters_present_flag := to_int b\<rparr>;
         if to_int b \<noteq> 0 \<and> decode_hrd_parameters s sps < 0 then Some (-1, s, sps\<lparr>vui := v\<rparr>)
         else do {
           (b, s) \<leftarrow> bs_read s 1;
           let v = v\<lparr>vcl_hrd_parameters_present_flag := to_int b\<rparr>;
           if to_int b \<noteq> 0 \<and> decode_hrd_parameters s sps < 0 then Some (-1, s, sps\<lparr>vui := v\<rparr>)
           else do {
             (b, s) \<leftarrow> (if nal_hrd_parameters_present_flag v \<noteq> 0 \<or> vcl_hrd_parameters_present_flag v \<noteq> 0
                       then bs_read s 1 else Some (b, s));
             (b, s) \<leftarrow> bs_read s 1;
             let v = v\<lparr>pic_struct_present_flag := to_int b\<rparr>;
             if bs_eof s then Some (0, s, sps\<lparr>vui := v\<rparr>)
             else do {
               (r, s, v) \<leftarrow> vui_bitstream_restriction s v;
               case r of Some c \<Rightarrow> Some (c, s, sps\<lparr>vui := v\<rparr>) | None \<Rightarrow>
                 Some (if bs_eof s then -1 else 0, s, sps\<lparr>vui := v\<rparr>) } } } } } }"

section \<open>Sequence parameter set\<close>

definition sps_high_profile :: "bs_t \<Rightarrow> h264_sps_t \<Rightarrow> (int option \<times> bs_t \<times> h264_sps_t) option" where
  "sps_high_profile s sps = do {
     (u, s) \<leftarrow> bs_read_ue s;
     let sps = sps\<lparr>i_chroma_format_idc := u\<rparr>;
     if u \<ge> 32 then Some (Some (-1), s, sps)
     else do {
       (b, s) \<leftarrow> (if u = 3 then bs_read s 1 else Some (0, s));
       (u, s) \<leftarrow> bs_read_ue s;
       (u, s) \<leftarrow> bs_read_ue s;
       (b, s) \<leftarrow> bs_read s 1;
       (s, sps, m4, m8) \<leftarrow> decode_scaling_matrices s sps None 1 (scaling_matrix4 sps) (scaling_matrix8 sps);
       Some (None, s, sps\<lparr>scaling_matrix4 := m4, scaling_matrix8 := m8\<rparr>) } }"

text \<open>The loop that fills \<open>i_offset_for_ref_frame\<close>, from index \<open>i\<close>, with \<open>n\<close> entries to go.\<close>

fun sps_ref_frame_offsets :: "nat \<Rightarrow> int \<Rightarrow> bs_t \<Rightarrow> int list \<Rightarrow> (bs_t \<times> int list) option" where
  "sps_ref_frame_offsets 0 i s offs = Some (s, offs)"
| "sps_ref_frame_offsets (Suc n) i s offs =
     (case do { (v, s) \<leftarrow> bs_read_se s; offs \<leftarrow> c_write offs i v; Some (s, offs) } of
        None \<Rightarrow> None
      | Some (s, offs) \<Rightarrow> sps_ref_frame_offsets n (i + 1) s offs)"

definition sps_poc :: "bs_t \<Rightarrow> h264_sps_t \<Rightarrow> (int option \<times> bs_t \<times> h264_sps_t) option" where
  "sps_poc s sps = do {
     (u, s) \<leftarrow> bs_read_ue s;
     let sps = sps\<lparr>i_poc_type := u\<rparr>;
     if u = 0 then do {
       (u, s) \<leftarrow> bs_read_ue s;
       u \<leftarrow> c_int (u + 4);
       Some (None, s, sps\<lparr>i_log2_max_poc_lsb := u\<rparr>) }
     else if u = 1 then do {
       (b, s) \<leftarrow> bs_read s 1;
       let sps = sps\<lparr>b_delta_pic_order_always_zero := to_int b\<rparr>;
       (v, s) \<leftarrow> bs_read_se s;
       let sps = sps\<lparr>i_offset_for_non_ref_pic := v\<rparr>;
       (v, s) \<leftarrow> bs_read_se s;
       let sps = sps\<lparr>i_offset_for_top_to_bottom_field := v\<rparr>;
       (u, s) \<leftarrow> bs_read_ue s;
       let sps = sps\<lparr>i_num_ref_frames_in_poc_cycle := (if u > 256 then 256 else u)\<rparr>;
       (s, offs) \<leftarrow> sps_ref_frame_offsets (nat (i_num_ref_frames_in_poc_cycle sps)) 0 s
                     (i_offset_for_ref_frame sps);
       Some (None, s, sps\<lparr>i_offset_for_ref_frame := offs\<rparr>) }
     else if u > 2 then Some (Some (-1), s, sps\<lparr>i_id := -1\<rparr>)
     else Some (None, s, sps) }"

definition sps_size :: "bs_t \<Rightarrow> h264_sps_t \<Rightarrow> (bs_t \<times> h264_sps_t) option" where
  "sps_size s sps = do {
     (u, s) \<leftarrow> bs_read_ue s;
     let sps = sps\<lparr>i_num_ref_frames := u\<rparr>;
     (b, s) \<leftarrow> bs_read s 1;
     let sps = sps\<lparr>b_gaps_in_frame_num_value_allowed := to_int b\<rparr>;
     (u, s) \<leftarrow> bs_read_ue s;
     u \<leftarrow> c_int (u + 1);
     let sps = sps\<lparr>i_mb_width := u\<rparr>;
     (u, s) \<leftarrow> bs_read_ue s;
     u \<leftarrow> c_int (u + 1);
     let sps = sps\<lparr>i_mb_height := u\<rparr>;
     (b, s) \<leftarrow> bs_read s 1;
     let sps = sps\<lparr>b_frame_mbs_only := to_int b\<rparr>;
     (a, s) \<leftarrow> (if to_int b = 0 then bs_read s 1 else Some (0, s));
     let sps = sps\<lparr>b_mb_adaptive_frame_field := to_int a\<rparr>;
     (b, s) \<leftarrow> bs_read s 1;
     Some (s, sps\<lparr>b_direct8x8_inference := to_int b\<rparr>) }"

definition sps_crop :: "bs_t \<Rightarrow> h264_sps_t \<Rightarrow> (bs_t \<times> h264_sps_t) option" where
  "sps_crop s sps = do {
     (b, s) \<leftarrow> bs_read s 1;
     let sps = sps\<lparr>b_crop := to_int b\<rparr>;
     if to_int b \<noteq> 0 then do {
       (l, s) \<leftarrow> bs_read_ue s;
       (r, s) \<leftarrow> bs_read_ue s;
       (t, s) \<leftarrow> bs_read_ue s;
       (m, s) \<leftarrow> bs_read_ue s;
       Some (s, sps\<lparr>crop := \<lparr>crop_left = l, crop_right = r, crop_top = t, crop_bottom = m\<rparr>\<rparr>) }
     else Some (s, sps\<lparr>crop := \<lparr>crop_left = 0, crop_right = 0, crop_top = 0, crop_bottom = 0\<rparr>\<rparr>) }"

definition h264_sps_read :: "u8 list \<Rightarrow> int \<Rightarrow> h264_sps_t \<Rightarrow> (int \<times> h264_sps_t) option" where
  "h264_sps_read nal nal_len sps = do {
     let sps = sps\<lparr>scaling_matrix_present := 0\<rparr>;
     let s = bs_init (drop 1 nal) (nal_len - 1);
     (profile, s) \<leftarrow> bs_read s 8;
     (set0, s) \<leftarrow> bs_read s 1;
     (set1, s) \<leftarrow> bs_read s 1;
     (set2, s) \<leftarrow> bs_read s 1;
     let s = bs_skip s 5;
     (level, s) \<leftarrow> bs_read s 8;
     (sid, s) \<leftarrow> bs_read_ue s;
     if bs_eof s \<or> sid \<ge> 32 then Some (-1, sps)
     else do {
       let sps = sps\<lparr>i_id := sid, i_profile_idc := to_int profile, i_level_idc := to_int level,
                      b_constraint_set0 := to_int set0, b_constraint_set1 := to_int set1,
                      b_constraint_set2 := to_int set2\<rparr>;
       (r, s, sps) \<leftarrow> (if i_profile_idc sps \<ge> 100 then sps_high_profile s sps else Some (None, s, sps));
       case r of Some c \<Rightarrow> Some (c, sps) | None \<Rightarrow> do {
         (u, s) \<leftarrow> bs_read_ue s;
         u \<leftarrow> c_int (u + 4);
         let sps = sps\<lparr>i_log2_max_frame_num := u\<rparr>;
         (r, s, sps) \<leftarrow> sps_poc s sps;
         case r of Some c \<Rightarrow> Some (c, sps) | None \<Rightarrow> do {
           (s, sps) \<leftarrow> sps_size s sps;
           (s, sps) \<leftarrow> sps_crop s sps;
           (b, s) \<leftarrow> bs_read s 1;
           let sps = sps\<lparr>b_vui := to_int b\<rparr>;
           (r, s, sps) \<leftarrow> (if to_int b \<noteq> 0 then decode_vui_parameters s sps else Some (0, s, sps));
           if bs_eof s then Some (-1000, sps\<lparr>i_id := -1\<rparr>) else Some (sid, sps) } } } }"

section \<open>Picture parameter set\<close>

fun pps_run_lengths :: "nat \<Rightarrow> int \<Rightarrow> bs_t \<Rightarrow> int list \<Rightarrow> (bs_t \<times> int list) option" where
  "pps_run_lengths 0 i s rl = Some (s, rl)"
| "pps_run_lengths (Suc n) i s rl =
     (case do { (v, s) \<leftarrow> bs_read_ue s; rl \<leftarrow> c_write rl i v; Some (s, rl) } of
        None \<Rightarrow> None
      | Some (s, rl) \<Rightarrow> pps_run_lengths n (i + 1) s rl)"

fun pps_rectangles ::
  "nat \<Rightarrow> int \<Rightarrow> bs_t \<Rightarrow> int list \<Rightarrow> int list \<Rightarrow> (bs_t \<times> int list \<times> int list) option" where
  "pps_rectangles 0 i s tlft br = Some (s, tlft, br)"
| "pps_rectangles (Suc n) i s tlft br =
     (case do { (v, s) \<leftarrow> bs_read_ue s;
                tlft \<leftarrow> c_write tlft i v;
                (w, s) \<leftarrow> bs_read_ue s;
                br \<leftarrow> c_write br i w;
                Some (s, tlft, br) } of
        None \<Rightarrow> None
      | Some (s, tlft, br) \<Rightarrow> pps_rectangles n (i + 1) s tlft br)"

text \<open>Map type 6 only spins through an empty loop in C.\<close>

definition pps_slice_groups :: "bs_t \<Rightarrow> h264_pps_t \<Rightarrow> (bs_t \<times> h264_pps_t) option" where
  "pps_slice_groups s pps = do {
     (u, s) \<leftarrow> bs_read_ue s;
     let pps = pps\<lparr>i_slice_group_map_type := u\<rparr>;
     if u = 0 then do {
       (s, rl) \<leftarrow> pps_run_lengths (nat (i_num_slice_groups pps)) 0 s (i_run_length pps);
       Some (s, pps\<lparr>i_run_length := rl\<rparr>) }
     else if u = 2 then do {
       (s, tlft, br) \<leftarrow> pps_rectangles (nat (i_num_slice_groups pps)) 0 s (i_top_left pps) (i_bottom_right pps);
       Some (s, pps\<lparr>i_top_left := tlft, i_bottom_right := br\<rparr>) }
     else if u = 3 \<or> u = 4 \<or> u = 5 then do {
       (b, s) \<leftarrow> bs_read s 1;
       (u, s) \<leftarrow> bs_read_ue s;
       u \<leftarrow> c_int (u + 1);
       Some (s, pps\<lparr>b_slice_group_change_direction := to_int b, i_slice_group_change_rate := u\<rparr>) }
     else if u = 6 then do {
       (u, s) \<leftarrow> bs_read_ue s;
       u \<leftarrow> c_int (u + 1);
       Some (s, pps\<lparr>i_pic_size_in_map_units := u\<rparr>) }
     else Some (s, pps) }"

definition h264_pps_read :: "u8 list \<Rightarrow> int \<Rightarrow> h264_pps_t \<Rightarrow> (int \<times> h264_pps_t) option" where
  "h264_pps_read nal nal_len pps = do {
     let s = bs_init (drop 1 nal) (nal_len - 1);
     (pid, s) \<leftarrow> bs_read_ue s;
     if bs_eof s \<or> pid \<ge> 256 then Some (-1, pps)
     else do {
       let pps = pps\<lparr>pps_id := pid\<rparr>;
       (u, s) \<leftarrow> bs_read_ue s;
       let pps = pps\<lparr>i_sps_id := u\<rparr>;
       if u \<ge> 32 then Some (-1, pps\<lparr>pps_id := -1\<rparr>)
       else do {
         (b, s) \<leftarrow> bs_read s 1;
         let pps = pps\<lparr>b_cabac := to_int b\<rparr>;
         (b, s) \<leftarrow> bs_read s 1;
         let pps = pps\<lparr>b_pic_order := to_int b\<rparr>;
         (u, s) \<leftarrow> bs_read_ue s;
         u \<leftarrow> c_int (u + 1);
         let pps = pps\<lparr>i_num_slice_groups := u\<rparr>;
         (s, pps) \<leftarrow> (if u > 1 then pps_slice_groups s pps else Some (s, pps));
         (u, s) \<leftarrow> bs_read_ue s;
         u \<leftarrow> c_int (u + 1);
         let pps = pps\<lparr>i_num_ref_idx_l0_active := u\<rparr>;
         (u, s) \<leftarrow> bs_read_ue s;
         u \<leftarrow> c_int (u + 1);
         let pps = pps\<lparr>i_num_ref_idx_l1_active := u\<rparr>;
         (b, s) \<leftarrow> bs_read s 1;
         let pps = pps\<lparr>b_weighted_pred := to_int b\<rparr>;
         (b, s) \<leftarrow> bs_read s 2;
         let pps = pps\<lparr>b_weighted_bipred := to_int b\<rparr>;
         (v, s) \<leftarrow> bs_read_se s;
         v \<leftarrow> c_int (v + 26);
         let pps = pps\<lparr>i_pic_init_qp := v\<rparr>;
         (v, s) \<leftarrow> bs_read_se s;
         v \<leftarrow> c_int (v + 26);
         let pps = pps\<lparr>i_pic_init_qs := v\<rparr>;
         (v, s) \<leftarrow> bs_read_se s;
         let pps = pps\<lparr>i_chroma_qp_index_offset := v\<rparr>;
         (b, s) \<leftarrow> bs_read s 1;
         let pps = pps\<lparr>b_deblocking_filter_control := to_int b\<rparr>;
         (b, s) \<leftarrow> bs_read s 1;
         let pps = pps\<lparr>b_constrained_intra_pred := to_int b\<rparr>;
         (b, s) \<leftarrow> bs_read s 1;
         let pps = pps\<lparr>b_redundant_pic_cnt := to_int b\<rparr>;
         if bs_eof s then Some (-1, pps\<lparr>pps_id := -1\<rparr>) else Some (pid, pps) } } }"

section \<open>Safety\<close>

lemma rd_safe_long: 
  assumes "rd_safe s" "\<And>v t. rd_safe t \<Longrightarrow> Q (v, t)"
  shows "completes (bs_get_bits_long s 32) Q"
  unfolding bs_get_bits_long_def by (rule rd_safe_read) (use assms in auto)

lemmas safe_step = rd_safe_read rd_safe_ue rd_safe_se rd_safe_long completes_c_int completes_if completes_let 

lemma vui_aspect_ratio_safe:
  assumes "rd_safe s"
  shows "completes (vui_aspect_ratio s v) (\<lambda>(r, t, w). rd_safe t)"
  unfolding vui_aspect_ratio_def
  by (simp only: completes_bind, rule safe_step)
   (auto simp: assms completes_bind intro!: safe_step)

lemma vui_signal_type_safe:
  assumes "rd_safe s"
  shows "completes (vui_signal_type s v) (\<lambda>(t, w). rd_safe t)"
  unfolding vui_signal_type_def completes_bind
  by (auto simp: assms completes_bind in_int_def intro!: safe_step)

definition is_scan :: "nat \<Rightarrow> int list \<Rightarrow> bool" where
  "is_scan n scan \<longleftrightarrow> length scan = n \<and> distinct scan \<and> set scan = int ` {..<n}"

lemma is_scan_zigzag: "is_scan 16 zigzag_scan" "is_scan 64 ff_zigzag_direct"
  unfolding is_scan_def by code_simp+

definition factors_ok :: "nat \<Rightarrow> u8 list \<Rightarrow> bool" where
  "factors_ok n f \<longleftrightarrow> length f = n \<and> 0 \<notin> set f"

lemma is_scan_nth: "is_scan sz scan \<Longrightarrow> i < sz \<Longrightarrow> 0 \<le> scan ! i \<and> scan ! i < int sz"
  using nth_mem [of i scan] by (auto simp: is_scan_def)

lemma is_scan_inj: "is_scan sz scan \<Longrightarrow> i < sz \<Longrightarrow> j < sz \<Longrightarrow> nat (scan ! i) = nat (scan ! j) \<longleftrightarrow> i = j"
  using is_scan_nth [of sz scan i] is_scan_nth [of sz scan j]
  by (auto simp: is_scan_def eq_nat_nat_iff nth_eq_iff_index_eq)

lemma is_scan_all:
  assumes "is_scan sz scan" "length f = sz" "\<forall>k < sz. f ! nat (scan ! k) \<noteq> (0 :: u8)"
  shows "factors_ok sz f"
proof -
  have "f ! j \<noteq> 0" if "j < sz" for j
  proof -
    have "int j \<in> set scan" using assms(1) that by (auto simp: is_scan_def)
    then obtain k where "k < sz" "scan ! k = int j" using assms(1) by (auto simp: in_set_conv_nth is_scan_def)
    then show ?thesis using assms(3) by (metis nat_int)
  qed
  then show ?thesis using assms(2) by (auto simp: factors_ok_def in_set_conv_nth)
qed

lemma scaling_loop_ok:
  assumes "rd_safe s" "is_scan sz scan" "n \<le> sz" "length factors = sz" "0 < lst" "lst < 256"
    "0 \<le> nxt" "nxt < 256" "factors_ok sz jvt" "\<forall>k < sz - n. factors ! nat (scan ! k) \<noteq> 0"
  shows "completes (scaling_loop n (int sz) scan jvt lst nxt s factors)
    (\<lambda>(t, f). rd_safe t \<and> factors_ok sz f)"
  using assms
proof (induction n arbitrary: s factors lst nxt)
  case 0
  then show ?case using is_scan_all by simp
next
  case (Suc n)
  define i where "i = sz - Suc n"
  have i: "i < sz" "int sz - int (Suc n) = int i" using Suc.prems by (auto simp: i_def)
  have step: "completes (case p of (nxt, s) \<Rightarrow>
        if int sz - int (Suc n) = 0 \<and> nxt = 0 then Some (s, jvt)
        else let v = word_of_int (if nxt \<noteq> 0 then nxt else lst) :: u8 in
            (case do { j \<leftarrow> c_read scan (int sz - int (Suc n)); c_write factors j v } of
               None \<Rightarrow> None
             | Some factors \<Rightarrow> scaling_loop n (int sz) scan jvt (uint v) nxt s factors))
     (\<lambda>(t, f). rd_safe t \<and> factors_ok sz f)"
    if p: "0 \<le> fst p" "fst p < 256" "rd_safe (snd p)" for p
  proof -
    obtain x t where xt: "p = (x, t)" by force
    define m where "m = (if x \<noteq> 0 then x else lst)"
    have m: "0 < m" "m < 256" using p Suc.prems xt by (auto simp: m_def)
    then have um: "uint (word_of_int m :: u8) = m" by (simp add: uint_word_of_int)
    then have nz: "(word_of_int m :: u8) \<noteq> 0" using m by (metis less_irrefl unsigned_0)
    have "completes (scaling_loop n (int sz) scan jvt m x t (factors[nat (scan ! i) := word_of_int m]))
       (\<lambda>(t, f). rd_safe t \<and> factors_ok sz f)"
    proof (rule Suc.IH)
      show "\<forall>k < sz - n. factors[nat (scan ! i) := word_of_int m] ! nat (scan ! k) \<noteq> 0"
      proof (intro allI impI)
        fix k assume k: "k < sz - n"
        show "factors[nat (scan ! i) := word_of_int m] ! nat (scan ! k) \<noteq> 0"
        proof (cases "k = i")
          case True
          then show ?thesis using nz is_scan_nth [OF Suc.prems(2) i(1)] Suc.prems(4)
            by (simp add: nat_less_iff)
        next
          case False
          then have "k < sz - Suc n" "k < sz" using k by (auto simp: i_def)
          then show ?thesis using Suc.prems(10) is_scan_inj [OF Suc.prems(2) i(1), of k] False by simp
        qed
      qed
    qed (use p m Suc.prems xt in auto)
    then show ?thesis
      using Suc.prems(2,4,9) i is_scan_nth [OF Suc.prems(2) i(1)] um p(3) xt
      by (simp add: m_def [symmetric] is_scan_def)
  qed
  show ?case
  proof (cases "nxt = 0")
    case True
    then show ?thesis using step [of "(0, s)"] Suc.prems by simp
  next
    case False
    have "completes (do { (u, s) \<leftarrow> bs_read_ue s; t \<leftarrow> c_int (lst + u); Some (t AND 0xff, s) })
      (\<lambda>p. 0 \<le> fst p \<and> fst p < 256 \<and> rd_safe (snd p))"
      using Suc.prems
      by (auto simp: completes_bind in_int_def intro!: safe_step intro: order.strict_trans1 [OF AND_upper2'])
    then show ?thesis using False step unfolding completes_iff by fastforce
  qed
qed

lemma decode_scaling_list_ok:
  assumes "rd_safe s" "sz = 16 \<or> sz = 64" "length factors = sz" "factors_ok sz jvt" "factors_ok sz fallback"
  shows "completes (decode_scaling_list s factors sz jvt fallback) (\<lambda>(t, f). rd_safe t \<and> factors_ok sz f)"
proof -
  have "is_scan sz (if sz = 16 then zigzag_scan else ff_zigzag_direct)"
    using assms(2) is_scan_zigzag by auto
  then show ?thesis using assms scaling_loop_ok [of _ sz _ sz factors 8 8 jvt]
    unfolding decode_scaling_list_def Let_def completes_bind
    by (auto intro!: safe_step)
qed

definition matrix_shape :: "nat \<Rightarrow> u8 list list \<Rightarrow> bool" where
  "matrix_shape n m \<longleftrightarrow> length m = 6 \<and> (\<forall>f \<in> set m. length f = n)"

lemma decode_into_ok:
  assumes "rd_safe s" "sz = 16 \<or> sz = 64" "matrix_shape sz m" "k < 6" "factors_ok sz jvt" "factors_ok sz fallback"
  shows "completes (decode_into s m (int k) sz jvt fallback)
    (\<lambda>(t, m'). rd_safe t \<and> matrix_shape sz m' \<and> factors_ok sz (m' ! k) \<and> (\<forall>j. j \<noteq> k \<longrightarrow> m' ! j = m ! j))"
proof -
  have "length (m ! k) = sz" using assms by (simp add: matrix_shape_def)
  then have "completes (decode_scaling_list s (m ! k) sz jvt fallback) (\<lambda>(t, f). rd_safe t \<and> factors_ok sz f)"
    using decode_scaling_list_ok assms by blast
  then show ?thesis using assms
    by (auto simp: decode_into_def completes_bind matrix_shape_def factors_ok_def completes_iff dest!: set_update_subset_insert [THEN subsetD])
qed

lemma decode_into_step:
  assumes "rd_safe s" "sz = 16 \<or> sz = 64" "matrix_shape sz m" "0 \<le> i" "i < 6" "factors_ok sz jvt" "factors_ok sz fallback"
    "\<And>t m'. rd_safe t \<Longrightarrow> matrix_shape sz m' \<Longrightarrow> factors_ok sz (m' ! nat i) \<Longrightarrow>
       (\<And>j. factors_ok sz (m ! j) \<Longrightarrow> factors_ok sz (m' ! j)) \<Longrightarrow> Q (t, m')"
  shows "completes (decode_into s m i sz jvt fallback) Q"
proof -
  have "completes (decode_into s m (int (nat i)) sz jvt fallback)
    (\<lambda>(t, m'). rd_safe t \<and> matrix_shape sz m' \<and> factors_ok sz (m' ! nat i) \<and> (\<forall>j. j \<noteq> nat i \<longrightarrow> m' ! j = m ! j))"
    by (rule decode_into_ok) (use assms in auto)
  then have "completes (decode_into s m (int (nat i)) sz jvt fallback) Q"
    by (rule completes_mono) (use assms(8) in \<open>auto, metis\<close>)
  then show ?thesis using assms(4) by simp
qed

lemma default_scaling_ok:
  "factors_ok 16 (default_scaling4 ! 0)" "factors_ok 16 (default_scaling4 ! Suc 0)"
  "factors_ok 64 (default_scaling8 ! 0)" "factors_ok 64 (default_scaling8 ! Suc 0)"
  unfolding factors_ok_def by code_simp+

definition sps_shape :: "h264_sps_t \<Rightarrow> bool" where
  "sps_shape sps \<longleftrightarrow> length (i_offset_for_ref_frame sps) = 256 \<and>
     matrix_shape 16 (scaling_matrix4 sps) \<and> matrix_shape 64 (scaling_matrix8 sps)"

definition scaling_ok :: "h264_sps_t \<Rightarrow> u8 list list \<Rightarrow> u8 list list \<Rightarrow> bool" where
  "scaling_ok sps m4 m8 \<longleftrightarrow> (scaling_matrix_present sps \<noteq> 0 \<longrightarrow>
     (\<forall>k < 6. factors_ok 16 (m4 ! k)) \<and> factors_ok 64 (m8 ! 0) \<and> factors_ok 64 (m8 ! 3) \<and>
     (i_chroma_format_idc sps = 3 \<longrightarrow> (\<forall>k < 6. factors_ok 64 (m8 ! k))))"

lemma decode_scaling_matrices_ok:
  assumes "rd_safe s" "matrix_shape 16 m4" "matrix_shape 64 m8" "scaling_matrix_present sps = 0"
  shows "completes (decode_scaling_matrices s sps None 1 m4 m8)
    (\<lambda>(t, sps', m4', m8'). rd_safe t \<and> matrix_shape 16 m4' \<and> matrix_shape 64 m8' \<and>
       scaling_ok sps' m4' m8' \<and> i_id sps' = i_id sps \<and> i_offset_for_ref_frame sps' = i_offset_for_ref_frame sps)"
proof -
  have lt6: "(k < 6) = (k = 0 \<or> k = 1 \<or> k = 2 \<or> k = 3 \<or> k = 4 \<or> k = (5::nat))" for k by auto
  show ?thesis
    unfolding decode_scaling_matrices_def Let_def completes_bind
    by (auto simp: completes_bind assms default_scaling_ok scaling_ok_def lt6
        intro!: rd_safe_read completes_if decode_into_step)
qed

definition sps_inv :: "h264_sps_t \<Rightarrow> bool" where
  "sps_inv sps \<longleftrightarrow> sps_shape sps \<and> scaling_ok sps (scaling_matrix4 sps) (scaling_matrix8 sps)"

lemma sps_updates [simp]:
  "sps_inv (sps\<lparr>i_id := x\<rparr>) = sps_inv sps"
  "sps_shape (sps\<lparr>i_id := x\<rparr>) = sps_shape sps"
  "sps_inv (sps\<lparr>i_profile_idc := x\<rparr>) = sps_inv sps"
  "sps_shape (sps\<lparr>i_profile_idc := x\<rparr>) = sps_shape sps"
  "sps_inv (sps\<lparr>i_level_idc := x\<rparr>) = sps_inv sps"
  "sps_shape (sps\<lparr>i_level_idc := x\<rparr>) = sps_shape sps"
  "sps_inv (sps\<lparr>b_constraint_set0 := x\<rparr>) = sps_inv sps"
  "sps_shape (sps\<lparr>b_constraint_set0 := x\<rparr>) = sps_shape sps"
  "sps_inv (sps\<lparr>b_constraint_set1 := x\<rparr>) = sps_inv sps"
  "sps_shape (sps\<lparr>b_constraint_set1 := x\<rparr>) = sps_shape sps"
  "sps_inv (sps\<lparr>b_constraint_set2 := x\<rparr>) = sps_inv sps"
  "sps_shape (sps\<lparr>b_constraint_set2 := x\<rparr>) = sps_shape sps"
  "sps_inv (sps\<lparr>i_log2_max_frame_num := x\<rparr>) = sps_inv sps"
  "sps_shape (sps\<lparr>i_log2_max_frame_num := x\<rparr>) = sps_shape sps"
  "sps_inv (sps\<lparr>b_vui := x\<rparr>) = sps_inv sps"
  "sps_shape (sps\<lparr>b_vui := x\<rparr>) = sps_shape sps"
  "sps_shape (sps\<lparr>scaling_matrix_present := p\<rparr>) = sps_shape sps"
  by (simp_all add: sps_inv_def sps_shape_def scaling_ok_def)

lemma sps_high_profile_safe:
  assumes "rd_safe s" "sps_shape sps" "scaling_matrix_present sps = 0"
  shows "completes (sps_high_profile s sps)
    (\<lambda>(r, t, sps'). rd_safe t \<and> sps_inv sps' \<and> i_id sps' = i_id sps \<and> (r = None \<or> r = Some (-1)))"
proof -
  have d: "completes (decode_scaling_matrices t (sps\<lparr>i_chroma_format_idc := u\<rparr>) None 1
         (scaling_matrix4 sps) (scaling_matrix8 sps))
       (\<lambda>x. case x of (t, sps', m4, m8) \<Rightarrow> rd_safe t \<and>
          sps_inv (sps'\<lparr>scaling_matrix4 := m4, scaling_matrix8 := m8\<rparr>) \<and> i_id sps' = i_id sps)"
    if "rd_safe t" for t u
    by (rule completes_mono [OF decode_scaling_matrices_ok])
      (use assms that in \<open>auto simp: sps_inv_def sps_shape_def scaling_ok_def\<close>)
  have z: "sps_inv (sps\<lparr>i_chroma_format_idc := v\<rparr>)" for v
    using assms by (simp add: sps_inv_def sps_shape_def scaling_ok_def)
  show ?thesis
    unfolding sps_high_profile_def completes_bind
    using assms
    by (auto simp: completes_bind z intro!: safe_step completes_mono [OF d])
qed

lemma sps_ref_frame_offsets_safe:
  assumes "rd_safe s" "0 \<le> i" "i + int n \<le> int (length offs)"
  shows "completes (sps_ref_frame_offsets n i s offs) (\<lambda>(t, offs'). rd_safe t \<and> length offs' = length offs)"
  using assms
proof (induction n arbitrary: i s offs)
  case (Suc n)
  have "completes (do { (v, s) \<leftarrow> bs_read_se s; offs \<leftarrow> c_write offs i v; Some (s, offs) })
     (\<lambda>(t, offs'). rd_safe t \<and> length offs' = length offs)"
    using Suc.prems by (auto simp: completes_bind intro!: safe_step)
  then show ?case using Suc.IH [of _ "i + 1"] Suc.prems by (force simp: completes_iff)
qed simp

lemma sps_poc_safe:
  assumes "rd_safe s" "sps_inv sps"
  shows "completes (sps_poc s sps)
    (\<lambda>(r, t, sps'). rd_safe t \<and> sps_inv sps' \<and> (r = None \<and> i_id sps' = i_id sps \<or> r = Some (-1) \<and> i_id sps' = - 1))"
proof -
  have l: "completes (sps_ref_frame_offsets n 0 t (i_offset_for_ref_frame sps))
    (\<lambda>x. case x of (t, offs) \<Rightarrow> rd_safe t \<and> length offs = 256)" if "rd_safe t" "n \<le> 256" for t n
    by (rule completes_mono [OF sps_ref_frame_offsets_safe])
      (use assms that in \<open>auto simp: sps_inv_def sps_shape_def\<close>)
  show ?thesis
    unfolding sps_poc_def completes_bind
    using assms
    by (auto simp: completes_bind sps_inv_def sps_shape_def scaling_ok_def in_int_def
      nat_le_iff intro!: safe_step completes_mono [OF l])
qed

lemma sps_size_safe:
  assumes "rd_safe s" "sps_inv sps"
  shows "completes (sps_size s sps)
    (\<lambda>(t, sps'). rd_safe t \<and> sps_inv sps' \<and> i_id sps' = i_id sps \<and> 1 \<le> i_mb_width sps' \<and> 1 \<le> i_mb_height sps')"
  unfolding sps_size_def completes_bind
  using assms
  by (auto simp: completes_bind sps_inv_def sps_shape_def scaling_ok_def in_int_def intro!: safe_step)

lemma sps_crop_safe:
  assumes "rd_safe s" "sps_inv sps"
  shows "completes (sps_crop s sps)
    (\<lambda>(t, sps'). rd_safe t \<and> sps_inv sps' \<and> i_id sps' = i_id sps \<and>
      i_mb_width sps' = i_mb_width sps \<and> i_mb_height sps' = i_mb_height sps)"
  unfolding sps_crop_def completes_bind
  using assms
  by (auto simp: completes_bind sps_inv_def sps_shape_def scaling_ok_def in_int_def intro!: safe_step)

lemma vui_chroma_loc_safe:
  assumes "rd_safe s"
  shows "completes (vui_chroma_loc s v) (\<lambda>(t, w). rd_safe t)"
  unfolding vui_chroma_loc_def completes_bind
  by (auto simp: assms completes_bind in_int_def intro!: safe_step)

lemma vui_timing_safe:
  assumes "rd_safe s"
  shows "completes (vui_timing s v) (\<lambda>(r, t, w). rd_safe t)"
  unfolding vui_timing_def completes_bind
  by (auto simp: assms completes_bind in_int_def intro!: safe_step)

lemma vui_bitstream_restriction_safe:
  assumes "rd_safe s"
  shows "completes (vui_bitstream_restriction s v) (\<lambda>(r, t, w). rd_safe t)"
  unfolding vui_bitstream_restriction_def completes_bind
  by (auto simp: assms completes_bind in_int_def Let_def intro!: safe_step)

lemmas vui_safe = 
  vui_aspect_ratio_safe [THEN completes_mono] vui_signal_type_safe [THEN completes_mono] vui_chroma_loc_safe [THEN completes_mono] vui_timing_safe [THEN completes_mono]
  vui_bitstream_restriction_safe [THEN completes_mono]

lemma decode_vui_parameters_safe:
  assumes "rd_safe s" "sps_inv sps"
  shows "completes (decode_vui_parameters s sps)
    (\<lambda>(r, t, sps'). rd_safe t \<and> sps_inv sps' \<and> i_id sps' = i_id sps \<and>
      i_mb_width sps' = i_mb_width sps \<and> i_mb_height sps' = i_mb_height sps)"
proof -
  have inv: "sps_inv (sps\<lparr>vui := v\<rparr>)" for v using assms(2) by (simp add: sps_inv_def sps_shape_def scaling_ok_def)
  show ?thesis
  unfolding decode_vui_parameters_def completes_bind
  using assms(1)
  by (auto simp: completes_bind inv Let_def split: option.split intro!: safe_step vui_safe)
qed

lemma h264_sps_read_safe:
  assumes "no_start_code (drop 1 nal)" "1 \<le> n" "n \<le> int (length nal)" "sps_shape sps"
  shows "completes (h264_sps_read nal n sps)
    (\<lambda>(r, sps'). sps_inv sps' \<and>
      (r = -1 \<or> r = -1000 \<and> i_id sps' = -1 \<or>
       0 \<le> r \<and> r < 32 \<and> i_id sps' = r \<and> 1 \<le> i_mb_width sps' \<and> 1 \<le> i_mb_height sps'))"
proof -
  have init: "rd_safe (bs_init (drop 1 nal) (n - 1))"
    by (rule no_start_code_short_runs) (use assms in auto)
  have inv: "sps_inv (sps\<lparr>scaling_matrix_present := 0\<rparr>)" 
    using assms(4) by (simp add: sps_inv_def sps_shape_def scaling_ok_def)
  show ?thesis
    unfolding h264_sps_read_def Let_def completes_bind
    using init assms inv
    by (auto simp: completes_bind in_int_def split: option.split intro!: safe_step rd_safe_skip
      sps_high_profile_safe [THEN completes_mono] sps_poc_safe [THEN completes_mono] 
      sps_size_safe [THEN completes_mono] sps_crop_safe [THEN completes_mono]
      decode_vui_parameters_safe [THEN completes_mono])
qed

section \<open>Decoding an encoded parameter set\<close>

text \<open>The syntax elements of a sequence parameter set of a profile below 100 (baseline, main and extended: no
  high-profile section), as an encoder writes them, and the structure they decode to. The picture order count has
  one of the three types of the standard; the video usability information may be there, but without the
  parameters of a hypothetical reference decoder: \<open>decode_hrd_parameters\<close> does not read them.\<close>

datatype poc_fields = Poc0 nat | Poc1 bool int int "int list" | Poc2

record vui_fields =
  vf_aspect :: "(nat + nat \<times> nat) option"
  vf_overscan :: "bool option"
  vf_signal :: "(nat \<times> bool \<times> (nat \<times> nat \<times> nat) option) option"
  vf_chroma :: "(nat \<times> nat) option"
  vf_timing :: "(nat \<times> nat \<times> bool) option"
  vf_pic_struct :: bool
  vf_restriction :: "(bool \<times> nat \<times> nat \<times> nat \<times> nat \<times> nat \<times> nat) option"

record sps_fields =
  f_profile :: nat
  f_sets :: "bool \<times> bool \<times> bool"
  f_level :: nat
  f_id :: nat
  f_frame_num :: nat
  f_poc :: poc_fields
  f_refs :: nat
  f_gaps :: bool
  f_width :: nat
  f_height :: nat
  f_mbs_only :: bool
  f_adaptive :: bool
  f_direct :: bool
  f_crop :: "(nat \<times> nat \<times> nat \<times> nat) option"
  f_vui :: "vui_fields option"

definition flag :: "bool \<Rightarrow> bool list" where
  "flag b = to_bits 1 (of_bool b)"

definition se_code :: "int \<Rightarrow> bool list" where
  "se_code x = ue_code (nat (if 0 < x then 2 * x - 1 else - 2 * x))"

fun poc_code :: "poc_fields \<Rightarrow> bool list" where
  "poc_code (Poc0 lsb) = ue_code 0 @ ue_code lsb"
| "poc_code (Poc1 zero non_ref top_bottom offs) =
     ue_code 1 @ flag zero @ se_code non_ref @ se_code top_bottom @ ue_code (length offs) @ concat (map se_code offs)"
| "poc_code Poc2 = ue_code 2"

definition aspect_code :: "(nat + nat \<times> nat) option \<Rightarrow> bool list" where
  "aspect_code a = (case a of None \<Rightarrow> flag False
     | Some (Inl idc) \<Rightarrow> flag True @ to_bits 8 idc
     | Some (Inr (w, h)) \<Rightarrow> flag True @ to_bits 8 255 @ to_bits 16 w @ to_bits 16 h)"

definition overscan_code :: "bool option \<Rightarrow> bool list" where
  "overscan_code x = (case x of None \<Rightarrow> flag False | Some b \<Rightarrow> flag True @ flag b)"

definition signal_code :: "(nat \<times> bool \<times> (nat \<times> nat \<times> nat) option) option \<Rightarrow> bool list" where
  "signal_code x = (case x of None \<Rightarrow> flag False
     | Some (fmt, full, None) \<Rightarrow> flag True @ to_bits 3 fmt @ flag full @ flag False
     | Some (fmt, full, Some (p, q, m)) \<Rightarrow>
         flag True @ to_bits 3 fmt @ flag full @ flag True @ to_bits 8 p @ to_bits 8 q @ to_bits 8 m)"

definition chroma_code :: "(nat \<times> nat) option \<Rightarrow> bool list" where
  "chroma_code x = (case x of None \<Rightarrow> flag False | Some (t, b) \<Rightarrow> flag True @ ue_code t @ ue_code b)"

definition timing_code :: "(nat \<times> nat \<times> bool) option \<Rightarrow> bool list" where
  "timing_code x = (case x of None \<Rightarrow> flag False | Some (n, t, b) \<Rightarrow> flag True @ to_bits 32 n @ to_bits 32 t @ flag b)"

definition restriction_code :: "(bool \<times> nat \<times> nat \<times> nat \<times> nat \<times> nat \<times> nat) option \<Rightarrow> bool list" where
  "restriction_code x = (case x of None \<Rightarrow> flag False
     | Some (mv, a, b, c, d, reorder, buf) \<Rightarrow>
         flag True @ flag mv @ ue_code a @ ue_code b @ ue_code c @ ue_code d @ ue_code reorder @ ue_code buf)"

definition vui_code :: "vui_fields \<Rightarrow> bool list" where
  "vui_code v = aspect_code (vf_aspect v) @ overscan_code (vf_overscan v) @ signal_code (vf_signal v) @
     chroma_code (vf_chroma v) @ timing_code (vf_timing v) @ flag False @ flag False @ flag (vf_pic_struct v) @
     restriction_code (vf_restriction v)"

definition sps_code :: "sps_fields \<Rightarrow> bool list" where
  "sps_code f =
     to_bits 8 (f_profile f) @
     (case f_sets f of (a, b, c) \<Rightarrow> flag a @ flag b @ flag c) @ to_bits 5 0 @
     to_bits 8 (f_level f) @ ue_code (f_id f) @
     ue_code (f_frame_num f) @ poc_code (f_poc f) @
     ue_code (f_refs f) @ flag (f_gaps f) @ ue_code (f_width f) @ ue_code (f_height f) @
     flag (f_mbs_only f) @ (if f_mbs_only f then [] else flag (f_adaptive f)) @ flag (f_direct f) @
     (case f_crop f of None \<Rightarrow> flag False
      | Some (l, r, t, b) \<Rightarrow> flag True @ ue_code l @ ue_code r @ ue_code t @ ue_code b) @
     (case f_vui f of None \<Rightarrow> flag False | Some v \<Rightarrow> flag True @ vui_code v)"

definition se_ok :: "int \<Rightarrow> bool" where
  "se_ok x \<longleftrightarrow> - (2 ^ 29) < x \<and> x < 2 ^ 29"

fun poc_ok :: "poc_fields \<Rightarrow> bool" where
  "poc_ok (Poc0 lsb) \<longleftrightarrow> lsb < 2 ^ 30"
| "poc_ok (Poc1 zero non_ref top_bottom offs) \<longleftrightarrow> se_ok non_ref \<and> se_ok top_bottom \<and> length offs \<le> 256 \<and> list_all se_ok offs"
| "poc_ok Poc2 \<longleftrightarrow> True"

text \<open>The aspect ratios of the table are 0 to 16; a time scale of zero is refused; at most 16 frames are reordered.\<close>

definition vui_ok :: "vui_fields \<Rightarrow> bool" where
  "vui_ok v \<longleftrightarrow>
     (case vf_aspect v of None \<Rightarrow> True | Some (Inl idc) \<Rightarrow> idc < 17 | Some (Inr (w, h)) \<Rightarrow> w < 2 ^ 16 \<and> h < 2 ^ 16) \<and>
     (case vf_signal v of None \<Rightarrow> True | Some (fmt, full, None) \<Rightarrow> fmt < 8
      | Some (fmt, full, Some (p, q, m)) \<Rightarrow> fmt < 8 \<and> p < 256 \<and> q < 256 \<and> m < 256) \<and>
     (case vf_chroma v of None \<Rightarrow> True | Some (t, b) \<Rightarrow> t < 2 ^ 30 \<and> b < 2 ^ 30) \<and>
     (case vf_timing v of None \<Rightarrow> True | Some (n, t, b) \<Rightarrow> 0 < n \<and> n < 2 ^ 32 \<and> 0 < t \<and> t < 2 ^ 32) \<and>
     (case vf_restriction v of None \<Rightarrow> True
      | Some (mv, a, b, c, d, reorder, buf) \<Rightarrow>
          a < 2 ^ 30 \<and> b < 2 ^ 30 \<and> c < 2 ^ 30 \<and> d < 2 ^ 30 \<and> reorder \<le> 16 \<and> buf < 2 ^ 30)"

definition sps_fields_ok :: "sps_fields \<Rightarrow> bool" where
  "sps_fields_ok f \<longleftrightarrow> f_profile f < 100 \<and> f_level f < 256 \<and> f_id f < 32 \<and>
     f_frame_num f < 2 ^ 30 \<and> poc_ok (f_poc f) \<and> f_refs f < 2 ^ 30 \<and>
     f_width f < 2 ^ 30 \<and> f_height f < 2 ^ 30 \<and>
     (case f_crop f of None \<Rightarrow> True | Some (l, r, t, b) \<Rightarrow> l < 2 ^ 30 \<and> r < 2 ^ 30 \<and> t < 2 ^ 30 \<and> b < 2 ^ 30) \<and>
     (case f_vui f of None \<Rightarrow> True | Some v \<Rightarrow> vui_ok v)"

fun poc_of :: "poc_fields \<Rightarrow> h264_sps_t \<Rightarrow> h264_sps_t" where
  "poc_of (Poc0 lsb) sps = sps\<lparr>i_poc_type := 0, i_log2_max_poc_lsb := int lsb + 4\<rparr>"
| "poc_of (Poc1 zero non_ref top_bottom offs) sps = sps\<lparr>i_poc_type := 1, b_delta_pic_order_always_zero := of_bool zero,
     i_offset_for_non_ref_pic := non_ref, i_offset_for_top_to_bottom_field := top_bottom,
     i_num_ref_frames_in_poc_cycle := int (length offs),
     i_offset_for_ref_frame := offs @ drop (length offs) (i_offset_for_ref_frame sps)\<rparr>"
| "poc_of Poc2 sps = sps\<lparr>i_poc_type := 2\<rparr>"

definition aspect_of :: "(nat + nat \<times> nat) option \<Rightarrow> h264_vui \<Rightarrow> h264_vui" where
  "aspect_of a v = (case a of None \<Rightarrow> v\<lparr>b_aspect_ratio_info_present := 0, i_sar_width := 0, i_sar_height := 0\<rparr>
     | Some (Inl idc) \<Rightarrow> v\<lparr>b_aspect_ratio_info_present := 1\<rparr>
     | Some (Inr (w, h)) \<Rightarrow> v\<lparr>b_aspect_ratio_info_present := 1, i_sar_width := int w, i_sar_height := int h\<rparr>)"

text \<open>Values of the colour description beyond the tables count as unspecified, which is 2.\<close>

definition signal_of :: "(nat \<times> bool \<times> (nat \<times> nat \<times> nat) option) option \<Rightarrow> h264_vui \<Rightarrow> h264_vui" where
  "signal_of x v = (case x of None \<Rightarrow> v\<lparr>b_signal_type_present := 0\<rparr>
     | Some (fmt, full, None) \<Rightarrow> v\<lparr>b_signal_type_present := 1, i_vidformat := int fmt, b_fullrange := of_bool full,
         b_color_description_present := 0\<rparr>
     | Some (fmt, full, Some (p, q, m)) \<Rightarrow> v\<lparr>b_signal_type_present := 1, i_vidformat := int fmt, b_fullrange := of_bool full,
         b_color_description_present := 1, i_colorprim := (if p \<ge> 9 then 2 else int p),
         i_transfer := (if q \<ge> 8 then 2 else int q), i_colmatrix := (if m \<ge> 9 then 2 else int m)\<rparr>)"

definition chroma_of :: "(nat \<times> nat) option \<Rightarrow> h264_vui \<Rightarrow> h264_vui" where
  "chroma_of x v = (case x of None \<Rightarrow> v | Some (t, b) \<Rightarrow> v\<lparr>i_chroma_loc_top := int t + 1\<rparr>)"

definition timing_of :: "(nat \<times> nat \<times> bool) option \<Rightarrow> h264_vui \<Rightarrow> h264_vui" where
  "timing_of x v = (case x of None \<Rightarrow> v\<lparr>b_timing_info_present := 0\<rparr>
     | Some (n, t, b) \<Rightarrow> v\<lparr>b_timing_info_present := 1, i_num_units_in_tick := to_int (of_nat n), i_time_scale := to_int (of_nat t),
         b_fixed_frame_rate := of_bool b\<rparr>)"

definition restriction_of :: "(bool \<times> nat \<times> nat \<times> nat \<times> nat \<times> nat \<times> nat) option \<Rightarrow> h264_vui \<Rightarrow> h264_vui" where
  "restriction_of x v = (case x of None \<Rightarrow> v\<lparr>b_bitstream_restriction := 0\<rparr>
     | Some (mv, a, b, c, d, reorder, buf) \<Rightarrow> v\<lparr>b_bitstream_restriction := 1, i_num_reorder_frames := int reorder\<rparr>)"

definition vui_of :: "vui_fields \<Rightarrow> h264_vui \<Rightarrow> h264_vui" where
  "vui_of x v = restriction_of (vf_restriction x)
     ((timing_of (vf_timing x) (chroma_of (vf_chroma x) (signal_of (vf_signal x) (aspect_of (vf_aspect x) v))))
       \<lparr>nal_hrd_parameters_present_flag := 0, vcl_hrd_parameters_present_flag := 0,
        pic_struct_present_flag := of_bool (vf_pic_struct x)\<rparr>)"

text \<open>The elements that the decoder does not keep are absent from the structure, and the structure's earlier values
  stay where an element is not encoded, as in the C code.\<close>

definition sps_of_fields :: "sps_fields \<Rightarrow> h264_sps_t \<Rightarrow> h264_sps_t" where
  "sps_of_fields f sps = (poc_of (f_poc f) (sps\<lparr>
     scaling_matrix_present := 0,
     i_id := int (f_id f), i_profile_idc := int (f_profile f), i_level_idc := int (f_level f),
     b_constraint_set0 := of_bool (fst (f_sets f)), b_constraint_set1 := of_bool (fst (snd (f_sets f))),
     b_constraint_set2 := of_bool (snd (snd (f_sets f))),
     i_log2_max_frame_num := int (f_frame_num f) + 4\<rparr>))\<lparr>
     i_num_ref_frames := int (f_refs f),
     b_gaps_in_frame_num_value_allowed := of_bool (f_gaps f),
     i_mb_width := int (f_width f) + 1, i_mb_height := int (f_height f) + 1,
     b_frame_mbs_only := of_bool (f_mbs_only f),
     b_mb_adaptive_frame_field := of_bool (\<not> f_mbs_only f \<and> f_adaptive f),
     b_direct8x8_inference := of_bool (f_direct f),
     b_crop := of_bool (f_crop f \<noteq> None),
     crop := (case f_crop f of None \<Rightarrow> \<lparr>crop_left = 0, crop_right = 0, crop_top = 0, crop_bottom = 0\<rparr>
       | Some (l, r, t, b) \<Rightarrow> \<lparr>crop_left = int l, crop_right = int r, crop_top = int t, crop_bottom = int b\<rparr>),
     b_vui := of_bool (f_vui f \<noteq> None),
     vui := (case f_vui f of None \<Rightarrow> vui sps | Some x \<Rightarrow> vui_of x (vui sps))\<rparr>"

lemma completes_flag:
  assumes "bs_wf s" "remaining s = flag b @ rest"
    "\<And>t w. bs_wf t \<Longrightarrow> remaining t = rest \<Longrightarrow> to_int w = of_bool b \<Longrightarrow> (w = 0 \<longleftrightarrow> \<not> b) \<Longrightarrow> Q (w, t)"
  shows "completes (bs_read s 1) Q"
  by (rule completes_bits [of s 1 "of_bool b" rest]) (use assms in \<open>auto simp: flag_def\<close>)

lemma rem_skip:
  "bs_wf s \<Longrightarrow> remaining s = to_bits 5 0 @ rest \<Longrightarrow> bs_wf (bs_skip s 5) \<and> remaining (bs_skip s 5) = rest"
  using bs_skip_spec [of s 5] by (auto simp: bs_ext_def)

lemma se_decode_code: "se_decode (nat (if 0 < x then 2 * x - 1 else - 2 * x)) = x"
  by (cases "0 < x") (auto simp: se_decode_def even_nat_iff nat_add_distrib)

lemma completes_se:
  assumes "bs_wf s" "remaining s = se_code x @ rest" "se_ok x"
    "\<And>t. bs_wf t \<Longrightarrow> remaining t = rest \<Longrightarrow> Q (x, t)"
  shows "completes (bs_read_se s) Q"
proof -
  have "nat (if 0 < x then 2 * x - 1 else - 2 * x) < 2 ^ 31 - 1"
    using assms(3) unfolding se_ok_def nat_less_iff by (auto simp: nat_less_iff)
  from ue_decode_ue_code [OF this] show ?thesis
    using bs_read_se_spec [OF assms(1)] assms(2,4)
    by (auto simp: completes_iff bs_ext_def se_code_def se_decode_code)
qed

lemma completes_bits32:
  assumes "bs_wf s" "remaining s = to_bits 32 v @ rest" "v < 2 ^ 32"
    "\<And>t. bs_wf t \<Longrightarrow> remaining t = rest \<Longrightarrow> Q (of_nat v, t)"
  shows "completes (bs_get_bits_long s 32) Q"
proof -
  obtain t where t: "bs_read s 32 = Some (of_nat (bits_val (next_bits s (nat 32))), t)"
    "bs_ext s t" "remaining t = drop (nat 32) (remaining s)"
    using bs_read_spec [of s 32] assms(1) by auto
  have "bits_val (next_bits s (nat 32)) = v"
    using assms(2,3) by (simp add: next_bits_def bits_val_to_bits)
  moreover have "bs_wf t" "remaining t = rest" using t(2,3) assms(2) by (simp_all add: bs_ext_def)
  ultimately show ?thesis using t(1) assms(4) [of t] by (simp add: bs_get_bits_long_def)
qed

lemma list_update_next: "length xs < length ys \<Longrightarrow> (xs @ drop (length xs) ys)[length xs := v] = (xs @ [v]) @ drop (length (xs @ [v])) ys"
  by (simp add: list_update_append Cons_nth_drop_Suc [symmetric])

lemma sps_ref_frame_offsets_fields:
  assumes "bs_wf s" "remaining s = concat (map se_code offs) @ rest" "list_all se_ok offs" "length xs + length offs \<le> length ys"
  shows "completes (sps_ref_frame_offsets (length offs) (int (length xs)) s (xs @ drop (length xs) ys))
    (\<lambda>(t, zs). bs_wf t \<and> remaining t = rest \<and> zs = (xs @ offs) @ drop (length (xs @ offs)) ys)"
  using assms
proof (induction offs arbitrary: s xs)
  case (Cons v vs)
  have "completes (do { (v, s) \<leftarrow> bs_read_se s; offs \<leftarrow> c_write (xs @ drop (length xs) ys) (int (length xs)) v; Some (s, offs) })
     (\<lambda>(t, zs). bs_wf t \<and> remaining t = concat (map se_code vs) @ rest \<and> zs = (xs @ [v]) @ drop (length (xs @ [v])) ys)"
    unfolding completes_bind
    by (rule completes_se [of s v "concat (map se_code vs) @ rest"])
      (use Cons.prems list_update_next [of xs ys v] in \<open>auto simp: completes_bind c_write_def\<close>)
  then obtain t where "do { (v, s) \<leftarrow> bs_read_se s; offs \<leftarrow> c_write (xs @ drop (length xs) ys) (int (length xs)) v; Some (s, offs) } =
      Some (t, (xs @ [v]) @ drop (length (xs @ [v])) ys)" "bs_wf t" "remaining t = concat (map se_code vs) @ rest"
    unfolding completes_iff by auto
  then show ?case using Cons.IH [of t "xs @ [v]"] Cons.prems by (simp add: add.commute)
qed simp

lemma poc_type_cases:
  "(int 0 = 0) = True" "(int 1 = 0) = False" "(int 1 = 1) = True"
  by simp_all

lemma sps_poc_fields:
  assumes "bs_wf s" "remaining s = poc_code p @ rest" "poc_ok p" "length (i_offset_for_ref_frame sps) = 256"
  shows "completes (sps_poc s sps) (\<lambda>(r, t, sps'). bs_wf t \<and> remaining t = rest \<and> r = None \<and> sps' = poc_of p sps)"
proof (cases p)
  case (Poc0 l)
  note rem = assms(2) [unfolded Poc0 poc_code.simps append.assoc]
  have l: "l < 2 ^ 30" "c_int (int l + 4) = Some (int l + 4)" using assms(3) Poc0 by (auto simp: in_int_def)
  show ?thesis
    unfolding sps_poc_def
    apply (simp only: wp_simps)
    apply (rule completes_ue [OF assms(1) rem], simp, simp only: wp_simps poc_type_cases)
    apply (rule completes_ue [OF _ _ l(1)], assumption, assumption, simp only: wp_simps l)
    apply (simp add: Poc0)
    done
next
  case (Poc1 z a b offs)
  note rem = assms(2) [unfolded Poc1 poc_code.simps append.assoc]
  have ok: "se_ok a" "se_ok b" "length offs \<le> 256" "list_all se_ok offs" and n: "length offs < 2 ^ 30"
    using assms(3) Poc1 by auto
  have cap: "(256 < int (length offs)) = False" using ok(3) by simp
  show ?thesis
    unfolding sps_poc_def
    apply (simp only: wp_simps)
    apply (rule completes_ue [OF assms(1) rem], simp, simp only: wp_simps poc_type_cases)
    apply (rule completes_flag, assumption, assumption, simp only: wp_simps)
    apply (rule completes_se [OF _ _ ok(1)], assumption, assumption, simp only: wp_simps)
    apply (rule completes_se [OF _ _ ok(2)], assumption, assumption, simp only: wp_simps)
    apply (rule completes_ue [OF _ _ n], assumption, assumption, simp only: wp_simps cap)
    subgoal for t1 t2 w t3 t4 t5
      using sps_ref_frame_offsets_fields [of t5 offs rest "[]" "i_offset_for_ref_frame sps"] ok assms(4)
      by (auto simp: Poc1 intro: completes_mono)
    done
next
  case Poc2
  note rem = assms(2) [unfolded Poc2 poc_code.simps]
  show ?thesis
    unfolding sps_poc_def
    apply (simp only: wp_simps)
    apply (rule completes_ue [OF assms(1) rem], simp)
    apply (simp add: Poc2)
    done
qed

lemma sps_size_fields:
  assumes "bs_wf s" "sps_fields_ok f"
    "remaining s = ue_code (f_refs f) @ flag (f_gaps f) @ ue_code (f_width f) @ ue_code (f_height f) @
     flag (f_mbs_only f) @ (if f_mbs_only f then [] else flag (f_adaptive f)) @ flag (f_direct f) @ rest"
  shows "completes (sps_size s sps)
    (\<lambda>(t, sps'). bs_wf t \<and> remaining t = rest \<and>
       sps' = sps\<lparr>i_num_ref_frames := int (f_refs f), b_gaps_in_frame_num_value_allowed := of_bool (f_gaps f),
         i_mb_width := int (f_width f) + 1, i_mb_height := int (f_height f) + 1,
         b_frame_mbs_only := of_bool (f_mbs_only f),
         b_mb_adaptive_frame_field := of_bool (\<not> f_mbs_only f \<and> f_adaptive f),
         b_direct8x8_inference := of_bool (f_direct f)\<rparr>)"
proof -
  have f: "f_refs f < 2 ^ 30" "f_width f < 2 ^ 30" "f_height f < 2 ^ 30"
    and c: "c_int (int (f_width f) + 1) = Some (int (f_width f) + 1)"
      "c_int (int (f_height f) + 1) = Some (int (f_height f) + 1)"
    using assms(2) by (auto simp: sps_fields_ok_def in_int_def)
  show ?thesis
  proof (cases "f_mbs_only f")
    case True
    note rem = assms(3) [unfolded True if_True append_Nil]
    show ?thesis
      unfolding sps_size_def
      apply (simp only: wp_simps)
      apply (rule completes_ue [OF assms(1) rem f(1)], simp only: wp_simps)
      apply (rule completes_flag, assumption, assumption, simp only: wp_simps)
      apply (rule completes_ue [OF _ _ f(2)], assumption, assumption, simp only: wp_simps c)
      apply (rule completes_ue [OF _ _ f(3)], assumption, assumption, simp only: wp_simps c)
      apply (rule completes_flag, assumption, assumption, simp only: wp_simps)
      apply (simp only: True of_bool_eq one_neq_zero wp_simps append_Nil)
      apply (rule completes_flag, assumption, assumption, simp only: wp_simps)
      apply (simp add: to_int_def)
      done
  next
    case False
    note rem = assms(3) [unfolded if_not_P [OF False]]
    show ?thesis
      unfolding sps_size_def
      apply (simp only: wp_simps)
      apply (rule completes_ue [OF assms(1) rem f(1)], simp only: wp_simps)
      apply (rule completes_flag, assumption, assumption, simp only: wp_simps)
      apply (rule completes_ue [OF _ _ f(2)], assumption, assumption, simp only: wp_simps c)
      apply (rule completes_ue [OF _ _ f(3)], assumption, assumption, simp only: wp_simps c)
      apply (rule completes_flag, assumption, assumption, simp only: wp_simps)
      apply (simp only: False of_bool_eq not_False_eq_True simp_thms if_True)
      apply (rule completes_flag, assumption, assumption, simp only: wp_simps)
      apply (rule completes_flag, assumption, assumption, simp only: wp_simps)
      done
  qed
qed

lemma sps_crop_fields:
  assumes "bs_wf s" "sps_fields_ok f"
    "remaining s = (case f_crop f of None \<Rightarrow> flag False
      | Some (l, r, t, b) \<Rightarrow> flag True @ ue_code l @ ue_code r @ ue_code t @ ue_code b) @ rest"
  shows "completes (sps_crop s sps)
    (\<lambda>(t, sps'). bs_wf t \<and> remaining t = rest \<and>
       sps' = sps\<lparr>b_crop := of_bool (f_crop f \<noteq> None),
     crop := (case f_crop f of None \<Rightarrow> \<lparr>crop_left = 0, crop_right = 0, crop_top = 0, crop_bottom = 0\<rparr>
       | Some (l, r, t, b) \<Rightarrow> \<lparr>crop_left = int l, crop_right = int r, crop_top = int t, crop_bottom = int b\<rparr>)\<rparr>)"
proof (cases "f_crop f")
  case None
  show ?thesis
    unfolding sps_crop_def completes_bind
    by (rule completes_flag [OF assms(1), of False rest]) (use assms None in simp_all)
next
  case (Some q)
  obtain l r t b where q: "q = (l, r, t, b)" by (cases q)
  have f: "l < 2 ^ 30" "r < 2 ^ 30" "t < 2 ^ 30" "b < 2 ^ 30"
    using assms(2) Some q by (auto simp: sps_fields_ok_def)
  note rem = assms(3) [unfolded Some q option.case prod.case append.assoc]
  show ?thesis
    unfolding sps_crop_def
    apply (simp only: wp_simps)
    apply (rule completes_flag [OF assms(1) rem], simp only: wp_simps)
    apply (simp only: of_bool_eq one_neq_zero not_False_eq_True wp_simps)
    apply (rule completes_ue [OF _ _ f(1)], assumption, assumption, simp only: wp_simps)
    apply (rule completes_ue [OF _ _ f(2)], assumption, assumption, simp only: wp_simps)
    apply (rule completes_ue [OF _ _ f(3)], assumption, assumption, simp only: wp_simps)
    apply (rule completes_ue [OF _ _ f(4)], assumption, assumption, simp only: wp_simps)
    apply (simp add: Some q)
    done
qed

lemma to_int_eq: "to_int w = int v \<Longrightarrow> w = of_nat v"
proof -
  assume "to_int w = int v"
  then have "word_of_int (sint w) = (word_of_int (int v) :: u32)" by (simp add: to_int_def)
  then show ?thesis by simp
qed

lemma idc_in_table:
  assumes "to_int w = int idc" "idc < 17"
  shows "w \<noteq> 255 \<and> w < 17"
proof -
  have w: "uint w = int idc" using to_int_eq [OF assms(1)] assms(2) by (simp add: unsigned_of_nat take_bit_nat_eq_self)
  have "w < 17" using w assms(2) by (simp add: word_less_alt)
  moreover have "w \<noteq> 255" using w assms(2) by auto
  ultimately show ?thesis by blast
qed

lemma vui_aspect_ratio_fields:
  assumes "bs_wf s" "remaining s = aspect_code a @ rest"
    "case a of None \<Rightarrow> True | Some (Inl idc) \<Rightarrow> idc < 17 | Some (Inr (w, h)) \<Rightarrow> w < 2 ^ 16 \<and> h < 2 ^ 16"
  shows "completes (vui_aspect_ratio s v) (\<lambda>(r, t, v'). bs_wf t \<and> remaining t = rest \<and> r = None \<and> v' = aspect_of a v)"
proof (cases a)
  case None
  show ?thesis
    unfolding vui_aspect_ratio_def
    by (simp only: wp_simps, rule completes_flag [OF assms(1), of False rest])
      (use assms(2) None in \<open>simp_all add: aspect_code_def aspect_of_def\<close>)
next
  case (Some q)
  show ?thesis
  proof (cases q)
    case (Inl idc)
    note rem = assms(2) [unfolded Some Inl aspect_code_def option.case sum.case append.assoc]
    have idc: "idc < 2 ^ nat 8" "idc < 17" using assms(3) Some Inl by auto
    show ?thesis
      unfolding vui_aspect_ratio_def
      apply (simp only: wp_simps)
      apply (rule completes_flag [OF assms(1) rem], simp only: wp_simps of_bool_eq one_neq_zero not_False_eq_True)
      apply (rule completes_bits [OF _ _ idc(1), unfolded nat_numeral], assumption, assumption, simp, simp, simp only: wp_simps)
      apply (drule idc_in_table [OF _ idc(2)], simp add: aspect_of_def Some Inl)
      done
  next
    case (Inr wh)
    obtain w h where wh: "wh = (w, h)" by (cases wh)
    note rem = assms(2) [unfolded Some Inr wh aspect_code_def option.case sum.case prod.case append.assoc]
    have f: "(255::nat) < 2 ^ nat 8" "w < 2 ^ nat 16" "h < 2 ^ nat 16" using assms(3) Some Inr wh by auto
    show ?thesis
      unfolding vui_aspect_ratio_def
      apply (simp only: wp_simps)
      apply (rule completes_flag [OF assms(1) rem], simp only: wp_simps of_bool_eq one_neq_zero not_False_eq_True)
      apply (rule completes_bits [OF _ _ f(1), unfolded nat_numeral], assumption, assumption, simp, simp, simp only: wp_simps)
      apply (drule to_int_eq, simp only: wp_simps of_nat_numeral simp_thms)
      apply (rule completes_bits [OF _ _ f(2), unfolded nat_numeral], assumption, assumption, simp, simp, simp only: wp_simps)
      apply (rule completes_bits [OF _ _ f(3), unfolded nat_numeral], assumption, assumption, simp, simp, simp only: wp_simps)
      apply (simp add: aspect_of_def Some Inr wh)
      done
  qed
qed

lemma vui_signal_type_fields:
  assumes "bs_wf s" "remaining s = overscan_code x @ signal_code y @ rest"
    "case y of None \<Rightarrow> True | Some (fmt, full, None) \<Rightarrow> fmt < 8
      | Some (fmt, full, Some (p, q, m)) \<Rightarrow> fmt < 8 \<and> p < 256 \<and> q < 256 \<and> m < 256"
  shows "completes (vui_signal_type s v) (\<lambda>(t, v'). bs_wf t \<and> remaining t = rest \<and> v' = signal_of y v)"
proof -
  have overscan: "completes (bs_read s 1) (\<lambda>(b, t). completes (if b \<noteq> 0 then bs_read t 1 else Some (b, t))
      (\<lambda>(b, t). bs_wf t \<and> remaining t = signal_code y @ rest))"
  proof (cases x)
    case None
    show ?thesis
      by (rule completes_flag [OF assms(1), of False "signal_code y @ rest"]) (use assms(2) None in \<open>simp_all add: overscan_code_def\<close>)
  next
    case (Some b)
    note rem = assms(2) [unfolded Some overscan_code_def option.case append.assoc]
    show ?thesis
      by (rule completes_flag [OF assms(1) rem]) (auto intro: completes_flag)
  qed
  have signal: "completes (bs_read t 1) (\<lambda>(b, t). completes
      (if to_int b \<noteq> 0 then do {
         (c, t) \<leftarrow> bs_read t 3;
         let w = (v\<lparr>b_signal_type_present := to_int b\<rparr>)\<lparr>i_vidformat := to_int c\<rparr>;
         (d, t) \<leftarrow> bs_read t 1;
         let w = w\<lparr>b_fullrange := to_int d\<rparr>;
         (e, t) \<leftarrow> bs_read t 1;
         let w = w\<lparr>b_color_description_present := to_int e\<rparr>;
         if to_int e \<noteq> 0 then do {
           (p, t) \<leftarrow> bs_read t 8;
           (q, t) \<leftarrow> bs_read t 8;
           (m, t) \<leftarrow> bs_read t 8;
           Some (t, w\<lparr>i_colorprim := (if to_int p \<ge> 9 then 2 else to_int p),
                    i_transfer := (if to_int q \<ge> 8 then 2 else to_int q),
                    i_colmatrix := (if to_int m \<ge> 9 then 2 else to_int m)\<rparr>) }
         else Some (t, w) }
       else Some (t, v\<lparr>b_signal_type_present := to_int b\<rparr>))
      (\<lambda>(t, v'). bs_wf t \<and> remaining t = rest \<and> v' = signal_of y v))"
    if t: "bs_wf t" "remaining t = signal_code y @ rest" for t
  proof (cases y)
    case None
    show ?thesis
      by (rule completes_flag [OF t(1), of False rest]) (use t(2) None in \<open>simp_all add: signal_code_def signal_of_def\<close>)
  next
    case (Some z)
    obtain fmt full d where z: "z = (fmt, full, d)" by (cases z)
    have fmt: "fmt < 2 ^ nat 3" using assms(3) Some z by (auto split: option.splits)
    show ?thesis
    proof (cases d)
      case None
      note rem = t(2) [unfolded Some z None signal_code_def option.case prod.case append.assoc]
      show ?thesis
        apply (rule completes_flag [OF t(1) rem], simp only: wp_simps of_bool_eq one_neq_zero not_False_eq_True)
        apply (rule completes_bits [OF _ _ fmt, unfolded nat_numeral], assumption, assumption, simp, simp, simp only: wp_simps)
        apply (rule completes_flag, assumption, assumption, simp only: wp_simps)
        apply (rule completes_flag, assumption, assumption, simp only: wp_simps of_bool_eq)
        apply (simp add: signal_of_def Some z None)
        done
    next
      case col: (Some pqm)
      obtain p q m where pqm: "pqm = (p, q, m)" by (cases pqm)
      have f: "p < 2 ^ nat 8" "q < 2 ^ nat 8" "m < 2 ^ nat 8" using assms(3) Some z col pqm by auto
      note rem = t(2) [unfolded Some z col pqm signal_code_def option.case prod.case append.assoc]
      show ?thesis
        apply (rule completes_flag [OF t(1) rem], simp only: wp_simps of_bool_eq one_neq_zero not_False_eq_True)
        apply (rule completes_bits [OF _ _ fmt, unfolded nat_numeral], assumption, assumption, simp, simp, simp only: wp_simps)
        apply (rule completes_flag, assumption, assumption, simp only: wp_simps)
        apply (rule completes_flag, assumption, assumption, simp only: wp_simps of_bool_eq one_neq_zero not_False_eq_True)
        apply (rule completes_bits [OF _ _ f(1), unfolded nat_numeral], assumption, assumption, simp, simp, simp only: wp_simps)
        apply (rule completes_bits [OF _ _ f(2), unfolded nat_numeral], assumption, assumption, simp, simp, simp only: wp_simps)
        apply (rule completes_bits [OF _ _ f(3), unfolded nat_numeral], assumption, assumption, simp, simp, simp only: wp_simps)
        apply (simp add: signal_of_def Some z col pqm)
        done
    qed
  qed
  show ?thesis
    unfolding vui_signal_type_def wp_simps
    by (rule completes_mono [OF overscan]) (auto elim!: completes_mono dest!: signal simp: wp_simps)
qed

lemma vui_chroma_loc_fields:
  assumes "bs_wf s" "remaining s = chroma_code x @ rest" "case x of None \<Rightarrow> True | Some (t, b) \<Rightarrow> t < 2 ^ 30 \<and> b < 2 ^ 30"
  shows "completes (vui_chroma_loc s v) (\<lambda>(t, v'). bs_wf t \<and> remaining t = rest \<and> v' = chroma_of x v)"
proof (cases x)
  case None
  show ?thesis
    unfolding vui_chroma_loc_def
    by (simp only: wp_simps, rule completes_flag [OF assms(1), of False rest])
      (use assms(2) None in \<open>simp_all add: chroma_code_def chroma_of_def\<close>)
next
  case (Some tb)
  obtain t b where tb: "tb = (t, b)" by (cases tb)
  have f: "t < 2 ^ 30" "b < 2 ^ 30" "c_int (int t + 1) = Some (int t + 1)" using assms(3) Some tb by (auto simp: in_int_def)
  note rem = assms(2) [unfolded Some tb chroma_code_def option.case prod.case append.assoc]
  show ?thesis
    unfolding vui_chroma_loc_def
    apply (simp only: wp_simps)
    apply (rule completes_flag [OF assms(1) rem], simp only: wp_simps not_True_eq_False not_False_eq_True)
    apply (rule completes_ue [OF _ _ f(1)], assumption, assumption, simp only: wp_simps f(3))
    apply (rule completes_ue [OF _ _ f(2)], assumption, assumption, simp add: chroma_of_def Some tb)
    done
qed

lemma to_int_nonzero: "0 < n \<Longrightarrow> n < 2 ^ 32 \<Longrightarrow> to_int (of_nat n) \<noteq> 0"
proof -
  assume n: "0 < n" "n < 2 ^ 32"
  then have "uint (of_nat n :: u32) = int n" by (simp add: unsigned_of_nat take_bit_nat_eq_self)
  then have "(of_nat n :: u32) \<noteq> 0" using n by (metis of_nat_eq_0_iff less_irrefl unsigned_0)
  then show ?thesis by (simp add: to_int_def signed_eq_0_iff)
qed

lemma vui_timing_fields:
  assumes "bs_wf s" "remaining s = timing_code x @ rest"
    "case x of None \<Rightarrow> True | Some (n, t, b) \<Rightarrow> 0 < n \<and> n < 2 ^ 32 \<and> 0 < t \<and> t < 2 ^ 32"
  shows "completes (vui_timing s v) (\<lambda>(r, t, v'). bs_wf t \<and> remaining t = rest \<and> r = None \<and> v' = timing_of x v)"
proof (cases x)
  case None
  show ?thesis
    unfolding vui_timing_def
    by (simp only: wp_simps, rule completes_flag [OF assms(1), of False rest])
      (use assms(2) None in \<open>simp_all add: timing_code_def timing_of_def\<close>)
next
  case (Some ntb)
  obtain n t b where ntb: "ntb = (n, t, b)" by (cases ntb)
  have f: "n < 2 ^ 32" "t < 2 ^ 32" and nz: "(to_int (of_nat n) = 0) = False" "(to_int (of_nat t) = 0) = False"
    using assms(3) Some ntb to_int_nonzero by auto
  note rem = assms(2) [unfolded Some ntb timing_code_def option.case prod.case append.assoc]
  show ?thesis
    unfolding vui_timing_def
    apply (simp only: wp_simps)
    apply (rule completes_flag [OF assms(1) rem], simp only: wp_simps of_bool_eq one_neq_zero not_False_eq_True)
    apply (rule completes_bits32 [OF _ _ f(1)], assumption, assumption, simp only: wp_simps)
    apply (rule completes_bits32 [OF _ _ f(2)], assumption, assumption, simp only: wp_simps nz simp_thms)
    apply (rule completes_flag, assumption, assumption, simp only: wp_simps)
    apply (simp add: timing_of_def Some ntb)
    done
qed

lemma vui_bitstream_restriction_fields:
  assumes "bs_wf s" "remaining s = restriction_code x @ rest" "rest \<noteq> []"
    "case x of None \<Rightarrow> True | Some (mv, a, b, c, d, reorder, buf) \<Rightarrow>
       a < 2 ^ 30 \<and> b < 2 ^ 30 \<and> c < 2 ^ 30 \<and> d < 2 ^ 30 \<and> reorder \<le> 16 \<and> buf < 2 ^ 30"
  shows "completes (vui_bitstream_restriction s v)
    (\<lambda>(r, t, v'). bs_wf t \<and> remaining t = rest \<and> r = None \<and> v' = restriction_of x v)"
proof (cases x)
  case None
  show ?thesis
    unfolding vui_bitstream_restriction_def
    by (simp only: wp_simps, rule completes_flag [OF assms(1), of False rest])
      (use assms(2) None in \<open>simp_all add: restriction_code_def restriction_of_def\<close>)
next
  case (Some z)
  obtain mv a b c d e g where z: "z = (mv, a, b, c, d, e, g)" by (cases z)
  have f: "a < 2 ^ 30" "b < 2 ^ 30" "c < 2 ^ 30" "d < 2 ^ 30" "e < 2 ^ 30" "g < 2 ^ 30" "e \<le> 16" using assms(4) Some z by auto
  have small: "\<not> (16 :: u32) < word_of_int (int e)"
    using f(7) by (simp add: word_less_alt unsigned_of_nat take_bit_nat_eq_self)
  note rem = assms(2) [unfolded Some z restriction_code_def option.case prod.case append.assoc]
  show ?thesis
    unfolding vui_bitstream_restriction_def
    apply (simp only: wp_simps)
    apply (rule completes_flag [OF assms(1) rem], simp only: wp_simps of_bool_eq one_neq_zero not_False_eq_True)
    apply (rule completes_flag, assumption, assumption, simp only: wp_simps)
    apply (rule completes_ue [OF _ _ f(1)], assumption, assumption, simp only: wp_simps)
    apply (rule completes_ue [OF _ _ f(2)], assumption, assumption, simp only: wp_simps)
    apply (rule completes_ue [OF _ _ f(3)], assumption, assumption, simp only: wp_simps)
    apply (rule completes_ue [OF _ _ f(4)], assumption, assumption, simp only: wp_simps)
    apply (rule completes_ue [OF _ _ f(5)], assumption, assumption, simp only: wp_simps)
    apply (rule completes_ue [OF _ _ f(6)], assumption, assumption, simp only: wp_simps bs_eof_iff assms(3))
    apply (use small in \<open>simp add: restriction_of_def Some z\<close>)
    done
qed

lemma decode_vui_parameters_fields:
  assumes "bs_wf s" "remaining s = vui_code x @ rest" "rest \<noteq> []" "vui_ok x"
  shows "completes (decode_vui_parameters s sps)
    (\<lambda>(r, t, sps'). bs_wf t \<and> remaining t = rest \<and> r = 0 \<and> sps' = sps\<lparr>vui := vui_of x (vui sps)\<rparr>)"
proof -
  note ok = assms(4) [unfolded vui_ok_def]
  note rem = assms(2) [unfolded vui_code_def append.assoc]
  have more: "restriction_code y @ rest \<noteq> []" for y using assms(3) by simp
  show ?thesis
    unfolding decode_vui_parameters_def
    apply (simp only: wp_simps)
    apply (rule completes_mono, rule vui_aspect_ratio_fields [OF assms(1) rem], use ok in blast, clarsimp simp only: wp_simps)
    apply (rule completes_mono, rule vui_signal_type_fields, assumption, assumption, use ok in blast, clarsimp simp only: wp_simps)
    apply (rule completes_mono, rule vui_chroma_loc_fields, assumption, assumption, use ok in blast, clarsimp simp only: wp_simps)
    apply (rule completes_mono, rule vui_timing_fields, assumption, assumption, use ok in blast, clarsimp simp only: wp_simps)
    apply (rule completes_flag, assumption, assumption, simp only: wp_simps of_bool_eq simp_thms)
    apply (rule completes_flag, assumption, assumption, simp only: wp_simps of_bool_eq simp_thms)
    apply (simp add: completes_bind)
    apply (rule completes_flag, assumption, assumption, simp only: wp_simps bs_eof_iff more)
    apply (rule completes_mono, rule vui_bitstream_restriction_fields, assumption, assumption, rule assms(3), use ok in blast)
    apply (use assms(3) in \<open>clarsimp simp: bs_eof_iff vui_of_def\<close>)
    done
qed

lemma vui_poc_of: "vui (poc_of p sps) = vui sps"
  by (cases p) simp_all

lemma vui_kept:
  "vui ((poc_of p (sps\<lparr>scaling_matrix_present := a, i_id := b, i_profile_idc := c, i_level_idc := d,
      b_constraint_set0 := e, b_constraint_set1 := g, b_constraint_set2 := h, i_log2_max_frame_num := i\<rparr>))
     \<lparr>i_num_ref_frames := j, b_gaps_in_frame_num_value_allowed := k, i_mb_width := l, i_mb_height := m,
      b_frame_mbs_only := n, b_mb_adaptive_frame_field := q, b_direct8x8_inference := r, b_crop := t, crop := u\<rparr>) = vui sps"
  by (simp add: vui_poc_of)

lemma h264_sps_read_fields:
  assumes "sps_fields_ok f" "0 < n" "n \<le> int (length nal)"
    "remaining (bs_init (drop 1 nal) (n - 1)) = sps_code f @ rest" "rest \<noteq> []"
    "length (i_offset_for_ref_frame sps) = 256"
  shows "h264_sps_read nal n sps = Some (int (f_id f), sps_of_fields f sps)"
proof -
  obtain a b c where abc: "f_sets f = (a, b, c)" by (cases "f_sets f")
  have wf: "bs_wf (bs_init (drop 1 nal) (n - 1))" using assms by (simp add: bs_wf_def bs_init_def)
  note rem = assms(4) [unfolded sps_code_def abc prod.case append.assoc]
  have f: "f_profile f < 2 ^ nat 8" "f_level f < 2 ^ nat 8" "f_id f < 2 ^ 30" "f_frame_num f < 2 ^ 30"
    and c: "c_int (int (f_frame_num f) + 4) = Some (int (f_frame_num f) + 4)"
    and id: "(32 \<le> int (f_id f)) = False"
    and prof: "(100 \<le> int (f_profile f)) = False"
    and poc: "poc_ok (f_poc f)"
    using assms(1) by (auto simp: sps_fields_ok_def in_int_def)
  have sel: "i_profile_idc (sps\<lparr>scaling_matrix_present := 0, i_id := x, i_profile_idc := y, i_level_idc := z,
      b_constraint_set0 := u, b_constraint_set1 := v, b_constraint_set2 := w\<rparr>) = y" for x y z u v w
    by simp
  have vui: "completes (bs_read t 1) (\<lambda>(b, t). completes
      (if to_int b \<noteq> 0 then decode_vui_parameters t (u\<lparr>b_vui := to_int b\<rparr>) else Some (0, t, u\<lparr>b_vui := to_int b\<rparr>))
      (\<lambda>(r, t, v). bs_wf t \<and> remaining t = rest \<and> v = u\<lparr>b_vui := of_bool (f_vui f \<noteq> None),
         vui := (case f_vui f of None \<Rightarrow> vui u | Some x \<Rightarrow> vui_of x (vui u))\<rparr>))"
    if t: "bs_wf t" "remaining t = (case f_vui f of None \<Rightarrow> flag False | Some v \<Rightarrow> flag True @ vui_code v) @ rest" for t u
  proof (cases "f_vui f")
    case None
    show ?thesis by (rule completes_flag [OF t(1), of False rest]) (use t(2) None in simp_all)
  next
    case (Some x)
    have ok: "vui_ok x" using assms(1) Some by (simp add: sps_fields_ok_def)
    note rem = t(2) [unfolded Some option.case append.assoc]
    show ?thesis
      apply (rule completes_flag [OF t(1) rem], simp only: wp_simps of_bool_eq one_neq_zero not_False_eq_True)
      apply (rule completes_mono, rule decode_vui_parameters_fields [OF _ _ assms(5) ok], assumption, assumption)
      apply (clarsimp simp: Some)
      done
  qed
  have last: "completes (case x of (r, s, v) \<Rightarrow> if bs_eof s then Some (- 1000, v\<lparr>i_id := - 1\<rparr>) else Some (int (f_id f), v)) (\<lambda>y. y = (int (f_id f), u))"
    if "case x of (r, t, v) \<Rightarrow> bs_wf t \<and> remaining t = rest \<and> v = u" for x :: "int \<times> bs_t \<times> h264_sps_t" and u
    using that assms(5) by (cases x) (auto simp: bs_eof_iff)
  show ?thesis
    unfolding completes_eq [symmetric] h264_sps_read_def
    apply (simp only: wp_simps)
    apply (rule completes_bits [OF wf _ f(1), unfolded nat_numeral, OF rem], simp, simp, simp only: wp_simps)
    apply (rule completes_flag, assumption, assumption, simp only: wp_simps)
    apply (rule completes_flag, assumption, assumption, simp only: wp_simps)
    apply (rule completes_flag, assumption, assumption, simp only: wp_simps)
    apply (drule (1) rem_skip, erule conjE)
    apply (rule completes_bits [OF _ _ f(2), unfolded nat_numeral], assumption, assumption, simp, simp, simp only: wp_simps)
    apply (rule completes_ue [OF _ _ f(3)], assumption, assumption, simp only: wp_simps)
    apply (simp only: bs_eof_iff wp_simps id append_is_Nil_conv ue_code_not_Nil simp_thms)
    apply (simp only: sel prof wp_simps)
    apply (rule completes_ue [OF _ _ f(4)], assumption, assumption, simp only: wp_simps c)
    apply (rule completes_mono, rule sps_poc_fields [OF _ _ poc], assumption, assumption, simp add: assms(6))
    apply (clarsimp simp only: wp_simps)
    apply (rule completes_mono, rule sps_size_fields [OF _ assms(1)], assumption, assumption)
    apply (clarsimp simp only: wp_simps)
    apply (rule completes_mono, rule sps_crop_fields [OF _ assms(1)], assumption, assumption)
    apply (clarsimp simp only: wp_simps)
    apply (rule completes_mono [OF vui], assumption, assumption, clarsimp simp only: wp_simps)
    apply (erule completes_mono, rule completes_mono, erule last, simp only:)
    apply (simp (no_asm) only: sps_of_fields_def abc prod.sel vui_kept)
    done
qed

section \<open>Picture parameter sets\<close>

definition pps_shape :: "h264_pps_t \<Rightarrow> bool" where
  "pps_shape pps \<longleftrightarrow> length (i_run_length pps) = 16 \<and> length (i_top_left pps) = 16 \<and>
     length (i_bottom_right pps) = 16"

lemma pps_run_lengths_safe:
  assumes "rd_safe s" "0 \<le> i" "i + int n \<le> int (length rl)"
  shows "completes (pps_run_lengths n i s rl) (\<lambda>(t, rl'). rd_safe t \<and> length rl' = length rl)"
  using assms
proof (induction n arbitrary: i s rl)
  case (Suc n)
  have "completes (do { (v, s) \<leftarrow> bs_read_ue s; rl \<leftarrow> c_write rl i v; Some (s, rl) })
     (\<lambda>(t, rl'). rd_safe t \<and> length rl' = length rl)"
    using Suc.prems by (auto simp: completes_bind intro!: safe_step)
  then show ?case using Suc.IH [of _ "i + 1"] Suc.prems by (force simp: completes_iff)
qed simp

lemma pps_rectangles_safe:
  assumes "rd_safe s" "0 \<le> i" "i + int n \<le> int (length a)" "length b = length a"
  shows "completes (pps_rectangles n i s a b)
    (\<lambda>(t, a', b'). rd_safe t \<and> length a' = length a \<and> length b' = length a)"
  using assms
proof (induction n arbitrary: i s a b)
  case (Suc n)
  have "completes (do { (v, s) \<leftarrow> bs_read_ue s; a \<leftarrow> c_write a i v; (w, s) \<leftarrow> bs_read_ue s;
      b \<leftarrow> c_write b i w; Some (s, a, b) })
     (\<lambda>(t, a', b'). rd_safe t \<and> length a' = length a \<and> length b' = length a)"
    using Suc.prems by (auto simp: completes_bind intro!: safe_step)
  then obtain t a' b' where *: "do { (v, s) \<leftarrow> bs_read_ue s; a \<leftarrow> c_write a i v; (w, s) \<leftarrow> bs_read_ue s;
      b \<leftarrow> c_write b i w; Some (s, a, b) } = Some (t, a', b')"
    and t: "rd_safe t" "length a' = length a" "length b' = length a"
    unfolding completes_iff by blast
  show ?case using Suc.IH [of t "i + 1" a' b'] Suc.prems t
    by (simp only: pps_rectangles.simps * option.case prod.case)
qed simp

lemma pps_slice_groups_safe:
  assumes "rd_safe s" "pps_shape pps" "i_num_slice_groups pps \<le> 16"
  shows "completes (pps_slice_groups s pps)
    (\<lambda>(t, pps'). rd_safe t \<and> pps_shape pps' \<and> pps_id pps' = pps_id pps)"
proof -
  have n: "int (nat (i_num_slice_groups pps)) \<le> 16" using assms(3) by simp
  show ?thesis
    unfolding pps_slice_groups_def completes_bind
    using assms n
    by (auto simp: completes_bind pps_shape_def in_int_def
        intro!: safe_step pps_run_lengths_safe [THEN completes_mono] pps_rectangles_safe [THEN completes_mono])
qed

text \<open>The number of slice groups that a picture parameter set announces.\<close>

definition pps_announced_groups :: "u8 list \<Rightarrow> int \<Rightarrow> int option" where
  "pps_announced_groups nal n = do {
     (u, s) \<leftarrow> bs_read_ue (bs_init (drop 1 nal) (n - 1));
     (u, s) \<leftarrow> bs_read_ue s;
     (b, s) \<leftarrow> bs_read s 1;
     (b, s) \<leftarrow> bs_read s 1;
     (u, s) \<leftarrow> bs_read_ue s;
     Some (u + 1) }"

lemma pps_shape_updates [simp]:
  "pps_shape (pps\<lparr>pps_id := x\<rparr>) = pps_shape pps" "pps_shape (pps\<lparr>i_sps_id := x\<rparr>) = pps_shape pps"
  "pps_shape (pps\<lparr>b_cabac := x\<rparr>) = pps_shape pps" "pps_shape (pps\<lparr>b_pic_order := x\<rparr>) = pps_shape pps"
  "pps_shape (pps\<lparr>i_num_slice_groups := x\<rparr>) = pps_shape pps"
  by (simp_all add: pps_shape_def)

lemma h264_pps_read_safe:
  assumes "no_start_code (drop 1 nal)" "1 \<le> n" "n \<le> int (length nal)" "pps_shape pps"
    "pps_announced_groups nal n = Some g" "g \<le> 16"
  shows "completes (h264_pps_read nal n pps)
    (\<lambda>(r, pps'). r = -1 \<or> 0 \<le> r \<and> r < 256 \<and> pps_id pps' = r)"
proof -
  have init: "rd_safe (bs_init (drop 1 nal) (n - 1))"
    by (rule no_start_code_short_runs) (use assms in auto)
  obtain pid s1 where 1: "bs_read_ue (bs_init (drop 1 nal) (n - 1)) = Some (pid, s1)" "rd_safe s1" "0 \<le> pid"
    using rd_safe_ue_obtain [OF init] .
  obtain u s2 where 2: "bs_read_ue s1 = Some (u, s2)" "rd_safe s2" using rd_safe_ue_obtain [OF 1(2)] .
  obtain a s3 where 3: "bs_read s2 1 = Some (a, s3)" "rd_safe s3" using rd_safe_read_obtain [OF 2(2)] .
  obtain b s4 where 4: "bs_read s3 1 = Some (b, s4)" "rd_safe s4" using rd_safe_read_obtain [OF 3(2)] .
  obtain v s5 where 5: "bs_read_ue s4 = Some (v, s5)" "rd_safe s5" "0 \<le> v" using rd_safe_ue_obtain [OF 4(2)] .
  have v: "v + 1 \<le> 16"
    using assms(5,6) by (simp add: pps_announced_groups_def 1(1) 2(1) 3(1) 4(1) 5(1) del: One_nat_def)
  show ?thesis
    unfolding h264_pps_read_def Let_def completes_bind
    using assms(4) 1 2 3 4 5 v
    by (auto simp: completes_bind in_int_def intro!: safe_step pps_slice_groups_safe [THEN completes_mono])
qed

lemma pps_run_lengths_overflow:
  "0 \<le> i \<Longrightarrow> int (length rl) < i + int n \<Longrightarrow> i \<le> int (length rl) \<Longrightarrow> pps_run_lengths n i s rl = None"
proof (induction n arbitrary: i s rl)
  case (Suc n)
  show ?case
  proof (cases "do { (v, s) \<leftarrow> bs_read_ue s; rl \<leftarrow> c_write rl i v; Some (s, rl) }")
    case (Some p)
    then obtain t rl' where p: "p = (t, rl')" "i < int (length rl)" "length rl' = length rl"
      by (auto simp: bind_Some_iff c_write_eq_Some)
    then show ?thesis using Suc.IH [of "i + 1" rl' t] Suc.prems Some by simp
  qed simp
qed simp

section \<open>Properties\<close>

text \<open>A structure as the witnesses start from: every field zero.\<close>

definition sps_zero :: h264_sps_t where
  "sps_zero = \<lparr>i_id = 0, i_profile_idc = 0, i_level_idc = 0, b_constraint_set0 = 0, b_constraint_set1 = 0,
     b_constraint_set2 = 0, i_chroma_format_idc = 0, i_log2_max_frame_num = 0, i_poc_type = 0,
     i_log2_max_poc_lsb = 0, b_delta_pic_order_always_zero = 0, i_offset_for_non_ref_pic = 0,
     i_offset_for_top_to_bottom_field = 0, i_num_ref_frames_in_poc_cycle = 0,
     i_offset_for_ref_frame = replicate 256 0, i_num_ref_frames = 0,
     b_gaps_in_frame_num_value_allowed = 0, i_mb_width = 0, i_mb_height = 0, b_frame_mbs_only = 0,
     b_mb_adaptive_frame_field = 0, b_direct8x8_inference = 0, b_crop = 0,
     crop = \<lparr>crop_left = 0, crop_right = 0, crop_top = 0, crop_bottom = 0\<rparr>, b_vui = 0,
     vui = \<lparr>b_aspect_ratio_info_present = 0, i_sar_width = 0, i_sar_height = 0, b_signal_type_present = 0,
       i_vidformat = 0, b_fullrange = 0, b_color_description_present = 0, i_colorprim = 0, i_transfer = 0,
       i_colmatrix = 0, i_chroma_loc_top = 0, b_timing_info_present = 0, i_num_units_in_tick = 0,
       i_time_scale = 0, b_fixed_frame_rate = 0, nal_hrd_parameters_present_flag = 0,
       vcl_hrd_parameters_present_flag = 0, pic_struct_present_flag = 0, b_bitstream_restriction = 0,
       i_num_reorder_frames = 0\<rparr>,
     scaling_matrix_present = 0, scaling_matrix4 = replicate 6 (replicate 16 0),
     scaling_matrix8 = replicate 6 (replicate 64 0)\<rparr>"

definition pps_zero :: h264_pps_t where
  "pps_zero = \<lparr>pps_id = 0, i_sps_id = 0, b_cabac = 0, b_pic_order = 0, i_num_slice_groups = 0,
     i_slice_group_map_type = 0, i_run_length = replicate 16 0, i_top_left = replicate 16 0,
     i_bottom_right = replicate 16 0, b_slice_group_change_direction = 0, i_slice_group_change_rate = 0,
     i_pic_size_in_map_units = 0, i_num_ref_idx_l0_active = 0, i_num_ref_idx_l1_active = 0,
     b_weighted_pred = 0, b_weighted_bipred = 0, i_pic_init_qp = 0, i_pic_init_qs = 0,
     i_chroma_qp_index_offset = 0, b_deblocking_filter_control = 0, b_constrained_intra_pred = 0,
     b_redundant_pic_cnt = 0, b_transform_8x8_mode = 0\<rparr>"

lemma sps_zero_shape: "sps_shape sps_zero"
  by (simp add: sps_shape_def sps_zero_def matrix_shape_def)

lemma pps_zero_shape: "pps_shape pps_zero"
  by (simp add: pps_shape_def pps_zero_def)

text \<open>C32: on every NAL unit without an unescaped start code, \<open>h264_sps_read\<close> completes: it never
  leaves the unit, overflows or shifts too far, whatever the bits say. It returns -1, or -1000 with
  the structure invalidated, or an id between 0 and 31 that is also the structure's, whose picture
  is then at least one macroblock wide and high; and the structure keeps its array shapes, and after
  a present scaling matrix no factor of a decoded list is zero.\<close>

theorem sps_read_safe_and_valid:
  assumes "no_start_code (drop 1 nal)" "1 \<le> nal_len" "nal_len \<le> int (length nal)" "sps_shape sps"
  shows "\<exists>r sps'. h264_sps_read nal nal_len sps = Some (r, sps') \<and> sps_inv sps' \<and>
      (r = -1 \<or> r = -1000 \<and> i_id sps' = -1 \<or>
       0 \<le> r \<and> r < 32 \<and> i_id sps' = r \<and> 1 \<le> i_mb_width sps' \<and> 1 \<le> i_mb_height sps')"
  using h264_sps_read_safe [OF assms] by (auto simp: completes_iff)

theorem sps_read_safe_and_valid_witness:
  "\<exists>r sps'. h264_sps_read [0x67, 0x42, 0x80, 0x28, 0xDA, 0x01, 0x40, 0x16, 0xC4] 9 sps_zero = Some (r, sps') \<and>
     sps_inv sps'"
  using sps_read_safe_and_valid
    [of "[0x67, 0x42, 0x80, 0x28, 0xDA, 0x01, 0x40, 0x16, 0xC4]" 9 sps_zero] sps_zero_shape
  by auto

text \<open>C6: a sequence parameter set is decoded to exactly the values that were encoded. For every choice of the syntax
  elements of a profile below 100, with any of the three picture order count types, with or without cropping and
  with or without video usability information (but without the parameters of a hypothetical reference decoder, which
  the code does not read): when the bits of the NAL unit, as they stand, start with their encoding and more bits
  follow, \<open>h264_sps_read\<close> returns the id and a structure that holds the elements, with the offsets of the
  standard added. Emulation prevention bytes are not part of the encoding: the code does not remove them.\<close>

theorem sps_read_decodes_fields:
  assumes "sps_fields_ok f" "0 < nal_len" "nal_len \<le> int (length nal)"
    "remaining (bs_init (drop 1 nal) (nal_len - 1)) = sps_code f @ rest" "rest \<noteq> []"
    "length (i_offset_for_ref_frame sps) = 256"
  shows "h264_sps_read nal nal_len sps = Some (int (f_id f), sps_of_fields f sps)"
  by (rule h264_sps_read_fields [OF assms])

definition example_set :: sps_fields where
  "example_set = \<lparr>f_profile = 66, f_sets = (True, False, False), f_level = 40, f_id = 0, f_frame_num = 0,
     f_poc = Poc1 False (- 2) 1 [1, - 1], f_refs = 1, f_gaps = False, f_width = 79, f_height = 44,
     f_mbs_only = True, f_adaptive = False, f_direct = True, f_crop = None,
     f_vui = Some \<lparr>vf_aspect = Some (Inl 1), vf_overscan = None, vf_signal = None, vf_chroma = None, vf_timing = None,
       vf_pic_struct = False, vf_restriction = Some (True, 2, 1, 10, 10, 0, 1)\<rparr>\<rparr>"

theorem sps_read_decodes_fields_witness:
  "map_option (\<lambda>(r, s). (r, 16 * i_mb_width s, 16 * i_mb_height s, take 3 (i_offset_for_ref_frame s), b_bitstream_restriction (vui s)))
     (h264_sps_read [0x67, 0x42, 0x80, 0x28, 0xD0, 0xA9, 0xA6, 0x80, 0x50, 0x05, 0xBB, 0x01, 0x01, 0xB4, 0x2C, 0x5D, 0x40] 17 sps_zero) = Some (0, 1280, 720, [1, - 1, 0], 1)"
proof -
  let ?nal = "[0x67, 0x42, 0x80, 0x28, 0xD0, 0xA9, 0xA6, 0x80, 0x50, 0x05, 0xBB, 0x01, 0x01, 0xB4, 0x2C, 0x5D, 0x40] :: u8 list"
  have "remaining (bs_init (drop 1 ?nal) (17 - 1)) = sps_code example_set @ True # replicate 6 False"
    by code_simp
  moreover have "sps_fields_ok example_set"
    by (simp add: sps_fields_ok_def vui_ok_def se_ok_def example_set_def)
  ultimately have "h264_sps_read ?nal 17 sps_zero = Some (int (f_id example_set), sps_of_fields example_set sps_zero)"
    by (intro sps_read_decodes_fields [of example_set 17 ?nal "True # replicate 6 False" sps_zero])
      (simp_all add: sps_zero_def)
  then show ?thesis
    by (simp add: sps_of_fields_def vui_of_def aspect_of_def signal_of_def chroma_of_def timing_of_def restriction_of_def
        example_set_def sps_zero_def take_Cons' eval_nat_numeral)
qed

text \<open>Why the bits are taken as they stand. A parameter set with a time scale has zero bytes, which an encoder breaks
  up with emulation prevention bytes (0, 0, 3), as in the set that \<open>sps_pps.c\<close> quotes in a comment at line 814; the code
  reads these bytes as data.\<close>

lemma emulation_bytes_are_read_as_data:
  "map_option (\<lambda>(r, s). (r, i_num_units_in_tick (vui s), i_time_scale (vui s)))
     (h264_sps_read [0x67, 0x42, 0x80, 0x1E, 0xDA, 0x02, 0xC0, 0x49, 0x21, 0x00, 0x00, 0x01, 0xF4, 0x00, 0x00, 0x61, 0xA8,
        0x60, 0x40, 0x00, 0x20, 0x00, 0x00, 0x00, 0x24, 0x00, 0x1B, 0xDE, 0xF8, 0x5E, 0x11, 0x08, 0xD4] 33 sps_zero) =
     Some (0, 500, 25000)"
  "map_option (\<lambda>(r, s). (r, i_num_units_in_tick (vui s), i_time_scale (vui s)))
     (h264_sps_read [0x67, 0x42, 0x80, 0x1E, 0xDA, 0x02, 0xC0, 0x49, 0x21, 0x00, 0x00, 0x03, 0x01, 0xF4, 0x00, 0x00, 0x61, 0xA8,
        0x60, 0x40, 0x00, 0x20, 0x00, 0x00, 0x03, 0x00, 0x24, 0x00, 0x1B, 0xDE, 0xF8, 0x5E, 0x11, 0x08, 0xD4] 35 sps_zero) =
     Some (0, 769, - 201326495)"
  by code_simp+

text \<open>\<open>h264_pps_read\<close> completes on every NAL unit without an unescaped start code that announces
  at most 16 slice groups, and returns -1 or an id between 0 and 255 that is also the structure's.\<close>

theorem pps_read_safe_and_valid:
  assumes "no_start_code (drop 1 nal)" "1 \<le> nal_len" "nal_len \<le> int (length nal)" "pps_shape pps"
    "pps_announced_groups nal nal_len = Some g" "g \<le> 16"
  shows "\<exists>r pps'. h264_pps_read nal nal_len pps = Some (r, pps') \<and>
    (r = -1 \<or> 0 \<le> r \<and> r < 256 \<and> pps_id pps' = r)"
  using h264_pps_read_safe [OF assms] by (auto simp: completes_iff)

theorem pps_read_safe_and_valid_witness:
  "\<exists>r pps'. h264_pps_read [0x68, 0xCE, 0x38, 0x80] 4 pps_zero = Some (r, pps') \<and>
    (r = -1 \<or> 0 \<le> r \<and> r < 256 \<and> pps_id pps' = r)"
proof -
  have "pps_announced_groups [0x68, 0xCE, 0x38, 0x80] 4 = Some 1" by code_simp
  then show ?thesis
    using pps_read_safe_and_valid [of "[0x68, 0xCE, 0x38, 0x80]" 4 pps_zero 1] pps_zero_shape by auto
qed

text \<open>without the bound the parser writes past its arrays: with more slice groups than
  \<open>i_run_length\<close> has entries, filling it is undefined for every reader.\<close>

theorem pps_run_lengths_out_of_bounds:
  assumes "length rl < n"
  shows "pps_run_lengths n 0 s rl = None"
  by (rule pps_run_lengths_overflow) (use assms in auto)

theorem pps_run_lengths_out_of_bounds_witness:
  "pps_run_lengths 17 0 (bs_init (replicate 3 0xFF) 3) (replicate 16 0) = None"
  by (rule pps_run_lengths_out_of_bounds) simp

end
