(* ===== verification/Circular_List.thy ===== *)
theory Circular_List
  imports VC_Prelude
begin

text \<open>
  The ring of \<open>VirtualCamera/Common/circular_list.c\<close>: one allocation that holds the header, the nodes
  and the pool of elements. A pointer to a node is its index in \<open>nodes\<close>, a pointer into the pool its
  offset. The number of nodes that fit into the allocation bounds the list \<open>nodes\<close>, so writing a
  node past the allocation is undefined. The locale \<open>ring\<close> states what a user of the list relies on.
\<close>

section \<open>Data\<close>

record CircularListNode =
  node_data :: int
  node_prev :: int
  node_next :: int
  node_index :: int

record CircularList =
  nodes :: "CircularListNode list"
  pool :: "u8 list"
  cl_count :: u32
  element_size :: u32

text \<open>\<open>sizeof\<close> of the two structures on a 64-bit target.\<close>

definition sizeof_list :: int where
  "sizeof_list = 24"

definition sizeof_node :: int where
  "sizeof_node = 32"

section \<open>Operations\<close>

text \<open>The loop of \<open>CircularList_Create\<close>, with \<open>n\<close> nodes still to link from index \<open>i\<close> on.\<close>

fun link_nodes ::
  "nat \<Rightarrow> int \<Rightarrow> int \<Rightarrow> int \<Rightarrow> int \<Rightarrow> CircularListNode list \<Rightarrow> CircularListNode list option" where
  "link_nodes 0 i count elem pool_ptr ns = Some ns"
| "link_nodes (Suc n) i count elem pool_ptr ns =
     (let next' = (if i + 1 = count then 0 else i + 1);
          prev' = (if i - 1 < 0 then count - 1 else i - 1)
      in case c_write ns i \<lparr>node_data = pool_ptr, node_prev = prev', node_next = next', node_index = i\<rparr> of
           None \<Rightarrow> None
         | Some ns \<Rightarrow> link_nodes n (i + 1) count elem (pool_ptr + elem) ns)"

definition null_node :: CircularListNode where
  "null_node = \<lparr>node_data = 0, node_prev = 0, node_next = 0, node_index = 0\<rparr>"

text \<open>
  \<open>size\<close> is an \<open>int\<close>: the sum is converted to 32 bits, and \<open>element_size * count\<close> wraps before.
  \<open>alloc\<close> says whether \<open>malloc\<close> succeeds; the inner \<open>None\<close> is the null pointer.
\<close>

definition create_size :: "u32 \<Rightarrow> u32 \<Rightarrow> int" where
  "create_size count elem =
     to_int (word_of_int (sizeof_list + sizeof_node * uint count + uint (elem * count)))"

definition CircularList_Create :: "(int \<Rightarrow> bool) \<Rightarrow> u32 \<Rightarrow> u32 \<Rightarrow> CircularList option option" where
  "CircularList_Create alloc count elem =
     (let sz = create_size count elem in
      if alloc sz then
        if sz < sizeof_list then None
        else do {
          let cap = (sz - sizeof_list) div sizeof_node;
          ns \<leftarrow> link_nodes (nat (to_int count)) 0 (to_int count) (uint elem) 0
                 (replicate (nat cap) null_node);
          Some (Some \<lparr>nodes = ns, pool = replicate (nat (sz - sizeof_list - sizeof_node * uint count)) 0,
                      cl_count = count, element_size = elem\<rparr>) }
      else Some None)"

definition CircularList_Destroy :: "CircularList option \<Rightarrow> CircularList option" where
  "CircularList_Destroy cl = (case cl of None \<Rightarrow> None | Some l \<Rightarrow> None)"

definition CircularList_Reset :: "CircularList option \<Rightarrow> CircularList option option" where
  "CircularList_Reset cl =
     (case cl of None \<Rightarrow> Some None
      | Some l \<Rightarrow>
          let n = unat (element_size l * cl_count l) in
          if n \<le> length (pool l) then Some (Some (l\<lparr>pool := replicate n 0 @ drop n (pool l)\<rparr>)) else None)"

text \<open>Following a link.\<close>

definition cl_next :: "CircularList \<Rightarrow> nat \<Rightarrow> nat" where
  "cl_next l i = nat (node_next (nodes l ! i))"

definition cl_prev :: "CircularList \<Rightarrow> nat \<Rightarrow> nat" where
  "cl_prev l i = nat (node_prev (nodes l ! i))"

section \<open>What a user of the ring relies on\<close>

locale ring =
  fixes succ :: "nat \<Rightarrow> nat" and cnt :: nat
  assumes cnt_pos: "0 < cnt"
    and succ_eq: "i < cnt \<Longrightarrow> succ i = (if Suc i = cnt then 0 else Suc i)"
begin

lemma succ_less: "i < cnt \<Longrightarrow> succ i < cnt"
  using cnt_pos by (simp add: succ_eq)

lemma succ_mod: "i < cnt \<Longrightarrow> succ i = Suc i mod cnt"
  by (auto simp: succ_eq mod_if)

lemma iter_mod: "i < cnt \<Longrightarrow> (succ ^^ k) i = (i + k) mod cnt"
proof (induction k)
  case 0
  then show ?case by simp
next
  case (Suc k)
  have "(i + k) mod cnt < cnt" using cnt_pos by simp
  then show ?case using Suc succ_mod [of "(i + k) mod cnt"] by (simp add: mod_Suc_eq)
qed

lemma iter_less: "i < cnt \<Longrightarrow> (succ ^^ k) i < cnt"
  using cnt_pos by (simp add: iter_mod)

lemma iter_count: "i < cnt \<Longrightarrow> (succ ^^ cnt) i = i"
  by (simp add: iter_mod)

lemma iter_inj:
  assumes "i < cnt" "j < cnt" "k < cnt" "(succ ^^ j) i = (succ ^^ k) i"
  shows "j = k"
proof -
  have "(i + j) mod cnt = (i + k) mod cnt" using assms by (simp add: iter_mod)
  then have "int (i + j) mod int cnt = int (i + k) mod int cnt" by (metis zmod_int)
  then have "int cnt dvd int (i + j) - int (i + k)" by (simp add: mod_eq_dvd_iff)
  then have "int cnt dvd int j - int k" by simp
  moreover have "\<bar>int j - int k\<bar> < int cnt" using assms by linarith
  ultimately have "int j - int k = 0" using dvd_imp_le_int [of "int j - int k" "int cnt"] by linarith
  then show ?thesis by simp
qed

text \<open>The first \<open>k\<close> nodes from \<open>i\<close> on, as the user walks them.\<close>

lemma window_distinct:
  assumes "i < cnt" "k \<le> cnt"
  shows "distinct (map (\<lambda>j. (succ ^^ j) i) [0..<k])"
  unfolding distinct_map using assms iter_inj by (auto simp: inj_on_def)

lemma window_end:
  assumes "i < cnt" "k < cnt"
  shows "(succ ^^ k) i \<notin> set (map (\<lambda>j. (succ ^^ j) i) [0..<k])"
proof
  assume "(succ ^^ k) i \<in> set (map (\<lambda>j. (succ ^^ j) i) [0..<k])"
  then obtain j where "j < k" "(succ ^^ k) i = (succ ^^ j) i" by auto
  then show False using iter_inj [OF assms(1), of k j] assms(2) by simp
qed

end

section \<open>Correctness\<close>

definition linked :: "int \<Rightarrow> int \<Rightarrow> int \<Rightarrow> CircularListNode" where
  "linked count elem i = \<lparr>node_data = i * elem, node_prev = (if i - 1 < 0 then count - 1 else i - 1),
     node_next = (if i + 1 = count then 0 else i + 1), node_index = i\<rparr>"

lemma link_nodes_spec:
  assumes "i + n \<le> length ns" "\<forall>j < i. ns ! j = linked count elem (int j)"
  shows "\<exists>ns'. link_nodes n (int i) count elem (int i * elem) ns = Some ns' \<and> length ns' = length ns \<and>
    (\<forall>j < i + n. ns' ! j = linked count elem (int j))"
  using assms
proof (induction n arbitrary: i ns)
  case (Suc n)
  let ?ns = "ns[i := linked count elem (int i)]"
  have "\<exists>ns'. link_nodes n (int (Suc i)) count elem (int (Suc i) * elem) ?ns = Some ns' \<and>
      length ns' = length ?ns \<and> (\<forall>j < Suc i + n. ns' ! j = linked count elem (int j))"
    by (rule Suc.IH) (use Suc.prems in \<open>auto simp: nth_list_update less_Suc_eq\<close>)
  moreover have "link_nodes (Suc n) (int i) count elem (int i * elem) ns =
      link_nodes n (int i + 1) count elem (int i * elem + elem) ?ns"
    using Suc.prems by (simp add: linked_def c_write_def Let_def)
  moreover have "int (Suc i) = int i + 1" "int (Suc i) * elem = int i * elem + elem"
    by (simp_all add: distrib_right)
  ultimately show ?case by (simp only: length_list_update add_Suc add_Suc_right)
qed simp

text \<open>A list whose allocation fits into an \<open>int\<close>.\<close>

definition create_fits :: "u32 \<Rightarrow> u32 \<Rightarrow> bool" where
  "create_fits count elem \<longleftrightarrow> 24 + 32 * uint count + uint elem * uint count \<le> 2147483647"

lemma create_size_exact:
  assumes "create_fits count elem"
  shows "create_size count elem = 24 + 32 * uint count + uint elem * uint count"
    "uint (elem * count) = uint elem * uint count" "to_int count = uint count"
proof -
  have b: "0 \<le> uint count" "0 \<le> uint elem * uint count" by simp_all
  then show m: "uint (elem * count) = uint elem * uint count"
    by (intro uint_mult_lem [THEN iffD1]) (use assms b in \<open>simp add: create_fits_def mult.commute, linarith\<close>)
  have "uint count < 2147483648" using assms b unfolding create_fits_def by linarith
  then show "to_int count = uint count"
    by (intro to_int_small) simp
  show "create_size count elem = 24 + 32 * uint count + uint elem * uint count"
    unfolding create_size_def m sizeof_list_def sizeof_node_def
    by (rule to_int_word_of_int) (use assms b in \<open>simp_all add: create_fits_def\<close>)
qed

lemma CircularList_Create_spec:
  assumes "create_fits count elem" "alloc (create_size count elem)"
  obtains l where "CircularList_Create alloc count elem = Some (Some l)" "cl_count l = count"
    "element_size l = elem" "unat count \<le> length (nodes l)"
    "\<And>i. i < unat count \<Longrightarrow> nodes l ! i = linked (uint count) (uint elem) (int i)"
    "pool l = replicate (unat elem * unat count) 0"
proof -
  note e = create_size_exact [OF assms(1)]
  define cap where "cap = nat ((create_size count elem - 24) div 32)"
  have "uint count \<le> (create_size count elem - 24) div 32"
    by (simp add: e(1) pos_imp_zdiv_nonneg_iff)
  then have cap: "unat count \<le> cap" using order_trans [of 0 "uint count"]
    by (simp add: cap_def le_nat_iff)
  have p: "0 + unat count \<le> length (replicate cap null_node)" using cap by simp
  have "\<forall>j < 0. replicate cap null_node ! j = linked (uint count) (uint elem) (int j)" by simp
  from link_nodes_spec [OF p this] obtain ns where
    "link_nodes (unat count) (int 0) (uint count) (uint elem) (int 0 * uint elem) (replicate cap null_node) = Some ns"
    "length ns = length (replicate cap null_node)"
    "\<forall>j < 0 + unat count. ns ! j = linked (uint count) (uint elem) (int j)" by blast
  then have ns: "link_nodes (unat count) 0 (uint count) (uint elem) 0 (replicate cap null_node) = Some ns"
    "length ns = cap" "\<forall>j < unat count. ns ! j = linked (uint count) (uint elem) (int j)"
    by simp_all
  have "nat (create_size count elem - 24 - 32 * uint count) = unat elem * unat count"
    by (simp add: e(1) nat_mult_distrib)
  moreover have "\<not> create_size count elem < 24" by (simp add: e(1) not_less)
  ultimately have "CircularList_Create alloc count elem = Some (Some \<lparr>nodes = ns,
      pool = replicate (unat elem * unat count) 0, cl_count = count, element_size = elem\<rparr>)"
    using assms(2) ns(1)
    by (simp add: CircularList_Create_def Let_def sizeof_list_def sizeof_node_def e(3) flip: cap_def)
  then show thesis using that ns cap by simp
qed

lemma Create_ring:
  assumes "create_fits count elem" "CircularList_Create alloc count elem = Some (Some l)" "0 < count"
  shows "ring (cl_next l) (unat count)"
proof
  show "0 < unat count" using assms(3) by (simp add: word_less_nat_alt)
next
  fix i assume i: "i < unat count"
  have "alloc (create_size count elem)"
    using assms(2) by (auto simp: CircularList_Create_def Let_def split: if_splits)
  then obtain l' where "CircularList_Create alloc count elem = Some (Some l')"
    "\<And>i. i < unat count \<Longrightarrow> nodes l' ! i = linked (uint count) (uint elem) (int i)"
    using CircularList_Create_spec [OF assms(1)] by metis
  then have "nodes l ! i = linked (uint count) (uint elem) (int i)" using assms(2) i by simp
  moreover have "int i + 1 = uint count \<longleftrightarrow> Suc i = unat count" by (metis int_ops(4) of_nat_unat add.commute nat_int)
  ultimately show "cl_next l i = (if Suc i = unat count then 0 else Suc i)"
    by (auto simp: cl_next_def linked_def)
qed

section \<open>Properties\<close>

text \<open>C33: when the allocation size fits into an \<open>int\<close> and \<open>malloc\<close> succeeds, \<open>CircularList_Create\<close>
  writes only inside its allocation and yields a ring: node \<open>i\<close> carries its index and the address of
  element \<open>i\<close> of a zeroed pool of \<open>count\<close> elements, \<open>next\<close> and \<open>prev\<close> are inverse to each other, and
  following \<open>next\<close> \<open>k\<close> times from \<open>i\<close> reaches \<open>(i + k) mod count\<close>.\<close>

theorem Create_yields_ring:
  assumes "create_fits count elem" "alloc (create_size count elem)" "i < unat count"
  shows "\<exists>l. CircularList_Create alloc count elem = Some (Some l) \<and>
    pool l = replicate (unat elem * unat count) 0 \<and>
    node_index (nodes l ! i) = int i \<and> node_data (nodes l ! i) = int i * uint elem \<and>
    cl_next l (cl_prev l i) = i \<and> cl_prev l (cl_next l i) = i \<and>
    (cl_next l ^^ k) i = (i + k) mod unat count"
proof -
  obtain l where l: "CircularList_Create alloc count elem = Some (Some l)"
    "\<And>i. i < unat count \<Longrightarrow> nodes l ! i = linked (uint count) (uint elem) (int i)"
    "pool l = replicate (unat elem * unat count) 0"
    using CircularList_Create_spec [OF assms(1), of alloc] assms(2) by metis
  have r: "ring (cl_next l) (unat count)"
    by (rule Create_ring [OF assms(1) l(1)]) (use assms(3) in \<open>simp add: word_less_nat_alt\<close>)
  have u: "uint count = int (unat count)" by simp
  have prev: "cl_prev l i = (if i = 0 then unat count - 1 else i - 1)"
    using l(2) [OF assms(3)] assms(3) by (auto simp: cl_prev_def linked_def u nat_diff_distrib simp del: of_nat_unat)
  have nxt: "cl_next l j = (if Suc j = unat count then 0 else Suc j)" if "j < unat count" for j
    using ring.succ_eq [OF r that] .
  have prev2: "cl_prev l j = (if j = 0 then unat count - 1 else j - 1)" if "j < unat count" for j
    using l(2) [OF that] that by (auto simp: cl_prev_def linked_def u nat_diff_distrib simp del: of_nat_unat)
  have "cl_next l (cl_prev l i) = i" "cl_prev l (cl_next l i) = i"
    using assms(3) by (auto simp: prev nxt prev2)
  then show ?thesis
    using l assms(3) ring.iter_mod [OF r assms(3)] by (auto simp: linked_def)
qed

theorem Create_yields_ring_witness:
  "\<exists>l. CircularList_Create (\<lambda>_. True) 240 40 = Some (Some l) \<and> (cl_next l ^^ 3) 238 = 1"
proof -
  have "create_fits 240 40" by (simp add: create_fits_def)
  then show ?thesis using Create_yields_ring [of 240 40 "\<lambda>_. True" 238 3] by auto
qed

lemma link_nodes_no_room: "0 < n \<Longrightarrow> link_nodes n i count elem p [] = None"
  by (cases n) (auto simp: c_write_def Let_def)

text \<open>A count and element size too large for the 32-bit arithmetic of the size let
  \<open>CircularList_Create\<close> write outside the block it got: for 2 to the 27 elements of 32 bytes it asks
  \<open>malloc\<close> for the 24 bytes of the header alone, and linking the first node is undefined.\<close>

theorem Create_size_overflow:
  "create_size 0x08000000 0x20 = 24 \<and> CircularList_Create (\<lambda>sz. sz = 24) 0x08000000 0x20 = None"
proof -
  have "create_size 0x08000000 0x20 = 24" by code_simp
  moreover have "to_int 0x08000000 = 0x08000000" by code_simp
  ultimately show ?thesis
    by (simp add: CircularList_Create_def sizeof_list_def sizeof_node_def link_nodes_no_room)
qed

end
