(* ===== verification/Ansync_Decoder.thy ===== *)
theory Ansync_Decoder
  imports Circular_List Sps_Pps
begin

text \<open>
  The asynchronous decoder of \<open>VirtualCamera/AnsyncDecoder/AnsyncDecoder.c\<close>: a network thread hands
  packets to \<open>AnsyncDecoder_ReceiveData\<close>, which copies them into the slots of a ring; the decode
  thread takes them out in order and calls FFmpeg. The functions are modelled one by one first, FFmpeg
  being a parameter; then the two threads are composed to a step relation whose steps interleave,
  and the ring is shown to implement a bounded queue.
\<close>

section \<open>Slots\<close>

text \<open>\<open>b_head\<close> is the allocation of the slot, \<open>b_data\<close> the offset of the payload in it.\<close>

record BufferData =
  b_head :: "u8 list option"
  b_data :: "int option"
  b_len :: int
  b_timestamp :: u32
  max_len :: int
  need_read :: int
  media_type :: int

definition sizeof_buffer :: int where
  "sizeof_buffer = 40"

definition empty_slot :: BufferData where
  "empty_slot = \<lparr>b_head = None, b_data = None, b_len = 0, b_timestamp = 0, max_len = 0, need_read = 0,
     media_type = 0\<rparr>"

record packet =
  pk_data :: "u8 list"
  pk_len :: int
  pk_timestamp :: u32
  pk_type :: int

text \<open>\<open>malloc\<close> of \<open>n\<close> bytes; \<open>alloc\<close> says whether it succeeds. The bytes are arbitrary, zero here.\<close>

definition c_malloc :: "(int \<Rightarrow> bool) \<Rightarrow> int \<Rightarrow> u8 list option" where
  "c_malloc alloc n = (if 0 \<le> n \<and> alloc n then Some (replicate (nat n) 0) else None)"

text \<open>\<open>memcpy\<close> of \<open>n\<close> bytes of \<open>src\<close> to offset \<open>off\<close> of \<open>dst\<close>; outside either object it is undefined.\<close>

definition c_memcpy :: "u8 list option \<Rightarrow> int \<Rightarrow> u8 list \<Rightarrow> int \<Rightarrow> u8 list option" where
  "c_memcpy dst off src n =
     (case dst of None \<Rightarrow> None
      | Some d \<Rightarrow>
          if 0 \<le> n \<and> n \<le> int (length src) \<and> 0 \<le> off \<and> off + n \<le> int (length d)
          then Some (take (nat off) d @ take (nat n) src @ drop (nat (off + n)) d)
          else None)"

text \<open>The reallocation both branches of \<open>AnsyncDecoder_ReceiveData\<close> perform.\<close>

definition slot_reserve :: "(int \<Rightarrow> bool) \<Rightarrow> int \<Rightarrow> BufferData \<Rightarrow> BufferData" where
  "slot_reserve alloc malloc_len b =
     (let b = (if b_head b \<noteq> None \<and> max_len b < malloc_len
               then b\<lparr>b_head := None, b_data := None, max_len := 0\<rparr> else b)
      in if b_head b = None then b\<lparr>b_head := c_malloc alloc malloc_len, max_len := malloc_len\<rparr> else b)"

text \<open>
  The body of \<open>AnsyncDecoder_ReceiveData\<close> between the wait and the publication: any other media type
  leaves the slot as it was.
\<close>

definition slot_fill :: "(int \<Rightarrow> bool) \<Rightarrow> int \<Rightarrow> int \<Rightarrow> BufferData \<Rightarrow> packet \<Rightarrow> BufferData option" where
  "slot_fill alloc sps_length pps_length b p =
     (if pk_type p = 1 then do {
        n1 \<leftarrow> c_int (pk_len p + sps_length);
        n2 \<leftarrow> c_int (n1 + pps_length);
        malloc_len \<leftarrow> c_int (n2 + 256);
        let b = slot_reserve alloc malloc_len b;
        let b = b\<lparr>media_type := 1, b_len := pk_len p, b_timestamp := pk_timestamp p,
                  b_data := Some (sps_length + pps_length)\<rparr>;
        h \<leftarrow> c_memcpy (b_head b) (sps_length + pps_length) (pk_data p) (pk_len p);
        Some (b\<lparr>b_head := Some h\<rparr>) }
      else if pk_type p = 2 then do {
        let b = slot_reserve alloc (pk_len p) b;
        let b = b\<lparr>media_type := 2, b_len := pk_len p, b_timestamp := pk_timestamp p, b_data := Some 0\<rparr>;
        h \<leftarrow> c_memcpy (b_head b) 0 (pk_data p) (pk_len p);
        Some (b\<lparr>b_head := Some h\<rparr>) }
      else Some b)"

section \<open>Decoding a slot\<close>

text \<open>
  FFmpeg and the C library's files, as the code uses them. \<open>'v\<close> and \<open>'a\<close> are the states of the two
  codec contexts, \<open>'f\<close> a decoded frame. \<open>sws_rows w h f\<close> are the rows of four-byte pixels that
  \<open>sws_scale\<close> produces for a context made for \<open>w\<close> times \<open>h\<close>.
\<close>

record ('v, 'a, 'f) av_ops =
  get_has_b_frames :: "'v \<Rightarrow> int"
  set_has_b_frames :: "int \<Rightarrow> 'v \<Rightarrow> 'v"
  v_send :: "'v \<Rightarrow> u8 list \<Rightarrow> int \<times> 'v"
  v_receive :: "'v \<Rightarrow> int \<times> 'v \<times> 'f"
  v_width :: "'v \<Rightarrow> int"
  v_height :: "'v \<Rightarrow> int"
  frame_w :: "'f \<Rightarrow> int"
  sws_get :: "int \<Rightarrow> int \<Rightarrow> bool"
  sws_rows :: "int \<Rightarrow> int \<Rightarrow> 'f \<Rightarrow> u8 list list"
  rgb_alloc :: "int \<Rightarrow> bool"
  a_send :: "'a \<Rightarrow> u8 list \<Rightarrow> int \<times> 'a"
  a_receive :: "'a \<Rightarrow> int \<times> 'a \<times> u8 list"
  swr_convert :: "u8 list \<Rightarrow> int \<times> u8 list"
  fopen0 :: bool
  fopen1 :: bool

definition AVERROR_EOF :: int where
  "AVERROR_EOF = - 541478725"

text \<open>A call of the decoder's callback: data, size, width, height, timestamp, media type.\<close>

datatype av_event = AvEvent "u8 list" int int int u32 int

record ('v, 'a) codec =
  v_ctx :: 'v
  sws :: "(int \<times> int) option"
  rgb_data :: "u8 list option"
  a_ctx :: 'a
  a_swr :: bool
  fp0 :: bool
  fp1 :: bool
  has_callback :: bool
  events :: "av_event list"

text \<open>\<open>sws_scale\<close> stores row after row, \<open>stride\<close> bytes apart.\<close>

fun store_rows :: "u8 list option \<Rightarrow> int \<Rightarrow> int \<Rightarrow> u8 list list \<Rightarrow> u8 list option" where
  "store_rows buf off stride [] = buf"
| "store_rows buf off stride (r # rs) =
     (case c_memcpy buf off r (int (length r)) of None \<Rightarrow> None
      | Some b \<Rightarrow> store_rows (Some b) (off + stride) stride rs)"

definition decode_video_node ::
  "('v, 'a, 'f) av_ops \<Rightarrow> ('v, 'a) codec \<Rightarrow> BufferData \<Rightarrow> ('v, 'a) codec option" where
  "decode_video_node av ad b = do {
     off \<leftarrow> b_data b;
     h \<leftarrow> b_head b;
     nalu_byte \<leftarrow> c_read h (off + 4);
     if b_len b = 0 then Some ad
     else do {
       let ad = (if get_has_b_frames av (v_ctx ad) > 1
                 then ad\<lparr>v_ctx := set_has_b_frames av 1 (v_ctx ad)\<rparr> else ad);
       let (result, v) = v_send av (v_ctx ad) (take (nat (b_len b)) (drop (nat off) h));
       let ad = ad\<lparr>v_ctx := v\<rparr>;
       if result < 0 \<and> result \<noteq> AVERROR_EOF then Some ad
       else do {
         let (result, v, frame) = v_receive av (v_ctx ad);
         let ad = ad\<lparr>v_ctx := v\<rparr>;
         if result < 0 \<and> result \<noteq> AVERROR_EOF then Some ad
         else do {
           let w = v_width av v;
           let ht = v_height av v;
           if sws ad = None \<and> \<not> sws_get av w ht then Some ad
           else do {
             let ad = (if sws ad = None
                       then ad\<lparr>sws := Some (w, ht), rgb_data := c_malloc (rgb_alloc av) (w * ht * 4)\<rparr>
                       else ad);
             if result = 0 then do {
               (w0, h0) \<leftarrow> sws ad;
               stride \<leftarrow> c_int (frame_w av frame * 4);
               rgb \<leftarrow> store_rows (rgb_data ad) 0 stride (sws_rows av w0 h0 frame);
               let ad = ad\<lparr>rgb_data := Some rgb\<rparr>;
               if has_callback ad then do {
                 a \<leftarrow> c_int (w * ht);
                 n \<leftarrow> c_int (a * 4);
                 Some (ad\<lparr>events := events ad @ [AvEvent rgb n w ht (b_timestamp b) 1]\<rparr>) }
               else Some ad }
             else Some ad } } } } }"

text \<open>Every decoded sound frame is also dumped to two files, which are opened on first use.\<close>

definition decode_audio_node ::
  "('v, 'a, 'f) av_ops \<Rightarrow> ('v, 'a) codec \<Rightarrow> BufferData \<Rightarrow> ('v, 'a) codec option" where
  "decode_audio_node av ad b =
     (if b_data b = None \<or> b_len b = 0 then Some ad
      else do {
        off \<leftarrow> b_data b;
        h \<leftarrow> b_head b;
        let (result, a) = a_send av (a_ctx ad) (take (nat (b_len b)) (drop (nat off) h));
        let ad = ad\<lparr>a_ctx := a\<rparr>;
        if result < 0 \<and> result \<noteq> AVERROR_EOF then Some ad
        else do {
          let (result, a, frame) = a_receive av (a_ctx ad);
          let ad = ad\<lparr>a_ctx := a\<rparr>;
          if result < 0 \<and> result \<noteq> AVERROR_EOF then Some ad
          else do {
            let ad = (if \<not> fp0 ad then ad\<lparr>fp0 := fopen0 av\<rparr> else ad);
            (if fp0 ad then Some () else None);
            let ad = ad\<lparr>a_swr := True\<rparr>;
            let (result, out) = swr_convert av frame;
            if result < 0 \<and> result \<noteq> AVERROR_EOF then Some ad
            else if has_callback ad then do {
              let ad = (if \<not> fp1 ad then ad\<lparr>fp1 := fopen1 av\<rparr> else ad);
              (if fp1 ad then Some () else None);
              Some (ad\<lparr>events := events ad @ [AvEvent out (int (length out)) 0 0 0 2]\<rparr>) }
            else Some ad } } })"

section \<open>The decoder\<close>

text \<open>
  The part of \<open>struct stAnsyncDecoder\<close> the two threads share, with the node the decode thread is at.
  A node is its index in the list, and the slot of a node is the element its \<open>data\<close> points to.
\<close>

record ring_state =
  buffer_list :: CircularList
  slots :: "BufferData list"
  node_write :: nat
  node_read :: nat
  sps_len :: int
  pps_len :: int
  cnt_rcv :: u64
  cnt_dec :: u64
  quit :: int
  running :: int

record ('v, 'a) AnsyncDecoder = ring_state +
  codec :: "('v, 'a) codec"
  frame_width :: int
  frame_height :: int

definition slot_of :: "'s ring_state_scheme \<Rightarrow> nat \<Rightarrow> nat" where
  "slot_of st i = nat (node_data (nodes (buffer_list st) ! i) div sizeof_buffer)"

definition slot_at :: "'s ring_state_scheme \<Rightarrow> nat \<Rightarrow> BufferData" where
  "slot_at st i = slots st ! slot_of st i"

definition set_slot :: "'s ring_state_scheme \<Rightarrow> nat \<Rightarrow> BufferData \<Rightarrow> 's ring_state_scheme" where
  "set_slot st i b = st\<lparr>slots := (slots st)[slot_of st i := b]\<rparr>"

text \<open>The last three statements of \<open>AnsyncDecoder_ReceiveData\<close>.\<close>

definition publish :: "'s ring_state_scheme \<Rightarrow> 's ring_state_scheme" where
  "publish st =
     (let st = set_slot st (node_write st) ((slot_at st (node_write st))\<lparr>need_read := 1\<rparr>)
      in st\<lparr>node_write := cl_next (buffer_list st) (node_write st), cnt_rcv := cnt_rcv st + 1\<rparr>)"

text \<open>The last three statements of the loop of \<open>decode_thread_func\<close>.\<close>

definition release :: "'s ring_state_scheme \<Rightarrow> 's ring_state_scheme" where
  "release st =
     (let st = st\<lparr>cnt_dec := cnt_dec st + 1\<rparr>;
          st = set_slot st (node_read st) ((slot_at st (node_read st))\<lparr>need_read := 0\<rparr>)
      in st\<lparr>node_read := cl_next (buffer_list st) (node_read st)\<rparr>)"

text \<open>The wait for a free slot; \<open>sleep\<close> is what the rest of the program does during \<open>usleep(1000)\<close>.\<close>

fun receive_wait :: "('s ring_state_scheme \<Rightarrow> 's ring_state_scheme) \<Rightarrow> nat \<Rightarrow> nat \<Rightarrow>
    's ring_state_scheme \<Rightarrow> 's ring_state_scheme" where
  "receive_wait sleep node 0 st = st"
| "receive_wait sleep node (Suc count) st =
     (if need_read (slot_at st node) = 1 then receive_wait sleep node count (sleep st) else st)"

definition AnsyncDecoder_ReceiveData ::
  "(int \<Rightarrow> bool) \<Rightarrow> ('s ring_state_scheme \<Rightarrow> 's ring_state_scheme) \<Rightarrow> 's ring_state_scheme option \<Rightarrow>
    packet \<Rightarrow> 's ring_state_scheme option option" where
  "AnsyncDecoder_ReceiveData alloc sleep ad p =
     (case ad of None \<Rightarrow> Some None
      | Some st \<Rightarrow>
          if running st = 0 then Some (Some st)
          else
            let st = receive_wait sleep (node_write st) 20 st in
            if need_read (slot_at st (node_write st)) = 1 then Some (Some st)
            else do {
              b \<leftarrow> slot_fill alloc (sps_len st) (pps_len st) (slot_at st (node_write st)) p;
              Some (Some (publish (set_slot st (node_write st) b))) })"

text \<open>One pass of the loop of \<open>decode_thread_func\<close>; the flag says that the thread is still in it.\<close>

definition decode_thread_pass ::
  "('v, 'a, 'f) av_ops \<Rightarrow> ('v, 'a) AnsyncDecoder \<Rightarrow> (bool \<times> ('v, 'a) AnsyncDecoder) option" where
  "decode_thread_pass av ad =
     (if quit ad \<noteq> 0 then Some (False, ad\<lparr>running := 0\<rparr>)
      else
        let b = slot_at ad (node_read ad) in
        if need_read b \<noteq> 0 then do {
          c \<leftarrow> (if media_type b = 1 then decode_video_node av (codec ad) b
                else if media_type b = 2 then decode_audio_node av (codec ad) b
                else Some (codec ad));
          Some (True, release (ad\<lparr>codec := c\<rparr>)) }
        else Some (True, ad))"

text \<open>\<open>n\<close> passes, the thread leaving the loop when \<open>quit\<close> is set.\<close>

fun decode_thread_func ::
  "('v, 'a, 'f) av_ops \<Rightarrow> nat \<Rightarrow> ('v, 'a) AnsyncDecoder \<Rightarrow> (bool \<times> ('v, 'a) AnsyncDecoder) option" where
  "decode_thread_func av 0 ad = Some (True, ad)"
| "decode_thread_func av (Suc n) ad =
     (case decode_thread_pass av ad of None \<Rightarrow> None
      | Some (True, ad) \<Rightarrow> decode_thread_func av n ad
      | Some (False, ad) \<Rightarrow> Some (False, ad))"

text \<open>
  \<open>AnsyncDecoder_Create\<close>: the outcomes of the library calls, in the order they are made, decide how far
  it gets; after a failure the partly built decoder is destroyed and a null pointer returned. The
  fields for the sets, \<open>sps_length\<close> and \<open>pps_length\<close>, stay zero, and the picture size is fixed.
\<close>

record create_env =
  ok_malloc :: bool
  ok_find_h264 :: bool
  ok_alloc_ctx :: bool
  res_params :: int
  res_open :: int
  ok_frame :: bool
  ok_find_aac :: bool
  ok_alloc_a_ctx :: bool
  res_a_params :: int
  res_a_open :: int
  ok_a_frame :: bool
  ok_a_frame_out :: bool
  ok_thread :: bool
  ok_list :: "int \<Rightarrow> bool"

definition create_ok :: "create_env \<Rightarrow> bool" where
  "create_ok e \<longleftrightarrow> ok_malloc e \<and> ok_find_h264 e \<and> ok_alloc_ctx e \<and> 0 \<le> res_params e \<and> 0 \<le> res_open e \<and>
     ok_frame e \<and> ok_find_aac e \<and> ok_alloc_a_ctx e \<and> 0 \<le> res_a_params e \<and> 0 \<le> res_a_open e \<and>
     ok_a_frame e \<and> ok_a_frame_out e \<and> ok_thread e"

definition AnsyncDecoder_Create ::
  "create_env \<Rightarrow> h264_sps_t \<Rightarrow> u8 list \<Rightarrow> int \<Rightarrow> 'v \<Rightarrow> 'a \<Rightarrow> bool \<Rightarrow> ('v, 'a) AnsyncDecoder option option" where
  "AnsyncDecoder_Create e h264_sps sps_data sps_length v a callback = do {
     (r, h264_sps) \<leftarrow> h264_sps_read sps_data sps_length h264_sps;
     if create_ok e then do {
       l \<leftarrow> CircularList_Create (ok_list e) 240 (word_of_int sizeof_buffer);
       l \<leftarrow> l;
       Some (Some \<lparr>buffer_list = l, slots = replicate 240 empty_slot, node_write = 0, node_read = 0,
         sps_len = 0, pps_len = 0, cnt_rcv = 0, cnt_dec = 0, quit = 0, running = 0,
         codec = \<lparr>v_ctx = v, sws = None, rgb_data = None, a_ctx = a, a_swr = False, fp0 = False,
                  fp1 = False, has_callback = callback, events = []\<rparr>,
         frame_width = 1080, frame_height = 1920\<rparr>) }
     else Some None }"

text \<open>
  \<open>AnsyncDecoder_Destroy\<close>: when the thread has been joined every slot's allocation is released once.
  The result lists the blocks passed to \<open>free\<close>, in order: those of the slots, the list, the picture
  and the decoder.
\<close>

datatype heap_block = SlotBlock nat | ListBlock | RgbBlock | DecoderBlock

definition AnsyncDecoder_Destroy :: "('v, 'a) AnsyncDecoder option \<Rightarrow> heap_block list" where
  "AnsyncDecoder_Destroy ad =
     (case ad of None \<Rightarrow> []
      | Some d \<Rightarrow>
          map SlotBlock (filter (\<lambda>i. b_head (slots d ! i) \<noteq> None) [0..<unat (cl_count (buffer_list d))]) @
          [ListBlock] @ (if rgb_data (codec d) \<noteq> None then [RgbBlock] else []) @ [DecoderBlock])"

definition AnsyncDecoder_GetWidth :: "('v, 'a) AnsyncDecoder option \<Rightarrow> int" where
  "AnsyncDecoder_GetWidth ad = (case ad of None \<Rightarrow> 0 | Some d \<Rightarrow> frame_width d)"

definition AnsyncDecoder_GetHeight :: "('v, 'a) AnsyncDecoder option \<Rightarrow> int" where
  "AnsyncDecoder_GetHeight ad = (case ad of None \<Rightarrow> 0 | Some d \<Rightarrow> frame_height d)"

section \<open>Filling a slot\<close>

text \<open>What the decode functions see of a slot: type, payload, timestamp.\<close>

definition slot_view :: "BufferData \<Rightarrow> int \<times> u8 list \<times> u32" where
  "slot_view b = (media_type b,
     take (nat (b_len b)) (drop (nat (the (b_data b))) (the (b_head b))), b_timestamp b)"

definition slot_ok :: "BufferData \<Rightarrow> bool" where
  "slot_ok b \<longleftrightarrow> 0 \<le> max_len b \<and> (case b_head b of None \<Rightarrow> b_data b = None \<and> media_type b = 0
      | Some h \<Rightarrow> int (length h) = max_len b \<and> 0 \<le> b_len b \<and>
          (case b_data b of None \<Rightarrow> False | Some off \<Rightarrow> 0 \<le> off \<and> off + b_len b \<le> max_len b \<and>
             (media_type b = 1 \<longrightarrow> off + b_len b + 256 \<le> max_len b)))"

lemma slot_ok_need_read [simp]: "slot_ok (b\<lparr>need_read := x\<rparr>) = slot_ok b"
  by (auto simp: slot_ok_def split: option.splits)

lemma slot_view_need_read [simp]: "slot_view (b\<lparr>need_read := x\<rparr>) = slot_view b"
  by (simp add: slot_view_def)

lemma c_memcpy_length: "c_memcpy dst off src n = Some d' \<Longrightarrow> \<exists>d. dst = Some d \<and> length d' = length d"
  by (auto simp: c_memcpy_def split: option.splits if_splits)

lemma slot_reserve_spec:
  assumes "slot_ok b" "0 \<le> n" "alloc n"
  obtains h where "b_head (slot_reserve alloc n b) = Some h" "int (length h) = max_len (slot_reserve alloc n b)"
    "n \<le> max_len (slot_reserve alloc n b)" "need_read (slot_reserve alloc n b) = need_read b"
  using assms by (cases "b_head b"; cases "max_len b < n")
    (auto simp: slot_reserve_def c_malloc_def slot_ok_def Let_def not_less)

definition packet_ok :: "packet \<Rightarrow> bool" where
  "packet_ok p \<longleftrightarrow> (pk_type p = 1 \<or> pk_type p = 2) \<and> 0 \<le> pk_len p \<and> pk_len p \<le> int (length (pk_data p)) \<and>
     pk_len p \<le> 2147483391"

definition packet_view :: "packet \<Rightarrow> int \<times> u8 list \<times> u32" where
  "packet_view p = (pk_type p, take (nat (pk_len p)) (pk_data p), pk_timestamp p)"

lemma slot_fill_spec:
  assumes "slot_ok b" "packet_ok p" "\<And>n. alloc n"
  obtains b' where "slot_fill alloc 0 0 b p = Some b'" "slot_ok b'" "slot_view b' = packet_view p"
    "need_read b' = need_read b"
proof (cases "pk_type p = 1")
  case True
  let ?n = "pk_len p + 256"
  obtain h where h: "b_head (slot_reserve alloc ?n b) = Some h"
    "int (length h) = max_len (slot_reserve alloc ?n b)" "?n \<le> max_len (slot_reserve alloc ?n b)"
    "need_read (slot_reserve alloc ?n b) = need_read b"
    using slot_reserve_spec [of b ?n alloc] assms by (auto simp: packet_ok_def)
  let ?b = "(slot_reserve alloc ?n b)\<lparr>media_type := 1, b_len := pk_len p,
      b_timestamp := pk_timestamp p, b_data := Some 0,
      b_head := Some (take (nat (pk_len p)) (pk_data p) @ drop (nat (pk_len p)) h)\<rparr>"
  have "slot_fill alloc 0 0 b p = Some ?b"
    using assms(2) h True by (auto simp: slot_fill_def packet_ok_def in_int_def Let_def c_memcpy_def)
  moreover have "slot_ok ?b" "slot_view ?b = packet_view p"
    using assms(2) h True by (auto simp: slot_ok_def slot_view_def packet_view_def packet_ok_def)
  ultimately show thesis using that h by simp
next
  case False
  then have t: "pk_type p = 2" using assms(2) by (simp add: packet_ok_def)
  obtain h where h: "b_head (slot_reserve alloc (pk_len p) b) = Some h"
    "int (length h) = max_len (slot_reserve alloc (pk_len p) b)"
    "pk_len p \<le> max_len (slot_reserve alloc (pk_len p) b)"
    "need_read (slot_reserve alloc (pk_len p) b) = need_read b"
    using slot_reserve_spec [of b "pk_len p" alloc] assms by (auto simp: packet_ok_def)
  let ?b = "(slot_reserve alloc (pk_len p) b)\<lparr>media_type := 2, b_len := pk_len p,
      b_timestamp := pk_timestamp p, b_data := Some 0,
      b_head := Some (take (nat (pk_len p)) (pk_data p) @ drop (nat (pk_len p)) h)\<rparr>"
  have "slot_fill alloc 0 0 b p = Some ?b"
    using assms(2) h t by (auto simp: slot_fill_def packet_ok_def in_int_def Let_def c_memcpy_def)
  moreover have "slot_ok ?b" "slot_view ?b = packet_view p"
    using assms(2) h t by (auto simp: slot_ok_def slot_view_def packet_view_def packet_ok_def)
  ultimately show thesis using that h by simp
qed

text \<open>When \<open>malloc\<close> fails the copy is undefined, so a slot that was filled has been filled with memory at hand; and only
  the refusal of the block the packet needs makes it undefined.\<close>

lemma slot_reserve_alloc:
  "b_head (slot_reserve alloc n b) = None \<or> slot_reserve alloc n b = slot_reserve (\<lambda>_. True) n b"
  by (auto simp: slot_reserve_def c_malloc_def Let_def)

lemma reserved_copy:
  "c_memcpy (b_head (slot_reserve alloc n b)) off src l = Some h \<Longrightarrow> slot_reserve alloc n b = slot_reserve (\<lambda>_. True) n b"
  using slot_reserve_alloc [of alloc n b] by (auto simp: c_memcpy_def)

lemma slot_fill_alloc:
  assumes "slot_fill alloc x y b p = Some b'"
  shows "slot_fill (\<lambda>_. True) x y b p = Some b'"
proof -
  consider "pk_type p = 1" | "pk_type p = 2" | "pk_type p \<noteq> 1" "pk_type p \<noteq> 2" by blast
  then show ?thesis
  proof cases
    case 1
    then obtain n1 n2 n h where n: "c_int (pk_len p + x) = Some n1" "c_int (n1 + y) = Some n2" "c_int (n2 + 256) = Some n"
      "c_memcpy (b_head (slot_reserve alloc n b)) (x + y) (pk_data p) (pk_len p) = Some h"
      using assms by (auto simp: slot_fill_def bind_eq_Some_conv Let_def)
    show ?thesis using assms 1 reserved_copy [OF n(4)] by (simp add: slot_fill_def n(1-3))
  next
    case 2
    then obtain h where h: "c_memcpy (b_head (slot_reserve alloc (pk_len p) b)) 0 (pk_data p) (pk_len p) = Some h"
      using assms by (auto simp: slot_fill_def bind_eq_Some_conv Let_def)
    show ?thesis using assms 2 reserved_copy [OF h] by (simp add: slot_fill_def)
  qed (use assms in \<open>simp add: slot_fill_def\<close>)
qed

definition block_needed :: "packet \<Rightarrow> int" where
  "block_needed p = (if pk_type p = 1 then pk_len p + 256 else pk_len p)"

lemma slot_fill_defined:
  assumes "slot_ok b" "packet_ok p" "alloc (block_needed p)"
  shows "\<exists>b'. slot_fill alloc 0 0 b p = Some b'"
proof -
  have "slot_reserve alloc (block_needed p) b = slot_reserve (\<lambda>_. True) (block_needed p) b"
    using assms(3) by (simp add: slot_reserve_def c_malloc_def)
  then have "slot_fill alloc 0 0 b p = slot_fill (\<lambda>_. True) 0 0 b p"
    using assms(2) by (auto simp: slot_fill_def block_needed_def packet_ok_def in_int_def)
  then show ?thesis using slot_fill_spec [OF assms(1,2), of "\<lambda>_. True"] by metis
qed

section \<open>The ring as a bounded queue\<close>

text \<open>The contract of a bounded queue, over a predicate of well-formed states and their content.\<close>

locale bounded_queue =
  fixes inv :: "'s \<Rightarrow> bool" and content :: "'s \<Rightarrow> 'x list" and enq :: "'s \<Rightarrow> 'i \<Rightarrow> 's"
    and deq :: "'s \<Rightarrow> 's" and item :: "'i \<Rightarrow> 'x" and valid :: "'i \<Rightarrow> bool" and cap :: nat
  assumes bounded: "inv s \<Longrightarrow> length (content s) \<le> cap"
    and enq_content: "inv s \<Longrightarrow> valid i \<Longrightarrow> length (content s) < cap \<Longrightarrow> content (enq s i) = content s @ [item i]"
    and enq_inv: "inv s \<Longrightarrow> valid i \<Longrightarrow> length (content s) < cap \<Longrightarrow> inv (enq s i)"
    and deq_content: "inv s \<Longrightarrow> content s \<noteq> [] \<Longrightarrow> content (deq s) = tl (content s)"
    and deq_inv: "inv s \<Longrightarrow> content s \<noteq> [] \<Longrightarrow> inv (deq s)"
begin

text \<open>A client's operations: \<open>Some i\<close> offers \<open>i\<close>, which is refused when the queue is full; \<open>None\<close> takes
  the oldest element, if there is one. The result is the state, what was accepted and what was taken.\<close>

fun run :: "'i option list \<Rightarrow> 's \<Rightarrow> 's \<times> 'x list \<times> 'x list" where
  "run [] s = (s, [], [])"
| "run (Some i # ops) s =
     (if length (content s) < cap then
        let (t, acc, tak) = run ops (enq s i) in (t, item i # acc, tak)
      else run ops s)"
| "run (None # ops) s =
     (if content s \<noteq> [] then
        let (t, acc, tak) = run ops (deq s) in (t, acc, hd (content s) # tak)
      else run ops s)"

lemma run_fifo:
  assumes "inv s" "\<forall>i. Some i \<in> set ops \<longrightarrow> valid i" "run ops s = (t, acc, tak)"
  shows "inv t \<and> content s @ acc = tak @ content t"
  using assms
proof (induction ops s arbitrary: t acc tak rule: run.induct)
  case (2 i ops s)
  then show ?case
    by (cases "length (content s) < cap")
      (auto simp: enq_inv enq_content split: prod.splits)
next
  case (3 ops s)
  then show ?case
    by (cases "content s") (auto simp: deq_inv deq_content split: prod.splits)
qed simp

end

text \<open>The list that \<open>AnsyncDecoder_Create\<close> makes, and its ring.\<close>

definition decoder_list :: CircularList where
  "decoder_list = the (the (CircularList_Create (\<lambda>_. True) 240 (word_of_int sizeof_buffer)))"

lemma Create_decoder_list:
  assumes "CircularList_Create alloc 240 (word_of_int sizeof_buffer) = Some (Some l)"
  shows "l = decoder_list"
  using assms by (auto simp: decoder_list_def CircularList_Create_def Let_def split: if_splits)

lemma decoder_list_Create:
  "CircularList_Create (\<lambda>_. True) 240 (word_of_int sizeof_buffer) = Some (Some decoder_list)"
  and decoder_list_node:
  "i < 240 \<Longrightarrow> nodes decoder_list ! i = linked 240 sizeof_buffer (int i)"
proof -
  have f: "create_fits 240 (word_of_int sizeof_buffer)"
    by (simp add: create_fits_def sizeof_buffer_def)
  obtain l where l: "CircularList_Create (\<lambda>_. True) 240 (word_of_int sizeof_buffer) = Some (Some l)"
    "\<And>i. i < unat (240 :: u32) \<Longrightarrow> nodes l ! i = linked (uint (240 :: u32)) (uint (word_of_int sizeof_buffer :: u32)) (int i)"
    using CircularList_Create_spec [OF f, of "\<lambda>_. True"] by metis
  then have "l = decoder_list" using Create_decoder_list by blast
  then show "CircularList_Create (\<lambda>_. True) 240 (word_of_int sizeof_buffer) = Some (Some decoder_list)"
    "i < 240 \<Longrightarrow> nodes decoder_list ! i = linked 240 sizeof_buffer (int i)"
    using l by (simp_all add: sizeof_buffer_def)
qed

interpretation decoder_ring: ring "cl_next decoder_list" 240
proof -
  have "ring (cl_next decoder_list) (unat (240 :: u32))"
    by (rule Create_ring [OF _ decoder_list_Create]) (simp_all add: create_fits_def sizeof_buffer_def)
  then show "ring (cl_next decoder_list) 240" by simp
qed

lemma slot_of_node: "buffer_list st = decoder_list \<Longrightarrow> i < 240 \<Longrightarrow> slot_of st i = i"
  by (simp add: slot_of_def decoder_list_node linked_def sizeof_buffer_def)

lemma mod_240_inj: "j < 240 \<Longrightarrow> k < 240 \<Longrightarrow> r < 240 \<Longrightarrow> (r + j) mod 240 = (r + k) mod 240 \<Longrightarrow> j = (k :: nat)"
  using decoder_ring.iter_inj [of r j k] decoder_ring.iter_mod [of r] by simp

text \<open>The nodes in the order the decode thread will meet them, and the full slots among them.\<close>

definition ring_order :: "'s ring_state_scheme \<Rightarrow> nat list" where
  "ring_order st = map (\<lambda>j. (cl_next (buffer_list st) ^^ j) (node_read st)) [0..<240]"

definition ring_content :: "'s ring_state_scheme \<Rightarrow> (int \<times> u8 list \<times> u32) list" where
  "ring_content st = map (\<lambda>i. slot_view (slot_at st i))
     (takeWhile (\<lambda>i. need_read (slot_at st i) = 1) (ring_order st))"

text \<open>\<open>m\<close> slots from the reader's node up to the writer's are full, the others are free.\<close>

definition ring_holds :: "'s ring_state_scheme \<Rightarrow> nat \<Rightarrow> bool" where
  "ring_holds st m \<longleftrightarrow> buffer_list st = decoder_list \<and> length (slots st) = 240 \<and> sps_len st = 0 \<and>
     pps_len st = 0 \<and> node_read st < 240 \<and> m \<le> 240 \<and> node_write st = (node_read st + m) mod 240 \<and>
     (\<forall>j < 240. need_read (slots st ! ((node_read st + j) mod 240)) = (if j < m then 1 else 0)) \<and>
     (\<forall>i < 240. slot_ok (slots st ! i))"

definition ring_inv :: "'s ring_state_scheme \<Rightarrow> bool" where
  "ring_inv st \<longleftrightarrow> (\<exists>m. ring_holds st m)"

lemma slot_at_mod: "ring_holds st m \<Longrightarrow> slot_at st (k mod 240) = slots st ! (k mod 240)"
  by (simp add: slot_at_def slot_of_node ring_holds_def)

lemma ring_order_nth:
  "ring_holds st m \<Longrightarrow> ring_order st = map (\<lambda>j. (node_read st + j) mod 240) [0..<240]"
  by (auto simp: ring_order_def ring_holds_def decoder_ring.iter_mod)

lemma takeWhile_upt: "(\<And>j. j < n \<Longrightarrow> P j = (j < m)) \<Longrightarrow> m \<le> n \<Longrightarrow> takeWhile P [0..<n] = [0..<m]"
proof -
  assume P: "\<And>j. j < n \<Longrightarrow> P j = (j < m)" and "m \<le> n"
  then have "[0..<n] = [0..<m] @ [m..<n]" by (metis le_add_diff_inverse upt_add_eq_append zero_le)
  moreover have "takeWhile P [m..<n] = []"
    using P by (cases "m < n") (auto simp: upt_conv_Cons)
  moreover have "takeWhile P ([0..<m] @ [m..<n]) = [0..<m] @ takeWhile P [m..<n]"
    by (rule takeWhile_append2) (use P \<open>m \<le> n\<close> in auto)
  ultimately show ?thesis by simp
qed

lemma ring_content_eq:
  assumes "ring_holds st m"
  shows "ring_content st = map (\<lambda>j. slot_view (slots st ! ((node_read st + j) mod 240))) [0..<m]"
proof -
  have "takeWhile ((\<lambda>i. need_read (slot_at st i) = 1) \<circ> (\<lambda>j. (node_read st + j) mod 240)) [0..<240] = [0..<m]"
    by (rule takeWhile_upt) (use assms in \<open>auto simp: slot_at_mod [OF assms] ring_holds_def\<close>)
  then show ?thesis
    by (simp add: ring_content_def ring_order_nth [OF assms] takeWhile_map slot_at_mod [OF assms])
qed

lemma ring_write_slot:
  "ring_holds st m \<Longrightarrow> node_write st < 240 \<and> slot_of st (node_write st) = node_write st"
  by (simp add: ring_holds_def slot_of_node)

lemma ring_read_slot:
  "ring_holds st m \<Longrightarrow> node_read st < 240 \<and> slot_of st (node_read st) = node_read st"
  by (simp add: ring_holds_def slot_of_node)

lemma ring_free: "ring_holds st m \<Longrightarrow> need_read (slot_at st (node_write st)) = (if m < 240 then 0 else 1)"
proof -
  assume h: "ring_holds st m"
  have w: "slot_at st (node_write st) = slots st ! ((node_read st + m) mod 240)"
    using slot_at_mod [OF h, of "node_read st + m"] h by (simp add: ring_holds_def)
  show ?thesis
  proof (cases "m < 240")
    case True
    then show ?thesis using h w unfolding ring_holds_def by auto
  next
    case False
    then have "m = 240" using h by (simp add: ring_holds_def)
    then have "slot_at st (node_write st) = slots st ! ((node_read st + 0) mod 240)" using w by simp
    then show ?thesis using h \<open>m = 240\<close> unfolding ring_holds_def by (metis less_irrefl zero_less_numeral)
  qed
qed

lemma ring_full: "ring_holds st m \<Longrightarrow> need_read (slot_at st (node_read st)) = (if 0 < m then 1 else 0)"
proof -
  assume h: "ring_holds st m"
  have "slot_at st (node_read st) = slots st ! ((node_read st + 0) mod 240)"
    using slot_at_mod [OF h, of "node_read st"] h by (simp add: ring_holds_def)
  then show ?thesis using h unfolding ring_holds_def by (metis zero_less_numeral)
qed

text \<open>Writing a free slot leaves the content alone.\<close>

lemma ring_set_free:
  assumes "ring_holds st m" "m < 240" "slot_ok b" "need_read b = 0"
  shows "ring_holds (set_slot st (node_write st) b) m"
    "ring_content (set_slot st (node_write st) b) = ring_content st"
proof -
  have w: "slot_of st (node_write st) = (node_read st + m) mod 240"
    using ring_write_slot [OF assms(1)] assms(1) by (simp add: ring_holds_def)
  have ne: "(node_read st + j) mod 240 \<noteq> (node_read st + m) mod 240" if "j < 240" "j \<noteq> m" for j
    using mod_240_inj [of j m "node_read st"] that assms(1,2) by (auto simp: ring_holds_def)
  have rd: "need_read ((slots st)[(node_read st + m) mod 240 := b] ! ((node_read st + j) mod 240)) =
      (if j < m then 1 else 0)" if "j < 240" for j
    using that ne [OF that] assms unfolding ring_holds_def by (cases "j = m") auto
  show h: "ring_holds (set_slot st (node_write st) b) m"
    using assms rd unfolding ring_holds_def set_slot_def w by (auto simp: nth_list_update)
  show "ring_content (set_slot st (node_write st) b) = ring_content st"
    unfolding ring_content_eq [OF h] ring_content_eq [OF assms(1)]
  proof (rule map_cong)
    fix j assume "j \<in> set [0..<m]"
    then have "(node_read st + m) mod 240 \<noteq> (node_read st + j) mod 240" using ne [of j] assms(2) by auto
    then show "slot_view (slots (set_slot st (node_write st) b) !
        ((node_read (set_slot st (node_write st) b) + j) mod 240)) =
      slot_view (slots st ! ((node_read st + j) mod 240))"
      by (simp add: set_slot_def w)
  qed simp
qed

lemma ring_publish:
  assumes "ring_holds st m" "m < 240"
  shows "ring_holds (publish st) (Suc m)"
    "ring_content (publish st) = ring_content st @ [slot_view (slot_at st (node_write st))]"
proof -
  let ?r = "node_read st"
  have w: "slot_of st (node_write st) = (?r + m) mod 240" "node_write st = (?r + m) mod 240"
    using ring_write_slot [OF assms(1)] assms(1) by (simp_all add: ring_holds_def)
  have at: "slot_at st (node_write st) = slots st ! ((?r + m) mod 240)"
    by (simp add: slot_at_def w(1))
  have ne: "(?r + j) mod 240 \<noteq> (?r + m) mod 240" if "j < 240" "j \<noteq> m" for j
    using mod_240_inj [of j m ?r] that assms(1,2) by (auto simp: ring_holds_def)
  let ?b = "(slots st ! ((?r + m) mod 240))\<lparr>need_read := 1\<rparr>"
  have p: "slots (publish st) = (slots st)[(?r + m) mod 240 := ?b]"
    "node_read (publish st) = ?r" "node_write (publish st) = (?r + Suc m) mod 240"
    "buffer_list (publish st) = decoder_list" "sps_len (publish st) = 0" "pps_len (publish st) = 0"
    using assms(1) decoder_ring.succ_mod [of "(?r + m) mod 240"] w(1) at
    by (simp_all add: publish_def set_slot_def w(2) Let_def ring_holds_def mod_Suc_eq)
  have rd: "need_read ((slots st)[(?r + m) mod 240 := ?b] ! ((?r + j) mod 240)) = (if j < Suc m then 1 else 0)"
    if "j < 240" for j
    using that ne [OF that] assms unfolding ring_holds_def by (cases "j = m") auto
  have ok: "slot_ok ?b" using assms(1) by (simp add: ring_holds_def)
  show h: "ring_holds (publish st) (Suc m)"
    using assms rd ok unfolding ring_holds_def p by (auto simp: nth_list_update)
  have same: "(slots st)[(?r + m) mod 240 := ?b] ! ((?r + j) mod 240) = slots st ! ((?r + j) mod 240)"
    if "j < m" for j
    using ne [of j] that assms(2) by (metis less_irrefl less_trans nth_list_update_neq)
  show "ring_content (publish st) = ring_content st @ [slot_view (slot_at st (node_write st))]"
    unfolding ring_content_eq [OF h] ring_content_eq [OF assms(1)] p at
    using same assms by (simp add: ring_holds_def)
qed

lemma ring_release:
  assumes "ring_holds st m" "0 < m"
  shows "ring_holds (release st) (m - 1)" "ring_content (release st) = tl (ring_content st)"
    "hd (ring_content st) = slot_view (slot_at st (node_read st))"
proof -
  let ?r = "node_read st" and ?q = "(node_read st + 1) mod 240"
  have at: "slot_of st ?r = ?r" "slot_at st ?r = slots st ! ?r" "?r < 240"
    using ring_read_slot [OF assms(1)] by (simp_all add: slot_at_def)
  let ?b = "(slots st ! ?r)\<lparr>need_read := 0\<rparr>"
  have q: "(?q + j) mod 240 = (?r + Suc j) mod 240" for j by (simp add: mod_add_left_eq)
  have p: "slots (release st) = (slots st)[?r := ?b]" "node_read (release st) = ?q"
    "node_write (release st) = node_write st" "buffer_list (release st) = decoder_list"
    "sps_len (release st) = 0" "pps_len (release st) = 0"
    using assms(1) at decoder_ring.succ_mod [of ?r]
    by (simp_all add: release_def set_slot_def slot_at_def slot_of_def Let_def ring_holds_def)
  have full: "\<forall>j < 240. need_read (slots st ! ((?r + j) mod 240)) = (if j < m then 1 else 0)"
    using assms(1) by (simp add: ring_holds_def)
  have ne: "(?r + Suc j) mod 240 \<noteq> ?r" if "j < 239" for j
    using mod_240_inj [of "Suc j" 0 ?r] that at(3) by auto
  have rd: "need_read ((slots st)[?r := ?b] ! ((?r + Suc j) mod 240)) = (if j < m - 1 then 1 else 0)"
    if "j < 240" for j
  proof (cases "j = 239")
    case True
    then show ?thesis using at(3) assms by (auto simp: ring_holds_def)
  next
    case False
    then have "need_read (slots st ! ((?r + Suc j) mod 240)) = (if Suc j < m then 1 else 0)"
      using full [rule_format, of "Suc j"] that False by simp
    moreover have "Suc j < m \<longleftrightarrow> j < m - 1" by auto
    ultimately show ?thesis using that False ne [of j] by simp
  qed
  have ok: "slot_ok ?b" using assms(1) at(3) by (simp add: ring_holds_def)
  show h: "ring_holds (release st) (m - 1)"
    using assms rd ok at(3) unfolding ring_holds_def p q
    by (auto simp: nth_list_update mod_simps)
  have c: "[0..<m] = 0 # map Suc [0..<m - 1]"
    using assms(2) by (simp add: upt_conv_Cons map_Suc_upt)
  have same: "(slots st)[?r := ?b] ! ((?r + Suc j) mod 240) = slots st ! ((?r + Suc j) mod 240)"
    if "j < m - 1" for j
  proof -
    have "m \<le> 240" using assms(1) by (simp add: ring_holds_def)
    then have "?r \<noteq> (?r + Suc j) mod 240" using ne [of j] that by fastforce
    then show ?thesis by (rule nth_list_update_neq)
  qed
  show "ring_content (release st) = tl (ring_content st)"
    unfolding ring_content_eq [OF h] ring_content_eq [OF assms(1)] p q c
    using same by simp
  show "hd (ring_content st) = slot_view (slot_at st ?r)"
    unfolding ring_content_eq [OF assms(1)] c using at by simp
qed

lemma ring_content_length: "ring_holds st m \<Longrightarrow> length (ring_content st) = m"
  by (simp add: ring_content_eq)

lemma ring_write_ok: "ring_holds st m \<Longrightarrow> slot_ok (slot_at st (node_write st))"
  using ring_write_slot [of st m] by (simp add: slot_at_def ring_holds_def)

text \<open>Receiving into a free slot, and releasing the oldest one, as operations on the ring.\<close>

definition ring_enq :: "'s ring_state_scheme \<Rightarrow> packet \<Rightarrow> 's ring_state_scheme" where
  "ring_enq st p = publish (set_slot st (node_write st)
     (the (slot_fill (\<lambda>_. True) 0 0 (slot_at st (node_write st)) p)))"

lemma set_slot_at: "ring_holds st m \<Longrightarrow>
    slot_at (set_slot st (node_write st) b) (node_write (set_slot st (node_write st) b)) = b"
  using ring_write_slot [of st m] by (simp add: slot_at_def set_slot_def slot_of_def ring_holds_def)

lemma ring_enq_spec:
  assumes "ring_holds st m" "m < 240" "packet_ok p"
  shows "ring_holds (ring_enq st p) (Suc m)" "ring_content (ring_enq st p) = ring_content st @ [packet_view p]"
proof -
  let ?b = "slot_at st (node_write st)"
  obtain b where b: "slot_fill (\<lambda>_. True) 0 0 ?b p = Some b" "slot_ok b" "slot_view b = packet_view p"
    "need_read b = need_read ?b"
    using slot_fill_spec [OF ring_write_ok [OF assms(1)] assms(3)] by metis
  have "need_read b = 0" using b(4) ring_free [OF assms(1)] assms(2) by simp
  note f = ring_set_free [OF assms(1,2) b(2) this]
  have at: "slot_at (set_slot st (node_write st) b) (node_write (set_slot st (node_write st) b)) = b"
    by (rule set_slot_at [OF assms(1)])
  show "ring_holds (ring_enq st p) (Suc m)"
    using ring_publish(1) [OF f(1) assms(2)] by (simp add: ring_enq_def b(1))
  show "ring_content (ring_enq st p) = ring_content st @ [packet_view p]"
    using ring_publish(2) [OF f(1) assms(2)] unfolding at by (simp add: ring_enq_def b(1,3) f(2))
qed

interpretation packet_queue: bounded_queue ring_inv ring_content ring_enq release packet_view packet_ok 240
proof
  fix st :: "'s ring_state_scheme" and p
  assume inv: "ring_inv st"
  then obtain m where m: "ring_holds st m" by (auto simp: ring_inv_def)
  note len = ring_content_length [OF m]
  show "length (ring_content st) \<le> 240" using m len by (simp add: ring_holds_def)
  show "ring_content (ring_enq st p) = ring_content st @ [packet_view p]"
    and "ring_inv (ring_enq st p)" if "packet_ok p" "length (ring_content st) < 240"
    using ring_enq_spec [OF m _ that(1)] that(2) len by (auto simp: ring_inv_def)
  show "ring_content (release st) = tl (ring_content st)" and "ring_inv (release st)"
    if "ring_content st \<noteq> []"
    using ring_release [OF m] that len by (auto simp: ring_inv_def)
qed

section \<open>Two threads\<close>

text \<open>
  The producer is outside \<open>AnsyncDecoder_ReceiveData\<close>, in its wait with a number of sleeps left, about
  to write the slot, or about to publish it; the consumer is at the top of its loop, inside a decode
  function, or has left. Each access of a thread to shared memory is a step of its own. \<open>malloc\<close> may
  fail at any step: the code does not look at its result, and the copy to the null pointer ends the process
  (\<open>PCrash\<close>, with the decode thread gone too). \<open>accepted\<close> and
  \<open>decoded\<close> are history: what was published, and what the decode functions were given.
\<close>

datatype producer = PIdle | PWait nat packet | PFill packet | PFilled packet | PCrash

datatype consumer = CLoop | CDecode | CDone

record sys =
  ring_st :: "unit ring_state_scheme"
  prod :: producer
  cons :: consumer
  accepted :: "(int \<times> u8 list \<times> u32) list"
  decoded :: "(int \<times> u8 list \<times> u32) list"

inductive sys_step :: "sys \<Rightarrow> sys \<Rightarrow> bool" where
  call: "prod s = PIdle \<Longrightarrow> running (ring_st s) \<noteq> 0 \<Longrightarrow> packet_ok p \<Longrightarrow>
    sys_step s (s\<lparr>prod := PWait 20 p\<rparr>)"
| wait: "prod s = PWait (Suc n) p \<Longrightarrow> need_read (slot_at (ring_st s) (node_write (ring_st s))) = 1 \<Longrightarrow>
    sys_step s (s\<lparr>prod := PWait n p\<rparr>)"
| drop: "prod s = PWait 0 p \<Longrightarrow> need_read (slot_at (ring_st s) (node_write (ring_st s))) = 1 \<Longrightarrow>
    sys_step s (s\<lparr>prod := PIdle\<rparr>)"
| go: "prod s = PWait n p \<Longrightarrow> need_read (slot_at (ring_st s) (node_write (ring_st s))) \<noteq> 1 \<Longrightarrow>
    sys_step s (s\<lparr>prod := PFill p\<rparr>)"
| fill: "prod s = PFill p \<Longrightarrow>
    slot_fill alloc (sps_len (ring_st s)) (pps_len (ring_st s))
      (slot_at (ring_st s) (node_write (ring_st s))) p = Some b \<Longrightarrow>
    sys_step s (s\<lparr>prod := PFilled p, ring_st := set_slot (ring_st s) (node_write (ring_st s)) b\<rparr>)"
| crash: "prod s = PFill p \<Longrightarrow>
    slot_fill alloc (sps_len (ring_st s)) (pps_len (ring_st s))
      (slot_at (ring_st s) (node_write (ring_st s))) p = None \<Longrightarrow>
    sys_step s (s\<lparr>prod := PCrash, cons := CDone\<rparr>)"
| publish: "prod s = PFilled p \<Longrightarrow>
    sys_step s (s\<lparr>prod := PIdle, ring_st := publish (ring_st s), accepted := accepted s @ [packet_view p]\<rparr>)"
| start: "cons s = CLoop \<Longrightarrow> quit (ring_st s) = 0 \<Longrightarrow>
    need_read (slot_at (ring_st s) (node_read (ring_st s))) \<noteq> 0 \<Longrightarrow> sys_step s (s\<lparr>cons := CDecode\<rparr>)"
| finish: "cons s = CDecode \<Longrightarrow>
    sys_step s (s\<lparr>cons := CLoop, ring_st := release (ring_st s),
      decoded := decoded s @ [slot_view (slot_at (ring_st s) (node_read (ring_st s)))]\<rparr>)"
| stop: "sys_step s (s\<lparr>ring_st := (ring_st s)\<lparr>quit := 1\<rparr>\<rparr>)"
| leave: "cons s = CLoop \<Longrightarrow> quit (ring_st s) \<noteq> 0 \<Longrightarrow>
    sys_step s (s\<lparr>cons := CDone, ring_st := (ring_st s)\<lparr>running := 0\<rparr>\<rparr>)"

inductive_cases sys_stepE: "sys_step s t"

definition sys_init :: "sys \<Rightarrow> bool" where
  "sys_init s \<longleftrightarrow> ring_holds (ring_st s) 0 \<and> prod s = PIdle \<and> cons s = CLoop \<and>
     accepted s = [] \<and> decoded s = []"

inductive reachable :: "sys \<Rightarrow> bool" where
  init: "sys_init s \<Longrightarrow> reachable s"
| step: "reachable s \<Longrightarrow> sys_step s t \<Longrightarrow> reachable t"

definition sys_inv :: "sys \<Rightarrow> bool" where
  "sys_inv s \<longleftrightarrow> (\<exists>m. ring_holds (ring_st s) m \<and> accepted s = decoded s @ ring_content (ring_st s) \<and>
     (case prod s of PIdle \<Rightarrow> True | PWait n p \<Rightarrow> packet_ok p | PFill p \<Rightarrow> packet_ok p \<and> m < 240
      | PFilled p \<Rightarrow> packet_ok p \<and> m < 240 \<and>
          slot_view (slot_at (ring_st s) (node_write (ring_st s))) = packet_view p
      | PCrash \<Rightarrow> True) \<and>
     (cons s = CDecode \<longrightarrow> 0 < m))"

lemma ring_holds_flags [simp]:
  "ring_holds (st\<lparr>quit := x\<rparr>) m = ring_holds st m" "ring_holds (st\<lparr>running := x\<rparr>) m = ring_holds st m"
  by (simp_all add: ring_holds_def)

lemma slot_at_flags [simp]:
  "slot_at (st\<lparr>quit := x\<rparr>) i = slot_at st i" "slot_at (st\<lparr>running := x\<rparr>) i = slot_at st i"
  by (simp_all add: slot_at_def slot_of_def)

lemma ring_content_flags [simp]:
  "ring_content (st\<lparr>quit := x\<rparr>) = ring_content st" "ring_content (st\<lparr>running := x\<rparr>) = ring_content st"
  by (simp_all add: ring_content_def ring_order_def)

text \<open>The consumer's step does not touch the slot the producer is writing.\<close>

lemma release_write_slot:
  assumes "ring_holds st m" "0 < m" "m < 240"
  shows "slot_at (release st) (node_write (release st)) = slot_at st (node_write st)"
proof -
  have "node_write st = (node_read st + m) mod 240" "node_read st < 240" using assms by (auto simp: ring_holds_def)
  then have "node_write st \<noteq> node_read st"
    using mod_240_inj [of m 0 "node_read st"] assms(2,3) by auto
  then show ?thesis
    using ring_write_slot [OF assms(1)] ring_read_slot [OF assms(1)]
    by (auto simp: slot_at_def release_def set_slot_def slot_of_def Let_def)
qed

lemma sys_inv_step:
  assumes "sys_step s t" "sys_inv s"
  shows "sys_inv t"
proof -
  obtain m where m: "ring_holds (ring_st s) m" "accepted s = decoded s @ ring_content (ring_st s)"
    "case prod s of PIdle \<Rightarrow> True | PWait n p \<Rightarrow> packet_ok p | PFill p \<Rightarrow> packet_ok p \<and> m < 240
      | PFilled p \<Rightarrow> packet_ok p \<and> m < 240 \<and>
          slot_view (slot_at (ring_st s) (node_write (ring_st s))) = packet_view p | PCrash \<Rightarrow> True"
    "cons s = CDecode \<longrightarrow> 0 < m"
    using assms(2) by (auto simp: sys_inv_def)
  from assms(1) show ?thesis
  proof cases
    case (go n p)
    then have "m < 240" using ring_free [OF m(1)] by (auto split: if_splits)
    then show ?thesis using m go by (auto simp: sys_inv_def)
  next
    case (fill p alloc b)
    then have p: "packet_ok p" "m < 240" "sps_len (ring_st s) = 0" "pps_len (ring_st s) = 0"
      using m by (auto simp: ring_holds_def)
    obtain b' where b': "slot_fill (\<lambda>_. True) 0 0 (slot_at (ring_st s) (node_write (ring_st s))) p = Some b'"
      "slot_ok b'" "slot_view b' = packet_view p"
      "need_read b' = need_read (slot_at (ring_st s) (node_write (ring_st s)))"
      using slot_fill_spec [OF ring_write_ok [OF m(1)] p(1)] by metis
    then have b: "b' = b" using slot_fill_alloc [OF fill(3)] p by simp
    have "need_read b = 0" using b b' ring_free [OF m(1)] p by simp
    note f = ring_set_free [OF m(1) p(2) _ this]
    show ?thesis
      unfolding sys_inv_def fill(1)
      using f m p b b' set_slot_at [OF m(1)] by (auto intro!: exI [of _ m])
  next
    case (publish p)
    then have p: "m < 240" "slot_view (slot_at (ring_st s) (node_write (ring_st s))) = packet_view p"
      using m by auto
    show ?thesis
      unfolding sys_inv_def publish(1)
      using ring_publish [OF m(1) p(1)] m p by (auto intro!: exI [of _ "Suc m"])
  next
    case start
    then have "0 < m" using ring_full [OF m(1)] by (auto split: if_splits)
    then show ?thesis using m start
      by (auto simp: sys_inv_def intro!: exI [of _ m] split: producer.splits)
  next
    case finish
    then have m0: "0 < m" using m by simp
    note r = ring_release [OF m(1) m0]
    have ne: "ring_content (ring_st s) \<noteq> []" using ring_content_length [OF m(1)] m0 by auto
    have "ring_content (ring_st s) = hd (ring_content (ring_st s)) # tl (ring_content (ring_st s))"
      using ne by simp
    then have "accepted s = (decoded s @ [slot_view (slot_at (ring_st s) (node_read (ring_st s)))]) @
      ring_content (release (ring_st s))"
      using m(2) r by simp
    then show ?thesis
      unfolding sys_inv_def finish(1)
      using r m m0 release_write_slot [OF m(1) m0]
      by (auto intro!: exI [of _ "m - 1"] split: producer.splits)
  qed (use m in \<open>auto simp: sys_inv_def intro!: exI [of _ m] split: producer.splits\<close>)
qed

lemma reachable_inv: "reachable s \<Longrightarrow> sys_inv s"
proof (induction rule: reachable.induct)
  case (init s)
  then show ?case by (auto simp: sys_init_def sys_inv_def ring_content_eq intro!: exI [of _ 0])
qed (rule sys_inv_step)

section \<open>Decoding inside the picture buffer\<close>

lemma store_rows_spec:
  assumes "\<forall>r \<in> set rows. length r = k" "off + k * length rows \<le> length buf"
  shows "store_rows (Some buf) (int off) (int k) rows =
    Some (take off buf @ concat rows @ drop (off + k * length rows) buf)"
  using assms
proof (induction rows arbitrary: off buf)
  case (Cons r rs)
  let ?b = "take off buf @ r @ drop (off + k) buf"
  have r: "length r = k" and len: "off + k + k * length rs \<le> length buf" using Cons.prems by auto
  have "c_memcpy (Some buf) (int off) r (int (length r)) = Some ?b"
    using r len by (simp add: c_memcpy_def nat_add_distrib)
  moreover have "store_rows (Some ?b) (int (off + k)) (int k) rs =
      Some (take (off + k) ?b @ concat rs @ drop (off + k + k * length rs) ?b)"
    by (rule Cons.IH) (use Cons.prems r len in auto)
  moreover have "take (off + k) ?b = take off buf @ r" using r len by simp
  moreover have "drop (off + k + k * length rs) ?b = drop (off + (k + k * length rs)) buf"
    using r len by (simp add: min_def algebra_simps)
  ultimately show ?case by (simp add: algebra_simps)
qed simp

text \<open>A stream whose pictures all measure \<open>w\<close> times \<open>h\<close>, and the documented output of \<open>sws_scale\<close>.\<close>

definition av_fixed :: "('v, 'a, 'f) av_ops \<Rightarrow> nat \<Rightarrow> nat \<Rightarrow> bool" where
  "av_fixed av w h \<longleftrightarrow> (\<forall>v. v_width av v = int w \<and> v_height av v = int h) \<and> (\<forall>f. frame_w av f = int w) \<and>
     (\<forall>f. length (sws_rows av (int w) (int h) f) = h \<and> (\<forall>r \<in> set (sws_rows av (int w) (int h) f). length r = 4 * w)) \<and>
     rgb_alloc av (int (w * h * 4)) \<and> 0 < h \<and> w * h * 4 \<le> 2147483647"

definition codec_ok :: "nat \<Rightarrow> nat \<Rightarrow> ('v, 'a) codec \<Rightarrow> bool" where
  "codec_ok w h ad \<longleftrightarrow> (case sws ad of None \<Rightarrow> True
     | Some q \<Rightarrow> q = (int w, int h) \<and> (\<exists>buf. rgb_data ad = Some buf \<and> length buf = w * h * 4))"

lemma fixed_bounds:
  assumes "w * h * 4 \<le> 2147483647" "0 < (h :: nat)"
  shows "c_int (int w * 4) = Some (int w * 4)" "c_int (int w * int h) = Some (int w * int h)"
    "c_int (int w * int h * 4) = Some (int w * int h * 4)"
proof -
  have "w * 1 \<le> w * h" by (rule mult_le_mono2) (use assms(2) in simp)
  then have "w * 4 \<le> 2147483647" "w * h \<le> 2147483647" using assms(1) by linarith+
  then have "c_int (int (w * 4)) = Some (int (w * 4))" "c_int (int (w * h)) = Some (int (w * h))"
    "c_int (int (w * h * 4)) = Some (int (w * h * 4))"
    using assms(1) by (auto intro!: c_int_Some simp only: in_int_def)
  then show "c_int (int w * 4) = Some (int w * 4)" "c_int (int w * int h) = Some (int w * int h)"
    "c_int (int w * int h * 4) = Some (int w * int h * 4)"
    by simp_all
qed

lemma length_concat_rows: "\<forall>r \<in> set rs. length r = k \<Longrightarrow> length (concat rs) = length rs * k"
  by (induction rs) auto

lemma slot_nalu_byte:
  assumes "slot_ok b" "media_type b = 1"
  obtains off h x where "b_data b = Some off" "b_head b = Some h" "c_read h (off + 4) = Some x"
  using assms by (auto simp: slot_ok_def c_read_def split: option.splits)

lemma decode_video_node_ok:
  assumes "slot_ok b" "media_type b = 1" "av_fixed av w h" "codec_ok w h ad"
  shows "completes (decode_video_node av ad b) (\<lambda>ad'. codec_ok w h ad' \<and>
    (events ad' = events ad \<or> (\<exists>buf. length buf = w * h * 4 \<and>
       events ad' = events ad @ [AvEvent buf (int w * int h * 4) (int w) (int h) (b_timestamp b) 1])))"
proof -
  obtain off hd x where s: "b_data b = Some off" "b_head b = Some hd" "c_read hd (off + 4) = Some x"
    using slot_nalu_byte [OF assms(1,2)] .
  have fixed: "v_width av v = int w" "v_height av v = int h" "frame_w av f = int w"
    "length (sws_rows av (int w) (int h) f) = h" "rgb_alloc av (int w * int h * 4)" for v f
    using assms(3) by (auto simp: av_fixed_def)
  have lim: "w * h * 4 \<le> 2147483647" "0 < h" using assms(3) by (auto simp: av_fixed_def)
  have rows: "store_rows (Some buf) 0 (int w * 4) (sws_rows av (int w) (int h) f) =
      Some (concat (sws_rows av (int w) (int h) f) @ drop (4 * w * h) buf)"
    if "length buf = w * h * 4" for buf f
    using store_rows_spec [of "sws_rows av (int w) (int h) f" "4 * w" 0 buf] that assms(3) fixed(4) [of f]
    by (simp add: av_fixed_def mult.commute mult.left_commute)
  have rows4: "\<forall>r \<in> set (sws_rows av (int w) (int h) f). length r = 4 * w" for f
    using assms(3) by (simp add: av_fixed_def)
  have rlen: "length (concat (sws_rows av (int w) (int h) f) @ drop (4 * w * h) buf) = w * h * 4"
    if "length buf = w * h * 4" for buf f
    using length_concat_rows [OF rows4 [of f]] fixed(4) [of f] that by simp
  have clen: "length (concat (sws_rows av (int w) (int h) f)) = w * h * 4" for f
    using length_concat_rows [OF rows4 [of f]] fixed(4) [of f] by simp
  have malloc: "c_malloc (rgb_alloc av) (int w * int h * 4) = Some (replicate (w * h * 4) 0)"
    using fixed(5) by (simp add: c_malloc_def nat_mult_distrib)
  note bounds = fixed_bounds [OF lim]
  show ?thesis
  proof (cases "b_len b = 0")
    case True
    then show ?thesis using assms(4) by (simp add: decode_video_node_def s)
  next
    case False
    define ad0 where "ad0 = (if get_has_b_frames av (v_ctx ad) > 1
                 then ad\<lparr>v_ctx := set_has_b_frames av 1 (v_ctx ad)\<rparr> else ad)"
    obtain r1 v1 where r1: "v_send av (v_ctx ad0) (take (nat (b_len b)) (drop (nat off) hd)) = (r1, v1)" by force
    obtain r2 v2 f where r2: "v_receive av v1 = (r2, v2, f)" by (metis prod_cases3)
    have ad0: "codec_ok w h ad0" "events ad0 = events ad" "sws ad0 = sws ad" "rgb_data ad0 = rgb_data ad"
      using assms(4) by (auto simp: ad0_def codec_ok_def split: option.splits)
    note run = decode_video_node_def s completes_bind fixed Let_def r1 r2 bounds malloc rlen clen ad0(2-4) False
    show ?thesis
    proof (cases "sws ad")
      case None
      then have new: "codec_ok w h (ad0\<lparr>v_ctx := v\<rparr>)"
        "length buf = w * h * 4 \<Longrightarrow>
           codec_ok w h (ad0\<lparr>v_ctx := v, sws := Some (int w, int h), rgb_data := Some buf\<rparr>)"
        "length buf = w * h * 4 \<Longrightarrow> codec_ok w h (ad0\<lparr>v_ctx := v, sws := Some (int w, int h),
           rgb_data := Some buf, events := ev\<rparr>)" for v buf ev
        using ad0 by (simp_all add: codec_ok_def)
      show ?thesis
        using None new rows [of "replicate (w * h * 4) 0" f] by (simp add: run flip: ad0_def)
    next
      case (Some q)
      then obtain buf where q: "q = (int w, int h)" "rgb_data ad = Some buf" "length buf = w * h * 4"
        using assms(4) by (auto simp: codec_ok_def)
      have old: "codec_ok w h (ad0\<lparr>v_ctx := v\<rparr>)"
        "length b = w * h * 4 \<Longrightarrow> codec_ok w h (ad0\<lparr>v_ctx := v, rgb_data := Some b\<rparr>)"
        "length b = w * h * 4 \<Longrightarrow> codec_ok w h (ad0\<lparr>v_ctx := v, rgb_data := Some b, events := ev\<rparr>)" for v b ev
        using ad0 Some q by (simp_all add: codec_ok_def)
      show ?thesis
        using Some q old rows [OF q(3), of f] by (simp add: run flip: ad0_def)
    qed
  qed
qed

lemma store_rows_past_end:
  assumes "\<forall>r \<in> set rows. length r = k" "rows \<noteq> []" "0 \<le> off" "0 \<le> stride"
    "int (length buf) < off + int (length rows - 1) * stride + int k"
  shows "store_rows (Some buf) off stride rows = None"
  using assms
proof (induction rows arbitrary: off buf)
  case (Cons r rs)
  show ?case
  proof (cases "c_memcpy (Some buf) off r (int (length r))")
    case (Some b)
    then have b: "length b = length buf" using c_memcpy_length by fastforce
    have "off + int k \<le> int (length buf)"
      using Some Cons.prems(1) by (auto simp: c_memcpy_def split: if_splits)
    then have ne: "rs \<noteq> []" using Cons.prems(5) by auto
    then obtain n where n: "length rs = Suc n" by (cases rs) auto
    have "int (length (r # rs) - 1) * stride = int (length rs - 1) * stride + stride"
      by (simp add: n distrib_right)
    then have "store_rows (Some b) (off + stride) stride rs = None"
      by (intro Cons.IH) (use Cons.prems ne b in auto)
    then show ?thesis using Some by simp
  qed simp
qed simp

section \<open>Properties\<close>

lemma receive_wait_id: "receive_wait (\<lambda>s. s) node n st = st"
  by (induction n) auto

lemma empty_slot_ok: "slot_ok empty_slot"
  by (simp add: slot_ok_def empty_slot_def)

text \<open>Filling a slot is safe and exact: for a slot in a consistent state and a video or sound
  packet whose length is that of its data, \<open>memcpy\<close> stays inside the slot's allocation, grown when
  it is too small, and the decode functions then see the packet's type, bytes and timestamp; a
  video payload is followed by at least 256 spare bytes.\<close>

theorem slot_fill_copies_packet:
  assumes "slot_ok b" "packet_ok p" "\<And>n. alloc n"
  shows "\<exists>b'. slot_fill alloc 0 0 b p = Some b' \<and> slot_ok b' \<and> slot_view b' = packet_view p \<and>
    need_read b' = need_read b"
proof -
  obtain b' where "slot_fill alloc 0 0 b p = Some b'" "slot_ok b'" "slot_view b' = packet_view p"
    "need_read b' = need_read b"
    using slot_fill_spec [of b p alloc] assms by blast
  then show ?thesis by blast
qed

theorem slot_fill_copies_packet_witness:
  "\<exists>b'. slot_fill (\<lambda>_. True) 0 0 empty_slot
      \<lparr>pk_data = [1, 2, 3], pk_len = 3, pk_timestamp = 7, pk_type = 1\<rparr> = Some b' \<and>
    slot_view b' = (1, [1, 2, 3], 7)"
  using slot_fill_copies_packet [of empty_slot
    "\<lparr>pk_data = [1, 2, 3], pk_len = 3, pk_timestamp = 7, pk_type = 1\<rparr>" "\<lambda>_. True"] empty_slot_ok
  by (auto simp: packet_ok_def packet_view_def)

lemma ReceiveData_enq:
  assumes "ring_holds st m" "m < 240" "running st \<noteq> 0" "packet_ok p"
  shows "AnsyncDecoder_ReceiveData (\<lambda>_. True) sleep (Some st) p = Some (Some (ring_enq st p))"
proof -
  have free: "need_read (slot_at st (node_write st)) = 0" using ring_free [OF assms(1)] assms(2) by simp
  then have wait: "receive_wait sleep (node_write st) 20 st = st" by (simp add: numeral_eq_Suc)
  obtain b where "slot_fill (\<lambda>_. True) 0 0 (slot_at st (node_write st)) p = Some b"
    using slot_fill_spec [OF ring_write_ok [OF assms(1)] assms(4), of "\<lambda>_. True"] by auto
  moreover have "sps_len st = 0" "pps_len st = 0" using assms(1) by (simp_all add: ring_holds_def)
  ultimately show ?thesis
    using assms(3) free by (simp add: AnsyncDecoder_ReceiveData_def ring_enq_def wait Let_def)
qed

lemma running_ring_enq [simp]: "running (ring_enq st p) = running st"
  by (simp add: ring_enq_def publish_def set_slot_def Let_def)

text \<open>C19: \<open>AnsyncDecoder_ReceiveData\<close> implements the queue's insertion: on a running decoder whose
  ring holds fewer than 240 packets it appends the packet, whatever the decode thread does in the
  meantime; on a full ring, when no slot becomes free during the wait, it changes nothing.\<close>

theorem ReceiveData_enqueues_or_drops:
  assumes "ring_inv st" "running st \<noteq> 0" "packet_ok p"
  shows "if length (ring_content st) < 240
    then AnsyncDecoder_ReceiveData (\<lambda>_. True) sleep (Some st) p = Some (Some (ring_enq st p)) \<and>
      ring_content (ring_enq st p) = ring_content st @ [packet_view p]
    else AnsyncDecoder_ReceiveData (\<lambda>_. True) (\<lambda>s. s) (Some st) p = Some (Some st)"
proof -
  obtain m where m: "ring_holds st m" using assms(1) by (auto simp: ring_inv_def)
  note len = ring_content_length [OF m]
  show ?thesis
  proof (cases "m < 240")
    case True
    then show ?thesis
      using ReceiveData_enq [OF m True assms(2,3)] ring_enq_spec(2) [OF m True assms(3)] len by simp
  next
    case False
    then have "m = 240" using m by (simp add: ring_holds_def)
    then show ?thesis
      using ring_free [OF m] assms(2) len
      by (simp add: AnsyncDecoder_ReceiveData_def receive_wait_id Let_def)
  qed
qed

definition fresh_ring :: "unit ring_state_scheme" where
  "fresh_ring = \<lparr>buffer_list = decoder_list, slots = replicate 240 empty_slot, node_write = 0,
     node_read = 0, sps_len = 0, pps_len = 0, cnt_rcv = 0, cnt_dec = 0, quit = 0, running = 1\<rparr>"

lemma fresh_ring_holds: "ring_holds fresh_ring 0"
  by (simp add: ring_holds_def fresh_ring_def empty_slot_ok) (simp add: empty_slot_def)

theorem ReceiveData_enqueues_or_drops_witness:
  "ring_content (ring_enq fresh_ring \<lparr>pk_data = [9], pk_len = 1, pk_timestamp = 0, pk_type = 2\<rparr>) =
    [(2, [9], 0)]"
proof -
  have "ring_inv fresh_ring" "ring_content fresh_ring = []"
    using fresh_ring_holds ring_content_eq [OF fresh_ring_holds] by (auto simp: ring_inv_def)
  then show ?thesis
    using ReceiveData_enqueues_or_drops [of fresh_ring
      "\<lparr>pk_data = [9], pk_len = 1, pk_timestamp = 0, pk_type = 2\<rparr>" "\<lambda>s. s"]
    by (simp add: packet_ok_def packet_view_def fresh_ring_def)
qed

text \<open>C4: under every interleaving of the network thread and the decode thread, the decode functions
  are given exactly the accepted packets, in the order of acceptance, each once; those not decoded
  yet are in the ring, at most 240; and while one thread writes a slot and the other decodes one,
  the two slots differ.\<close>

theorem decoder_threads_fifo:
  assumes "reachable s"
  shows "accepted s = decoded s @ ring_content (ring_st s) \<and> length (ring_content (ring_st s)) \<le> 240 \<and>
    (cons s = CDecode \<longrightarrow> (\<forall>p. prod s = PFill p \<or> prod s = PFilled p \<longrightarrow>
       slot_of (ring_st s) (node_write (ring_st s)) \<noteq> slot_of (ring_st s) (node_read (ring_st s))))"
proof -
  obtain m where m: "ring_holds (ring_st s) m" "accepted s = decoded s @ ring_content (ring_st s)"
    "case prod s of PIdle \<Rightarrow> True | PWait n p \<Rightarrow> packet_ok p | PFill p \<Rightarrow> packet_ok p \<and> m < 240
      | PFilled p \<Rightarrow> packet_ok p \<and> m < 240 \<and>
          slot_view (slot_at (ring_st s) (node_write (ring_st s))) = packet_view p | PCrash \<Rightarrow> True"
    "cons s = CDecode \<longrightarrow> 0 < m"
    using reachable_inv [OF assms] by (auto simp: sys_inv_def)
  have "node_write (ring_st s) \<noteq> node_read (ring_st s)" if "0 < m" "m < 240"
    using m(1) mod_240_inj [of m 0 "node_read (ring_st s)"] that by (auto simp: ring_holds_def)
  moreover have "length (ring_content (ring_st s)) \<le> 240"
    using ring_content_length [OF m(1)] m(1) by (simp add: ring_holds_def)
  ultimately show ?thesis
    using m ring_write_slot [OF m(1)] ring_read_slot [OF m(1)] by (auto split: producer.splits)
qed

theorem decoder_threads_fifo_witness:
  "\<exists>s. reachable s \<and> prod s = PWait 20 \<lparr>pk_data = [9], pk_len = 1, pk_timestamp = 0, pk_type = 2\<rparr> \<and>
    accepted s = decoded s @ ring_content (ring_st s)"
proof -
  let ?p = "\<lparr>pk_data = [9], pk_len = 1, pk_timestamp = 0, pk_type = 2\<rparr>"
  let ?s = "\<lparr>ring_st = fresh_ring, prod = PIdle, cons = CLoop, accepted = [], decoded = []\<rparr>"
  have "reachable ?s"
    by (rule reachable.init) (simp add: sys_init_def fresh_ring_holds)
  moreover have "sys_step ?s (?s\<lparr>prod := PWait 20 ?p\<rparr>)"
    by (rule sys_step.call) (simp_all add: fresh_ring_def packet_ok_def)
  ultimately have r: "reachable (?s\<lparr>prod := PWait 20 ?p\<rparr>)" by (rule reachable.step)
  show ?thesis
    by (rule exI [of _ "?s\<lparr>prod := PWait 20 ?p\<rparr>"]) (use r decoder_threads_fifo [OF r] in simp)
qed

text \<open>The steps the network thread has left inside the function.\<close>

fun steps_left :: "producer \<Rightarrow> nat" where
  "steps_left PIdle = 0"
| "steps_left (PWait n p) = n + 3"
| "steps_left (PFill p) = 2"
| "steps_left (PFilled p) = 1"
| "steps_left PCrash = 0"

text \<open>C34: the network thread gets through the function. In every reachable state, whatever the decode thread is doing:
  the process has crashed, or the thread is outside the function and the decoder does not run any more (the function
  then returns at once), or the thread has a step of its own to take that is not a crash; each of its
  steps inside the function, a crash included, leaves it fewer steps there, so it is out of it after at most 23; and copying a
  packet is undefined only when \<open>malloc\<close> refuses the very block the packet needs.\<close>

theorem producer_never_stuck:
  assumes "reachable s"
  shows "(prod s = PCrash \<or> prod s = PIdle \<and> running (ring_st s) = 0 \<or>
     (\<exists>t. sys_step s t \<and> prod t \<noteq> prod s \<and> prod t \<noteq> PCrash \<and> cons t = cons s)) \<and>
   (\<forall>t. sys_step s t \<and> prod s \<noteq> PIdle \<and> prod t \<noteq> prod s \<longrightarrow> steps_left (prod t) < steps_left (prod s)) \<and>
   (\<forall>p alloc. prod s = PFill p \<and> slot_fill alloc (sps_len (ring_st s)) (pps_len (ring_st s))
      (slot_at (ring_st s) (node_write (ring_st s))) p = None \<longrightarrow> \<not> alloc (block_needed p))"
proof -
  obtain m where m: "ring_holds (ring_st s) m"
    "case prod s of PIdle \<Rightarrow> True | PWait n p \<Rightarrow> packet_ok p | PFill p \<Rightarrow> packet_ok p \<and> m < 240
      | PFilled p \<Rightarrow> packet_ok p \<and> m < 240 \<and>
          slot_view (slot_at (ring_st s) (node_write (ring_st s))) = packet_view p | PCrash \<Rightarrow> True"
    using reachable_inv [OF assms(1)] by (auto simp: sys_inv_def)
  have z: "sps_len (ring_st s) = 0" "pps_len (ring_st s) = 0" using m(1) by (simp_all add: ring_holds_def)
  have move: "prod s = PCrash \<or> prod s = PIdle \<and> running (ring_st s) = 0 \<or>
     (\<exists>t. sys_step s t \<and> prod t \<noteq> prod s \<and> prod t \<noteq> PCrash \<and> cons t = cons s)"
  proof (cases "prod s")
    case PIdle
    have "packet_ok \<lparr>pk_data = [], pk_len = 0, pk_timestamp = 0, pk_type = 2\<rparr>" by (simp add: packet_ok_def)
    then show ?thesis using PIdle sys_step.call [OF PIdle] by (cases "running (ring_st s) = 0") force+
  next
    case (PWait n p)
    show ?thesis
    proof (cases "need_read (slot_at (ring_st s) (node_write (ring_st s))) = 1")
      case True
      then show ?thesis
        using PWait sys_step.wait [of s _ p] sys_step.drop [of s p]
        by (cases n) (force intro!: exI)+
    next
      case False
      then show ?thesis using PWait sys_step.go [of s n p] by force
    qed
  next
    case (PFill p)
    then obtain b where "slot_fill (\<lambda>_. True) 0 0 (slot_at (ring_st s) (node_write (ring_st s))) p = Some b"
      using slot_fill_spec [OF ring_write_ok [OF m(1)], of p "\<lambda>_. True"] m(2) by auto
    then show ?thesis using PFill sys_step.fill [of s p "\<lambda>_. True" b] z by force
  next
    case (PFilled p)
    then show ?thesis using sys_step.publish [of s p] by force
  qed simp
  have less: "steps_left (prod t) < steps_left (prod s)" if "sys_step s t" "prod s \<noteq> PIdle" "prod t \<noteq> prod s" for t
    using that by cases auto
  have "\<not> alloc (block_needed p)" if "prod s = PFill p" "slot_fill alloc 0 0 (slot_at (ring_st s) (node_write (ring_st s))) p = None" for p alloc
    using slot_fill_defined [OF ring_write_ok [OF m(1)], of p alloc] m(2) that by auto
  then show ?thesis using move less unfolding z by blast
qed

theorem producer_never_stuck_witness:
  "\<exists>s t. reachable s \<and> prod s = PWait 20 \<lparr>pk_data = [9], pk_len = 1, pk_timestamp = 0, pk_type = 2\<rparr> \<and>
    sys_step s t \<and> prod t \<noteq> prod s \<and> prod t \<noteq> PCrash \<and> steps_left (prod t) < 23"
proof -
  let ?p = "\<lparr>pk_data = [9], pk_len = 1, pk_timestamp = 0, pk_type = 2\<rparr>"
  let ?s = "\<lparr>ring_st = fresh_ring, prod = PIdle, cons = CLoop, accepted = [], decoded = []\<rparr>"
  let ?w = "?s\<lparr>prod := PWait 20 ?p\<rparr>"
  have "reachable ?s"
    by (rule reachable.init) (simp add: sys_init_def fresh_ring_holds)
  moreover have "sys_step ?s ?w"
    by (rule sys_step.call) (simp_all add: fresh_ring_def packet_ok_def)
  ultimately have r: "reachable ?w" by (rule reachable.step)
  then obtain t where t: "sys_step ?w t" "prod t \<noteq> prod ?w" "prod t \<noteq> PCrash"
    "\<forall>t. sys_step ?w t \<and> prod ?w \<noteq> PIdle \<and> prod t \<noteq> prod ?w \<longrightarrow> steps_left (prod t) < steps_left (prod ?w)"
    using producer_never_stuck [of ?w] by auto
  then have "steps_left (prod t) < steps_left (prod ?w)" by simp
  then show ?thesis using r t by (intro exI [of _ ?w] exI [of _ t]) simp
qed

text \<open>C30: while the stream keeps its picture size, decoding a video slot is free of undefined
  behaviour: the byte read for the NAL type exists, \<open>sws_scale\<close> stays inside the buffer allocated for
  the first picture, and the callback is given that buffer with its exact size.\<close>

theorem decode_video_in_bounds:
  assumes "slot_ok b" "media_type b = 1" "av_fixed av w h" "codec_ok w h ad"
  shows "\<exists>ad'. decode_video_node av ad b = Some ad' \<and> codec_ok w h ad' \<and>
    (events ad' = events ad \<or> (\<exists>buf. length buf = w * h * 4 \<and>
       events ad' = events ad @ [AvEvent buf (int w * int h * 4) (int w) (int h) (b_timestamp b) 1]))"
  using decode_video_node_ok [OF assms] by (auto simp: completes_iff)

definition toy_av :: "(unit, unit, unit) av_ops" where
  "toy_av = \<lparr>get_has_b_frames = (\<lambda>_. 2), set_has_b_frames = (\<lambda>_ v. v), v_send = (\<lambda>v _. (0, v)),
     v_receive = (\<lambda>v. (0, v, ())), v_width = (\<lambda>_. 2), v_height = (\<lambda>_. 1), frame_w = (\<lambda>_. 2),
     sws_get = (\<lambda>_ _. True), sws_rows = (\<lambda>w h _. replicate (nat h) (replicate (4 * nat w) 7)),
     rgb_alloc = (\<lambda>_. True), a_send = (\<lambda>a _. (0, a)), a_receive = (\<lambda>a. (0, a, [])),
     swr_convert = (\<lambda>f. (0, f)), fopen0 = True, fopen1 = True\<rparr>"

definition toy_codec :: "(unit, unit) codec" where
  "toy_codec = \<lparr>v_ctx = (), sws = None, rgb_data = None, a_ctx = (), a_swr = False, fp0 = False, fp1 = False,
     has_callback = True, events = []\<rparr>"

theorem decode_video_in_bounds_witness:
  "map_option events (decode_video_node toy_av toy_codec
     \<lparr>b_head = Some (replicate 300 0), b_data = Some 0, b_len = 6, b_timestamp = 5, max_len = 300,
      need_read = 1, media_type = 1\<rparr>) = Some [AvEvent (replicate 8 7) 8 2 1 5 1] \<and>
   (\<exists>ad'. decode_video_node toy_av toy_codec
     \<lparr>b_head = Some (replicate 300 0), b_data = Some 0, b_len = 6, b_timestamp = 5, max_len = 300,
      need_read = 1, media_type = 1\<rparr> = Some ad' \<and> codec_ok 2 1 ad')"
proof
  show "map_option events (decode_video_node toy_av toy_codec
     \<lparr>b_head = Some (replicate 300 0), b_data = Some 0, b_len = 6, b_timestamp = 5, max_len = 300,
      need_read = 1, media_type = 1\<rparr>) = Some [AvEvent (replicate 8 7) 8 2 1 5 1]"
    by code_simp
  have "av_fixed toy_av 2 1" by (simp add: av_fixed_def toy_av_def)
  moreover have "codec_ok 2 1 toy_codec" by (simp add: codec_ok_def toy_codec_def)
  ultimately show "\<exists>ad'. decode_video_node toy_av toy_codec
     \<lparr>b_head = Some (replicate 300 0), b_data = Some 0, b_len = 6, b_timestamp = 5, max_len = 300,
      need_read = 1, media_type = 1\<rparr> = Some ad' \<and> codec_ok 2 1 ad'"
    using decode_video_in_bounds [of "\<lparr>b_head = Some (replicate 300 0), b_data = Some 0, b_len = 6,
      b_timestamp = 5, max_len = 300, need_read = 1, media_type = 1\<rparr>" toy_av 2 1 toy_codec]
    by (auto simp: slot_ok_def)
qed

text \<open>the scaler and its buffer are made once, for the first picture, while the row stride is that
  of the current one: as soon as a stream switches to a wider picture (of at least two rows),
  \<open>sws_scale\<close> writes past the end of the buffer.\<close>

theorem decode_video_wider_picture_overflows:
  assumes "b_len b \<noteq> 0" "b_data b = Some off" "b_head b = Some h0" "get_has_b_frames av (v_ctx ad) \<le> 1"
    "v_send av (v_ctx ad) (take (nat (b_len b)) (drop (nat off) h0)) = (0, v1)"
    "v_receive av v1 = (0, v2, f)"
    "sws ad = Some (int w, int h)" "rgb_data ad = Some buf" "length buf = w * h * 4" "2 \<le> h"
    "length (sws_rows av (int w) (int h) f) = h"
    "\<forall>r \<in> set (sws_rows av (int w) (int h) f). length r = 4 * w" "int w < frame_w av f"
  shows "decode_video_node av ad b = None"
proof -
  let ?rows = "sws_rows av (int w) (int h) f"
  have "store_rows (Some buf) 0 (frame_w av f * 4) ?rows = None"
  proof (rule store_rows_past_end)
    show "?rows \<noteq> []" using assms(10,11) by auto
    show "0 \<le> frame_w av f * 4" using assms(13) by linarith
    obtain k where k: "h = Suc (Suc k)" using assms(10) by (metis Suc_le_D numeral_2_eq_2 Suc_le_mono)
    have "int (Suc k) * (int w * 4) < int (Suc k) * (frame_w av f * 4)"
      using assms(13) by (intro mult_strict_left_mono) auto
    then show "int (length buf) < 0 + int (length ?rows - 1) * (frame_w av f * 4) + int (4 * w)"
      using assms(9,11) k by (simp add: algebra_simps)
  qed (use assms in auto)
  then show ?thesis
    using assms(1-8)
    by (auto simp: decode_video_node_def Let_def c_int_eq_Some not_less split: Option.bind_splits)
qed

theorem decode_video_wider_picture_overflows_witness:
  "decode_video_node (toy_av\<lparr>get_has_b_frames := (\<lambda>_. 1), v_height := (\<lambda>_. 2)\<rparr>)
     (toy_codec\<lparr>sws := Some (1, 2), rgb_data := Some (replicate 8 0)\<rparr>)
     \<lparr>b_head = Some (replicate 300 0), b_data = Some 0, b_len = 6, b_timestamp = 5, max_len = 300,
      need_read = 1, media_type = 1\<rparr> = None"
  by (rule decode_video_wider_picture_overflows [where w = 1 and h = 2 and buf = "replicate 8 0"])
    (simp_all add: toy_av_def toy_codec_def)

text \<open>when every library call succeeds, \<open>AnsyncDecoder_Create\<close> yields a decoder with an empty,
  well-formed ring and counters at zero, for every parameter set that can be parsed; its picture
  size is 1080 by 1920 whatever the parameter set says. Destroying a decoder frees every block
  once.\<close>

theorem Create_initialises:
  assumes "create_ok e" "\<forall>n. ok_list e n" "h264_sps_read sps_data sps_length g = Some r"
  shows "\<exists>d. AnsyncDecoder_Create e g sps_data sps_length v a cb = Some (Some d) \<and> ring_holds d 0 \<and>
    ring_content d = [] \<and> cnt_rcv d = 0 \<and> cnt_dec d = 0 \<and> running d = 0 \<and>
    AnsyncDecoder_GetWidth (Some d) = 1080 \<and> AnsyncDecoder_GetHeight (Some d) = 1920 \<and>
    distinct (AnsyncDecoder_Destroy (Some d))"
proof -
  have f: "create_fits 240 (word_of_int sizeof_buffer)" by (simp add: create_fits_def sizeof_buffer_def)
  obtain l where "CircularList_Create (ok_list e) 240 (word_of_int sizeof_buffer) = Some (Some l)"
    using CircularList_Create_spec [OF f, of "ok_list e"] assms(2) by metis
  moreover from this have "l = decoder_list" by (rule Create_decoder_list)
  ultimately obtain d where d: "AnsyncDecoder_Create e g sps_data sps_length v a cb = Some (Some d)"
    "buffer_list d = decoder_list" "slots d = replicate 240 empty_slot" "node_write d = 0" "node_read d = 0"
    "sps_len d = 0" "pps_len d = 0" "cnt_rcv d = 0" "cnt_dec d = 0" "running d = 0"
    "frame_width d = 1080" "frame_height d = 1920"
    using assms(1,3) by (cases r) (auto simp: AnsyncDecoder_Create_def)
  have need: "need_read empty_slot = 0" by (simp add: empty_slot_def)
  have h: "ring_holds d 0" using d by (simp add: ring_holds_def empty_slot_ok need)
  moreover have "distinct (AnsyncDecoder_Destroy (Some d))"
    by (auto simp: AnsyncDecoder_Destroy_def distinct_map inj_on_def)
  ultimately show ?thesis
    using d ring_content_eq [OF h] by (auto simp: AnsyncDecoder_GetWidth_def AnsyncDecoder_GetHeight_def)
qed

definition all_ok :: create_env where
  "all_ok = \<lparr>ok_malloc = True, ok_find_h264 = True, ok_alloc_ctx = True, res_params = 0, res_open = 0,
     ok_frame = True, ok_find_aac = True, ok_alloc_a_ctx = True, res_a_params = 0, res_a_open = 0,
     ok_a_frame = True, ok_a_frame_out = True, ok_thread = True, ok_list = (\<lambda>_. True)\<rparr>"

theorem Create_initialises_witness:
  "\<exists>d. AnsyncDecoder_Create all_ok sps_zero [] 0 () () True = Some (Some d) \<and> ring_content d = [] \<and>
    AnsyncDecoder_GetWidth (Some d) = 1080"
proof -
  have "h264_sps_read [] 0 sps_zero = Some (-1, sps_zero)" by code_simp
  then show ?thesis
    using Create_initialises [of all_ok "[]" 0 sps_zero _ "()" "()" True]
    by (auto simp: all_ok_def create_ok_def)
qed

end
