(* ===== verification/Event_Loop.thy ===== *)
theory Event_Loop
  imports VC_Prelude Complex_Main
begin

text \<open>
  The event loop of \<open>VirtualCamera/Common/eventloop/EventLoop.c\<close>: two tables of 64 slots, for sockets
  and timers, over libev. A slot is free when its \<open>fd\<close> is negative, respectively its \<open>repeat\<close> is not
  positive. The state of libev's watchers that the code depends on is kept in the slots (\<open>active\<close>:
  started and not stopped). The type \<open>'u\<close> stands for callbacks with their user data; a \<open>double\<close> is a
  rational number. The locale \<open>slot_pool\<close> states what a user of either table relies on.
\<close>

section \<open>Data\<close>

definition MAX_SOCKET_COUNT :: nat where
  "MAX_SOCKET_COUNT = 64"

definition MAX_TIMER_COUNT :: nat where
  "MAX_TIMER_COUNT = 64"

definition EV_READ :: int where
  "EV_READ = 1"

definition EV_WRITE :: int where
  "EV_WRITE = 2"

record 'u SocketHandle =
  sock_fd :: int
  read_handle :: "'u option"
  write_handle :: "'u option"

record 'u TimerHandle =
  interval :: rat
  th_repeat :: int
  th_handle :: 'u

record ev_io =
  fd :: int
  io_events :: int
  io_active :: bool

record ev_timer =
  t_repeat :: rat
  t_after :: rat
  t_active :: bool

record 'u EventLoop =
  io_array :: "ev_io list"
  sock_handles :: "'u SocketHandle option list"
  current_io :: nat
  timer_array :: "ev_timer list"
  timer_handles :: "'u TimerHandle option list"
  current_timer :: nat
  ev_count :: int
  ev_broken :: bool

section \<open>Operations\<close>

definition EventLoop_Create :: "bool \<Rightarrow> 'u EventLoop option" where
  "EventLoop_Create ok_malloc =
     (if ok_malloc then Some
        \<lparr>io_array = replicate MAX_SOCKET_COUNT \<lparr>fd = -1, io_events = 0, io_active = False\<rparr>,
         sock_handles = replicate MAX_SOCKET_COUNT None, current_io = 0,
         timer_array = replicate MAX_TIMER_COUNT \<lparr>t_repeat = -1, t_after = 0, t_active = False\<rparr>,
         timer_handles = replicate MAX_TIMER_COUNT None, current_timer = 0,
         ev_count = 0, ev_broken = False\<rparr>
      else None)"

text \<open>The search loop of both \<open>Handle\<close> functions: \<open>n\<close> slots still to look at, from \<open>index\<close> on.\<close>

fun find_slot :: "(nat \<Rightarrow> bool) \<Rightarrow> nat \<Rightarrow> nat \<Rightarrow> nat \<Rightarrow> nat option" where
  "find_slot free cap 0 index = None"
| "find_slot free cap (Suc n) index =
     (if free index then Some index
      else find_slot free cap n (if Suc index \<ge> cap then 0 else Suc index))"

definition io_free :: "'u EventLoop \<Rightarrow> nat \<Rightarrow> bool" where
  "io_free l i \<longleftrightarrow> fd (io_array l ! i) < 0"

definition timer_free :: "'u EventLoop \<Rightarrow> nat \<Rightarrow> bool" where
  "timer_free l i \<longleftrightarrow> t_repeat (timer_array l ! i) \<le> 0"

definition EventLoop_HandleSocket :: "'u EventLoop \<Rightarrow> 'u SocketHandle \<Rightarrow> int \<times> 'u EventLoop" where
  "EventLoop_HandleSocket l handle =
     (case find_slot (io_free l) MAX_SOCKET_COUNT MAX_SOCKET_COUNT (current_io l) of
        None \<Rightarrow> (-1, l)
      | Some k \<Rightarrow>
          let flags = (if read_handle handle \<noteq> None then EV_READ else 0) OR
                      (if write_handle handle \<noteq> None then EV_WRITE else 0)
          in (int k, l\<lparr>current_io := (if Suc k \<ge> MAX_SOCKET_COUNT then 0 else Suc k),
                io_array := (io_array l)[k := \<lparr>fd = sock_fd handle, io_events = flags, io_active = True\<rparr>],
                sock_handles := (sock_handles l)[k := Some handle],
                ev_count := ev_count l + 1\<rparr>))"

definition EventLoop_RemoveSocket :: "'u EventLoop \<Rightarrow> int \<Rightarrow> 'u EventLoop" where
  "EventLoop_RemoveSocket l sock_id =
     (if sock_id < 0 \<or> sock_id \<ge> int MAX_SOCKET_COUNT then l
      else let k = nat sock_id in
        l\<lparr>io_array := (io_array l)[k := (io_array l ! k)\<lparr>io_active := False, fd := -1\<rparr>],
          ev_count := ev_count l - 1\<rparr>)"

definition EventLoop_HandleTimer :: "'u EventLoop \<Rightarrow> 'u TimerHandle \<Rightarrow> int \<times> 'u EventLoop" where
  "EventLoop_HandleTimer l handle =
     (case find_slot (timer_free l) MAX_TIMER_COUNT MAX_TIMER_COUNT (current_timer l) of
        None \<Rightarrow> (-1, l)
      | Some k \<Rightarrow>
          (int k, l\<lparr>current_timer := (if Suc k \<ge> MAX_TIMER_COUNT then 0 else Suc k),
             timer_array := (timer_array l)[k := \<lparr>t_repeat = interval handle, t_after = interval handle,
                                                  t_active = True\<rparr>],
             timer_handles := (timer_handles l)[k := Some handle],
             ev_count := ev_count l + 1\<rparr>))"

definition EventLoop_RemoveTimer :: "'u EventLoop \<Rightarrow> int \<Rightarrow> 'u EventLoop" where
  "EventLoop_RemoveTimer l timer_id =
     (if timer_id < 0 \<or> timer_id \<ge> int MAX_TIMER_COUNT then l
      else let k = nat timer_id in
        l\<lparr>timer_array := (timer_array l)[k := (timer_array l ! k)\<lparr>t_active := False, t_repeat := -1\<rparr>],
          ev_count := ev_count l - 1\<rparr>)"

text \<open>The callbacks a socket event runs, in order.\<close>

definition ev_io_handle :: "'u SocketHandle \<Rightarrow> int \<Rightarrow> 'u list" where
  "ev_io_handle h revents =
     (if revents AND EV_READ \<noteq> 0 then (case read_handle h of None \<Rightarrow> [] | Some c \<Rightarrow> [c]) else []) @
     (if revents AND EV_WRITE \<noteq> 0 then (case write_handle h of None \<Rightarrow> [] | Some c \<Rightarrow> [c]) else [])"

text \<open>The expiry of timer \<open>k\<close>, whose callback returns \<open>r\<close>; decrementing the smallest \<open>int\<close> is undefined.\<close>

definition ev_timer_handle :: "'u EventLoop \<Rightarrow> nat \<Rightarrow> int \<Rightarrow> 'u EventLoop option" where
  "ev_timer_handle l k r = do {
     th \<leftarrow> timer_handles l ! k;
     n \<leftarrow> c_int (th_repeat th - 1);
     let l = l\<lparr>timer_handles := (timer_handles l)[k := Some (th\<lparr>th_repeat := n\<rparr>)]\<rparr>;
     let l = (if n = 0
              then l\<lparr>timer_array := (timer_array l)[k := (timer_array l ! k)\<lparr>t_active := False, t_repeat := -1\<rparr>]\<rparr>
              else l);
     Some (if r < 0 then l\<lparr>ev_broken := True\<rparr> else l) }"

definition EventLoop_Quit :: "'u EventLoop \<Rightarrow> 'u EventLoop" where
  "EventLoop_Quit l = l\<lparr>ev_broken := True\<rparr>"

section \<open>What a user of a table relies on\<close>

locale slot_pool =
  fixes inv :: "'s \<Rightarrow> bool" and free :: "'s \<Rightarrow> nat \<Rightarrow> bool" and acquire :: "'s \<Rightarrow> 'h \<Rightarrow> int \<times> 's"
    and release :: "'s \<Rightarrow> int \<Rightarrow> 's" and ok :: "'h \<Rightarrow> bool" and cap :: nat
  assumes acquire_none: "inv s \<Longrightarrow> (\<forall>i < cap. \<not> free s i) \<Longrightarrow> acquire s h = (-1, s)"
    and acquire_some: "inv s \<Longrightarrow> ok h \<Longrightarrow> i < cap \<Longrightarrow> free s i \<Longrightarrow>
      \<exists>k t. acquire s h = (int k, t) \<and> inv t \<and> k < cap \<and> free s k \<and> \<not> free t k \<and>
        (\<forall>j. j \<noteq> k \<longrightarrow> free t j = free s j)"
    and release_some: "inv s \<Longrightarrow> k < cap \<Longrightarrow> inv (release s (int k)) \<and> free (release s (int k)) k \<and>
        (\<forall>j. j \<noteq> k \<longrightarrow> free (release s (int k)) j = free s j)"
begin

definition in_use :: "'s \<Rightarrow> nat" where
  "in_use s = card {i. i < cap \<and> \<not> free s i}"

lemma in_use_le: "in_use s \<le> cap"
  using card_mono [of "{..<cap}" "{i. i < cap \<and> \<not> free s i}"] by (auto simp: in_use_def)

text \<open>Acquiring fails exactly when everything is in use, and otherwise takes one more slot.\<close>

lemma acquire_in_use:
  assumes "inv s" "ok h"
  shows "(fst (acquire s h) = -1 \<and> snd (acquire s h) = s \<and> in_use s = cap) \<or>
    (\<exists>k. fst (acquire s h) = int k \<and> k < cap \<and> free s k \<and> \<not> free (snd (acquire s h)) k \<and>
       inv (snd (acquire s h)) \<and> in_use (snd (acquire s h)) = Suc (in_use s) \<and> in_use s < cap)"
proof (cases "\<exists>i < cap. free s i")
  case False
  then have "{i. i < cap \<and> \<not> free s i} = {..<cap}" by auto
  then have "in_use s = cap" by (simp add: in_use_def)
  then show ?thesis using acquire_none [OF assms(1)] False by auto
next
  case True
  then obtain i where i: "i < cap" "free s i" by blast
  from acquire_some [OF assms i] obtain k t where k: "acquire s h = (int k, t)" "inv t" "k < cap"
    "free s k" "\<not> free t k" "\<forall>j. j \<noteq> k \<longrightarrow> free t j = free s j" by blast
  have "{i. i < cap \<and> \<not> free t i} = insert k {i. i < cap \<and> \<not> free s i}" using k by auto
  then have "in_use t = Suc (in_use s)" using k(4) by (simp add: in_use_def)
  then have "in_use t = Suc (in_use s) \<and> in_use s < cap" using in_use_le [of t] by linarith
  then show ?thesis using k by (intro disjI2 exI [of _ k]) simp
qed

lemma release_in_use:
  assumes "inv s" "k < cap" "\<not> free s k"
  shows "Suc (in_use (release s (int k))) = in_use s"
proof -
  have "{i. i < cap \<and> \<not> free s i} = insert k {i. i < cap \<and> \<not> free (release s (int k)) i}"
    using release_some [OF assms(1,2)] assms by auto
  moreover have "k \<notin> {i. i < cap \<and> \<not> free (release s (int k)) i}"
    using release_some [OF assms(1,2)] by simp
  ultimately show ?thesis by (simp add: in_use_def)
qed

end

section \<open>Both tables are slot pools\<close>

lemma find_slot_None:
  "find_slot free cap n i = None \<Longrightarrow> i < cap \<Longrightarrow> j < n \<Longrightarrow> n \<le> cap \<Longrightarrow> \<not> free ((i + j) mod cap)"
proof (induction n arbitrary: i j)
  case (Suc n)
  let ?i = "if Suc i \<ge> cap then 0 else Suc i"
  have i: "\<not> free i" "find_slot free cap n ?i = None" using Suc.prems(1) by (auto split: if_splits)
  show ?case
  proof (cases j)
    case 0
    then show ?thesis using i Suc.prems by simp
  next
    case j: (Suc j')
    have "\<not> free ((?i + j') mod cap)" by (rule Suc.IH) (use Suc.prems i j in auto)
    moreover have "(?i + j') mod cap = (i + j) mod cap"
    proof (cases "Suc i \<ge> cap")
      case True
      then have "i + j = cap + j'" using Suc.prems j by simp
      then show ?thesis using True by simp
    qed (simp add: j)
    ultimately show ?thesis by simp
  qed
qed simp

lemma find_slot_None_all:
  assumes "find_slot free cap cap i = None" "i < cap" "k < cap"
  shows "\<not> free k"
proof -
  define j where "j = (if i \<le> k then k - i else k + cap - i)"
  have "j < cap" "(i + j) mod cap = k" using assms by (auto simp: j_def)
  then show ?thesis using find_slot_None [OF assms(1,2), of j] by simp
qed

lemma find_slot_Some: "find_slot free cap n i = Some k \<Longrightarrow> i < cap \<Longrightarrow> free k \<and> k < cap"
  by (induction n arbitrary: i) (auto split: if_splits)

text \<open>The slot found is the first free one in the order of the search, which goes around the table.\<close>

lemma find_slot_first:
  "find_slot free cap n i = Some k \<Longrightarrow> i < cap \<Longrightarrow> \<exists>d < n. k = (i + d) mod cap \<and> free k \<and> (\<forall>j < d. \<not> free ((i + j) mod cap))"
proof (induction n arbitrary: i)
  case (Suc n)
  show ?case
  proof (cases "free i")
    case True
    then show ?thesis using Suc.prems by (intro exI [of _ 0]) simp
  next
    case False
    let ?i = "if Suc i \<ge> cap then 0 else Suc i"
    have next_i: "(?i + j) mod cap = (i + Suc j) mod cap" for j
    proof (cases "Suc i \<ge> cap")
      case True
      then have "i + Suc j = cap + j" using Suc.prems(2) by simp
      then show ?thesis using True by (simp only: if_True mod_add_self1 add_0)
    qed simp
    have "find_slot free cap n ?i = Some k" "?i < cap" using Suc.prems False by simp_all
    then obtain d where d: "d < n" "k = (?i + d) mod cap" "free k" "\<forall>j < d. \<not> free ((?i + j) mod cap)"
      using Suc.IH by blast
    have "\<not> free ((i + j) mod cap)" if "j < Suc d" for j
      using that d(4) next_i False Suc.prems(2) by (cases j) auto
    then show ?thesis using d next_i by (intro exI [of _ "Suc d"]) auto
  qed
qed simp

definition loop_inv :: "'u EventLoop \<Rightarrow> bool" where
  "loop_inv l \<longleftrightarrow> length (io_array l) = 64 \<and> length (timer_array l) = 64 \<and> length (timer_handles l) = 64 \<and>
     length (sock_handles l) = 64 \<and> current_io l < 64 \<and> current_timer l < 64"

lemmas table_sizes = MAX_SOCKET_COUNT_def MAX_TIMER_COUNT_def

interpretation sockets: slot_pool loop_inv io_free EventLoop_HandleSocket EventLoop_RemoveSocket
  "\<lambda>h. 0 \<le> sock_fd h" 64
proof
  fix s :: "'u EventLoop" and h :: "'u SocketHandle" and i k
  assume inv: "loop_inv s"
  show "EventLoop_HandleSocket s h = (-1, s)" if "\<forall>i < 64. \<not> io_free s i"
  proof -
    have "find_slot (io_free s) 64 64 (current_io s) = None"
      using find_slot_Some [of "io_free s" 64 64 "current_io s"] inv that
      by (cases "find_slot (io_free s) 64 64 (current_io s)") (auto simp: loop_inv_def)
    then show ?thesis by (simp add: EventLoop_HandleSocket_def table_sizes)
  qed
  show "\<exists>k t. EventLoop_HandleSocket s h = (int k, t) \<and> loop_inv t \<and> k < 64 \<and> io_free s k \<and>
      \<not> io_free t k \<and> (\<forall>j. j \<noteq> k \<longrightarrow> io_free t j = io_free s j)"
    if h: "0 \<le> sock_fd h" "i < 64" "io_free s i"
  proof -
    obtain k where k: "find_slot (io_free s) 64 64 (current_io s) = Some k"
      using find_slot_None_all [of "io_free s" 64 "current_io s" i] h inv
      by (cases "find_slot (io_free s) 64 64 (current_io s)") (auto simp: loop_inv_def)
    then have "io_free s k" "k < 64" using find_slot_Some [OF k] inv by (auto simp: loop_inv_def)
    then show ?thesis using inv h k
      by (auto simp: EventLoop_HandleSocket_def table_sizes Let_def loop_inv_def io_free_def)
  qed
  show "loop_inv (EventLoop_RemoveSocket s (int k)) \<and> io_free (EventLoop_RemoveSocket s (int k)) k \<and>
      (\<forall>j. j \<noteq> k \<longrightarrow> io_free (EventLoop_RemoveSocket s (int k)) j = io_free s j)" if "k < 64"
    using that inv by (auto simp: EventLoop_RemoveSocket_def table_sizes loop_inv_def io_free_def Let_def)
qed

interpretation timers: slot_pool loop_inv timer_free EventLoop_HandleTimer EventLoop_RemoveTimer
  "\<lambda>h. 0 < interval h" 64
proof
  fix s :: "'u EventLoop" and h :: "'u TimerHandle" and i k
  assume inv: "loop_inv s"
  show "EventLoop_HandleTimer s h = (-1, s)" if "\<forall>i < 64. \<not> timer_free s i"
  proof -
    have "find_slot (timer_free s) 64 64 (current_timer s) = None"
      using find_slot_Some [of "timer_free s" 64 64 "current_timer s"] inv that
      by (cases "find_slot (timer_free s) 64 64 (current_timer s)") (auto simp: loop_inv_def)
    then show ?thesis by (simp add: EventLoop_HandleTimer_def table_sizes)
  qed
  show "\<exists>k t. EventLoop_HandleTimer s h = (int k, t) \<and> loop_inv t \<and> k < 64 \<and> timer_free s k \<and>
      \<not> timer_free t k \<and> (\<forall>j. j \<noteq> k \<longrightarrow> timer_free t j = timer_free s j)"
    if h: "0 < interval h" "i < 64" "timer_free s i"
  proof -
    obtain k where k: "find_slot (timer_free s) 64 64 (current_timer s) = Some k"
      using find_slot_None_all [of "timer_free s" 64 "current_timer s" i] h inv
      by (cases "find_slot (timer_free s) 64 64 (current_timer s)") (auto simp: loop_inv_def)
    then have "timer_free s k" "k < 64" using find_slot_Some [OF k] inv by (auto simp: loop_inv_def)
    then show ?thesis using inv h k
      by (auto simp: EventLoop_HandleTimer_def table_sizes Let_def loop_inv_def timer_free_def)
  qed
  show "loop_inv (EventLoop_RemoveTimer s (int k)) \<and> timer_free (EventLoop_RemoveTimer s (int k)) k \<and>
      (\<forall>j. j \<noteq> k \<longrightarrow> timer_free (EventLoop_RemoveTimer s (int k)) j = timer_free s j)" if "k < 64"
    using that inv by (auto simp: EventLoop_RemoveTimer_def table_sizes loop_inv_def timer_free_def Let_def)
qed

section \<open>The count of events\<close>

definition count_ok :: "'u EventLoop \<Rightarrow> bool" where
  "count_ok l \<longleftrightarrow> loop_inv l \<and> ev_count l = int (sockets.in_use l) + int (timers.in_use l)"

lemma timers_in_use_cong: "timer_array l = timer_array l' \<Longrightarrow> timers.in_use l = timers.in_use l'"
  by (simp add: timers.in_use_def timer_free_def)

lemma sockets_in_use_cong: "io_array l = io_array l' \<Longrightarrow> sockets.in_use l = sockets.in_use l'"
  by (simp add: sockets.in_use_def io_free_def)

lemma HandleSocket_frame:
  "timer_array (snd (EventLoop_HandleSocket l h)) = timer_array l"
  "ev_count (snd (EventLoop_HandleSocket l h)) = ev_count l + (if fst (EventLoop_HandleSocket l h) = -1 then 0 else 1)"
  by (auto simp: EventLoop_HandleSocket_def Let_def split: option.splits)

lemma HandleTimer_frame:
  "io_array (snd (EventLoop_HandleTimer l h)) = io_array l"
  "ev_count (snd (EventLoop_HandleTimer l h)) = ev_count l + (if fst (EventLoop_HandleTimer l h) = -1 then 0 else 1)"
  by (auto simp: EventLoop_HandleTimer_def Let_def split: option.splits)

lemma RemoveSocket_frame:
  "0 \<le> k \<Longrightarrow> k < 64 \<Longrightarrow> timer_array (EventLoop_RemoveSocket l k) = timer_array l \<and>
     ev_count (EventLoop_RemoveSocket l k) = ev_count l - 1"
  by (simp add: EventLoop_RemoveSocket_def table_sizes Let_def)

lemma RemoveTimer_frame:
  "0 \<le> k \<Longrightarrow> k < 64 \<Longrightarrow> io_array (EventLoop_RemoveTimer l k) = io_array l \<and>
     ev_count (EventLoop_RemoveTimer l k) = ev_count l - 1"
  by (simp add: EventLoop_RemoveTimer_def table_sizes Let_def)

section \<open>Timers\<close>

text \<open>\<open>n\<close> expiries of timer \<open>k\<close>, the callback returning 0 each time.\<close>

fun expiries :: "nat \<Rightarrow> nat \<Rightarrow> 'u EventLoop \<Rightarrow> 'u EventLoop option" where
  "expiries 0 k l = Some l"
| "expiries (Suc n) k l = (case ev_timer_handle l k 0 of None \<Rightarrow> None | Some l \<Rightarrow> expiries n k l)"

lemma expiries_run:
  assumes "loop_inv l" "k < 64" "timer_handles l ! k = Some th" "th_repeat th = int (Suc n)" "n < 2147483647"
  shows "\<exists>l'. expiries n k l = Some l' \<and> loop_inv l' \<and> timer_handles l' ! k = Some (th\<lparr>th_repeat := 1\<rparr>) \<and>
    timer_array l' = timer_array l \<and> ev_count l' = ev_count l \<and> io_array l' = io_array l"
  using assms
proof (induction n arbitrary: l th)
  case 0
  then have "th\<lparr>th_repeat := 1\<rparr> = th" by (cases th) simp
  then show ?case using 0 by simp
next
  case (Suc n)
  let ?th = "th\<lparr>th_repeat := int (Suc n)\<rparr>"
  let ?l = "l\<lparr>timer_handles := (timer_handles l)[k := Some ?th]\<rparr>"
  have step: "ev_timer_handle l k 0 = Some ?l"
    using Suc.prems by (simp add: ev_timer_handle_def in_int_def Let_def)
  have "\<exists>l'. expiries n k ?l = Some l' \<and> loop_inv l' \<and> timer_handles l' ! k = Some (?th\<lparr>th_repeat := 1\<rparr>) \<and>
    timer_array l' = timer_array ?l \<and> ev_count l' = ev_count ?l \<and> io_array l' = io_array ?l"
    by (rule Suc.IH) (use Suc.prems in \<open>auto simp: loop_inv_def\<close>)
  then show ?case using step by simp
qed

lemma last_expiry:
  assumes "loop_inv l" "k < 64" "timer_handles l ! k = Some th" "th_repeat th = 1"
  shows "\<exists>l'. ev_timer_handle l k 0 = Some l' \<and> loop_inv l' \<and> timer_free l' k \<and>
    \<not> t_active (timer_array l' ! k) \<and> ev_count l' = ev_count l \<and> io_array l' = io_array l \<and>
    (\<forall>j. j \<noteq> k \<longrightarrow> timer_free l' j = timer_free l j)"
  using assms by (auto simp: ev_timer_handle_def in_int_def loop_inv_def timer_free_def Let_def)

section \<open>Properties\<close>

definition fresh_loop :: "unit EventLoop" where
  "fresh_loop = the (EventLoop_Create True)"

lemma fresh_loop_inv: "loop_inv fresh_loop" "\<And>i. i < 64 \<Longrightarrow> io_free fresh_loop i"
    "\<And>i. i < 64 \<Longrightarrow> timer_free fresh_loop i" "ev_count fresh_loop = 0"
  by (simp_all add: fresh_loop_def EventLoop_Create_def loop_inv_def table_sizes io_free_def timer_free_def)

lemma fresh_loop_count: "count_ok fresh_loop"
proof -
  have "{i. i < 64 \<and> \<not> io_free fresh_loop i} = {}" "{i. i < 64 \<and> \<not> timer_free fresh_loop i} = {}"
    using fresh_loop_inv by blast+
  then have "sockets.in_use fresh_loop = 0" "timers.in_use fresh_loop = 0"
    unfolding sockets.in_use_def timers.in_use_def by (simp_all only: card.empty)
  then show ?thesis using fresh_loop_inv by (simp add: count_ok_def)
qed

text \<open>C39: registering a socket with a valid descriptor fails exactly when all 64 slots are in use and
  then changes nothing; otherwise it returns the first free slot in the order of the search, which begins at
  \<open>current_io\<close> and goes once around the table; that slot now watches the descriptor for the events that have a
  callback, the next search begins behind it, every other slot is as before, and the event count stays the
  number of sockets and timers in use.\<close>

theorem HandleSocket_takes_free_slot:
  assumes "count_ok l" "0 \<le> sock_fd h"
  shows "(EventLoop_HandleSocket l h = (-1, l) \<and> (\<forall>i < 64. \<not> io_free l i)) \<or>
    (\<exists>d k l'. EventLoop_HandleSocket l h = (int k, l') \<and> d < 64 \<and> k = (current_io l + d) mod 64 \<and> io_free l k \<and>
       (\<forall>j < d. \<not> io_free l ((current_io l + j) mod 64)) \<and>
       fd (io_array l' ! k) = sock_fd h \<and> io_active (io_array l' ! k) \<and>
       io_events (io_array l' ! k) = (if read_handle h = None then 0 else EV_READ) OR (if write_handle h = None then 0 else EV_WRITE) \<and>
       sock_handles l' ! k = Some h \<and> current_io l' = Suc k mod 64 \<and>
       (\<forall>j. j \<noteq> k \<longrightarrow> io_array l' ! j = io_array l ! j) \<and> count_ok l')"
proof -
  have inv: "loop_inv l" using assms(1) by (simp add: count_ok_def)
  show ?thesis
  proof (cases "\<exists>i < 64. io_free l i")
    case False
    then show ?thesis using sockets.acquire_none [OF inv] by auto
  next
    case True
    then obtain i where i: "i < 64" "io_free l i" by blast
    from sockets.acquire_some [OF inv assms(2) i] obtain k t where
      k: "EventLoop_HandleSocket l h = (int k, t)" "loop_inv t" "k < 64" by blast
    have "find_slot (io_free l) 64 64 (current_io l) = Some k"
      using k(1) by (auto simp: EventLoop_HandleSocket_def table_sizes Let_def split: option.splits)
    moreover have "current_io l < 64" using inv by (simp add: loop_inv_def)
    ultimately obtain d where d: "d < 64" "k = (current_io l + d) mod 64" "io_free l k"
      "\<forall>j < d. \<not> io_free l ((current_io l + j) mod 64)"
      using find_slot_first by blast
    have t: "t = snd (EventLoop_HandleSocket l h)" using k(1) by simp
    have stored: "fd (io_array t ! k) = sock_fd h \<and> io_active (io_array t ! k) \<and>
       io_events (io_array t ! k) = (if read_handle h = None then 0 else EV_READ) OR (if write_handle h = None then 0 else EV_WRITE) \<and>
       sock_handles t ! k = Some h \<and> current_io t = Suc k mod 64 \<and> (\<forall>j. j \<noteq> k \<longrightarrow> io_array t ! j = io_array l ! j)"
      using \<open>find_slot (io_free l) 64 64 (current_io l) = Some k\<close> inv k(3)
      by (auto simp: t EventLoop_HandleSocket_def table_sizes Let_def loop_inv_def le_Suc_eq not_le)
    have "timers.in_use t = timers.in_use l"
      using HandleSocket_frame(1) [of l h] timers_in_use_cong k(1) by (metis snd_conv)
    moreover have "ev_count t = ev_count l + 1" using HandleSocket_frame(2) [of l h] k(1) by simp
    moreover have "sockets.in_use t = Suc (sockets.in_use l)"
      using sockets.acquire_in_use [OF inv assms(2)] k(1) by auto
    ultimately have "count_ok t" using assms(1) k(2) by (simp add: count_ok_def)
    then show ?thesis using k(1) d stored by blast
  qed
qed

theorem HandleSocket_takes_free_slot_witness:
  "\<exists>k l'. EventLoop_HandleSocket fresh_loop \<lparr>sock_fd = 5, read_handle = Some (), write_handle = None\<rparr> =
    (int k, l') \<and> fd (io_array l' ! k) = 5 \<and> io_events (io_array l' ! k) = EV_READ"
  using HandleSocket_takes_free_slot [OF fresh_loop_count,
      of "\<lparr>sock_fd = 5, read_handle = Some (), write_handle = None\<rparr>"] fresh_loop_inv(2) [of 0]
  by auto

text \<open>Removing a socket or a timer that is in use frees its slot and keeps the count exact.\<close>

theorem Remove_keeps_count:
  assumes "count_ok l" "k < 64"
  shows "(\<not> io_free l k \<longrightarrow> count_ok (EventLoop_RemoveSocket l (int k)) \<and>
      io_free (EventLoop_RemoveSocket l (int k)) k) \<and>
    (\<not> timer_free l k \<longrightarrow> count_ok (EventLoop_RemoveTimer l (int k)) \<and>
      timer_free (EventLoop_RemoveTimer l (int k)) k)"
proof -
  have inv: "loop_inv l" using assms(1) by (simp add: count_ok_def)
  note s = sockets.release_some [OF inv assms(2)] and t = timers.release_some [OF inv assms(2)]
  have "count_ok (EventLoop_RemoveSocket l (int k))" if "\<not> io_free l k"
    using sockets.release_in_use [OF inv assms(2) that] s RemoveSocket_frame [of "int k" l] assms
      timers_in_use_cong [of "EventLoop_RemoveSocket l (int k)" l] by (simp add: count_ok_def)
  moreover have "count_ok (EventLoop_RemoveTimer l (int k))" if "\<not> timer_free l k"
    using timers.release_in_use [OF inv assms(2) that] t RemoveTimer_frame [of "int k" l] assms
      sockets_in_use_cong [of "EventLoop_RemoveTimer l (int k)" l] by (simp add: count_ok_def)
  ultimately show ?thesis using s t by blast
qed

definition busy_loop :: "unit EventLoop" where
  "busy_loop = snd (EventLoop_HandleTimer fresh_loop \<lparr>interval = 1, th_repeat = 2, th_handle = ()\<rparr>)"

lemma busy_loop_ok: "count_ok busy_loop" "\<not> timer_free busy_loop 0"
  "timer_handles busy_loop ! 0 = Some \<lparr>interval = 1, th_repeat = 2, th_handle = ()\<rparr>"
proof -
  let ?h = "\<lparr>interval = 1, th_repeat = 2, th_handle = ()\<rparr>"
  have f: "find_slot (timer_free fresh_loop) 64 64 0 = Some 0"
    using fresh_loop_inv(3) [of 0] by (simp add: numeral_eq_Suc)
  have c: "current_timer fresh_loop = 0" by (simp add: fresh_loop_def EventLoop_Create_def)
  have e: "fst (EventLoop_HandleTimer fresh_loop ?h) = 0"
    by (simp add: EventLoop_HandleTimer_def table_sizes f c)
  have a: "timer_array busy_loop = (timer_array fresh_loop)[0 := \<lparr>t_repeat = 1, t_after = 1, t_active = True\<rparr>]"
    "timer_handles busy_loop = (timer_handles fresh_loop)[0 := Some ?h]"
    by (simp_all add: busy_loop_def EventLoop_HandleTimer_def table_sizes f c)
  then show "\<not> timer_free busy_loop 0" "timer_handles busy_loop ! 0 = Some ?h"
    using fresh_loop_inv(1) by (simp_all add: timer_free_def loop_inv_def)
  have "loop_inv busy_loop \<and> timers.in_use busy_loop = Suc (timers.in_use fresh_loop)"
    using timers.acquire_in_use [OF fresh_loop_inv(1), of ?h] e by (auto simp: busy_loop_def)
  then show "count_ok busy_loop"
    using fresh_loop_count HandleTimer_frame [of fresh_loop ?h] e
      sockets_in_use_cong [of busy_loop fresh_loop] by (simp add: count_ok_def busy_loop_def)
qed

theorem Remove_keeps_count_witness:
  "\<not> timer_free busy_loop 0 \<and> count_ok (EventLoop_RemoveTimer busy_loop 0)"
  using Remove_keeps_count [OF busy_loop_ok(1), of 0] busy_loop_ok(2) by auto

text \<open>A timer registered with \<open>repeat = n\<close> runs its callback exactly \<open>n\<close> times: it stays armed
  through the first \<open>n - 1\<close> expiries, and the \<open>n\<close>th stops it and frees its slot.\<close>

theorem timer_runs_n_times:
  assumes "loop_inv l" "k < 64" "timer_handles l ! k = Some th" "th_repeat th = int (Suc n)" "n < 2147483647"
  shows "\<exists>l1 l2. expiries n k l = Some l1 \<and> timer_array l1 = timer_array l \<and>
    ev_timer_handle l1 k 0 = Some l2 \<and> timer_free l2 k \<and> \<not> t_active (timer_array l2 ! k)"
proof -
  obtain l1 where l1: "expiries n k l = Some l1" "loop_inv l1"
    "timer_handles l1 ! k = Some (th\<lparr>th_repeat := 1\<rparr>)" "timer_array l1 = timer_array l"
    using expiries_run [OF assms] by blast
  then show ?thesis using last_expiry [OF l1(2) assms(2) l1(3)] by auto
qed

theorem timer_runs_n_times_witness:
  "\<exists>l1 l2. expiries 1 0 busy_loop = Some l1 \<and> ev_timer_handle l1 0 0 = Some l2 \<and> timer_free l2 0"
  using timer_runs_n_times [of busy_loop 0 _ 1] busy_loop_ok by (auto simp: count_ok_def)

text \<open>the last expiry of a timer frees its slot without counting it down: from an exact count,
  every one-shot expiry leaves the count one above the number of sockets and timers in use.\<close>

theorem expiry_leaks_count:
  assumes "count_ok l" "k < 64" "\<not> timer_free l k" "timer_handles l ! k = Some th" "th_repeat th = 1"
  shows "\<exists>l'. ev_timer_handle l k 0 = Some l' \<and>
    ev_count l' = int (sockets.in_use l') + int (timers.in_use l') + 1"
proof -
  have inv: "loop_inv l" using assms(1) by (simp add: count_ok_def)
  obtain l' where l': "ev_timer_handle l k 0 = Some l'" "timer_free l' k" "ev_count l' = ev_count l"
    "io_array l' = io_array l" "\<forall>j. j \<noteq> k \<longrightarrow> timer_free l' j = timer_free l j"
    using last_expiry [OF inv assms(2,4,5)] by blast
  have "{i. i < 64 \<and> \<not> timer_free l i} = insert k {i. i < 64 \<and> \<not> timer_free l' i}"
    using l'(2,5) assms(2,3) by auto
  then have "timers.in_use l = Suc (timers.in_use l')" using l'(2) by (simp add: timers.in_use_def)
  then show ?thesis
    using l' sockets_in_use_cong [of l' l] assms(1) by (simp add: count_ok_def)
qed

theorem expiry_leaks_count_witness:
  "\<exists>l1 l'. expiries 1 0 busy_loop = Some l1 \<and> ev_timer_handle l1 0 0 = Some l' \<and>
    ev_count l' = int (sockets.in_use l') + int (timers.in_use l') + 1"
proof -
  obtain l1 where l1: "expiries 1 0 busy_loop = Some l1" "loop_inv l1"
    "timer_handles l1 ! 0 = Some \<lparr>interval = 1, th_repeat = 1, th_handle = ()\<rparr>"
    "timer_array l1 = timer_array busy_loop" "ev_count l1 = ev_count busy_loop" "io_array l1 = io_array busy_loop"
    using expiries_run [of busy_loop 0 "\<lparr>interval = 1, th_repeat = 2, th_handle = ()\<rparr>" 1] busy_loop_ok
    by (auto simp: count_ok_def)
  then have "count_ok l1" "\<not> timer_free l1 0"
    using busy_loop_ok timers_in_use_cong [of l1 busy_loop] sockets_in_use_cong [of l1 busy_loop]
    by (simp_all add: count_ok_def timer_free_def)
  then show ?thesis using expiry_leaks_count [of l1 0] l1 by auto
qed

end
