(* ===== verification/Network_Socket.thy ===== *)
theory Network_Socket
  imports VC_Prelude
begin

text \<open>
  The socket layer of \<open>VirtualCamera/Common/network/NetworkSocket.c\<close> (its Linux branch). The operating
  system is a parameter: \<open>os tr c\<close> is the result of the system call \<open>c\<close> after the calls \<open>tr\<close>, so it
  may answer anything and change its mind. Every function returns its result and the calls made so
  far; \<open>None\<close> is undefined behaviour (a null socket, a descriptor that does not fit a \<open>fd_set\<close>).
\<close>

section \<open>System calls\<close>

text \<open>
  \<open>SysFlags\<close> and \<open>SysSetFlags\<close> are \<open>fcntl\<close> with \<open>F_GETFL\<close> and \<open>F_SETFL\<close>; \<open>SysPort\<close> is the port that
  \<open>getsockname\<close> stored, \<open>SysPton\<close> the address \<open>inet_pton\<close> stored, negative when it stores none;
  \<open>SysIsError\<close> and \<open>SysIsReady\<close> are \<open>FD_ISSET\<close> on the sets \<open>select\<close> filled.
\<close>

datatype syscall =
    SysSocket bool | SysReuse int int | SysBind int u16 | SysFlags int | SysSetFlags int int
  | SysSndTimeo int int int | SysNoSigpipe int | SysSockName int | SysPort int | SysMalloc | SysClose int
  | SysPton string | SysConnect int int u16 | SysErrno | SysSockError int
  | SysSelect int bool int int | SysIsError int | SysIsReady int
  | SysRecv int int | SysRecvFrom int int | SysSend int int | SysSendTo int int int u16

type_synonym os = "syscall list \<Rightarrow> syscall \<Rightarrow> int"

definition sys :: "os \<Rightarrow> syscall \<Rightarrow> syscall list \<Rightarrow> int \<times> syscall list" where
  "sys os c tr = (os tr c, tr @ [c])"

definition O_NONBLOCK :: int where
  "O_NONBLOCK = 2048"

definition FD_SETSIZE :: int where
  "FD_SETSIZE = 1024"

definition EINPROGRESS :: int where
  "EINPROGRESS = 115"

definition EWOULDBLOCK :: int where
  "EWOULDBLOCK = 11"

section \<open>Sockets\<close>

datatype NetworkType = Network_TCP | Network_UDP | Network_MAX

text \<open>\<open>peer_addr\<close> and \<open>peer_port\<close> are the address structure behind \<open>priv\<close>.\<close>

record NetworkSocket =
  ns_type :: NetworkType
  ns_fd :: int
  ns_port :: int
  peer_addr :: int
  peer_port :: u16

definition makeSocketNonBlocking :: "os \<Rightarrow> int \<Rightarrow> syscall list \<Rightarrow> bool \<times> syscall list" where
  "makeSocketNonBlocking os sock tr =
     (let (curFlags, tr) = sys os (SysFlags sock) tr;
          (r, tr) = sys os (SysSetFlags sock (curFlags OR O_NONBLOCK)) tr
      in (r \<ge> 0, tr))"

definition makeSocketBlocking :: "os \<Rightarrow> int \<Rightarrow> u32 \<Rightarrow> syscall list \<Rightarrow> bool \<times> syscall list" where
  "makeSocketBlocking os sock writeTimeoutInMilliseconds tr =
     (let (curFlags, tr) = sys os (SysFlags sock) tr;
          (result, tr) = sys os (SysSetFlags sock (curFlags AND NOT O_NONBLOCK)) tr;
          tr = (if writeTimeoutInMilliseconds > 0
                then snd (sys os (SysSndTimeo sock (uint (writeTimeoutInMilliseconds div 1000))
                       (uint (writeTimeoutInMilliseconds mod 1000 * 1000))) tr)
                else tr)
      in (result \<ge> 0, tr))"

definition getNetworkError :: "os \<Rightarrow> syscall list \<Rightarrow> int \<times> syscall list" where
  "getNetworkError os tr = sys os SysErrno tr"

text \<open>\<open>SysSockError\<close> is \<open>getsockopt\<close> with \<open>SO_ERROR\<close>: negative when it fails, else the error.\<close>

definition getSocketError :: "os \<Rightarrow> int \<Rightarrow> syscall list \<Rightarrow> int \<times> syscall list" where
  "getSocketError os sock_fd tr =
     (let (err, tr) = sys os (SysSockError sock_fd) tr
      in if err < 0 then getNetworkError os tr else (err, tr))"

definition ignoreSigPipeOnSocket :: "os \<Rightarrow> int \<Rightarrow> syscall list \<Rightarrow> syscall list" where
  "ignoreSigPipeOnSocket os socketNum tr = snd (sys os (SysNoSigpipe socketNum) tr)"

text \<open>The body of the \<open>do ... while (0)\<close> after the socket exists: each failing call is a \<open>break\<close>.\<close>

definition create_body :: "os \<Rightarrow> NetworkType \<Rightarrow> u16 \<Rightarrow> int \<Rightarrow> syscall list \<Rightarrow> NetworkSocket option \<times> syscall list" where
  "create_body os type local_port sock_fd tr =
     (let (r, tr) = sys os (SysReuse sock_fd 0) tr in
      if r < 0 then (None, tr)
      else let (r, tr) = sys os (SysBind sock_fd local_port) tr in
      if r \<noteq> 0 then (None, tr)
      else let (ok, tr) =
             (if type = Network_TCP then
                let (ok, tr) = makeSocketNonBlocking os sock_fd tr
                in (ok, if ok then ignoreSigPipeOnSocket os sock_fd tr else tr)
              else (True, tr)) in
      if \<not> ok then (None, tr)
      else let (r, tr) = sys os (SysSockName sock_fd) tr in
      if r < 0 then (None, tr)
      else let (m, tr) = sys os SysMalloc tr in
      if m = 0 then (None, tr)
      else let (port, tr) = sys os (SysPort sock_fd) tr in
        (Some \<lparr>ns_type = type, ns_fd = sock_fd, ns_port = port, peer_addr = 0, peer_port = 0\<rparr>, tr))"

definition NetworkSocket_Create :: "os \<Rightarrow> NetworkType \<Rightarrow> u16 \<Rightarrow> syscall list \<Rightarrow> NetworkSocket option \<times> syscall list" where
  "NetworkSocket_Create os type local_port tr =
     (let (sock_fd, tr) = sys os (SysSocket (type = Network_TCP)) tr;
          (sock, tr) = (if sock_fd < 0 then (None, tr) else create_body os type local_port sock_fd tr)
      in if sock = None \<and> sock_fd \<ge> 0 then (sock, snd (sys os (SysClose sock_fd) tr)) else (sock, tr))"

definition NetworkSocket_Destroy :: "os \<Rightarrow> NetworkSocket option \<Rightarrow> syscall list \<Rightarrow> syscall list" where
  "NetworkSocket_Destroy os sock tr =
     (case sock of None \<Rightarrow> tr
      | Some s \<Rightarrow> if ns_fd s \<ge> 0 then snd (sys os (SysClose (ns_fd s)) tr) else tr)"

definition NetworkSocket_Connect ::
  "os \<Rightarrow> NetworkSocket option \<Rightarrow> string \<Rightarrow> u16 \<Rightarrow> syscall list \<Rightarrow> int \<times> NetworkSocket option \<times> syscall list" where
  "NetworkSocket_Connect os sock ip port tr =
     (case sock of None \<Rightarrow> (0, None, tr)
      | Some s \<Rightarrow>
          let (a, tr) = sys os (SysPton ip) tr;
              s = s\<lparr>peer_port := port, peer_addr := (if a < 0 then peer_addr s else a)\<rparr>
          in if ns_type s = Network_TCP then
               let (r, tr) = sys os (SysConnect (ns_fd s) (peer_addr s) port) tr in
               if r = 0 then (1, Some s, tr)
               else let (error, tr) = getNetworkError os tr in
                 (if error = EINPROGRESS \<or> error = EWOULDBLOCK then 1 else 0, Some s, tr)
             else (1, Some s, tr))"

text \<open>\<open>timeout_ms / 1000\<close> and \<open>(timeout_ms % 1000) * 1000\<close> with C's truncating division.\<close>

definition tv_sec :: "int \<Rightarrow> int" where
  "tv_sec timeout_ms = sgn timeout_ms * (\<bar>timeout_ms\<bar> div 1000)"

definition tv_usec :: "int \<Rightarrow> int" where
  "tv_usec timeout_ms = sgn timeout_ms * (\<bar>timeout_ms\<bar> mod 1000) * 1000"

definition fd_ok :: "int \<Rightarrow> bool" where
  "fd_ok n \<longleftrightarrow> 0 \<le> n \<and> n < FD_SETSIZE"

text \<open>
  The common part of the three \<open>Try\<close> functions: \<open>select\<close> on one descriptor, for writing or reading.
  The result says whether to go on to the operation.
\<close>

definition wait_ready :: "os \<Rightarrow> int \<Rightarrow> bool \<Rightarrow> int \<Rightarrow> syscall list \<Rightarrow> (bool \<times> syscall list) option" where
  "wait_ready os n writing timeout_ms tr =
     (if \<not> fd_ok n then None
      else
        let (r, tr) = sys os (SysSelect n writing (tv_sec timeout_ms) (tv_usec timeout_ms)) tr in
        if r < 0 then Some (False, snd (getNetworkError os tr))
        else let (e, tr) = sys os (SysIsError n) tr in
        if e \<noteq> 0 then Some (False, tr)
        else let (w, tr) = sys os (SysIsReady n) tr in
        Some (w \<noteq> 0, tr))"

definition NetworkSocket_TryConnect ::
  "os \<Rightarrow> NetworkSocket option \<Rightarrow> string \<Rightarrow> u16 \<Rightarrow> int \<Rightarrow> syscall list \<Rightarrow>
    (int \<times> NetworkSocket option \<times> syscall list) option" where
  "NetworkSocket_TryConnect os sock ip port timeout_ms tr =
     (let (r, sock, tr) = NetworkSocket_Connect os sock ip port tr in
      if r = 0 then Some (0, sock, tr)
      else do {
        s \<leftarrow> sock;
        (ready, tr) \<leftarrow> wait_ready os (ns_fd s) True timeout_ms tr;
        if ready then
          let (err, tr) = getSocketError os (ns_fd s) tr in
          Some (if err \<noteq> 0 then 0 else 1, Some s, tr)
        else Some (0, Some s, tr) })"

definition NetworkSocket_Read :: "os \<Rightarrow> NetworkSocket option \<Rightarrow> int \<Rightarrow> syscall list \<Rightarrow> int \<times> syscall list" where
  "NetworkSocket_Read os sock max_len tr =
     (case sock of None \<Rightarrow> (0, tr)
      | Some s \<Rightarrow> if ns_type s = Network_TCP then sys os (SysRecv (ns_fd s) max_len) tr
                  else sys os (SysRecvFrom (ns_fd s) max_len) tr)"

definition NetworkSocket_TryRead ::
  "os \<Rightarrow> NetworkSocket option \<Rightarrow> int \<Rightarrow> int \<Rightarrow> syscall list \<Rightarrow> (int \<times> syscall list) option" where
  "NetworkSocket_TryRead os sock max_len timeout_ms tr = do {
     s \<leftarrow> sock;
     (ready, tr) \<leftarrow> wait_ready os (ns_fd s) False timeout_ms tr;
     if ready then Some (NetworkSocket_Read os sock max_len tr) else Some (0, tr) }"

definition NetworkSocket_Write :: "os \<Rightarrow> NetworkSocket option \<Rightarrow> int \<Rightarrow> syscall list \<Rightarrow> int \<times> syscall list" where
  "NetworkSocket_Write os sock max_len tr =
     (case sock of None \<Rightarrow> (0, tr)
      | Some s \<Rightarrow> if ns_type s = Network_TCP then sys os (SysSend (ns_fd s) max_len) tr
                  else sys os (SysSendTo (ns_fd s) max_len (peer_addr s) (peer_port s)) tr)"

definition NetworkSocket_TryWrite ::
  "os \<Rightarrow> NetworkSocket option \<Rightarrow> int \<Rightarrow> int \<Rightarrow> syscall list \<Rightarrow> (int \<times> syscall list) option" where
  "NetworkSocket_TryWrite os sock max_len timeout_ms tr = do {
     s \<leftarrow> sock;
     (ready, tr) \<leftarrow> wait_ready os (ns_fd s) True timeout_ms tr;
     if ready then Some (NetworkSocket_Write os sock max_len tr) else Some (0, tr) }"

definition NetworkSocket_SetTimeout :: "os \<Rightarrow> NetworkSocket option \<Rightarrow> int \<Rightarrow> syscall list \<Rightarrow> syscall list option" where
  "NetworkSocket_SetTimeout os sock timeout_ms tr = do {
     s \<leftarrow> sock;
     Some (if timeout_ms = 0 then snd (makeSocketNonBlocking os (ns_fd s) tr)
           else snd (makeSocketBlocking os (ns_fd s) (word_of_int timeout_ms) tr)) }"

section \<open>Descriptors in a trace\<close>

text \<open>The calls that a function added.\<close>

definition extends :: "syscall list \<Rightarrow> syscall list \<Rightarrow> bool" where
  "extends tr tr' \<longleftrightarrow> (\<exists>new. tr' = tr @ new)"

definition closes :: "syscall list \<Rightarrow> int set" where
  "closes tr = {n. SysClose n \<in> set tr}"

lemma closes_simps [simp]:
  "closes [] = {}" "closes (tr @ tr') = closes tr \<union> closes tr'"
  "closes (SysClose n # tr) = insert n (closes tr)"
  "(\<And>n. c \<noteq> SysClose n) \<Longrightarrow> closes (c # tr) = closes tr"
  by (auto simp: closes_def)

lemma sys_trace: "sys os c tr = (r, tr') \<Longrightarrow> tr' = tr @ [c]"
  by (simp add: sys_def)

lemma create_body_closes:
  "create_body os type local_port n tr = (s, tr') \<Longrightarrow>
    closes tr' = closes tr \<and> (\<forall>x. s = Some x \<longrightarrow> ns_fd x = n \<and> ns_type x = type)"
  by (auto simp: create_body_def sys_def makeSocketNonBlocking_def ignoreSigPipeOnSocket_def Let_def
      split: if_splits)

text \<open>The \<open>timeval\<close> handed to \<open>select\<close> is the timeout: for a timeout of zero or more, seconds and
  microseconds are normalised and add up to it exactly.\<close>

lemma timeval_is_timeout:
  assumes "0 \<le> timeout_ms"
  shows "tv_sec timeout_ms * 1000000 + tv_usec timeout_ms = timeout_ms * 1000 \<and>
    0 \<le> tv_usec timeout_ms \<and> tv_usec timeout_ms < 1000000 \<and> 0 \<le> tv_sec timeout_ms"
proof -
  have e: "timeout_ms = timeout_ms div 1000 * 1000 + timeout_ms mod 1000" by simp
  have "tv_sec timeout_ms = timeout_ms div 1000" "tv_usec timeout_ms = timeout_ms mod 1000 * 1000"
    using assms by (simp_all add: tv_sec_def tv_usec_def sgn_if)
  moreover have "0 \<le> timeout_ms mod 1000" "timeout_ms mod 1000 < 1000" "0 \<le> timeout_ms div 1000"
    using assms by (simp_all add: pos_imp_zdiv_nonneg_iff)
  ultimately show ?thesis using e by linarith
qed

text \<open>The calls of a trace with what the operating system answered to each.\<close>

fun replies :: "os \<Rightarrow> syscall list \<Rightarrow> syscall list \<Rightarrow> (syscall \<times> int) list" where
  "replies os before [] = []"
| "replies os before (c # cs) = (c, os before c) # replies os (before @ [c]) cs"

section \<open>Properties\<close>

text \<open>C40: creating a socket leaks no descriptor, whatever the operating system answers: if a null
  pointer is returned then the descriptor, when \<open>socket\<close> gave one, has been closed; otherwise the
  structure owns it and nothing was closed.\<close>

theorem Create_no_descriptor_leak:
  "let fd = os [] (SysSocket (type = Network_TCP));
       (s, tr) = NetworkSocket_Create os type local_port []
   in (case s of None \<Rightarrow> closes tr = (if fd \<ge> 0 then {fd} else {})
       | Some x \<Rightarrow> fd \<ge> 0 \<and> ns_fd x = fd \<and> ns_type x = type \<and> closes tr = {} \<and>
           closes (NetworkSocket_Destroy os s tr) = {fd})"
proof -
  let ?fd = "os [] (SysSocket (type = Network_TCP))"
  obtain s tr where b: "create_body os type local_port ?fd [SysSocket (type = Network_TCP)] = (s, tr)"
    by force
  then show ?thesis
    using create_body_closes [OF b]
    by (auto simp: NetworkSocket_Create_def NetworkSocket_Destroy_def sys_def Let_def split: option.splits)
qed

text \<open>\<open>TryRead\<close> transfers data only when \<open>select\<close> has reported the descriptor readable and not
  in error; in every other case it returns 0 without a \<open>recv\<close>.\<close>

theorem TryRead_only_when_ready:
  assumes "fd_ok (ns_fd s)"
  shows "\<exists>r tr. NetworkSocket_TryRead os (Some s) max_len timeout_ms [] = Some (r, tr) \<and>
    (let sel = SysSelect (ns_fd s) False (tv_sec timeout_ms) (tv_usec timeout_ms);
         ready = (os [] sel \<ge> 0 \<and> os [sel] (SysIsError (ns_fd s)) = 0 \<and>
                  os [sel, SysIsError (ns_fd s)] (SysIsReady (ns_fd s)) \<noteq> 0);
         recv = (if ns_type s = Network_TCP then SysRecv (ns_fd s) max_len else SysRecvFrom (ns_fd s) max_len);
         before = [sel, SysIsError (ns_fd s), SysIsReady (ns_fd s)]
     in if ready then r = os before recv \<and> tr = before @ [recv]
        else r = 0 \<and> recv \<notin> set tr)"
  using assms
  by (auto simp: NetworkSocket_TryRead_def wait_ready_def NetworkSocket_Read_def getNetworkError_def sys_def
      Let_def)

theorem TryRead_only_when_ready_witness:
  "\<exists>r tr. NetworkSocket_TryRead (\<lambda>_ c. case c of SysSelect _ _ _ _ \<Rightarrow> 0 | SysIsError _ \<Rightarrow> 0 | _ \<Rightarrow> 0)
     (Some \<lparr>ns_type = Network_TCP, ns_fd = 4, ns_port = 0, peer_addr = 0, peer_port = 0\<rparr>) 100 10 [] = Some (r, tr) \<and>
     r = 0 \<and> SysRecv 4 100 \<notin> set tr"
  using TryRead_only_when_ready [of "\<lparr>ns_type = Network_TCP, ns_fd = 4, ns_port = 0, peer_addr = 0, peer_port = 0\<rparr>"
      "\<lambda>_ c. case c of SysSelect _ _ _ _ \<Rightarrow> 0 | SysIsError _ \<Rightarrow> 0 | _ \<Rightarrow> 0" 100 10]
  by (simp add: fd_ok_def FD_SETSIZE_def Let_def)

text \<open>\<open>TryConnect\<close> returns 0 or 1, and 1 only if, among the calls that it made itself, the
  connection request was accepted or reported as in progress, \<open>select\<close> found the descriptor writable
  and not in error, and the socket's pending error was zero.\<close>

theorem TryConnect_one_means_connected:
  assumes "NetworkSocket_TryConnect os (Some s) ip port timeout_ms [] = Some (r, s', tr)"
  shows "(r = 0 \<or> r = 1) \<and> (r = 1 \<longrightarrow> fd_ok (ns_fd s) \<and>
     (\<exists>v. v \<noteq> 0 \<and> (SysIsReady (ns_fd s), v) \<in> set (replies os [] tr)) \<and>
     (SysIsError (ns_fd s), 0) \<in> set (replies os [] tr) \<and>
     ((SysSockError (ns_fd s), 0) \<in> set (replies os [] tr) \<or> (SysErrno, 0) \<in> set (replies os [] tr)) \<and>
     (ns_type s = Network_TCP \<longrightarrow> (\<exists>a. (SysConnect (ns_fd s) a port, 0) \<in> set (replies os [] tr)) \<or>
        (SysErrno, EINPROGRESS) \<in> set (replies os [] tr) \<or> (SysErrno, EWOULDBLOCK) \<in> set (replies os [] tr)))"
  using assms
  by (auto simp: NetworkSocket_TryConnect_def NetworkSocket_Connect_def wait_ready_def getNetworkError_def
      getSocketError_def sys_def Let_def split: if_splits)

theorem TryConnect_one_means_connected_witness:
  "\<exists>s' tr. NetworkSocket_TryConnect (\<lambda>_ c. case c of SysConnect _ _ _ \<Rightarrow> -1 | SysErrno \<Rightarrow> EINPROGRESS
       | SysIsReady _ \<Rightarrow> 1 | _ \<Rightarrow> 0)
     (Some \<lparr>ns_type = Network_TCP, ns_fd = 4, ns_port = 0, peer_addr = 0, peer_port = 0\<rparr>) ''10.0.0.1'' 554 3000 [] =
     Some (1, s', tr) \<and> fd_ok 4"
proof -
  let ?os = "\<lambda>(_ :: syscall list) c. case c of SysConnect _ _ _ \<Rightarrow> -1 | SysErrno \<Rightarrow> EINPROGRESS
       | SysIsReady _ \<Rightarrow> 1 | _ \<Rightarrow> (0 :: int)"
  let ?s = "\<lparr>ns_type = Network_TCP, ns_fd = 4, ns_port = 0, peer_addr = 0, peer_port = 0\<rparr>"
  obtain s' tr where "NetworkSocket_TryConnect ?os (Some ?s) ''10.0.0.1'' 554 3000 [] = Some (1, s', tr)"
    by (simp add: NetworkSocket_TryConnect_def NetworkSocket_Connect_def wait_ready_def getNetworkError_def
      getSocketError_def sys_def Let_def fd_ok_def FD_SETSIZE_def)
  then show ?thesis using TryConnect_one_means_connected [of ?os ?s "''10.0.0.1''" 554 3000 1 s' tr] by auto
qed

end
