(* ===== verification/Threads.thy ===== *)
theory Threads
  imports VC_Prelude
begin

text \<open>
  The thread, semaphore and mutex wrappers of \<open>VirtualCamera/Common/thread/linux\<close>. What they do to the
  pthread objects is recorded: which threads were created and joined, the value of the semaphore,
  whether the mutex is held. A call that would block has no result (\<open>None\<close>); operations on a null
  pointer do nothing.
\<close>

section \<open>Threads\<close>

text \<open>\<open>t_id\<close> is the field \<open>t\<close>, zero when there is no thread to join; the two lists are the history of
  \<open>pthread_create\<close> and \<open>pthread_join\<close> on this object.\<close>

record RTPThread =
  t_id :: int
  attr_live :: bool
  created :: "int list"
  joined :: "int list"

definition Thread_Create :: "bool \<Rightarrow> RTPThread option" where
  "Thread_Create ok_malloc =
     (if ok_malloc then Some \<lparr>t_id = 0, attr_live = False, created = [], joined = []\<rparr> else None)"

text \<open>\<open>pthread_create\<close> is the parameter \<open>(r, tid)\<close>: its result and what it stored as thread id.\<close>

definition Thread_Run :: "int \<times> int \<Rightarrow> RTPThread option \<Rightarrow> int \<times> RTPThread option" where
  "Thread_Run c t =
     (case t of None \<Rightarrow> (0, None)
      | Some th \<Rightarrow>
          if t_id th = 0 then
            (fst c, Some (th\<lparr>attr_live := True, t_id := snd c,
               created := (if fst c = 0 then created th @ [snd c] else created th)\<rparr>))
          else (0, Some th))"

definition Thread_Join :: "RTPThread option \<Rightarrow> RTPThread option" where
  "Thread_Join t =
     (case t of None \<Rightarrow> None
      | Some th \<Rightarrow>
          if t_id th \<noteq> 0 then Some (th\<lparr>joined := joined th @ [t_id th], attr_live := False, t_id := 0\<rparr>)
          else Some th)"

text \<open>The result is the history at the moment the structure is freed.\<close>

definition Thread_Destroy :: "RTPThread option \<Rightarrow> RTPThread option" where
  "Thread_Destroy t = (case t of None \<Rightarrow> None | Some th \<Rightarrow> Thread_Join (Some th))"

datatype thread_op = OpRun int int | OpJoin

fun thread_step :: "thread_op \<Rightarrow> RTPThread option \<Rightarrow> RTPThread option" where
  "thread_step (OpRun r tid) t = snd (Thread_Run (r, tid) t)"
| "thread_step OpJoin t = Thread_Join t"

text \<open>A \<open>pthread_create\<close> that keeps to its interface: a thread id is not zero, and nothing is stored on
  failure.\<close>

fun op_ok :: "thread_op \<Rightarrow> bool" where
  "op_ok (OpRun r tid) \<longleftrightarrow> (if r = 0 then tid \<noteq> 0 else tid = 0)"
| "op_ok OpJoin \<longleftrightarrow> True"

definition thread_inv :: "RTPThread \<Rightarrow> bool" where
  "thread_inv th \<longleftrightarrow> created th = joined th @ (if t_id th = 0 then [] else [t_id th])"

lemma thread_step_inv:
  assumes "thread_inv th" "op_ok c"
  shows "\<exists>th'. thread_step c (Some th) = Some th' \<and> thread_inv th'"
  using assms by (cases c) (auto simp: thread_inv_def Thread_Run_def Thread_Join_def)

lemma thread_steps_inv:
  assumes "thread_inv th" "\<forall>c \<in> set cs. op_ok c"
  shows "\<exists>th'. fold thread_step cs (Some th) = Some th' \<and> thread_inv th'"
  using assms
proof (induction cs arbitrary: th)
  case (Cons c cs)
  obtain th' where "thread_step c (Some th) = Some th'" "thread_inv th'"
    using thread_step_inv [of th c] Cons.prems by auto
  then show ?case using Cons.IH [of th'] Cons.prems by simp
qed simp

section \<open>Semaphores and mutexes\<close>

record Semaphore =
  sem_init :: int
  sem_value :: nat

definition Semaphore_Create :: "bool \<Rightarrow> int \<Rightarrow> int \<Rightarrow> Semaphore option" where
  "Semaphore_Create ok_malloc r_init value =
     (if \<not> ok_malloc then None
      else if r_init \<noteq> 0 then None
      else Some \<lparr>sem_init = 1, sem_value = 0\<rparr>)"

text \<open>Whether \<open>sem_destroy\<close> is called.\<close>

definition Semaphore_Destroy :: "Semaphore option \<Rightarrow> bool" where
  "Semaphore_Destroy s = (case s of None \<Rightarrow> False | Some x \<Rightarrow> sem_init x \<noteq> 0)"

definition Semaphore_Signal :: "Semaphore option \<Rightarrow> Semaphore option" where
  "Semaphore_Signal s = map_option (\<lambda>x. x\<lparr>sem_value := sem_value x + 1\<rparr>) s"

definition Semaphore_Wait :: "Semaphore option \<Rightarrow> Semaphore option option" where
  "Semaphore_Wait s =
     (case s of None \<Rightarrow> Some None
      | Some x \<Rightarrow> if sem_value x = 0 then None else Some (Some (x\<lparr>sem_value := sem_value x - 1\<rparr>)))"

record Mutex =
  locked :: bool

text \<open>\<open>pthread_mutex_init\<close> is applied to the result of \<open>malloc\<close> unchecked.\<close>

definition Mutex_Create :: "bool \<Rightarrow> Mutex option" where
  "Mutex_Create ok_malloc = (if ok_malloc then Some \<lparr>locked = False\<rparr> else None)"

definition Mutex_Destroy :: "Mutex option \<Rightarrow> Mutex option" where
  "Mutex_Destroy m = None"

definition Mutex_Lock :: "Mutex option \<Rightarrow> Mutex option option" where
  "Mutex_Lock m =
     (case m of None \<Rightarrow> Some None | Some x \<Rightarrow> if locked x then None else Some (Some (x\<lparr>locked := True\<rparr>)))"

definition Mutex_Unlock :: "Mutex option \<Rightarrow> Mutex option" where
  "Mutex_Unlock m = map_option (\<lambda>x. x\<lparr>locked := False\<rparr>) m"

text \<open>A history of signals (\<open>True\<close>) and waits (\<open>False\<close>); a wait that would block is not completed.\<close>

fun sem_run :: "bool list \<Rightarrow> Semaphore option \<Rightarrow> nat \<times> Semaphore option" where
  "sem_run [] s = (0, s)"
| "sem_run (True # ops) s = sem_run ops (Semaphore_Signal s)"
| "sem_run (False # ops) s =
     (case Semaphore_Wait s of None \<Rightarrow> sem_run ops s
      | Some s \<Rightarrow> let (n, t) = sem_run ops s in (Suc n, t))"

lemma sem_run_count:
  "sem_run ops (Some x) = (n, t) \<Longrightarrow>
    \<exists>y. t = Some y \<and> sem_value x + length (filter id ops) = n + sem_value y"
  by (induction ops "Some x" arbitrary: x n t rule: sem_run.induct)
    (fastforce simp: Semaphore_Signal_def Semaphore_Wait_def split: option.splits if_splits prod.splits)+

section \<open>Properties\<close>

text \<open>whatever sequence of runs and joins a thread object goes through, every thread that was
  created is joined exactly once, in order, by the time the object is destroyed, and at most one is
  outstanding before.\<close>

theorem threads_joined_once:
  assumes "\<forall>c \<in> set cs. op_ok c"
  shows "\<exists>th end. fold thread_step cs (Thread_Create True) = Some th \<and>
    created th = joined th @ (if t_id th = 0 then [] else [t_id th]) \<and>
    Thread_Destroy (Some th) = Some end \<and> joined end = created end \<and> created end = created th"
proof -
  have "thread_inv (the (Thread_Create True))" by (simp add: thread_inv_def Thread_Create_def)
  then obtain th where th: "fold thread_step cs (Thread_Create True) = Some th" "thread_inv th"
    using thread_steps_inv [OF _ assms, of "the (Thread_Create True)"] by (auto simp: Thread_Create_def)
  then show ?thesis by (auto simp: Thread_Destroy_def Thread_Join_def thread_inv_def)
qed

theorem threads_joined_once_witness:
  "\<exists>th. fold thread_step [OpRun 0 7, OpRun 0 8, OpJoin, OpRun 11 0, OpRun 0 9] (Thread_Create True) = Some th \<and>
    created th = joined th @ [9] \<and> joined th = [7]"
  using threads_joined_once [of "[OpRun 0 7, OpRun 0 8, OpJoin, OpRun 11 0, OpRun 0 9]"]
  by (auto simp: Thread_Create_def Thread_Run_def Thread_Join_def)

text \<open>A semaphore lets exactly as many waits through as there were signals, less its final value;
  the initial value that \<open>Semaphore_Create\<close> is given has no influence, it always starts at zero.\<close>

theorem semaphore_counts_signals:
  "\<exists>n y. sem_run ops (Semaphore_Create True 0 value) = (n, Some y) \<and>
    n + sem_value y = length (filter id ops)"
proof -
  obtain n t where r: "sem_run ops (Some \<lparr>sem_init = 1, sem_value = 0\<rparr>) = (n, t)" by force
  then show ?thesis using sem_run_count [OF r] by (auto simp: Semaphore_Create_def)
qed

end
