(* ===== verification/Media_Graph.thy ===== *)
theory Media_Graph
  imports VC_Prelude
begin

text \<open>
  The media-controller graph of \<open>camera_vir/provider/mediactl\<close>: entities, their pads and the links
  between pads (\<open>mediactl.h\<close>, \<open>mediactl-priv.h\<close>), and the functions of \<open>mediactl.c\<close> that look things up
  in the graph and change link flags.

  Pointers. A pad is the index of its entity with its index in the entity's block of pads, which is
  allocated once. The blocks of entities and of links grow by \<open>realloc\<close>, after which older
  pointers into them may not be used; so a pointer to an entity or a link carries the
  generation of the block it points into, and following one of an older generation is undefined.

  The kernel (\<open>open\<close>, \<open>ioctl\<close>, \<open>readlink\<close>, \<open>stat\<close>, \<open>malloc\<close>) is a parameter. The calls to it that matter
  for link setup are recorded in the ghost field \<open>trace\<close> of the device.
\<close>

section \<open>Constants of the kernel interface\<close>

definition MEDIA_ENT_ID_FLAG_NEXT :: u32 where
  "MEDIA_ENT_ID_FLAG_NEXT = 0x80000000"

definition MEDIA_PAD_FL_SINK :: u32 where
  "MEDIA_PAD_FL_SINK = 1"

definition MEDIA_PAD_FL_SOURCE :: u32 where
  "MEDIA_PAD_FL_SOURCE = 2"

definition MEDIA_LNK_FL_ENABLED :: u32 where
  "MEDIA_LNK_FL_ENABLED = 1"

definition MEDIA_LNK_FL_IMMUTABLE :: u32 where
  "MEDIA_LNK_FL_IMMUTABLE = 2"

definition ENOENT :: int where
  "ENOENT = 2"

definition ENOMEM :: int where
  "ENOMEM = 12"

definition EINVAL :: int where
  "EINVAL = 22"

section \<open>Data\<close>

type_synonym ent_ptr = "nat \<times> nat"
type_synonym pad_ptr = "nat \<times> nat"
type_synonym link_ptr = "nat \<times> nat \<times> nat"

text \<open>\<open>struct media_entity_desc\<close> of the kernel, with the device number of its \<open>v4l\<close> part; \<open>ent_name\<close> is the
  text before the terminator in an array of 32.\<close>

record media_entity_desc =
  ent_id :: u32
  ent_name :: string
  ent_type :: u32
  ent_flags :: u32
  npads :: nat
  nlinks :: nat
  major :: u32
  minor :: u32

record media_pad =
  pad_entity :: "ent_ptr option"
  pad_index :: u32
  pad_flags :: u32

record media_link =
  source :: pad_ptr
  sink :: pad_ptr
  twin :: "link_ptr option"
  lflags :: u32

text \<open>\<open>num_links\<close> is the length of \<open>links\<close>; \<open>max_links\<close> the size of the block they are in.\<close>

record media_entity =
  info :: media_entity_desc
  pads :: "media_pad list"
  links :: "media_link list"
  max_links :: nat
  links_gen :: nat
  devname :: string
  efd :: int

record link_desc =
  ld_source :: "u32 \<times> u32"
  ld_sink :: "u32 \<times> u32"
  ld_flags :: u32

datatype media_call = MOpen | MClose int | MSetup link_desc

text \<open>\<open>entities\<close> is a null pointer in the code exactly while \<open>ents_gen\<close> is 0.\<close>

record media_device =
  fd :: int
  refcount :: int
  devnode :: "string option"
  entities :: "media_entity list"
  ents_gen :: nat
  def_v4l :: "ent_ptr option"
  def_fb :: "ent_ptr option"
  def_alsa :: "ent_ptr option"
  def_dvb :: "ent_ptr option"
  trace :: "media_call list"

text \<open>
  The answers of the kernel, given the calls made so far. \<open>k_open\<close> is a descriptor or \<open>-errno\<close>;
  \<open>k_setup\<close> is 0 or a positive \<open>errno\<close>, with the flags it leaves in the argument; \<open>k_entity\<close> and
  \<open>k_links\<close> are an \<open>errno\<close> or the answer; \<open>k_links\<close> fills arrays for pads (index, flags) and links.
\<close>

record kernel =
  k_open :: "media_call list \<Rightarrow> int"
  k_setup :: "media_call list \<Rightarrow> link_desc \<Rightarrow> int \<times> u32"
  k_info :: "media_call list \<Rightarrow> int"
  k_entity :: "u32 \<Rightarrow> int + media_entity_desc"
  k_links :: "u32 \<Rightarrow> int + ((u32 \<times> u32) list \<times> link_desc list)"
  k_readlink :: "string \<Rightarrow> int + string"
  k_stat :: "string \<Rightarrow> int + (u32 \<times> u32)"
  k_mem :: "nat \<Rightarrow> bool"

section \<open>Following pointers\<close>

definition the_entity :: "media_device \<Rightarrow> ent_ptr \<Rightarrow> media_entity option" where
  "the_entity m p = (if fst p = ents_gen m then c_read (entities m) (int (snd p)) else None)"

definition the_pad :: "media_device \<Rightarrow> pad_ptr \<Rightarrow> media_pad option" where
  "the_pad m p = do { e \<leftarrow> c_read (entities m) (int (fst p)); c_read (pads e) (int (snd p)) }"

definition the_link :: "media_device \<Rightarrow> link_ptr \<Rightarrow> media_link option" where
  "the_link m p = do {
     e \<leftarrow> c_read (entities m) (int (fst p));
     if fst (snd p) = links_gen e then c_read (links e) (int (snd (snd p))) else None }"

text \<open>Writing through a pointer to a link.\<close>

definition upd_link :: "media_device \<Rightarrow> link_ptr \<Rightarrow> (media_link \<Rightarrow> media_link) \<Rightarrow> media_device option" where
  "upd_link m p f = do {
     l \<leftarrow> the_link m p;
     let e = entities m ! fst p;
     Some (m\<lparr>entities := (entities m)[fst p := e\<lparr>links := (links e)[snd (snd p) := f l]\<rparr>]\<rparr>) }"

definition no_flag :: "u32 \<Rightarrow> u32 \<Rightarrow> bool" where
  "no_flag w f \<longleftrightarrow> w AND f = 0"

section \<open>Graph access\<close>

fun remote_loop :: "pad_ptr \<Rightarrow> media_link list \<Rightarrow> pad_ptr option" where
  "remote_loop p [] = None"
| "remote_loop p (link # ls) =
     (if no_flag (lflags link) MEDIA_LNK_FL_ENABLED then remote_loop p ls
      else if sink link = p then Some (source link)
      else remote_loop p ls)"

definition media_entity_remote_source :: "media_device \<Rightarrow> pad_ptr \<Rightarrow> pad_ptr option option" where
  "media_entity_remote_source m p = do {
     pad \<leftarrow> the_pad m p;
     if no_flag (pad_flags pad) MEDIA_PAD_FL_SINK then Some None
     else do {
       ep \<leftarrow> pad_entity pad;
       e \<leftarrow> the_entity m ep;
       Some (remote_loop p (links e)) } }"

text \<open>A character of a string, the terminator past its end.\<close>

definition char_at :: "string \<Rightarrow> nat \<Rightarrow> char" where
  "char_at s i = (if i < length s then s ! i else CHR 0x00)"

text \<open>\<open>strncmp (a, b, n) == 0\<close>.\<close>

fun strncmp_eq :: "string \<Rightarrow> string \<Rightarrow> nat \<Rightarrow> bool" where
  "strncmp_eq a b 0 = True"
| "strncmp_eq a b (Suc n) =
     (char_at a 0 = char_at b 0 \<and> (char_at a 0 = CHR 0x00 \<or> strncmp_eq (tl a) (tl b) n))"

fun by_name_loop :: "string \<Rightarrow> nat \<Rightarrow> media_entity list \<Rightarrow> nat \<Rightarrow> nat option" where
  "by_name_loop nm len [] i = None"
| "by_name_loop nm len (e # es) i =
     (if strncmp_eq (ent_name (info e)) nm len \<and> char_at (ent_name (info e)) len = CHR 0x00 then Some i
      else by_name_loop nm len es (Suc i))"

definition media_get_entity_by_name :: "media_device \<Rightarrow> string \<Rightarrow> nat \<Rightarrow> nat option" where
  "media_get_entity_by_name m nm len = (if len \<ge> 32 then None else by_name_loop nm len (entities m) 0)"

fun by_id_loop :: "bool \<Rightarrow> u32 \<Rightarrow> media_entity list \<Rightarrow> nat \<Rightarrow> nat option" where
  "by_id_loop nxt i [] n = None"
| "by_id_loop nxt i (e # es) n =
     (if (ent_id (info e) = i \<and> \<not> nxt) \<or> (ent_id (info e) > i \<and> nxt) then Some n
      else by_id_loop nxt i es (Suc n))"

definition media_get_entity_by_id :: "media_device \<Rightarrow> u32 \<Rightarrow> nat option" where
  "media_get_entity_by_id m i =
     by_id_loop (\<not> no_flag i MEDIA_ENT_ID_FLAG_NEXT) (i AND NOT MEDIA_ENT_ID_FLAG_NEXT) (entities m) 0"

definition media_get_entities_count :: "media_device \<Rightarrow> nat" where
  "media_get_entities_count m = length (entities m)"

definition media_get_entity :: "media_device \<Rightarrow> nat \<Rightarrow> ent_ptr option" where
  "media_get_entity m index = (if index \<ge> length (entities m) then None else Some (ents_gen m, index))"

definition media_entity_get_pad :: "media_entity \<Rightarrow> nat \<Rightarrow> media_pad option option" where
  "media_entity_get_pad e index =
     (if index \<ge> npads (info e) then Some None
      else map_option Some (c_read (pads e) (int index)))"

definition media_entity_get_links_count :: "media_entity \<Rightarrow> nat" where
  "media_entity_get_links_count e = length (links e)"

definition media_entity_get_link :: "media_entity \<Rightarrow> nat \<Rightarrow> media_link option" where
  "media_entity_get_link e index = (if index \<ge> length (links e) then None else Some (links e ! index))"

definition media_entity_get_devname :: "media_entity option \<Rightarrow> string option" where
  "media_entity_get_devname e =
     (case e of None \<Rightarrow> None
      | Some e \<Rightarrow> if char_at (devname e) 0 \<noteq> CHR 0x00 then Some (devname e) else None)"

definition MEDIA_ENT_T_DEVNODE_V4L :: u32 where
  "MEDIA_ENT_T_DEVNODE_V4L = 0x10001"

definition MEDIA_ENT_T_DEVNODE_FB :: u32 where
  "MEDIA_ENT_T_DEVNODE_FB = 0x10002"

definition MEDIA_ENT_T_DEVNODE_ALSA :: u32 where
  "MEDIA_ENT_T_DEVNODE_ALSA = 0x10003"

definition MEDIA_ENT_T_DEVNODE_DVB :: u32 where
  "MEDIA_ENT_T_DEVNODE_DVB = 0x10004"

definition media_get_default_entity :: "media_device \<Rightarrow> u32 \<Rightarrow> ent_ptr option" where
  "media_get_default_entity m t =
     (if t = MEDIA_ENT_T_DEVNODE_V4L then def_v4l m
      else if t = MEDIA_ENT_T_DEVNODE_FB then def_fb m
      else if t = MEDIA_ENT_T_DEVNODE_ALSA then def_alsa m
      else if t = MEDIA_ENT_T_DEVNODE_DVB then def_dvb m
      else None)"

section \<open>Open and close\<close>

definition media_device_open :: "kernel \<Rightarrow> media_device \<Rightarrow> int \<times> media_device" where
  "media_device_open k m =
     (if fd m \<noteq> -1 then (0, m)
      else let r = k_open k (trace m) in
        if r < 0 then (r, m\<lparr>fd := -1, trace := trace m @ [MOpen]\<rparr>)
        else (0, m\<lparr>fd := r, trace := trace m @ [MOpen]\<rparr>))"

definition media_device_close :: "media_device \<Rightarrow> media_device" where
  "media_device_close m =
     (if fd m \<noteq> -1 then m\<lparr>fd := -1, trace := trace m @ [MClose (fd m)]\<rparr> else m)"

section \<open>Link setup\<close>

text \<open>The test of the loop: the pads are compared by their entity and index.\<close>

definition link_matches :: "media_device \<Rightarrow> pad_ptr \<Rightarrow> pad_ptr \<Rightarrow> media_link \<Rightarrow> bool option" where
  "link_matches m src snk link = do {
     ls \<leftarrow> the_pad m (source link);
     sp \<leftarrow> the_pad m src;
     if pad_entity ls = pad_entity sp \<and> pad_index ls = pad_index sp
     then do {
       lk \<leftarrow> the_pad m (sink link);
       kp \<leftarrow> the_pad m snk;
       Some (pad_entity lk = pad_entity kp \<and> pad_index lk = pad_index kp) }
     else Some False }"

fun find_link :: "media_device \<Rightarrow> pad_ptr \<Rightarrow> pad_ptr \<Rightarrow> media_link list \<Rightarrow> nat \<Rightarrow> nat option option" where
  "find_link m src snk [] i = Some None"
| "find_link m src snk (link # ls) i = do {
     b \<leftarrow> link_matches m src snk link;
     if b then Some (Some i) else find_link m src snk ls (Suc i) }"

definition media_setup_link ::
  "kernel \<Rightarrow> media_device \<Rightarrow> pad_ptr \<Rightarrow> pad_ptr \<Rightarrow> u32 \<Rightarrow> (int \<times> media_device) option" where
  "media_setup_link k m src snk fl =
     (let (ret, m) = media_device_open k m in
      if ret < 0 then Some (ret, media_device_close m)
      else do {
        sp \<leftarrow> the_pad m src;
        sep \<leftarrow> pad_entity sp;
        se \<leftarrow> the_entity m sep;
        found \<leftarrow> find_link m src snk (links se) 0;
        case found of
          None \<Rightarrow> Some (- ENOENT, media_device_close m)
        | Some i \<Rightarrow> do {
            kp \<leftarrow> the_pad m snk;
            kep \<leftarrow> pad_entity kp;
            ke \<leftarrow> the_entity m kep;
            let link = links se ! i;
            let ulink = \<lparr>ld_source = (ent_id (info se), pad_index sp), ld_sink = (ent_id (info ke), pad_index kp),
                         ld_flags = fl OR (lflags link AND MEDIA_LNK_FL_IMMUTABLE)\<rparr>;
            let (err, ufl) = k_setup k (trace m) ulink;
            let m = m\<lparr>trace := trace m @ [MSetup ulink]\<rparr>;
            if err \<noteq> 0 then Some (- err, media_device_close m)
            else do {
              m \<leftarrow> upd_link m (snd sep, links_gen se, i) (\<lambda>l. l\<lparr>lflags := ufl\<rparr>);
              t \<leftarrow> twin link;
              m \<leftarrow> upd_link m t (\<lambda>l. l\<lparr>lflags := ufl\<rparr>);
              Some (0, media_device_close m) } } })"

text \<open>The two loops of \<open>media_reset_links\<close>: \<open>j\<close> runs over the links of entity \<open>i\<close>, as \<open>n\<close> counts what is
  left of it; a result below zero ends both.\<close>

fun reset_entity :: "kernel \<Rightarrow> nat \<Rightarrow> nat \<Rightarrow> nat \<Rightarrow> media_device \<Rightarrow> (int \<times> media_device) option" where
  "reset_entity k i j 0 m = Some (0, m)"
| "reset_entity k i j (Suc n) m = do {
     e \<leftarrow> the_entity m (ents_gen m, i);
     link \<leftarrow> c_read (links e) (int j);
     if \<not> no_flag (lflags link) MEDIA_LNK_FL_IMMUTABLE then reset_entity k i (Suc j) n m
     else do {
       sp \<leftarrow> the_pad m (source link);
       if pad_entity sp \<noteq> Some (ents_gen m, i) then reset_entity k i (Suc j) n m
       else do {
         (ret, m) \<leftarrow> media_setup_link k m (source link) (sink link) (lflags link AND NOT MEDIA_LNK_FL_ENABLED);
         if ret < 0 then Some (ret, m) else reset_entity k i (Suc j) n m } } }"

fun reset_loop :: "kernel \<Rightarrow> nat \<Rightarrow> nat \<Rightarrow> media_device \<Rightarrow> (int \<times> media_device) option" where
  "reset_loop k i 0 m = Some (0, m)"
| "reset_loop k i (Suc n) m = do {
     e \<leftarrow> the_entity m (ents_gen m, i);
     (ret, m) \<leftarrow> reset_entity k i 0 (length (links e)) m;
     if ret < 0 then Some (ret, m) else reset_loop k (Suc i) n m }"

definition media_reset_links :: "kernel \<Rightarrow> media_device \<Rightarrow> (int \<times> media_device) option" where
  "media_reset_links k m = reset_loop k 0 (length (entities m)) m"

section \<open>Well-formed graphs\<close>

text \<open>Link \<open>j\<close> of entity \<open>i\<close>, and the state with that link replaced.\<close>

definition lnk :: "media_device \<Rightarrow> nat \<Rightarrow> nat \<Rightarrow> media_link" where
  "lnk m i j = links (entities m ! i) ! j"

definition set_lnk :: "media_device \<Rightarrow> nat \<Rightarrow> nat \<Rightarrow> media_link \<Rightarrow> media_device" where
  "set_lnk m i j l = m\<lparr>entities := (entities m)[i :=
     (entities m ! i)\<lparr>links := (links (entities m ! i))[j := l]\<rparr>]\<rparr>"

definition has_link :: "media_device \<Rightarrow> nat \<Rightarrow> nat \<Rightarrow> bool" where
  "has_link m i j \<longleftrightarrow> i < length (entities m) \<and> j < length (links (entities m ! i))"

definition pad_ok :: "media_device \<Rightarrow> pad_ptr \<Rightarrow> bool" where
  "pad_ok m p \<longleftrightarrow> fst p < length (entities m) \<and> snd p < length (pads (entities m ! fst p))"

text \<open>Every pad knows its entity and its index, and the number of pads is that of the description.\<close>

definition pads_ok :: "media_device \<Rightarrow> bool" where
  "pads_ok m \<longleftrightarrow> (\<forall>i < length (entities m). length (pads (entities m ! i)) \<le> 65535 \<and>
     npads (info (entities m ! i)) = length (pads (entities m ! i)) \<and>
     (\<forall>j < length (pads (entities m ! i)). pad_entity (pads (entities m ! i) ! j) = Some (ents_gen m, i) \<and>
        pad_index (pads (entities m ! i) ! j) = of_nat j))"

text \<open>A link joins existing pads, is listed by the entity of one of them, and its twin is the copy of
  it that the entity of the other one lists.\<close>

definition link_ok :: "media_device \<Rightarrow> nat \<Rightarrow> nat \<Rightarrow> bool" where
  "link_ok m i j \<longleftrightarrow> pad_ok m (source (lnk m i j)) \<and> pad_ok m (sink (lnk m i j)) \<and>
     (\<exists>i' j'. twin (lnk m i j) = Some (i', links_gen (entities m ! i'), j') \<and> has_link m i' j' \<and> i' \<noteq> i \<and>
        twin (lnk m i' j') = Some (i, links_gen (entities m ! i), j) \<and>
        source (lnk m i' j') = source (lnk m i j) \<and> sink (lnk m i' j') = sink (lnk m i j) \<and>
        {fst (source (lnk m i j)), fst (sink (lnk m i j))} = {i, i'})"

text \<open>The two copies of a link agree on its flags.\<close>

definition flags_ok :: "media_device \<Rightarrow> nat \<Rightarrow> nat \<Rightarrow> bool" where
  "flags_ok m i j \<longleftrightarrow>
     (\<forall>i' g j'. twin (lnk m i j) = Some (i', g, j') \<longrightarrow> lflags (lnk m i' j') = lflags (lnk m i j))"

definition graph_ok :: "media_device \<Rightarrow> bool" where
  "graph_ok m \<longleftrightarrow> pads_ok m \<and> (\<forall>i j. has_link m i j \<longrightarrow> link_ok m i j \<and> flags_ok m i j)"

text \<open>Two states that differ in flags of links and in the trace at most.\<close>

definition same_shape :: "media_device \<Rightarrow> media_device \<Rightarrow> bool" where
  "same_shape m m' \<longleftrightarrow> length (entities m') = length (entities m) \<and> ents_gen m' = ents_gen m \<and>
     (\<forall>i < length (entities m). info (entities m' ! i) = info (entities m ! i) \<and>
        pads (entities m' ! i) = pads (entities m ! i) \<and>
        links_gen (entities m' ! i) = links_gen (entities m ! i) \<and>
        length (links (entities m' ! i)) = length (links (entities m ! i)) \<and>
        (\<forall>j < length (links (entities m ! i)). source (lnk m' i j) = source (lnk m i j) \<and>
           sink (lnk m' i j) = sink (lnk m i j) \<and> twin (lnk m' i j) = twin (lnk m i j)))"

lemma same_shape_refl [simp]: "same_shape m m"
  by (simp add: same_shape_def)

lemma same_shape_trans: "same_shape a b \<Longrightarrow> same_shape b c \<Longrightarrow> same_shape a c"
  by (auto simp: same_shape_def)

lemma same_shape_trace [simp]:
  "same_shape m (m'\<lparr>trace := t\<rparr>) = same_shape m m'" "same_shape m (m'\<lparr>fd := n\<rparr>) = same_shape m m'"
  by (simp_all add: same_shape_def lnk_def)

lemma same_shape_has_link: "same_shape m m' \<Longrightarrow> has_link m' i j = has_link m i j"
  by (auto simp: same_shape_def has_link_def)

lemma same_shape_pad_ok: "same_shape m m' \<Longrightarrow> pad_ok m' p = pad_ok m p"
  by (auto simp: same_shape_def pad_ok_def)

lemma same_shape_lnk:
  assumes "same_shape m m'" "has_link m i j"
  shows "source (lnk m' i j) = source (lnk m i j)" "sink (lnk m' i j) = sink (lnk m i j)"
    "twin (lnk m' i j) = twin (lnk m i j)" "links_gen (entities m' ! i) = links_gen (entities m ! i)"
  using assms by (auto simp: same_shape_def has_link_def)

lemma same_shape_pads_ok: "same_shape m m' \<Longrightarrow> pads_ok m \<Longrightarrow> pads_ok m'"
  by (auto simp: same_shape_def pads_ok_def)

lemma same_shape_link_ok:
  assumes "same_shape m m'" "has_link m i j" "link_ok m i j"
  shows "link_ok m' i j"
proof -
  obtain i' j' where t: "twin (lnk m i j) = Some (i', links_gen (entities m ! i'), j')" "has_link m i' j'"
    and r: "pad_ok m (source (lnk m i j))" "pad_ok m (sink (lnk m i j))" "i' \<noteq> i"
      "twin (lnk m i' j') = Some (i, links_gen (entities m ! i), j)"
      "source (lnk m i' j') = source (lnk m i j)" "sink (lnk m i' j') = sink (lnk m i j)"
      "{fst (source (lnk m i j)), fst (sink (lnk m i j))} = {i, i'}"
    using assms(3) by (auto simp: link_ok_def)
  note a = same_shape_lnk [OF assms(1,2)] and b = same_shape_lnk [OF assms(1) t(2)]
  show ?thesis
    unfolding link_ok_def a b using t r b
    by (intro conjI exI [of _ i'] exI [of _ j'])
      (simp_all add: a b same_shape_pad_ok [OF assms(1)] same_shape_has_link [OF assms(1)])
qed

lemma graph_ok_pads: "graph_ok m \<Longrightarrow> pads_ok m"
  by (simp add: graph_ok_def)

lemma graph_ok_shape:
  "graph_ok m \<Longrightarrow> same_shape m m' \<Longrightarrow> (\<And>i j. has_link m i j \<Longrightarrow> flags_ok m' i j) \<Longrightarrow> graph_ok m'"
  by (auto simp: graph_ok_def same_shape_has_link intro: same_shape_pads_ok same_shape_link_ok)

section \<open>Replacing a link\<close>

lemma set_lnk_simps [simp]:
  "length (entities (set_lnk m i j l)) = length (entities m)" "ents_gen (set_lnk m i j l) = ents_gen m"
  "fd (set_lnk m i j l) = fd m" "trace (set_lnk m i j l) = trace m"
  by (simp_all add: set_lnk_def)

lemma lnk_set_lnk: "has_link m i j \<Longrightarrow> lnk (set_lnk m i j l) a b = (if a = i \<and> b = j then l else lnk m a b)"
  by (auto simp: has_link_def lnk_def set_lnk_def nth_list_update)

lemma set_lnk_entity:
  "has_link m i j \<Longrightarrow> a < length (entities m) \<Longrightarrow> entities (set_lnk m i j l) ! a =
    (if a = i then (entities m ! i)\<lparr>links := (links (entities m ! i))[j := l]\<rparr> else entities m ! a)"
  by (auto simp: set_lnk_def has_link_def)

lemma same_shape_set_lnk:
  assumes "has_link m i j" "source l = source (lnk m i j)" "sink l = sink (lnk m i j)" "twin l = twin (lnk m i j)"
  shows "same_shape m (set_lnk m i j l)"
  using assms by (auto simp: same_shape_def set_lnk_entity lnk_set_lnk)

lemma the_link_ok: "has_link m i j \<Longrightarrow> the_link m (i, links_gen (entities m ! i), j) = Some (lnk m i j)"
  by (simp add: the_link_def has_link_def lnk_def)

lemma upd_link_ok:
  "has_link m i j \<Longrightarrow> upd_link m (i, links_gen (entities m ! i), j) f = Some (set_lnk m i j (f (lnk m i j)))"
  by (simp add: upd_link_def the_link_ok set_lnk_def lnk_def Let_def)

text \<open>Both copies of link \<open>j\<close> of entity \<open>i\<close> given the flags \<open>fl\<close>.\<close>

definition relink :: "media_device \<Rightarrow> nat \<Rightarrow> nat \<Rightarrow> u32 \<Rightarrow> media_device" where
  "relink m i j fl =
     (let m1 = set_lnk m i j ((lnk m i j)\<lparr>lflags := fl\<rparr>)
      in case twin (lnk m i j) of None \<Rightarrow> m1
         | Some (i', g, j') \<Rightarrow> set_lnk m1 i' j' ((lnk m1 i' j')\<lparr>lflags := fl\<rparr>))"

lemma relink_fields [simp]:
  "ents_gen (relink m i j fl) = ents_gen m" "fd (relink m i j fl) = fd m" "trace (relink m i j fl) = trace m"
  by (simp_all add: relink_def Let_def split: option.splits)

lemma relink_spec:
  assumes "has_link m i j" "link_ok m i j"
  shows "same_shape m (relink m i j fl)"
    "has_link m a b \<Longrightarrow> lflags (lnk (relink m i j fl) a b) =
       (if (a, b) = (i, j) \<or> twin (lnk m i j) = Some (a, links_gen (entities m ! a), b) then fl else lflags (lnk m a b))"
proof -
  obtain i' j' where t: "twin (lnk m i j) = Some (i', links_gen (entities m ! i'), j')" "has_link m i' j'" "i' \<noteq> i"
    using assms(2) by (auto simp: link_ok_def)
  let ?m = "set_lnk m i j ((lnk m i j)\<lparr>lflags := fl\<rparr>)"
  have s: "same_shape m ?m" by (rule same_shape_set_lnk [OF assms(1)]) simp_all
  have h: "has_link ?m i' j'" by (simp add: same_shape_has_link [OF s] t)
  have r: "relink m i j fl = set_lnk ?m i' j' ((lnk ?m i' j')\<lparr>lflags := fl\<rparr>)" by (simp add: relink_def t(1) Let_def)
  have "same_shape ?m (relink m i j fl)" unfolding r by (rule same_shape_set_lnk [OF h]) simp_all
  then show "same_shape m (relink m i j fl)" using s same_shape_trans by blast
  show "lflags (lnk (relink m i j fl) a b) =
       (if (a, b) = (i, j) \<or> twin (lnk m i j) = Some (a, links_gen (entities m ! a), b) then fl else lflags (lnk m a b))"
    if "has_link m a b"
    unfolding r using t by (auto simp: lnk_set_lnk [OF h] lnk_set_lnk [OF assms(1)])
qed


text \<open>The twin of a link, as a pair of indices.\<close>

definition twin_of :: "media_device \<Rightarrow> nat \<times> nat \<Rightarrow> nat \<times> nat" where
  "twin_of m p = (case twin (lnk m (fst p) (snd p)) of None \<Rightarrow> p | Some (i', g, j') \<Rightarrow> (i', j'))"

lemma twin_of_ok:
  assumes "graph_ok m" "has_link m i j"
  obtains i' j' where "twin_of m (i, j) = (i', j')" "has_link m i' j'" "i' \<noteq> i"
    "twin (lnk m i j) = Some (i', links_gen (entities m ! i'), j')" "twin_of m (i', j') = (i, j)"
    "source (lnk m i' j') = source (lnk m i j)" "sink (lnk m i' j') = sink (lnk m i j)"
    "lflags (lnk m i' j') = lflags (lnk m i j)"
    "{fst (source (lnk m i j)), fst (sink (lnk m i j))} = {i, i'}"
proof -
  have l: "link_ok m i j" and f: "flags_ok m i j" using assms by (auto simp: graph_ok_def)
  from l obtain i' j' where t: "twin (lnk m i j) = Some (i', links_gen (entities m ! i'), j')" "has_link m i' j'"
    "i' \<noteq> i" "twin (lnk m i' j') = Some (i, links_gen (entities m ! i), j)"
    "source (lnk m i' j') = source (lnk m i j)" "sink (lnk m i' j') = sink (lnk m i j)"
    "{fst (source (lnk m i j)), fst (sink (lnk m i j))} = {i, i'}"
    by (auto simp: link_ok_def)
  with f show ?thesis by (intro that [of i' j']) (auto simp: twin_of_def flags_ok_def)
qed

lemma twin_of_iff:
  "graph_ok m \<Longrightarrow> has_link m i j \<Longrightarrow>
    twin (lnk m i j) = Some (a, links_gen (entities m ! a), b) \<longleftrightarrow> (a, b) = twin_of m (i, j)"
  by (erule (1) twin_of_ok) auto

lemma twin_of_twin:
  assumes "graph_ok m" "has_link m i j"
  shows "twin_of m (twin_of m (i, j)) = (i, j)"
  by (rule twin_of_ok [OF assms]) simp

lemma relink_ok:
  assumes "graph_ok m" "has_link m i j"
  shows "graph_ok (relink m i j fl)"
    "has_link m a b \<Longrightarrow> lflags (lnk (relink m i j fl) a b) =
       (if (a, b) = (i, j) \<or> (a, b) = twin_of m (i, j) then fl else lflags (lnk m a b))"
proof -
  have l: "link_ok m i j" using assms by (simp add: graph_ok_def)
  note s = relink_spec(1) [OF assms(2) l, of fl]
  have fl: "lflags (lnk (relink m i j fl) a b) =
       (if (a, b) = (i, j) \<or> (a, b) = twin_of m (i, j) then fl else lflags (lnk m a b))" if "has_link m a b" for a b
    using relink_spec(2) [OF assms(2) l that, of fl] by (simp add: twin_of_iff [OF assms])
  then show "lflags (lnk (relink m i j fl) a b) =
       (if (a, b) = (i, j) \<or> (a, b) = twin_of m (i, j) then fl else lflags (lnk m a b))" if "has_link m a b"
    using that by blast
  show "graph_ok (relink m i j fl)"
  proof (rule graph_ok_shape [OF assms(1) s])
    fix a b assume h: "has_link m a b"
    obtain a' b' where t: "twin_of m (a, b) = (a', b')" "has_link m a' b'"
      "twin (lnk m a b) = Some (a', links_gen (entities m ! a'), b')" "twin_of m (a', b') = (a, b)"
      "lflags (lnk m a' b') = lflags (lnk m a b)"
      by (rule twin_of_ok [OF assms(1) h]) blast
    have tt: "twin_of m (twin_of m (i, j)) = (i, j)" by (rule twin_of_twin [OF assms])
    have "(a', b') = (i, j) \<or> (a', b') = twin_of m (i, j) \<longleftrightarrow> (a, b) = (i, j) \<or> (a, b) = twin_of m (i, j)"
      using t(1,4) tt by metis
    then show "flags_ok (relink m i j fl) a b"
      using fl [OF h] fl [OF t(2)] t(3,5) same_shape_lnk(3) [OF s h] by (simp add: flags_ok_def)
  qed
qed

section \<open>Setting up a link\<close>

text \<open>The first link between two pads among those an entity lists.\<close>

fun first_link :: "pad_ptr \<Rightarrow> pad_ptr \<Rightarrow> media_link list \<Rightarrow> nat \<Rightarrow> nat option" where
  "first_link src snk [] i = None"
| "first_link src snk (l # ls) i = (if source l = src \<and> sink l = snk then Some i else first_link src snk ls (Suc i))"

lemma first_link_Some:
  "first_link src snk ls n = Some i \<Longrightarrow>
    n \<le> i \<and> i < n + length ls \<and> source (ls ! (i - n)) = src \<and> sink (ls ! (i - n)) = snk"
proof (induction ls arbitrary: n)
  case (Cons l ls)
  show ?case
  proof (cases "source l = src \<and> sink l = snk")
    case True
    then show ?thesis using Cons.prems by auto
  next
    case False
    then have "first_link src snk ls (Suc n) = Some i" using Cons.prems by (auto split: if_splits)
    from Cons.IH [OF this] show ?thesis by (auto simp: nth_Cons' Suc_diff_Suc)
  qed
qed simp

lemma first_link_None:
  "first_link src snk ls n = None \<longleftrightarrow> (\<forall>l \<in> set ls. \<not> (source l = src \<and> sink l = snk))"
  by (induction ls arbitrary: n) auto

lemma the_pad_ok:
  assumes "pads_ok m" "pad_ok m p"
  shows "\<exists>pd. the_pad m p = Some pd \<and> pad_entity pd = Some (ents_gen m, fst p) \<and> pad_index pd = of_nat (snd p)"
  using assms by (auto simp: pads_ok_def pad_ok_def the_pad_def)

lemma pad_word_eq:
  assumes "pads_ok m" "pad_ok m p" "pad_ok m q" "fst p = fst q"
  shows "(of_nat (snd p) :: u32) = of_nat (snd q) \<longleftrightarrow> snd p = snd q"
proof -
  have "snd p < 2 ^ 32" "snd q < 2 ^ 32" using assms by (auto simp: pads_ok_def pad_ok_def)
  then show ?thesis by (auto simp: word_of_nat_eq_iff take_bit_nat_eq_self)
qed

lemma link_matches_ok:
  assumes "pads_ok m" "pad_ok m src" "pad_ok m snk" "pad_ok m (source l)" "pad_ok m (sink l)"
  shows "link_matches m src snk l = Some (source l = src \<and> sink l = snk)"
proof -
  obtain a b c d where p: "the_pad m src = Some a" "pad_entity a = Some (ents_gen m, fst src)" "pad_index a = of_nat (snd src)"
    "the_pad m snk = Some b" "pad_entity b = Some (ents_gen m, fst snk)" "pad_index b = of_nat (snd snk)"
    "the_pad m (source l) = Some c" "pad_entity c = Some (ents_gen m, fst (source l))" "pad_index c = of_nat (snd (source l))"
    "the_pad m (sink l) = Some d" "pad_entity d = Some (ents_gen m, fst (sink l))" "pad_index d = of_nat (snd (sink l))"
    using the_pad_ok [OF assms(1)] assms(2-5) by metis
  show ?thesis
    using pad_word_eq [OF assms(1) assms(4,2)] pad_word_eq [OF assms(1) assms(5,3)]
    by (auto simp: link_matches_def p prod_eq_iff)
qed

lemma find_link_ok:
  assumes "pads_ok m" "pad_ok m src" "pad_ok m snk" "\<forall>l \<in> set ls. pad_ok m (source l) \<and> pad_ok m (sink l)"
  shows "find_link m src snk ls n = Some (first_link src snk ls n)"
  using assms(4) by (induction ls arbitrary: n) (simp_all add: link_matches_ok [OF assms(1-3)])

lemma graph_ok_links:
  assumes "graph_ok m" "i < length (entities m)" "l \<in> set (links (entities m ! i))"
  shows "pad_ok m (source l) \<and> pad_ok m (sink l)"
proof -
  obtain j where "j < length (links (entities m ! i))" "l = lnk m i j"
    using assms(3) by (auto simp: in_set_conv_nth lnk_def)
  then show ?thesis using assms(1,2) by (auto simp: graph_ok_def has_link_def link_ok_def)
qed


text \<open>The descriptor and the trace are not part of the graph.\<close>

lemma frame_simps [simp]:
  "lnk (m\<lparr>fd := n\<rparr>) = lnk m" "lnk (m\<lparr>trace := t\<rparr>) = lnk m"
  "has_link (m\<lparr>fd := n\<rparr>) = has_link m" "has_link (m\<lparr>trace := t\<rparr>) = has_link m"
  "pad_ok (m\<lparr>fd := n\<rparr>) = pad_ok m" "pad_ok (m\<lparr>trace := t\<rparr>) = pad_ok m"
  "pads_ok (m\<lparr>fd := n\<rparr>) = pads_ok m" "pads_ok (m\<lparr>trace := t\<rparr>) = pads_ok m"
  by (auto simp: fun_eq_iff lnk_def has_link_def pad_ok_def pads_ok_def)

lemma frame_graph_ok [simp]:
  "graph_ok (m\<lparr>fd := n\<rparr>) = graph_ok m" "graph_ok (m\<lparr>trace := t\<rparr>) = graph_ok m"
  by (simp_all add: graph_ok_def link_ok_def flags_ok_def)

lemma frame_set_lnk:
  "set_lnk (m\<lparr>fd := n\<rparr>) i j l = (set_lnk m i j l)\<lparr>fd := n\<rparr>"
  "set_lnk (m\<lparr>trace := t\<rparr>) i j l = (set_lnk m i j l)\<lparr>trace := t\<rparr>"
  by (simp_all add: set_lnk_def)

lemma frame_relink:
  "relink (m\<lparr>fd := n\<rparr>) i j fl = (relink m i j fl)\<lparr>fd := n\<rparr>"
  "relink (m\<lparr>trace := t\<rparr>) i j fl = (relink m i j fl)\<lparr>trace := t\<rparr>"
  by (simp_all add: relink_def frame_set_lnk Let_def split: option.splits)

lemma relink_steps:
  assumes "graph_ok m" "has_link m i j"
  shows "\<exists>m1 t. upd_link m (i, links_gen (entities m ! i), j) (\<lambda>l. l\<lparr>lflags := fl\<rparr>) = Some m1 \<and>
    twin (lnk m i j) = Some t \<and> upd_link m1 t (\<lambda>l. l\<lparr>lflags := fl\<rparr>) = Some (relink m i j fl)"
proof -
  obtain i' j' where t: "has_link m i' j'" "twin (lnk m i j) = Some (i', links_gen (entities m ! i'), j')"
    by (rule twin_of_ok [OF assms]) blast
  let ?m = "set_lnk m i j ((lnk m i j)\<lparr>lflags := fl\<rparr>)"
  have s: "same_shape m ?m" by (rule same_shape_set_lnk [OF assms(2)]) simp_all
  have h: "has_link ?m i' j'" by (simp add: same_shape_has_link [OF s] t)
  have g: "links_gen (entities ?m ! i') = links_gen (entities m ! i')"
    by (rule same_shape_lnk(4) [OF s t(1)])
  show ?thesis
    using upd_link_ok [OF h, of "\<lambda>l. l\<lparr>lflags := fl\<rparr>"]
    by (simp add: upd_link_ok [OF assms(2)] t g relink_def Let_def)
qed

definition setup_desc :: "media_device \<Rightarrow> pad_ptr \<Rightarrow> pad_ptr \<Rightarrow> u32 \<Rightarrow> nat \<Rightarrow> link_desc" where
  "setup_desc m src snk fl j =
     \<lparr>ld_source = (ent_id (info (entities m ! fst src)), of_nat (snd src)),
      ld_sink = (ent_id (info (entities m ! fst snk)), of_nat (snd snk)),
      ld_flags = fl OR (lflags (lnk m (fst src) j) AND MEDIA_LNK_FL_IMMUTABLE)\<rparr>"

text \<open>What \<open>media_setup_link\<close> has to do, stated on the graph.\<close>

definition setup_spec ::
  "kernel \<Rightarrow> media_device \<Rightarrow> pad_ptr \<Rightarrow> pad_ptr \<Rightarrow> u32 \<Rightarrow> int \<times> media_device" where
  "setup_spec k m src snk fl =
     (let n = k_open k (trace m) in
      if n < 0 then (n, m\<lparr>trace := trace m @ [MOpen]\<rparr>)
      else case first_link src snk (links (entities m ! fst src)) 0 of
        None \<Rightarrow> (- ENOENT, m\<lparr>trace := trace m @ [MOpen, MClose n]\<rparr>)
      | Some j \<Rightarrow>
          let u = setup_desc m src snk fl j;
              r = k_setup k (trace m @ [MOpen]) u;
              t = trace m @ [MOpen, MSetup u, MClose n]
          in if fst r \<noteq> 0 then (- fst r, m\<lparr>trace := t\<rparr>)
             else (0, (relink m (fst src) j (snd r))\<lparr>trace := t\<rparr>))"


lemma setup_link_eq:
  assumes "graph_ok m" "pad_ok m src" "pad_ok m snk" "fd m = -1"
  shows "media_setup_link k m src snk fl = Some (setup_spec k m src snk fl)"
proof (cases "k_open k (trace m) < 0")
  case True
  have "m\<lparr>fd := -1, trace := t\<rparr> = m\<lparr>trace := t\<rparr>" for t using assms(4) by simp
  then show ?thesis
    using True assms(4) by (simp add: media_setup_link_def media_device_open_def media_device_close_def setup_spec_def)
next
  case False
  let ?n = "k_open k (trace m)" and ?i = "fst src"
  let ?m = "m\<lparr>fd := ?n, trace := trace m @ [MOpen]\<rparr>"
  have op: "media_device_open k m = (0, ?m)" using False assms(4) by (simp add: media_device_open_def)
  have cl: "media_device_close (m'\<lparr>fd := ?n, trace := t\<rparr>) = m'\<lparr>trace := t @ [MClose ?n]\<rparr>" if "fd m' = -1" for m' t
    using False that by (simp add: media_device_close_def)
  have g: "graph_ok ?m" "pads_ok ?m" using assms(1) by (simp_all add: graph_ok_pads)
  have p: "pad_ok ?m src" "pad_ok ?m snk" using assms(2,3) by simp_all
  obtain sp where sp: "the_pad ?m src = Some sp" "pad_entity sp = Some (ents_gen m, ?i)" "pad_index sp = of_nat (snd src)"
    using the_pad_ok [OF g(2) p(1)] by auto
  obtain kp where kp: "the_pad ?m snk = Some kp" "pad_entity kp = Some (ents_gen m, fst snk)" "pad_index kp = of_nat (snd snk)"
    using the_pad_ok [OF g(2) p(2)] by auto
  have e: "the_entity ?m (ents_gen m, ?i) = Some (entities m ! ?i)" "the_entity ?m (ents_gen m, fst snk) = Some (entities m ! fst snk)"
    using assms(2,3) by (simp_all add: the_entity_def pad_ok_def)
  have f: "find_link ?m src snk (links (entities m ! ?i)) 0 = Some (first_link src snk (links (entities m ! ?i)) 0)"
    by (rule find_link_ok [OF g(2) p]) (use graph_ok_links [OF g(1)] assms(2) in \<open>auto simp: pad_ok_def\<close>)
  show ?thesis
  proof (cases "first_link src snk (links (entities m ! ?i)) 0")
    case None
    then show ?thesis using False assms(4)
      by (simp add: media_setup_link_def op sp e f setup_spec_def cl Let_def)
  next
    case (Some j)
    have h: "has_link m ?i j" using first_link_Some [OF Some] assms(2) by (simp add: has_link_def pad_ok_def)
    let ?u = "setup_desc m src snk fl j"
    let ?m2 = "m\<lparr>fd := ?n, trace := trace m @ [MOpen, MSetup ?u]\<rparr>"
    have g2: "graph_ok ?m2" "has_link ?m2 ?i j" using assms(1) h by simp_all
    obtain m1 t where st: "upd_link ?m2 (?i, links_gen (entities ?m2 ! ?i), j) (\<lambda>l. l\<lparr>lflags := snd (k_setup k (trace m @ [MOpen]) ?u)\<rparr>) = Some m1"
      "twin (lnk ?m2 ?i j) = Some t"
      "upd_link m1 t (\<lambda>l. l\<lparr>lflags := snd (k_setup k (trace m @ [MOpen]) ?u)\<rparr>) = Some (relink ?m2 ?i j (snd (k_setup k (trace m @ [MOpen]) ?u)))"
      using relink_steps [OF g2, of "snd (k_setup k (trace m @ [MOpen]) ?u)"] by blast
    have u: "\<lparr>ld_source = (ent_id (info (entities m ! ?i)), of_nat (snd src)),
        ld_sink = (ent_id (info (entities m ! fst snk)), of_nat (snd snk)),
        ld_flags = fl OR (lflags (links (entities m ! ?i) ! j) AND MEDIA_LNK_FL_IMMUTABLE)\<rparr> = ?u"
      by (simp add: setup_desc_def lnk_def)
    have tw: "twin (links (entities m ! ?i) ! j) = Some t" using st(2) by (simp add: lnk_def)
    show ?thesis using False assms(4) st(1,3) Some
      by (simp add: media_setup_link_def op sp kp e f setup_spec_def cl Let_def u tw split_def frame_relink)
  qed
qed


lemma setup_spec_ok:
  assumes "graph_ok m" "pad_ok m src" "fd m = -1" "setup_spec k m src snk fl = (r, m')"
  shows "graph_ok m' \<and> same_shape m m' \<and> fd m' = -1"
proof -
  have i: "fst src < length (entities m)" using assms(2) by (simp add: pad_ok_def)
  have h: "has_link m (fst src) j" if "first_link src snk (links (entities m ! fst src)) 0 = Some j" for j
    using first_link_Some [OF that] i by (simp add: has_link_def)
  have lo: "link_ok m (fst src) j" if "has_link m (fst src) j" for j using that assms(1) by (simp add: graph_ok_def)
  show ?thesis
    using assms relink_ok(1) [OF assms(1) h] relink_spec(1) [OF h lo [OF h]]
    by (auto simp: setup_spec_def Let_def split: if_splits option.splits)
qed

section \<open>Resetting the links\<close>

text \<open>No entity lists two links between the same pads.\<close>

definition links_distinct :: "media_device \<Rightarrow> bool" where
  "links_distinct m \<longleftrightarrow> (\<forall>i j j'. has_link m i j \<and> has_link m i j' \<and> source (lnk m i j) = source (lnk m i j') \<and>
     sink (lnk m i j) = sink (lnk m i j') \<longrightarrow> j = j')"

lemma same_shape_distinct:
  assumes "same_shape m m'" "links_distinct m"
  shows "links_distinct m'"
  unfolding links_distinct_def
proof (intro allI impI)
  fix i j j'
  assume a: "has_link m' i j \<and> has_link m' i j' \<and> source (lnk m' i j) = source (lnk m' i j') \<and>
     sink (lnk m' i j) = sink (lnk m' i j')"
  then have h: "has_link m i j" "has_link m i j'" by (simp_all add: same_shape_has_link [OF assms(1)])
  show "j = j'" using a h assms(2) same_shape_lnk [OF assms(1) h(1)] same_shape_lnk [OF assms(1) h(2)]
    unfolding links_distinct_def by metis
qed

lemma first_link_distinct:
  assumes "links_distinct m" "has_link m i j"
  shows "first_link (source (lnk m i j)) (sink (lnk m i j)) (links (entities m ! i)) 0 = Some j"
proof (cases "first_link (source (lnk m i j)) (sink (lnk m i j)) (links (entities m ! i)) 0")
  case None
  then show ?thesis using assms(2) unfolding first_link_None by (auto simp: has_link_def lnk_def)
next
  case (Some j')
  have "has_link m i j'" "source (lnk m i j') = source (lnk m i j)" "sink (lnk m i j') = sink (lnk m i j)"
    using first_link_Some [OF Some] assms(2) by (auto simp: has_link_def lnk_def)
  then have "j' = j" using assms unfolding links_distinct_def by metis
  then show ?thesis using Some by simp
qed

text \<open>A kernel that accepts every request and leaves the flags of the request as they are.\<close>

definition kernel_accepts :: "kernel \<Rightarrow> bool" where
  "kernel_accepts k \<longleftrightarrow> (\<forall>t. 0 \<le> k_open k t) \<and> (\<forall>t u. k_setup k t u = (0, ld_flags u))"

text \<open>The copy of a link that the entity of its source lists.\<close>

definition outgoing :: "media_device \<Rightarrow> nat \<times> nat \<Rightarrow> nat \<times> nat" where
  "outgoing m p = (if fst (source (lnk m (fst p) (snd p))) = fst p then p else twin_of m p)"

text \<open>The state \<open>m\<close> reached from \<open>m0\<close> when the links of \<open>P\<close>, given by their outgoing copies, are reset.\<close>

definition reset_upto :: "media_device \<Rightarrow> (nat \<times> nat \<Rightarrow> bool) \<Rightarrow> media_device \<Rightarrow> bool" where
  "reset_upto m0 P m \<longleftrightarrow> graph_ok m \<and> same_shape m0 m \<and> fd m = -1 \<and>
     (\<forall>a b. has_link m0 a b \<longrightarrow> lflags (lnk m a b) =
        (if P (outgoing m0 (a, b)) \<and> no_flag (lflags (lnk m0 a b)) MEDIA_LNK_FL_IMMUTABLE
         then lflags (lnk m0 a b) AND NOT MEDIA_LNK_FL_ENABLED else lflags (lnk m0 a b)))"

lemma same_shape_twin_of: "same_shape m m' \<Longrightarrow> has_link m a b \<Longrightarrow> twin_of m' (a, b) = twin_of m (a, b)"
  by (simp add: twin_of_def same_shape_lnk)

lemma twin_of_inj:
  assumes "graph_ok m" "has_link m i j" "has_link m a b"
  shows "twin_of m (a, b) = twin_of m (i, j) \<longleftrightarrow> (a, b) = (i, j)"
  using twin_of_twin [OF assms(1,2)] twin_of_twin [OF assms(1,3)] by metis

lemma outgoing_iff:
  assumes "graph_ok m" "has_link m i j" "fst (source (lnk m i j)) = i" "has_link m a b"
  shows "outgoing m (a, b) = (i, j) \<longleftrightarrow> (a, b) = (i, j) \<or> (a, b) = twin_of m (i, j)"
proof -
  obtain i' j' where t: "twin_of m (i, j) = (i', j')" "i' \<noteq> i" "has_link m i' j'" "twin_of m (i', j') = (i, j)"
    "source (lnk m i' j') = source (lnk m i j)"
    by (rule twin_of_ok [OF assms(1,2)]) blast
  obtain a' b' where u: "twin_of m (a, b) = (a', b')" "a' \<noteq> a" "has_link m a' b'" "twin_of m (a', b') = (a, b)"
    "source (lnk m a' b') = source (lnk m a b)" 
    by (rule twin_of_ok [OF assms(1,4)]) blast
  show ?thesis
    using t u assms(3) by (auto simp: outgoing_def)
qed

lemma outgoing_own:
  assumes "graph_ok m" "has_link m a b"
  obtains c d where "outgoing m (a, b) = (c, d)" "has_link m c d" "fst (source (lnk m c d)) = c"
    "lflags (lnk m c d) = lflags (lnk m a b)"
proof (cases "fst (source (lnk m a b)) = a")
  case True
  then show ?thesis using assms(2) that [of a b] by (simp add: outgoing_def)
next
  case False
  obtain i' j' where t: "twin_of m (a, b) = (i', j')" "has_link m i' j'" "source (lnk m i' j') = source (lnk m a b)"
    "lflags (lnk m i' j') = lflags (lnk m a b)" "{fst (source (lnk m a b)), fst (sink (lnk m a b))} = {a, i'}"
    by (rule twin_of_ok [OF assms]) blast
  then have "fst (source (lnk m a b)) = i'" using False by auto
  then show ?thesis using t False that [of i' j'] by (simp add: outgoing_def)
qed

lemma reset_upto_cong:
  assumes "reset_upto m0 P m" "graph_ok m0"
    "\<And>c d. has_link m0 c d \<Longrightarrow> fst (source (lnk m0 c d)) = c \<Longrightarrow> no_flag (lflags (lnk m0 c d)) MEDIA_LNK_FL_IMMUTABLE \<Longrightarrow>
      P (c, d) = Q (c, d)"
  shows "reset_upto m0 Q m"
  unfolding reset_upto_def
proof (intro conjI allI impI)
  fix a b assume h: "has_link m0 a b"
  obtain c d where o: "outgoing m0 (a, b) = (c, d)" "has_link m0 c d" "fst (source (lnk m0 c d)) = c"
    "lflags (lnk m0 c d) = lflags (lnk m0 a b)"
    by (rule outgoing_own [OF assms(2) h])
  show "lflags (lnk m a b) =
        (if Q (outgoing m0 (a, b)) \<and> no_flag (lflags (lnk m0 a b)) MEDIA_LNK_FL_IMMUTABLE
         then lflags (lnk m0 a b) AND NOT MEDIA_LNK_FL_ENABLED else lflags (lnk m0 a b))"
    using assms(1) h o(1) assms(3) [OF o(2,3)] o(4) unfolding reset_upto_def by auto
qed (use assms(1) in \<open>auto simp: reset_upto_def\<close>)

lemma reset_step:
  assumes "graph_ok m0" "links_distinct m0" "kernel_accepts k" "reset_upto m0 P m" "has_link m0 i j"
    "fst (source (lnk m0 i j)) = i" "no_flag (lflags (lnk m0 i j)) MEDIA_LNK_FL_IMMUTABLE" "\<not> P (i, j)"
  shows "\<exists>m'. media_setup_link k m (source (lnk m i j)) (sink (lnk m i j))
      (lflags (lnk m i j) AND NOT MEDIA_LNK_FL_ENABLED) = Some (0, m') \<and> reset_upto m0 (\<lambda>p. P p \<or> p = (i, j)) m'"
proof -
  have g: "graph_ok m" and s: "same_shape m0 m" and c: "fd m = -1" using assms(4) by (auto simp: reset_upto_def)
  have h: "has_link m i j" using assms(5) by (simp add: same_shape_has_link [OF s])
  note l = same_shape_lnk [OF s assms(5)]
  have "outgoing m0 (i, j) = (i, j)" using assms(6) by (simp add: outgoing_def)
  then have f: "lflags (lnk m i j) = lflags (lnk m0 i j)" using assms(4,5,8) by (auto simp: reset_upto_def)
  let ?src = "source (lnk m i j)" and ?snk = "sink (lnk m i j)" and ?fl = "lflags (lnk m i j) AND NOT MEDIA_LNK_FL_ENABLED"
  have i: "fst ?src = i" using assms(6) l by simp
  have fi: "first_link ?src ?snk (links (entities m ! i)) 0 = Some j"
    by (rule first_link_distinct [OF same_shape_distinct [OF s assms(2)] h])
  have lo: "link_ok m i j" using g h by (simp add: graph_ok_def)
  then have p: "pad_ok m ?src" "pad_ok m ?snk" by (auto simp: link_ok_def)
  have fl: "ld_flags (setup_desc m ?src ?snk ?fl j) = ?fl"
    using assms(7) f by (simp add: setup_desc_def i no_flag_def)
  obtain t where e: "media_setup_link k m ?src ?snk ?fl = Some (0, (relink m i j ?fl)\<lparr>trace := t\<rparr>)"
    using setup_link_eq [OF g p c, of k ?fl] assms(3)
    by (simp add: setup_spec_def i fi kernel_accepts_def fl not_less Let_def)
  have "reset_upto m0 (\<lambda>p. P p \<or> p = (i, j)) ((relink m i j ?fl)\<lparr>trace := t\<rparr>)"
    unfolding reset_upto_def
  proof (intro conjI allI impI)
    show "graph_ok ((relink m i j ?fl)\<lparr>trace := t\<rparr>)" using relink_ok(1) [OF g h] by simp
    show "same_shape m0 ((relink m i j ?fl)\<lparr>trace := t\<rparr>)"
      using same_shape_trans [OF s relink_spec(1) [OF h lo]] by simp
    show "fd ((relink m i j ?fl)\<lparr>trace := t\<rparr>) = -1" using c by simp
    fix a b assume ab: "has_link m0 a b"
    have ab': "has_link m a b" using ab by (simp add: same_shape_has_link [OF s])
    have o: "outgoing m0 (a, b) = (i, j) \<longleftrightarrow> (a, b) = (i, j) \<or> (a, b) = twin_of m (i, j)"
      using outgoing_iff [OF assms(1,5,6) ab] by (simp add: same_shape_twin_of [OF s assms(5)])
    have same: "lflags (lnk m0 a b) = lflags (lnk m0 i j)" if "outgoing m0 (a, b) = (i, j)"
      using outgoing_own [OF assms(1) ab] that by fastforce
    have old: "lflags (lnk m a b) =
        (if P (outgoing m0 (a, b)) \<and> no_flag (lflags (lnk m0 a b)) MEDIA_LNK_FL_IMMUTABLE
         then lflags (lnk m0 a b) AND NOT MEDIA_LNK_FL_ENABLED else lflags (lnk m0 a b))"
      using assms(4) ab by (simp add: reset_upto_def)
    show "lflags (lnk ((relink m i j ?fl)\<lparr>trace := t\<rparr>) a b) =
        (if (P (outgoing m0 (a, b)) \<or> outgoing m0 (a, b) = (i, j)) \<and> no_flag (lflags (lnk m0 a b)) MEDIA_LNK_FL_IMMUTABLE
         then lflags (lnk m0 a b) AND NOT MEDIA_LNK_FL_ENABLED else lflags (lnk m0 a b))"
    proof (cases "outgoing m0 (a, b) = (i, j)")
      case True
      then show ?thesis using relink_ok(2) [OF g h ab', of ?fl] o same f assms(7) by simp
    next
      case False
      then have "\<not> ((a, b) = (i, j) \<or> (a, b) = twin_of m (i, j))" using o by simp
      then have "lflags (lnk (relink m i j ?fl) a b) = lflags (lnk m a b)"
        using relink_ok(2) [OF g h ab', of ?fl] by (simp only: if_False)
      then show ?thesis using old False by simp
    qed
  qed
  then show ?thesis using e by blast
qed

text \<open>The outgoing links that the two loops have passed when they are at link \<open>j\<close> of entity \<open>i\<close>.\<close>

definition before :: "nat \<Rightarrow> nat \<Rightarrow> nat \<times> nat \<Rightarrow> bool" where
  "before i j p \<longleftrightarrow> fst p < i \<or> fst p = i \<and> snd p < j"

lemma before_Suc: "before i (Suc j) p \<longleftrightarrow> before i j p \<or> p = (i, j)"
  by (auto simp: before_def prod_eq_iff)

lemma reset_entity_ok:
  assumes "graph_ok m0" "links_distinct m0" "kernel_accepts k" "i < length (entities m0)"
  shows "reset_upto m0 (before i j) m \<Longrightarrow> j + n = length (links (entities m0 ! i)) \<Longrightarrow>
    \<exists>m'. reset_entity k i j n m = Some (0, m') \<and> reset_upto m0 (before i (j + n)) m'"
proof (induction n arbitrary: j m)
  case 0
  then show ?case by simp
next
  case (Suc n)
  have g: "graph_ok m" and s: "same_shape m0 m" using Suc.prems(1) by (auto simp: reset_upto_def)
  have h0: "has_link m0 i j" using Suc.prems(2) assms(4) by (simp add: has_link_def)
  have h: "has_link m i j" using h0 by (simp add: same_shape_has_link [OF s])
  have e: "the_entity m (ents_gen m, i) = Some (entities m ! i)" "c_read (links (entities m ! i)) (int j) = Some (lnk m i j)"
    using h by (simp_all add: the_entity_def has_link_def lnk_def)
  have p: "pad_ok m (source (lnk m i j))" using g h by (auto simp: graph_ok_def link_ok_def)
  obtain sp where sp: "the_pad m (source (lnk m i j)) = Some sp" "pad_entity sp = Some (ents_gen m, fst (source (lnk m i j)))"
    using the_pad_ok [OF graph_ok_pads [OF g] p] by blast
  note l = same_shape_lnk [OF s h0]
  have nb: "\<not> before i j (i, j)" by (simp add: before_def)
  have IH: "\<exists>m'. reset_entity k i (Suc j) n m1 = Some (0, m') \<and> reset_upto m0 (before i (j + Suc n)) m'"
    if "reset_upto m0 (before i (Suc j)) m1" for m1
    using Suc.IH [OF that] Suc.prems(2) by simp
  have fl: "lflags (lnk m i j) = lflags (lnk m0 i j)" if "fst (source (lnk m0 i j)) = i"
    using Suc.prems(1) h0 nb that by (simp add: reset_upto_def outgoing_def)
  show ?case
  proof (cases "fst (source (lnk m0 i j)) = i \<and> no_flag (lflags (lnk m0 i j)) MEDIA_LNK_FL_IMMUTABLE")
    case True
    then obtain m1 where m1: "media_setup_link k m (source (lnk m i j)) (sink (lnk m i j))
        (lflags (lnk m i j) AND NOT MEDIA_LNK_FL_ENABLED) = Some (0, m1)" "reset_upto m0 (\<lambda>p. before i j p \<or> p = (i, j)) m1"
      using reset_step [OF assms(1-3) Suc.prems(1) h0] nb by blast
    have "reset_upto m0 (before i (Suc j)) m1" using m1(2) by (simp add: before_Suc [abs_def])
    then show ?thesis using IH [of m1] True
      by (simp add: e sp [unfolded l(1)] l fl m1(1) [unfolded l(1,2) fl [OF conjunct1 [OF True]]])
  next
    case False
    have "reset_upto m0 (before i (Suc j)) m"
      by (rule reset_upto_cong [OF Suc.prems(1) assms(1)]) (use False in \<open>auto simp: before_Suc\<close>)
    from IH [OF this] show ?thesis using False fl by (auto simp: e sp [unfolded l(1)] l)
  qed
qed

lemma reset_loop_ok:
  assumes "graph_ok m0" "links_distinct m0" "kernel_accepts k"
  shows "reset_upto m0 (before i 0) m \<Longrightarrow> i + n = length (entities m0) \<Longrightarrow>
    \<exists>m'. reset_loop k i n m = Some (0, m') \<and> reset_upto m0 (before (i + n) 0) m'"
proof (induction n arbitrary: i m)
  case 0
  then show ?case by simp
next
  case (Suc n)
  have s: "same_shape m0 m" using Suc.prems(1) by (simp add: reset_upto_def)
  have i: "i < length (entities m0)" using Suc.prems(2) by simp
  have e: "the_entity m (ents_gen m, i) = Some (entities m ! i)" "length (links (entities m ! i)) = length (links (entities m0 ! i))"
    using s i by (auto simp: the_entity_def same_shape_def)
  obtain m1 where m1: "reset_entity k i 0 (length (links (entities m0 ! i))) m = Some (0, m1)"
      "reset_upto m0 (before i (length (links (entities m0 ! i)))) m1"
    using reset_entity_ok [OF assms i Suc.prems(1)] by auto
  have "reset_upto m0 (before (Suc i) 0) m1"
    by (rule reset_upto_cong [OF m1(2) assms(1)]) (auto simp: before_def has_link_def less_Suc_eq)
  from Suc.IH [OF this] Suc.prems(2) show ?case by (simp add: e m1(1))
qed


section \<open>A concrete graph\<close>

text \<open>A camera sensor with one source pad, linked to the one sink pad of a receiver; the link is enabled.\<close>

definition demo_entity :: "u32 \<Rightarrow> string \<Rightarrow> nat \<Rightarrow> u32 \<Rightarrow> nat \<Rightarrow> media_entity" where
  "demo_entity i nm self padfl other =
     \<lparr>info = \<lparr>ent_id = i, ent_name = nm, ent_type = 0x20000, ent_flags = 0, npads = 1, nlinks = 1, major = 81, minor = i\<rparr>,
      pads = [\<lparr>pad_entity = Some (3, self), pad_index = 0, pad_flags = padfl\<rparr>],
      links = [\<lparr>source = (0, 0), sink = (1, 0), twin = Some (other, 0, 0), lflags = MEDIA_LNK_FL_ENABLED\<rparr>],
      max_links = 2, links_gen = 0, devname = ''/dev/v4l-subdev0'', efd = -1\<rparr>"

definition demo_device :: media_device where
  "demo_device = \<lparr>fd = -1, refcount = 1, devnode = Some ''/dev/media0'',
     entities = [demo_entity 1 ''sensor'' 0 MEDIA_PAD_FL_SOURCE 1, demo_entity 2 ''receiver'' 1 MEDIA_PAD_FL_SINK 0],
     ents_gen = 3, def_v4l = None, def_fb = None, def_alsa = None, def_dvb = None, trace = []\<rparr>"

definition demo_kernel :: kernel where
  "demo_kernel = \<lparr>k_open = \<lambda>_. 5, k_setup = \<lambda>_ u. (0, ld_flags u), k_info = \<lambda>_. 0, k_entity = \<lambda>_. Inl 22,
     k_links = \<lambda>_. Inl 22, k_readlink = \<lambda>_. Inl 2, k_stat = \<lambda>_. Inl 2, k_mem = \<lambda>_. True\<rparr>"

lemma demo_has_link: "has_link demo_device i j \<longleftrightarrow> (i = 0 \<or> i = 1) \<and> j = 0"
  by (auto simp: has_link_def demo_device_def demo_entity_def less_Suc_eq)

lemma demo_lnk [simp]:
  "lnk demo_device 0 0 = \<lparr>source = (0, 0), sink = (1, 0), twin = Some (1, 0, 0), lflags = MEDIA_LNK_FL_ENABLED\<rparr>"
  "lnk demo_device (Suc 0) 0 = \<lparr>source = (0, 0), sink = (1, 0), twin = Some (0, 0, 0), lflags = MEDIA_LNK_FL_ENABLED\<rparr>"
  by (simp_all add: lnk_def demo_device_def demo_entity_def)

lemma demo_pad_ok: "pad_ok demo_device p \<longleftrightarrow> (fst p = 0 \<or> fst p = 1) \<and> snd p = 0"
  by (auto simp: pad_ok_def demo_device_def demo_entity_def less_Suc_eq)

lemma demo_links_gen: "links_gen (entities demo_device ! 0) = 0" "links_gen (entities demo_device ! Suc 0) = 0"
  by (simp_all add: demo_device_def demo_entity_def)

lemma demo_graph_ok: "graph_ok demo_device"
proof -
  have "pads_ok demo_device"
    by (auto simp: pads_ok_def demo_device_def demo_entity_def less_Suc_eq)
  moreover have "link_ok demo_device 0 0" "link_ok demo_device 1 0"
    by (auto simp: link_ok_def demo_pad_ok demo_has_link demo_links_gen)
  moreover have "flags_ok demo_device 0 0" "flags_ok demo_device 1 0"
    by (auto simp: flags_ok_def)
  ultimately show ?thesis by (auto simp: graph_ok_def demo_has_link)
qed

lemma demo_distinct: "links_distinct demo_device"
  by (auto simp: links_distinct_def demo_has_link)

lemma demo_accepts: "kernel_accepts demo_kernel"
  by (simp add: kernel_accepts_def demo_kernel_def)

lemma demo_fd: "fd demo_device = -1" "trace demo_device = []"
  by (simp_all add: demo_device_def)

section \<open>Properties\<close>

text \<open>C11: on a well-formed graph \<open>media_setup_link\<close> never follows a bad pointer, closes the device it
  opens, and does what it is for: it reports a failing \<open>open\<close>, a link that does not exist and a
  request that the kernel refuses, leaving the graph alone; otherwise it sends the kernel the two
  pads and the flags, with the immutable flag as it was, and gives both copies of the link, and no
  other link, the flags the kernel answered, which keeps the graph well-formed.\<close>

theorem setup_link_effect:
  assumes "graph_ok m" "pad_ok m src" "pad_ok m snk" "fd m = -1"
  shows "\<exists>r m'. media_setup_link k m src snk fl = Some (r, m') \<and> (r, m') = setup_spec k m src snk fl \<and>
    graph_ok m' \<and> same_shape m m' \<and> fd m' = -1 \<and>
    (\<forall>j. r = 0 \<and> first_link src snk (links (entities m ! fst src)) 0 = Some j \<longrightarrow>
      (\<forall>a b. has_link m a b \<longrightarrow> lflags (lnk m' a b) =
        (if (a, b) = (fst src, j) \<or> (a, b) = twin_of m (fst src, j)
         then snd (k_setup k (trace m @ [MOpen]) (setup_desc m src snk fl j)) else lflags (lnk m a b))))"
proof -
  obtain r m' where e: "setup_spec k m src snk fl = (r, m')" by force
  have i: "fst src < length (entities m)" using assms(2) by (simp add: pad_ok_def)
  have h: "has_link m (fst src) j" if "first_link src snk (links (entities m ! fst src)) 0 = Some j" for j
    using first_link_Some [OF that] i by (simp add: has_link_def)
  have "graph_ok m' \<and> same_shape m m' \<and> fd m' = -1" by (rule setup_spec_ok [OF assms(1,2,4) e])
  moreover have "\<forall>j. r = 0 \<and> first_link src snk (links (entities m ! fst src)) 0 = Some j \<longrightarrow>
      (\<forall>a b. has_link m a b \<longrightarrow> lflags (lnk m' a b) =
        (if (a, b) = (fst src, j) \<or> (a, b) = twin_of m (fst src, j)
         then snd (k_setup k (trace m @ [MOpen]) (setup_desc m src snk fl j)) else lflags (lnk m a b)))"
    using e relink_ok(2) [OF assms(1) h]
    by (auto simp: setup_spec_def Let_def split: if_splits)
  ultimately show ?thesis using setup_link_eq [OF assms] e by auto
qed

theorem setup_link_effect_witness:
  "\<exists>m'. media_setup_link demo_kernel demo_device (0, 0) (1, 0) 0 = Some (0, m') \<and> graph_ok m' \<and>
     lflags (lnk m' 1 0) = 0 \<and> fd m' = -1"
proof -
  have p: "pad_ok demo_device (0, 0)" "pad_ok demo_device (1, 0)" by (simp_all add: demo_pad_ok)
  have f: "first_link (0, 0) (1, 0) (links (entities demo_device ! 0)) 0 = Some 0"
    by (simp add: demo_device_def demo_entity_def)
  have "fst (setup_spec demo_kernel demo_device (0, 0) (1, 0) 0) = 0"
    using f by (simp add: setup_spec_def demo_kernel_def Let_def)
  moreover have "twin_of demo_device (0, 0) = (1, 0)" by (simp add: twin_of_def)
  moreover have "snd (k_setup demo_kernel [MOpen] (setup_desc demo_device (0, 0) (1, 0) 0 0)) = 0"
    by (simp add: demo_kernel_def setup_desc_def MEDIA_LNK_FL_ENABLED_def MEDIA_LNK_FL_IMMUTABLE_def)
  ultimately show ?thesis
    using setup_link_effect [OF demo_graph_ok p demo_fd(1), of demo_kernel 0] f demo_has_link [of 1 0] demo_fd(2)
    by (auto dest: arg_cong [where f = fst])
qed

text \<open>when the kernel accepts every request, \<open>media_reset_links\<close> succeeds and disables every link
  that is not immutable, both copies of it, and changes nothing else.\<close>

theorem reset_links_disables_all:
  assumes "graph_ok m" "links_distinct m" "kernel_accepts k" "fd m = -1"
  shows "\<exists>m'. media_reset_links k m = Some (0, m') \<and> graph_ok m' \<and> same_shape m m' \<and> fd m' = -1 \<and>
    (\<forall>i j. has_link m i j \<longrightarrow> lflags (lnk m' i j) =
       (if no_flag (lflags (lnk m i j)) MEDIA_LNK_FL_IMMUTABLE
        then lflags (lnk m i j) AND NOT MEDIA_LNK_FL_ENABLED else lflags (lnk m i j)))"
proof -
  have "reset_upto m (before 0 0) m" using assms(1,4) by (simp add: reset_upto_def before_def)
  from reset_loop_ok [OF assms(1-3) this, of "length (entities m)"]
  obtain m' where m': "media_reset_links k m = Some (0, m')" "reset_upto m (before (length (entities m)) 0) m'"
    by (auto simp: media_reset_links_def)
  have b: "before (length (entities m)) 0 (outgoing m (i, j))" if "has_link m i j" for i j
    by (rule outgoing_own [OF assms(1) that]) (simp add: before_def has_link_def)
  show ?thesis using m' b by (auto simp: reset_upto_def)
qed

theorem reset_links_disables_all_witness:
  "\<exists>m'. media_reset_links demo_kernel demo_device = Some (0, m') \<and> lflags (lnk m' 0 0) = 0 \<and>
     lflags (lnk m' 1 0) = 0"
  using reset_links_disables_all [OF demo_graph_ok demo_distinct demo_accepts demo_fd(1)]
    demo_has_link [of 0 0] demo_has_link [of 1 0]
  by (auto simp: no_flag_def MEDIA_LNK_FL_ENABLED_def MEDIA_LNK_FL_IMMUTABLE_def)

end
