(* ===== verification/Media_Parse.thy ===== *)
theory Media_Parse
  imports Media_Graph C_String
begin

text \<open>
  The text format of link setups, such as \<open>"sensor":0->"receiver":0[1]\<close>: the parser of \<open>mediactl.c\<close>.
  A pointer into the text is the rest of the text from there on, without the terminator; every
  function returns, besides its result, the position stored in \<open>*endp\<close>.
\<close>

section \<open>Characters and numbers\<close>

text \<open>\<open>strtoul (s, &end, 10)\<close> with a 64-bit \<open>unsigned long\<close>: white space, an optional sign, digits; with no
  digits the value is 0 and \<open>end\<close> the start of the text; a value too large is the largest one.\<close>

definition c_strtoul :: "string \<Rightarrow> nat \<times> string" where
  "c_strtoul s =
     (let q = skip_space s;
          neg = (char_at q 0 = CHR ''-'');
          r = (if neg \<or> char_at q 0 = CHR ''+'' then tl q else q);
          ds = takeWhile isdigit r;
          v = digits_val ds
      in if ds = [] then (0, s)
         else (if v \<ge> 2 ^ 64 then 2 ^ 64 - 1 else if neg then (2 ^ 64 - v) mod 2 ^ 64 else v,
               dropWhile isdigit r))"

definition isquote :: "char \<Rightarrow> bool" where
  "isquote c \<longleftrightarrow> c = CHR 0x22 \<or> c = CHR 0x27"

section \<open>The parser\<close>

text \<open>\<open>media_parse_pad\<close> from the point where the entity \<open>i\<close> is known.\<close>

definition parse_pad_index :: "media_device \<Rightarrow> nat \<Rightarrow> string \<Rightarrow> pad_ptr option \<times> string" where
  "parse_pad_index m i s =
     (let s = skip_space s in
      if char_at s 0 \<noteq> CHR '':'' then (None, s)
      else
        let p = skip_space (tl s);
            (v, s) = c_strtoul p;
            pad = unat (of_nat v :: u32)
        in if pad \<ge> npads (info (entities m ! i)) then (None, p)
           else (Some (i, pad), skip_space s))"

definition media_parse_pad :: "media_device \<Rightarrow> string \<Rightarrow> pad_ptr option \<times> string" where
  "media_parse_pad m s =
     (let p = skip_space s in
      if isquote (char_at p 0) then
        let e = dropWhile (\<lambda>c. \<not> isquote c) (tl p) in
        if e = [] then (None, e)
        else case media_get_entity_by_name m (tl p) (length (tl p) - length e) of
          None \<Rightarrow> (None, tl p)
        | Some i \<Rightarrow> parse_pad_index m i (tl e)
      else
        let (entity_id, e) = c_strtoul p in
        case media_get_entity_by_id m (of_nat entity_id) of
          None \<Rightarrow> (None, p)
        | Some i \<Rightarrow> parse_pad_index m i e)"

definition media_parse_link :: "media_device \<Rightarrow> string \<Rightarrow> (link_ptr option \<times> string) option" where
  "media_parse_link m s =
     (case media_parse_pad m s of
        (None, e) \<Rightarrow> Some (None, e)
      | (Some src, e) \<Rightarrow>
          if char_at e 0 \<noteq> CHR ''-'' \<or> char_at e 1 \<noteq> CHR ''>'' then Some (None, e)
          else case media_parse_pad m (drop 2 e) of
            (None, e) \<Rightarrow> Some (None, e)
          | (Some snk, e) \<Rightarrow> do {
              sp \<leftarrow> the_pad m src;
              sep \<leftarrow> pad_entity sp;
              se \<leftarrow> the_entity m sep;
              Some (map_option (\<lambda>j. (snd sep, links_gen se, j)) (first_link src snk (links se) 0), e) })"

definition media_parse_setup_link ::
  "kernel \<Rightarrow> media_device \<Rightarrow> string \<Rightarrow> (int \<times> string \<times> media_device) option" where
  "media_parse_setup_link k m s = do {
     (lp, p) \<leftarrow> media_parse_link m s;
     case lp of None \<Rightarrow> Some (- EINVAL, p, m)
     | Some lp \<Rightarrow>
         if char_at p 0 \<noteq> CHR ''['' then Some (- EINVAL, p, m)
         else
           let (fl, e) = c_strtoul (tl p);
               p = skip_space e
           in if char_at p 0 \<noteq> CHR '']'' then Some (- EINVAL, p, m)
              else do {
                link \<leftarrow> the_link m lp;
                (ret, m) \<leftarrow> media_setup_link k m (source link) (sink link) (of_nat fl);
                Some (ret, skip_space (tl p), m) } }"

text \<open>The column at which \<open>media_print_streampos\<close> puts its marker for a text and the rest at which
  parsing stopped: \<open>pos\<close> is unsigned, so that the test for a negative value never holds.\<close>

definition media_print_streampos :: "string \<Rightarrow> string \<Rightarrow> u64" where
  "media_print_streampos p e =
     (let pos = (of_int (int (length p) - int (length e) + 1) :: u64);
          pos = (if pos < 0 then 0 else pos)
      in if pos > of_nat (length p) then of_nat (length p) else pos)"

partial_function (option) media_parse_setup_links ::
  "kernel \<Rightarrow> media_device \<Rightarrow> string \<Rightarrow> (int \<times> media_device) option" where
  "media_parse_setup_links k m s = do {
     (ret, e, m) \<leftarrow> media_parse_setup_link k m s;
     if ret < 0 then Some (ret, m)
     else if char_at e 0 = CHR '','' then media_parse_setup_links k m (tl e)
     else Some (if e \<noteq> [] then - EINVAL else 0, m) }"

section \<open>Positions only move forward\<close>

lemma length_skip_space [simp]: "length (skip_space s) \<le> length s"
  by (simp add: skip_space_def length_dropWhile_le)

lemma strtoul_length: "c_strtoul s = (v, e) \<Longrightarrow> length e \<le> length s"
proof -
  let ?q = "skip_space s"
  let ?r = "if char_at ?q 0 = CHR ''-'' \<or> char_at ?q 0 = CHR ''+'' then tl ?q else ?q"
  have "length ?r \<le> length s" using length_skip_space [of s] by (auto intro: le_trans [OF diff_le_self])
  then have "length (dropWhile isdigit ?r) \<le> length s" using length_dropWhile_le le_trans by blast
  then show "c_strtoul s = (v, e) \<Longrightarrow> length e \<le> length s"
    by (auto simp: c_strtoul_def Let_def split: if_splits)
qed

lemma char_at_Cons: "char_at s 0 = c \<Longrightarrow> c \<noteq> CHR 0x00 \<Longrightarrow> \<exists>t. s = c # t"
  by (cases s) (auto simp: char_at_def)

lemma by_name_less: "by_name_loop nm len es i = Some n \<Longrightarrow> n < i + length es"
  by (induction es arbitrary: i) (fastforce split: if_splits)+

lemma by_id_less: "by_id_loop nxt i es k = Some n \<Longrightarrow> n < k + length es"
  by (induction es arbitrary: k) (fastforce split: if_splits)+

lemma get_entity_less:
  "media_get_entity_by_name m nm len = Some i \<Longrightarrow> i < length (entities m)"
  "media_get_entity_by_id m w = Some i \<Longrightarrow> i < length (entities m)"
  using by_name_less [of nm len "entities m" 0 i] by_id_less [of _ _ "entities m" 0 i]
  by (auto simp: media_get_entity_by_name_def media_get_entity_by_id_def split: if_splits)

lemma parse_pad_index_ok:
  assumes "parse_pad_index m i s = (r, e)" "pads_ok m" "i < length (entities m)"
  shows "length e \<le> length s" "r = Some p \<Longrightarrow> pad_ok m p \<and> length e < length s"
proof -
  define q where "q = skip_space s"
  have q: "length q \<le> length s" by (simp add: q_def)
  obtain v e' where st: "c_strtoul (skip_space (tl q)) = (v, e')" by force
  have "length e' \<le> length (skip_space (tl q))" by (rule strtoul_length [OF st])
  also have "\<dots> \<le> length (tl q)" by (rule length_skip_space)
  finally have e': "length e' \<le> length (tl q)" .
  have n: "npads (info (entities m ! i)) = length (pads (entities m ! i))" using assms(2,3) by (simp add: pads_ok_def)
  have se: "length (skip_space e') \<le> length (tl q)" "length (skip_space (tl q)) \<le> length (tl q)"
    using le_trans [OF length_skip_space e'] length_skip_space [of "tl q"] by blast+
  then show "length e \<le> length s" using assms(1) q st by (auto simp: parse_pad_index_def Let_def q_def [symmetric] split: if_splits)
  show "pad_ok m p \<and> length e < length s" if "r = Some p"
  proof -
    have c: "char_at q 0 = CHR '':''" "e = skip_space e'" "p = (i, unat (of_nat v :: u32))"
      "unat (of_nat v :: u32) < npads (info (entities m ! i))"
      using assms(1) that st by (auto simp: parse_pad_index_def Let_def q_def [symmetric] split: if_splits)
    obtain t where "q = CHR '':'' # t" using char_at_Cons [OF c(1)] by auto
    then show ?thesis using c q se n assms(3) by (auto simp: pad_ok_def)
  qed
qed

lemma media_parse_pad_ok:
  assumes "media_parse_pad m s = (r, e)" "pads_ok m"
  shows "length e \<le> length s" "r = Some p \<Longrightarrow> pad_ok m p"
proof -
  define q where "q = skip_space s"
  have q: "length q \<le> length s" by (simp add: q_def)
  let ?d = "dropWhile (\<lambda>c. \<not> isquote c) (tl q)"
  obtain v e' where st: "c_strtoul q = (v, e')" by force
  have e': "length e' \<le> length q" by (rule strtoul_length [OF st])
  have d: "length ?d \<le> length (tl q)" by (rule length_dropWhile_le)
  have ix: "length e'' \<le> length t" "r' = Some p' \<Longrightarrow> pad_ok m p'"
    if "parse_pad_index m i t = (r', e'')" "i < length (entities m)" for i t r' e'' p'
    using parse_pad_index_ok [OF that(1) assms(2) that(2)] by auto
  show "length e \<le> length s"
    using assms(1) q d e' st
    by (auto simp: media_parse_pad_def Let_def q_def [symmetric] dest!: ix(1) dest: get_entity_less
        split: if_splits option.splits)
  show "pad_ok m p" if "r = Some p"
    using assms(1) st that
    by (auto simp: media_parse_pad_def Let_def q_def [symmetric] dest: ix(2) [OF _ get_entity_less(1)]
        ix(2) [OF _ get_entity_less(2)] split: if_splits option.splits)
qed

section \<open>Every text is dealt with\<close>

lemma parse_link_ok:
  assumes "graph_ok m"
  shows "\<exists>r e. media_parse_link m s = Some (r, e) \<and> length e \<le> length s \<and>
    (\<forall>lp. r = Some lp \<longrightarrow> (\<exists>i j. lp = (i, links_gen (entities m ! i), j) \<and> has_link m i j))"
proof -
  note P = graph_ok_pads [OF assms]
  obtain a e where a: "media_parse_pad m s = (a, e)" by force
  note a' = media_parse_pad_ok [OF a P]
  obtain b e' where b: "media_parse_pad m (drop 2 e) = (b, e')" by force
  note b' = media_parse_pad_ok [OF b P]
  have le: "length e' \<le> length s" using a'(1) b'(1) by simp
  show ?thesis
  proof (cases "\<exists>src snk. a = Some src \<and> b = Some snk \<and> char_at e 0 = CHR ''-'' \<and> char_at e 1 = CHR ''>''")
    case False
    then show ?thesis using a b a'(1) le by (auto simp: media_parse_link_def split: option.splits)
  next
    case True
    then obtain src snk where ss: "a = Some src" "b = Some snk" "char_at e 0 = CHR ''-''" "char_at e 1 = CHR ''>''" by blast
    have src: "pad_ok m src" using a'(2) ss by simp
    obtain sp where sp: "the_pad m src = Some sp" "pad_entity sp = Some (ents_gen m, fst src)"
      using the_pad_ok [OF P src] by blast
    have i: "fst src < length (entities m)" using src by (simp add: pad_ok_def)
    then have en: "the_entity m (ents_gen m, fst src) = Some (entities m ! fst src)" by (simp add: the_entity_def)
    let ?f = "first_link src snk (links (entities m ! fst src)) 0"
    have e: "media_parse_link m s =
        Some (map_option (\<lambda>j. (fst src, links_gen (entities m ! fst src), j)) ?f, e')"
      using a b ss by (simp add: media_parse_link_def sp en)
    have "has_link m (fst src) j" if "?f = Some j" for j
      using first_link_Some [OF that] i by (simp add: has_link_def)
    then show ?thesis using e le by auto
  qed
qed

text \<open>The invariant of a run over a text, and one step of it.\<close>

lemma parse_setup_link_ok:
  assumes "graph_ok m" "fd m = -1"
  shows "\<exists>r e x. media_parse_setup_link k m s = Some (r, e, x) \<and> length e \<le> length s \<and> graph_ok x \<and> fd x = -1 \<and>
    same_shape m x"
proof -
  obtain r e where l: "media_parse_link m s = Some (r, e)" "length e \<le> length s"
    "\<forall>lp. r = Some lp \<longrightarrow> (\<exists>i j. lp = (i, links_gen (entities m ! i), j) \<and> has_link m i j)"
    using parse_link_ok [OF assms(1)] by blast
  obtain fl e' where n: "c_strtoul (tl e) = (fl, e')" by force
  have le: "length (skip_space e') \<le> length s" "length (skip_space (tl (skip_space e'))) \<le> length s"
  proof -
    have "length e' \<le> length s" using strtoul_length [OF n] l(2) by simp
    then show "length (skip_space e') \<le> length s" by (rule le_trans [OF length_skip_space])
    then have "length (tl (skip_space e')) \<le> length s" by simp
    then show "length (skip_space (tl (skip_space e'))) \<le> length s" by (rule le_trans [OF length_skip_space])
  qed
  show ?thesis
  proof (cases "r \<noteq> None \<and> char_at e 0 = CHR ''['' \<and> char_at (skip_space e') 0 = CHR '']''")
    case False
    then show ?thesis using l(1,2) le n assms by (auto simp: media_parse_setup_link_def split: option.splits)
  next
    case True
    then obtain lp where "r = Some lp" by blast
    then obtain i j where lp: "r = Some (i, links_gen (entities m ! i), j)" "has_link m i j" using l(3) by blast
    have lo: "link_ok m i j" using assms(1) lp(2) by (simp add: graph_ok_def)
    then have p: "pad_ok m (source (lnk m i j))" "pad_ok m (sink (lnk m i j))" by (auto simp: link_ok_def)
    obtain x where x: "media_setup_link k m (source (lnk m i j)) (sink (lnk m i j)) (of_nat fl) = Some x"
      using setup_link_eq [OF assms(1) p assms(2)] by blast
    have "setup_spec k m (source (lnk m i j)) (sink (lnk m i j)) (of_nat fl) = x"
      using x setup_link_eq [OF assms(1) p assms(2)] by simp
    then have "graph_ok (snd x) \<and> fd (snd x) = -1 \<and> same_shape m (snd x)"
      using setup_spec_ok [OF assms(1) p(1) assms(2), where r = "fst x" and m' = "snd x"] by auto
    moreover have "media_parse_setup_link k m s = Some (fst x, skip_space (tl (skip_space e')), snd x)"
      using True by (simp add: media_parse_setup_link_def l(1) lp(1) n the_link_ok [OF lp(2)] x split_def)
    ultimately show ?thesis using le by blast
  qed
qed

lemma setup_links_ok:
  assumes "graph_ok m0"
  shows "graph_ok m \<Longrightarrow> fd m = -1 \<Longrightarrow> same_shape m0 m \<Longrightarrow>
    \<exists>r x. media_parse_setup_links k m s = Some (r, x) \<and> graph_ok x \<and> fd x = -1 \<and> same_shape m0 x"
proof (induction "length s" arbitrary: s m rule: less_induct)
  case less
  obtain r e x where st: "media_parse_setup_link k m s = Some (r, e, x)" "length e \<le> length s" "graph_ok x" "fd x = -1"
    "same_shape m x"
    using parse_setup_link_ok [OF less.prems(1,2)] by blast
  have sx: "same_shape m0 x" by (rule same_shape_trans [OF less.prems(3) st(5)])
  show ?case
  proof (cases "\<not> r < 0 \<and> char_at e 0 = CHR '',''")
    case True
    then obtain t where "e = CHR '','' # t" using char_at_Cons [of e "CHR '',''"] by auto
    then have "length (tl e) < length s" using st(2) by simp
    from less.hyps [OF this st(3,4) sx] show ?thesis
      using True by (subst media_parse_setup_links.simps) (simp add: st(1))
  next
    case False
    then show ?thesis using st(3,4) sx by (subst media_parse_setup_links.simps) (auto simp: st(1))
  qed
qed

section \<open>Printing\<close>

lemma digit_not_quote: "isdigit c \<Longrightarrow> \<not> isquote c"
  by (auto simp: isdigit_def isquote_def)

lemma strtoul_dec:
  assumes "n < 2 ^ 64" "rest = [] \<or> \<not> isdigit (hd rest)"
  shows "c_strtoul (dec n @ rest) = (n, rest)"
proof -
  obtain c ds where d: "dec n = c # ds" "isdigit c" using dec_digits [of n] by (cases "dec n") auto
  have "skip_space (dec n @ rest) = dec n @ rest" using digit_not(1) [OF d(2)] by (simp add: skip_space_def d(1))
  moreover have "takeWhile isdigit (dec n @ rest) = dec n" "dropWhile isdigit (dec n @ rest) = rest"
    using dec_digits [of n] assms(2) by (cases rest; simp add: takeWhile_append dropWhile_append)+
  moreover have "char_at (dec n @ rest) 0 = c" by (simp add: char_at_def d(1))
  moreover have "dec n \<noteq> []" "digits_val (dec n) = n" using dec_digits by auto
  ultimately show ?thesis using digit_not(2,3) [OF d(2)] assms(1) by (simp add: c_strtoul_def Let_def)
qed

definition show_pad :: "media_device \<Rightarrow> pad_ptr \<Rightarrow> string" where
  "show_pad m p = CHR 0x22 # ent_name (info (entities m ! fst p)) @ CHR 0x22 # CHR '':'' # dec (snd p)"

type_synonym link_setup = "pad_ptr \<times> pad_ptr \<times> u32"

definition show_setup :: "media_device \<Rightarrow> link_setup \<Rightarrow> string" where
  "show_setup m v = show_pad m (fst v) @ ''->'' @ show_pad m (fst (snd v)) @ ''['' @ dec (unat (snd (snd v))) @ '']''"

fun show_setups :: "media_device \<Rightarrow> link_setup list \<Rightarrow> string" where
  "show_setups m [] = []"
| "show_setups m [v] = show_setup m v"
| "show_setups m (v # vs) = show_setup m v @ CHR '','' # show_setups m vs"

text \<open>Names that the format can express, no two of them the same.\<close>

definition names_ok :: "media_device \<Rightarrow> bool" where
  "names_ok m \<longleftrightarrow> distinct (map (ent_name \<circ> info) (entities m)) \<and> (\<forall>e \<in> set (entities m).
     length (ent_name (info e)) < 32 \<and> (\<forall>c \<in> set (ent_name (info e)). c \<noteq> CHR 0x00 \<and> \<not> isquote c))"

lemma strncmp_name:
  assumes "CHR 0x00 \<notin> set a" "CHR 0x00 \<notin> set b"
  shows "strncmp_eq a (b @ r) (length b) \<and> char_at a (length b) = CHR 0x00 \<longleftrightarrow> a = b"
  using assms
proof (induction b arbitrary: a)
  case Nil
  then show ?case by (cases a) (auto simp: char_at_def)
next
  case (Cons c b)
  show ?case
  proof (cases a)
    case Nil
    then show ?thesis using Cons.prems by (auto simp: char_at_def)
  next
    case (Cons c' a')
    then have "char_at (c' # a') (Suc (length b)) = char_at a' (length b)" by (simp add: char_at_def)
    then show ?thesis using Cons.IH [of a'] Cons.prems Cons by (auto simp: char_at_def)
  qed
qed

lemma by_name_loop_ok:
  assumes "distinct (map (ent_name \<circ> info) es)" "i < length es" "\<forall>e \<in> set es. CHR 0x00 \<notin> set (ent_name (info e))"
  shows "by_name_loop (ent_name (info (es ! i)) @ r) (length (ent_name (info (es ! i)))) es n = Some (n + i)"
  using assms
proof (induction es arbitrary: i n)
  case (Cons e es)
  have "(e # es) ! i \<in> set (e # es)" using Cons.prems(2) by (rule nth_mem)
  then have z: "CHR 0x00 \<notin> set (ent_name (info e))" "CHR 0x00 \<notin> set (ent_name (info ((e # es) ! i)))"
    using Cons.prems(3) by (simp, blast)
  show ?case
  proof (cases i)
    case 0
    then show ?thesis using strncmp_name [OF z(1) z(1), of r] by simp
  next
    case (Suc i')
    then have "ent_name (info e) \<noteq> ent_name (info ((e # es) ! i))" using Cons.prems by (auto simp: image_iff)
    then have "\<not> (strncmp_eq (ent_name (info e)) (ent_name (info ((e # es) ! i)) @ r) (length (ent_name (info ((e # es) ! i)))) \<and>
        char_at (ent_name (info e)) (length (ent_name (info ((e # es) ! i)))) = CHR 0x00)"
      using strncmp_name [OF z, of r] by simp
    then show ?thesis using Cons.IH [of i' "Suc n"] Cons.prems Suc by simp
  qed
qed simp

lemma parse_show_pad:
  assumes "names_ok m" "pads_ok m" "pad_ok m p" "rest = [] \<or> \<not> isdigit (hd rest)"
  shows "media_parse_pad m (show_pad m p @ rest) = (Some p, skip_space rest)"
proof -
  define nm where "nm = ent_name (info (entities m ! fst p))"
  have i: "fst p < length (entities m)" and j: "snd p < npads (info (entities m ! fst p))" "snd p < 2 ^ 32"
    using assms(2,3) by (auto simp: pad_ok_def pads_ok_def)
  then have e: "entities m ! fst p \<in> set (entities m)" by simp
  have q: "\<forall>c \<in> set nm. \<not> isquote c" "length nm < 32" using assms(1) e by (auto simp: names_ok_def nm_def)
  have all: "\<forall>e \<in> set (entities m). CHR 0x00 \<notin> set (ent_name (info e))" using assms(1) by (auto simp: names_ok_def)
  let ?r = "CHR '':'' # dec (snd p) @ rest"
  have s: "show_pad m p @ rest = CHR 0x22 # nm @ CHR 0x22 # ?r" by (simp add: show_pad_def nm_def)
  have dw: "dropWhile (\<lambda>c. \<not> isquote c) (nm @ CHR 0x22 # ?r) = CHR 0x22 # ?r"
    using q(1) by (simp add: dropWhile_append isquote_def)
  have nm: "media_get_entity_by_name m (nm @ CHR 0x22 # ?r) (length nm) = Some (fst p)"
    using by_name_loop_ok [OF _ i all, of "CHR 0x22 # ?r" 0] assms(1) q(2)
    by (simp add: media_get_entity_by_name_def nm_def names_ok_def)
  have sp: "skip_space (CHR 0x22 # t) = CHR 0x22 # t" "skip_space (CHR '':'' # t) = CHR '':'' # t" for t
    by (simp_all add: skip_space_def isspace_def)
  have st: "c_strtoul (dec (snd p) @ rest) = (snd p, rest)" using strtoul_dec [OF _ assms(4)] j(2) by simp
  obtain c ds where d: "dec (snd p) = c # ds" "isdigit c" using dec_digits [of "snd p"] by (cases "dec (snd p)") auto
  have sd: "skip_space (dec (snd p) @ rest) = dec (snd p) @ rest"
    using digit_not(1) [OF d(2)] by (simp add: skip_space_def d(1))
  have "unat (of_nat (snd p) :: u32) = snd p" using j(2) by (simp add: unat_of_nat)
  then have "parse_pad_index m (fst p) ?r = (Some p, skip_space rest)"
    using j(1) by (simp add: parse_pad_index_def sp sd st char_at_def Let_def)
  moreover have "isquote (CHR 0x22)" by (simp add: isquote_def)
  ultimately show ?thesis
    unfolding media_parse_pad_def s by (simp add: sp dw nm char_at_def Let_def)
qed

lemma first_link_cong:
  assumes "length ls' = length ls" "\<And>j. j < length ls \<Longrightarrow> source (ls' ! j) = source (ls ! j) \<and> sink (ls' ! j) = sink (ls ! j)"
  shows "first_link src snk ls' n = first_link src snk ls n"
  using assms
proof (induction ls arbitrary: ls' n)
  case (Cons l ls)
  then obtain l' ls1 where l: "ls' = l' # ls1" by (cases ls') auto
  have a: "source l' = source l" "sink l' = sink l" using Cons.prems(2) [of 0] l by auto
  have "first_link src snk ls1 (Suc n) = first_link src snk ls (Suc n)"
  proof (rule Cons.IH)
    show "length ls1 = length ls" using Cons.prems(1) l by simp
    show "source (ls1 ! j) = source (ls ! j) \<and> sink (ls1 ! j) = sink (ls ! j)" if "j < length ls" for j
      using Cons.prems(2) [of "Suc j"] l that by simp
  qed
  then show ?case by (simp add: l a)
qed simp

text \<open>The setups that the graph has a link for.\<close>

definition joined :: "media_device \<Rightarrow> link_setup \<Rightarrow> bool" where
  "joined m v \<longleftrightarrow> pad_ok m (fst v) \<and> pad_ok m (fst (snd v)) \<and>
     first_link (fst v) (fst (snd v)) (links (entities m ! fst (fst v))) 0 \<noteq> None"

lemma same_shape_show:
  assumes "same_shape m x"
  shows "names_ok x = names_ok m" "joined m v \<Longrightarrow> joined x v" "joined m v \<Longrightarrow> show_setup x v = show_setup m v"
proof -
  have inf: "info (entities x ! i) = info (entities m ! i)" if "i < length (entities m)" for i
    using assms that by (simp add: same_shape_def)
  have "map info (entities x) = map info (entities m)"
    using assms inf by (intro nth_equalityI) (auto simp: same_shape_def)
  moreover have "names_ok y \<longleftrightarrow> distinct (map ent_name (map info (entities y))) \<and> (\<forall>d \<in> set (map info (entities y)).
     length (ent_name d) < 32 \<and> (\<forall>c \<in> set (ent_name d). c \<noteq> CHR 0x00 \<and> \<not> isquote c))" for y
    by (simp add: names_ok_def comp_def)
  ultimately show "names_ok x = names_ok m" by (simp only:)
  show "show_setup x v = show_setup m v" if "joined m v"
    using that inf by (simp add: joined_def show_setup_def show_pad_def pad_ok_def)
  assume j: "joined m v"
  then have i: "fst (fst v) < length (entities m)" by (simp add: joined_def pad_ok_def)
  have "first_link (fst v) (fst (snd v)) (links (entities x ! fst (fst v))) 0 =
      first_link (fst v) (fst (snd v)) (links (entities m ! fst (fst v))) 0"
    by (rule first_link_cong) (use assms i in \<open>auto simp: same_shape_def lnk_def\<close>)
  then show "joined x v" using j by (simp add: joined_def same_shape_pad_ok [OF assms])
qed

lemma parse_show_setup:
  assumes "graph_ok m" "names_ok m" "fd m = -1" "joined m (src, snk, fl)"
  shows "media_parse_setup_link k m (show_setup m (src, snk, fl) @ rest) =
    Some (fst (setup_spec k m src snk fl), skip_space rest, snd (setup_spec k m src snk fl))"
proof -
  have p: "pad_ok m src" "pad_ok m snk" and P: "pads_ok m" using assms(1,4) graph_ok_pads by (auto simp: joined_def)
  have i: "fst src < length (entities m)" using p(1) by (simp add: pad_ok_def)
  obtain j where j: "first_link src snk (links (entities m ! fst src)) 0 = Some j" using assms(4) by (auto simp: joined_def)
  note fj = first_link_Some [OF j]
  have h: "has_link m (fst src) j" using fj i by (simp add: has_link_def)
  let ?t2 = "''['' @ dec (unat fl) @ '']'' @ rest"
  let ?t1 = "''->'' @ show_pad m snk @ ?t2"
  have sp: "skip_space ?t1 = ?t1" "skip_space ?t2 = ?t2" "skip_space (CHR '']'' # rest) = CHR '']'' # rest"
    by (simp_all add: skip_space_def isspace_def)
  have a: "media_parse_pad m (show_pad m src @ ?t1) = (Some src, ?t1)"
    using parse_show_pad [OF assms(2) P p(1), of ?t1] sp(1) by (simp add: isdigit_def)
  have b: "media_parse_pad m (show_pad m snk @ ?t2) = (Some snk, ?t2)"
    using parse_show_pad [OF assms(2) P p(2), of ?t2] sp(2) by (simp add: isdigit_def)
  obtain pd where pd: "the_pad m src = Some pd" "pad_entity pd = Some (ents_gen m, fst src)"
    using the_pad_ok [OF P p(1)] by blast
  have en: "the_entity m (ents_gen m, fst src) = Some (entities m ! fst src)" using i by (simp add: the_entity_def)
  have l: "media_parse_link m (show_pad m src @ ?t1) = Some (Some (fst src, links_gen (entities m ! fst src), j), ?t2)"
    unfolding media_parse_link_def a using b by (simp add: char_at_def pd en j)
  have "unat fl < 2 ^ LENGTH(32)" by (rule unsigned_less)
  then have f: "unat fl < 2 ^ 64" by simp
  have n: "c_strtoul (dec (unat fl) @ CHR '']'' # rest) = (unat fl, CHR '']'' # rest)"
    by (rule strtoul_dec [OF f]) (simp add: isdigit_def)
  have lk: "source (lnk m (fst src) j) = src" "sink (lnk m (fst src) j) = snk" using fj by (auto simp: lnk_def)
  have "show_setup m (src, snk, fl) @ rest = show_pad m src @ ?t1" by (simp add: show_setup_def)
  then show ?thesis
    unfolding media_parse_setup_link_def
    by (simp add: l [simplified] n sp(3) char_at_def the_link_ok [OF h] lk setup_link_eq [OF assms(1) p assms(3)] split_def)
qed

text \<open>Carrying out setups in order, up to the first failure.\<close>

fun setup_all :: "kernel \<Rightarrow> media_device \<Rightarrow> link_setup list \<Rightarrow> int \<times> media_device" where
  "setup_all k m [] = (0, m)"
| "setup_all k m ((src, snk, fl) # vs) =
     (let (r, x) = setup_spec k m src snk fl in if r < 0 then (r, x) else setup_all k x vs)"

lemma show_setups_shape:
  "same_shape m x \<Longrightarrow> \<forall>v \<in> set vs. joined m v \<Longrightarrow> show_setups x vs = show_setups m vs"
  by (induction m vs rule: show_setups.induct) (auto simp: same_shape_show(3))

lemma parse_show_setups:
  assumes "graph_ok m" "names_ok m" "fd m = -1" "\<forall>v \<in> set vs. joined m v" "vs \<noteq> []"
  shows "media_parse_setup_links k m (show_setups m vs) = Some (setup_all k m vs)"
  using assms
proof (induction vs arbitrary: m)
  case (Cons v vs)
  obtain src snk fl where v: "v = (src, snk, fl)" by (metis prod.exhaust)
  obtain r x where sx: "setup_spec k m src snk fl = (r, x)" by force
  have j: "joined m (src, snk, fl)" using Cons.prems(4) v by simp
  then have "pad_ok m src" by (simp add: joined_def)
  note x = setup_spec_ok [OF Cons.prems(1) this Cons.prems(3) sx]
  have sh: "same_shape m x" using x by blast
  have jx: "\<forall>v \<in> set vs. joined x v" using Cons.prems(4) same_shape_show(2) [OF sh] by simp
  have nx: "names_ok x" using Cons.prems(2) same_shape_show(1) [OF sh] by simp
  note step = parse_show_setup [OF Cons.prems(1-3) j, of k, unfolded sx]
  show ?case
  proof (cases "vs = []")
    case True
    then show ?thesis using step [of "[]"]
      by (subst media_parse_setup_links.simps) (simp add: v sx skip_space_def char_at_def Let_def)
  next
    case False
    then have s: "show_setups m (v # vs) = show_setup m v @ CHR '','' # show_setups x vs"
      using show_setups_shape [OF sh, of vs] Cons.prems(4) by (cases vs) simp_all
    have "skip_space (CHR '','' # t) = CHR '','' # t" for t by (simp add: skip_space_def isspace_def)
    then show ?thesis using step [of "CHR '','' # show_setups x vs"] Cons.IH [OF _ nx _ jx False] x
      unfolding s by (subst media_parse_setup_links.simps) (simp add: v sx char_at_def Let_def)
  qed
qed simp

section \<open>Properties\<close>

text \<open>C29: \<open>media_parse_setup_links\<close> deals with every text: on a well-formed graph, whatever the text and
  the answers of the kernel are, the loop ends, without following a bad pointer, and leaves the
  device closed and the graph well-formed, changed in the flags of links at most.\<close>

theorem parse_setup_links_terminates:
  assumes "graph_ok m" "fd m = -1"
  shows "\<exists>r x. media_parse_setup_links k m s = Some (r, x) \<and> graph_ok x \<and> fd x = -1 \<and> same_shape m x"
  using setup_links_ok [OF assms(1) assms same_shape_refl] .

theorem parse_setup_links_terminates_witness:
  "\<exists>r x. media_parse_setup_links demo_kernel demo_device ''sensor:0->, ['' = Some (r, x) \<and> graph_ok x"
  using parse_setup_links_terminates [OF demo_graph_ok demo_fd(1), of demo_kernel "''sensor:0->, [''"] by blast

text \<open>C20: the text for a list of link setups is understood: for setups of existing links, printed with
  quoted names, pad numbers and flags and separated by commas, \<open>media_parse_setup_links\<close> performs
  exactly these setups, in order, up to the first that fails, and returns its result.\<close>

theorem parse_setup_links_round_trip:
  assumes "graph_ok m" "names_ok m" "fd m = -1" "\<forall>v \<in> set vs. joined m v" "vs \<noteq> []"
  shows "media_parse_setup_links k m (show_setups m vs) = Some (setup_all k m vs)"
  by (rule parse_show_setups [OF assms])

theorem parse_setup_links_round_trip_witness:
  "show_setups demo_device [((0, 0), (1, 0), 1)] = CHR 0x22 # ''sensor'' @ CHR 0x22 # '':0->'' @ CHR 0x22 # ''receiver'' @
     CHR 0x22 # '':0[1]'' \<and>
   media_parse_setup_links demo_kernel demo_device (show_setups demo_device [((0, 0), (1, 0), 1)]) =
     Some (setup_all demo_kernel demo_device [((0, 0), (1, 0), 1)])"
proof
  show "show_setups demo_device [((0, 0), (1, 0), 1)] = CHR 0x22 # ''sensor'' @ CHR 0x22 # '':0->'' @ CHR 0x22 # ''receiver'' @
     CHR 0x22 # '':0[1]''"
    by (simp add: show_setup_def show_pad_def demo_device_def demo_entity_def dec.simps digit_def char_of_def bit_0)
  have "names_ok demo_device"
    by (simp add: names_ok_def demo_device_def demo_entity_def isquote_def)
  moreover have "joined demo_device ((0, 0), (1, 0), 1)"
    by (simp add: joined_def demo_pad_ok) (simp add: demo_device_def demo_entity_def)
  ultimately show "media_parse_setup_links demo_kernel demo_device (show_setups demo_device [((0, 0), (1, 0), 1)]) =
     Some (setup_all demo_kernel demo_device [((0, 0), (1, 0), 1)])"
    by (intro parse_setup_links_round_trip [OF demo_graph_ok _ demo_fd(1)]) simp_all
qed

end
