(* ===== verification/Media_Enum.thy ===== *)
theory Media_Enum
  imports Media_Parse
begin

text \<open>
  Creating, filling and releasing the media device: the second half of \<open>mediactl.c\<close> up to the parser.
  The kernel is asked for the entities one after the other, then for the pads and links of each; every
  link is entered twice, with the entity of its source and with that of its sink.
\<close>

section \<open>Sizes\<close>

definition sizeof_pad :: nat where
  "sizeof_pad = 32"

definition sizeof_link :: nat where
  "sizeof_link = 40"

definition sizeof_entity :: nat where
  "sizeof_entity = 328"

definition sizeof_pad_desc :: nat where
  "sizeof_pad_desc = 20"

definition sizeof_link_desc :: nat where
  "sizeof_link_desc = 52"

section \<open>Adding a link\<close>

text \<open>A pad and a link whose memory has not been written yet.\<close>

definition null_pad :: media_pad where
  "null_pad = \<lparr>pad_entity = None, pad_index = 0, pad_flags = 0\<rparr>"

definition null_link :: media_link where
  "null_link = \<lparr>source = (0, 0), sink = (0, 0), twin = None, lflags = 0\<rparr>"

text \<open>After \<open>realloc\<close> the twins of the links of entity \<open>i\<close> are made to point into the new block.\<close>

fun rewire :: "nat \<Rightarrow> nat \<Rightarrow> nat \<Rightarrow> media_device \<Rightarrow> media_device option" where
  "rewire i q 0 m = Some m"
| "rewire i q (Suc n) m = do {
     l \<leftarrow> the_link m (i, links_gen (entities m ! i), q);
     t \<leftarrow> twin l;
     m \<leftarrow> upd_link m t (\<lambda>l. l\<lparr>twin := Some (i, links_gen (entities m ! i), q)\<rparr>);
     rewire i (Suc q) n m }"

definition upd_entity :: "media_device \<Rightarrow> nat \<Rightarrow> (media_entity \<Rightarrow> media_entity) \<Rightarrow> media_device" where
  "upd_entity m i f = m\<lparr>entities := (entities m)[i := f (entities m ! i)]\<rparr>"

text \<open>
  \<open>media_entity_add_link\<close> returns a pointer into the block of links, here the index in it, or null. In a
  block of size zero the element does not exist; every caller writes to it at once.
\<close>

definition media_entity_add_link :: "kernel \<Rightarrow> media_device \<Rightarrow> nat \<Rightarrow> (nat option \<times> media_device) option" where
  "media_entity_add_link k m i = do {
     e \<leftarrow> c_read (entities m) (int i);
     (ok, m) \<leftarrow>
       (if length (links e) \<ge> max_links e then
          let ml = max_links e * 2 in
          if \<not> k_mem k (ml * sizeof_link) then Some (False, m)
          else do {
            m \<leftarrow> rewire i 0 (length (links e)) (upd_entity m i (\<lambda>e. e\<lparr>links_gen := links_gen e + 1\<rparr>));
            Some (True, upd_entity m i (\<lambda>e. e\<lparr>max_links := ml\<rparr>)) }
        else Some (True, m));
     if \<not> ok then Some (None, m)
     else if length (links (entities m ! i)) < max_links (entities m ! i)
       then Some (Some (length (links e)), upd_entity m i (\<lambda>e. e\<lparr>links := links e @ [null_link]\<rparr>))
       else None }"

section \<open>Enumerating pads and links\<close>

text \<open>The body of the inner loop of \<open>media_enum_links\<close>: one link of the kernel is entered twice.\<close>

definition enum_link :: "kernel \<Rightarrow> media_device \<Rightarrow> link_desc \<Rightarrow> (int \<times> media_device) option" where
  "enum_link k m d =
     (case (media_get_entity_by_id m (fst (ld_source d)), media_get_entity_by_id m (fst (ld_sink d))) of
        (Some s, Some t) \<Rightarrow>
          let write = (\<lambda>l. l\<lparr>source := (s, unat (snd (ld_source d))), sink := (t, unat (snd (ld_sink d))),
                            lflags := ld_flags d\<rparr>)
          in do {
            (f, m) \<leftarrow> media_entity_add_link k m s;
            j \<leftarrow> f;
            let fwd = (s, links_gen (entities m ! s), j);
            m \<leftarrow> upd_link m fwd write;
            (b, m) \<leftarrow> media_entity_add_link k m t;
            j' \<leftarrow> b;
            let bwd = (t, links_gen (entities m ! t), j');
            m \<leftarrow> upd_link m bwd write;
            m \<leftarrow> upd_link m fwd (\<lambda>l. l\<lparr>twin := Some bwd\<rparr>);
            m \<leftarrow> upd_link m bwd (\<lambda>l. l\<lparr>twin := Some fwd\<rparr>);
            Some (0, m) }
      | _ \<Rightarrow> Some (- EINVAL, m))"

fun enum_entity_links :: "kernel \<Rightarrow> link_desc list \<Rightarrow> int \<Rightarrow> media_device \<Rightarrow> (int \<times> media_device) option" where
  "enum_entity_links k [] ret m = Some (ret, m)"
| "enum_entity_links k (d # ds) ret m = do {
     (r, m) \<leftarrow> enum_link k m d;
     enum_entity_links k ds (if r < 0 then r else ret) m }"

text \<open>The arrays handed to the kernel are zeroed; \<open>answer\<close> is what they hold after it has filled them.\<close>

definition answer :: "'a \<Rightarrow> nat \<Rightarrow> 'a list \<Rightarrow> 'a list" where
  "answer z n xs = take n xs @ replicate (n - length xs) z"

definition fill_pads :: "media_device \<Rightarrow> nat \<Rightarrow> (u32 \<times> u32) list \<Rightarrow> media_device option" where
  "fill_pads m i ps =
     (let e = entities m ! i in
      if length (pads e) < npads (info e) then None
      else Some (upd_entity m i (\<lambda>e. e\<lparr>pads :=
        map (\<lambda>p. \<lparr>pad_entity = Some (ents_gen m, i), pad_index = fst p, pad_flags = snd p\<rparr>)
          (answer (0, 0) (npads (info e)) ps) @ drop (npads (info e)) (pads e)\<rparr>)))"

definition no_link :: link_desc where
  "no_link = \<lparr>ld_source = (0, 0), ld_sink = (0, 0), ld_flags = 0\<rparr>"

fun enum_links_loop :: "kernel \<Rightarrow> nat \<Rightarrow> nat \<Rightarrow> int \<Rightarrow> media_device \<Rightarrow> (int \<times> media_device) option" where
  "enum_links_loop k i 0 ret m = Some (ret, m)"
| "enum_links_loop k i (Suc n) ret m = do {
     e \<leftarrow> c_read (entities m) (int i);
     case k_links k (ent_id (info e)) of
       Inl err \<Rightarrow> Some (- err, m)
     | Inr (ps, ls) \<Rightarrow>
         if (0 < npads (info e) \<and> \<not> k_mem k (npads (info e) * sizeof_pad_desc)) \<or>
            (0 < nlinks (info e) \<and> \<not> k_mem k (nlinks (info e) * sizeof_link_desc)) then None
         else do {
           m \<leftarrow> fill_pads m i ps;
           (ret, m) \<leftarrow> enum_entity_links k (answer no_link (nlinks (info e)) ls) ret m;
           enum_links_loop k (Suc i) n ret m } }"

definition media_enum_links :: "kernel \<Rightarrow> media_device \<Rightarrow> (int \<times> media_device) option" where
  "media_enum_links k m = enum_links_loop k 0 (length (entities m)) 0 m"

section \<open>Device names\<close>

text \<open>\<open>media_get_devname_sysfs\<close>; the buffers \<open>sysname\<close> and \<open>devname\<close> hold 32 characters, \<open>target\<close> 1024, and
  writing more, or the terminator, behind one of them is undefined. \<open>dn\<close> is the entity's \<open>devname\<close>.\<close>

definition media_get_devname_sysfs :: "kernel \<Rightarrow> media_entity_desc \<Rightarrow> string \<Rightarrow> (int \<times> string) option" where
  "media_get_devname_sysfs k d dn =
     (let sysname = ''/sys/dev/char/'' @ dec (unat (major d)) @ '':'' @ dec (unat (minor d)) in
      if length sysname \<ge> 32 then None
      else case k_readlink k sysname of
        Inl err \<Rightarrow> Some (- err, dn)
      | Inr target \<Rightarrow>
          if length target \<ge> 1024 then None
          else if CHR ''/'' \<notin> set target then Some (- EINVAL, dn)
          else let dev = ''/dev/'' @ rev (takeWhile (\<lambda>c. c \<noteq> CHR ''/'') (rev target)) in
            if length dev \<ge> 32 then None
            else case k_stat k dev of
              Inl err \<Rightarrow> Some (- err, dn)
            | Inr (ma, mi) \<Rightarrow> Some (0, if ma = major d \<and> mi = minor d then dev else dn))"

section \<open>Enumerating entities\<close>

definition MEDIA_ENT_FL_DEFAULT :: u32 where
  "MEDIA_ENT_FL_DEFAULT = 1"

definition MEDIA_ENT_T_DEVNODE :: u32 where
  "MEDIA_ENT_T_DEVNODE = 0x10000"

definition MEDIA_ENT_T_V4L2_SUBDEV :: u32 where
  "MEDIA_ENT_T_V4L2_SUBDEV = 0x20000"

definition media_entity_type :: "media_entity_desc \<Rightarrow> u32" where
  "media_entity_type d = ent_type d AND 0x00ff0000"

text \<open>The \<open>switch\<close> that remembers a default entity; \<open>p\<close> points to it.\<close>

definition set_default :: "u32 \<Rightarrow> ent_ptr \<Rightarrow> media_device \<Rightarrow> media_device" where
  "set_default t p m =
     (if t = MEDIA_ENT_T_DEVNODE_V4L then m\<lparr>def_v4l := Some p\<rparr>
      else if t = MEDIA_ENT_T_DEVNODE_FB then m\<lparr>def_fb := Some p\<rparr>
      else if t = MEDIA_ENT_T_DEVNODE_ALSA then m\<lparr>def_alsa := Some p\<rparr>
      else if t = MEDIA_ENT_T_DEVNODE_DVB then m\<lparr>def_dvb := Some p\<rparr>
      else m)"

text \<open>One pass of the loop of \<open>media_enum_entities\<close> from the \<open>ioctl\<close> on, for the answer \<open>d\<close>: the new
  device, or the error \<open>-ENOMEM\<close>. libudev is not configured, so the name comes from sysfs.\<close>

definition enum_entity :: "kernel \<Rightarrow> media_entity_desc \<Rightarrow> media_device \<Rightarrow> (int \<times> media_device) option" where
  "enum_entity k d m =
     (if \<not> k_mem k (npads d * sizeof_pad) \<or> \<not> k_mem k ((npads d + nlinks d) * sizeof_link)
      then Some (- ENOMEM, m)
      else
        let e = \<lparr>info = d, pads = replicate (npads d) null_pad, links = [], max_links = npads d + nlinks d,
                 links_gen = 0, devname = '''', efd = -1\<rparr>;
            i = length (entities m);
            m = m\<lparr>entities := entities m @ [e]\<rparr>;
            m = (if \<not> no_flag (ent_flags d) MEDIA_ENT_FL_DEFAULT then set_default (ent_type d) (ents_gen m, i) m else m)
        in if media_entity_type d \<noteq> MEDIA_ENT_T_DEVNODE \<and> media_entity_type d \<noteq> MEDIA_ENT_T_V4L2_SUBDEV
           then Some (0, m)
           else do {
             (r, dn) \<leftarrow> media_get_devname_sysfs k d '''';
             Some (0, upd_entity m i (\<lambda>e. e\<lparr>devname := dn\<rparr>)) })"

text \<open>The loop ends only when the kernel answers with an error or memory runs out.\<close>

partial_function (option) enum_entities_loop :: "kernel \<Rightarrow> u32 \<Rightarrow> media_device \<Rightarrow> (int \<times> media_device) option" where
  "enum_entities_loop k i m =
     (if \<not> k_mem k ((length (entities m) + 1) * sizeof_entity) then None
      else
        let m = m\<lparr>ents_gen := ents_gen m + 1\<rparr> in
        case k_entity k (i OR MEDIA_ENT_ID_FLAG_NEXT) of
          Inl err \<Rightarrow> Some (if err \<noteq> EINVAL then - err else 0, m)
        | Inr d \<Rightarrow> do {
            (ret, m) \<leftarrow> enum_entity k d m;
            if ret < 0 then Some (ret, m) else enum_entities_loop k (ent_id d) m })"

definition media_enum_entities :: "kernel \<Rightarrow> media_device \<Rightarrow> (int \<times> media_device) option" where
  "media_enum_entities k m = enum_entities_loop k 0 m"

definition media_device_enumerate :: "kernel \<Rightarrow> media_device \<Rightarrow> (int \<times> media_device) option" where
  "media_device_enumerate k m =
     (if ents_gen m > 0 then Some (0, m)
      else
        let (ret, m) = media_device_open k m in
        if ret < 0 then Some (ret, m)
        else
          let err = k_info k (trace m) in
          if err \<noteq> 0 then Some (- err, media_device_close m)
          else do {
            (ret, m) \<leftarrow> media_enum_entities k m;
            if ret < 0 then Some (ret, media_device_close m)
            else do {
              (ret, m) \<leftarrow> media_enum_links k m;
              if ret < 0 then Some (ret, media_device_close m)
              else Some (0, media_device_close m) } })"

section \<open>Create and destroy\<close>

definition media_device_blank :: media_device where
  "media_device_blank = \<lparr>fd = -1, refcount = 1, devnode = None, entities = [], ents_gen = 0, def_v4l = None,
     def_fb = None, def_alsa = None, def_dvb = None, trace = []\<rparr>"

text \<open>The parameters say whether \<open>calloc\<close> and \<open>strdup\<close> succeed.\<close>

definition media_device_new :: "bool \<Rightarrow> bool \<Rightarrow> string \<Rightarrow> media_device option" where
  "media_device_new ok_calloc ok_strdup dn =
     (if \<not> ok_calloc \<or> \<not> ok_strdup then None else Some (media_device_blank\<lparr>devnode := Some dn\<rparr>))"

definition media_device_new_emulated :: "bool \<Rightarrow> media_device option" where
  "media_device_new_emulated ok_calloc = (if \<not> ok_calloc then None else Some media_device_blank)"

definition media_device_ref :: "media_device \<Rightarrow> media_device" where
  "media_device_ref m = m\<lparr>refcount := refcount m + 1\<rparr>"

text \<open>What \<open>media_device_unref\<close> gives back, in order, when it drops the last reference.\<close>

datatype freed = FreePads nat | FreeLinks nat | CloseFd int | FreeEntities | FreeDevnode | FreeMedia

definition media_device_unref :: "media_device \<Rightarrow> freed list \<times> media_device" where
  "media_device_unref m =
     (let m = m\<lparr>refcount := refcount m - 1\<rparr> in
      if refcount m > 0 then ([], m)
      else (concat (map (\<lambda>i. [FreePads i, FreeLinks i] @
              (if efd (entities m ! i) \<noteq> -1 then [CloseFd (efd (entities m ! i))] else []))
              [0..<length (entities m)]) @ [FreeEntities, FreeDevnode, FreeMedia], m))"

definition media_device_add_entity ::
  "kernel \<Rightarrow> media_entity_desc \<Rightarrow> string \<Rightarrow> media_device \<Rightarrow> int \<times> media_device" where
  "media_device_add_entity k desc dn m =
     (if \<not> k_mem k ((length (entities m) + 1) * sizeof_entity) then (- ENOMEM, m)
      else
        let t = ent_type desc;
            e = \<lparr>info = \<lparr>ent_id = 0, ent_name = ent_name desc, ent_type = t,
                   ent_flags = (if \<not> no_flag (ent_flags desc) MEDIA_ENT_FL_DEFAULT then MEDIA_ENT_FL_DEFAULT else 0),
                   npads = 0, nlinks = 0,
                   major = (if t = MEDIA_ENT_T_DEVNODE_V4L \<or> t = MEDIA_ENT_T_DEVNODE_FB \<or>
                               t = MEDIA_ENT_T_DEVNODE_ALSA \<or> t = MEDIA_ENT_T_DEVNODE_DVB then major desc else 0),
                   minor = (if t = MEDIA_ENT_T_DEVNODE_V4L \<or> t = MEDIA_ENT_T_DEVNODE_FB \<or>
                               t = MEDIA_ENT_T_DEVNODE_ALSA \<or> t = MEDIA_ENT_T_DEVNODE_DVB then minor desc else 0)\<rparr>,
                 pads = [], links = [], max_links = 0, links_gen = 0, devname = take 31 dn, efd = -1\<rparr>;
            m = m\<lparr>ents_gen := ents_gen m + 1, entities := entities m @ [e]\<rparr>
        in (0, if \<not> no_flag (ent_flags desc) MEDIA_ENT_FL_DEFAULT
               then set_default t (ents_gen m, length (entities m) - 1) m else m))"

section \<open>The blocks of links\<close>

definition wired :: "media_device \<Rightarrow> nat \<Rightarrow> nat \<Rightarrow> bool" where
  "wired m a b \<longleftrightarrow> (\<exists>i j. twin (lnk m a b) = Some (i, links_gen (entities m ! i), j) \<and> has_link m i j \<and> i \<noteq> a \<and>
     twin (lnk m i j) = Some (a, links_gen (entities m ! a), b))"

text \<open>Every link that has a twin is the twin of its twin.\<close>

definition twins_ok :: "media_device \<Rightarrow> bool" where
  "twins_ok m \<longleftrightarrow> (\<forall>a b. has_link m a b \<and> twin (lnk m a b) \<noteq> None \<longrightarrow> wired m a b)"

definition all_twinned :: "media_device \<Rightarrow> nat \<Rightarrow> bool" where
  "all_twinned m i \<longleftrightarrow> (\<forall>b < length (links (entities m ! i)). twin (lnk m i b) \<noteq> None)"

definition link_view :: "media_link \<Rightarrow> pad_ptr \<times> pad_ptr \<times> u32" where
  "link_view l = (source l, sink l, lflags l)"

text \<open>States that agree on everything but the entities.\<close>

definition same_frame :: "media_device \<Rightarrow> media_device \<Rightarrow> bool" where
  "same_frame m x \<longleftrightarrow> x\<lparr>entities := []\<rparr> = m\<lparr>entities := []\<rparr>"

lemma same_frame_refl [simp]: "same_frame m m"
  by (simp add: same_frame_def)

lemma same_frame_trans: "same_frame a b \<Longrightarrow> same_frame b c \<Longrightarrow> same_frame a c"
  by (simp add: same_frame_def)

lemma same_frame_simps [simp]:
  "same_frame m (set_lnk x i j l) = same_frame m x" "same_frame m (upd_entity x i f) = same_frame m x"
  "same_frame (upd_entity m i f) x = same_frame m x" "same_frame (set_lnk m i j l) x = same_frame m x"
  by (simp_all add: same_frame_def set_lnk_def upd_entity_def)

lemma same_frame_fields:
  assumes "same_frame m x"
  shows "ents_gen x = ents_gen m" "fd x = fd m" "trace x = trace m" "refcount x = refcount m"
    "devnode x = devnode m" "def_v4l x = def_v4l m" "def_fb x = def_fb m" "def_alsa x = def_alsa m" "def_dvb x = def_dvb m"
  using assms by (auto simp: same_frame_def dest: arg_cong [where f = ents_gen] arg_cong [where f = fd]
    arg_cong [where f = trace] arg_cong [where f = refcount] arg_cong [where f = devnode]
    arg_cong [where f = def_v4l] arg_cong [where f = def_fb] arg_cong [where f = def_alsa] arg_cong [where f = def_dvb])

text \<open>The state \<open>x\<close> in the middle of \<open>rewire\<close>, \<open>q\<close> links of entity \<open>i\<close> done, started after the block of
  \<open>m\<close> moved.\<close>

definition rewired :: "media_device \<Rightarrow> nat \<Rightarrow> nat \<Rightarrow> media_device \<Rightarrow> bool" where
  "rewired m i q x \<longleftrightarrow> same_frame m x \<and> length (entities x) = length (entities m) \<and>
     (\<forall>a < length (entities m). info (entities x ! a) = info (entities m ! a) \<and>
        pads (entities x ! a) = pads (entities m ! a) \<and> max_links (entities x ! a) = max_links (entities m ! a) \<and>
        links_gen (entities x ! a) = links_gen (entities m ! a) + of_bool (a = i) \<and>
        length (links (entities x ! a)) = length (links (entities m ! a))) \<and>
     (\<forall>a b. has_link m a b \<longrightarrow> lnk x a b =
        (if \<exists>c < q. twin (lnk m a b) = Some (i, links_gen (entities m ! i), c)
         then (lnk m a b)\<lparr>twin := map_option (\<lambda>(u, g, v). (u, g + 1, v)) (twin (lnk m a b))\<rparr> else lnk m a b))"

lemma rewired_has_link: "rewired m i q x \<Longrightarrow> has_link x a b = has_link m a b"
  by (auto simp: rewired_def has_link_def)

lemma rewired_lnk: "rewired m i q x \<Longrightarrow> has_link m a b \<Longrightarrow> lnk x a b =
    (if \<exists>c < q. twin (lnk m a b) = Some (i, links_gen (entities m ! i), c)
     then (lnk m a b)\<lparr>twin := map_option (\<lambda>(u, g, v). (u, g + 1, v)) (twin (lnk m a b))\<rparr> else lnk m a b)"
  by (simp add: rewired_def)

lemma rewire_ok:
  assumes "twins_ok m" "all_twinned m i" "i < length (entities m)"
  shows "rewired m i q x \<Longrightarrow> q + n = length (links (entities m ! i)) \<Longrightarrow>
    \<exists>y. rewire i q n x = Some y \<and> rewired m i (q + n) y"
proof (induction n arbitrary: q x)
  case 0
  then show ?case by simp
next
  case (Suc n)
  let ?G = "links_gen (entities m ! i)"
  have h: "has_link m i q" using Suc.prems(2) assms(3) by (simp add: has_link_def)
  have "wired m i q" using assms(1,2) h by (auto simp: twins_ok_def all_twinned_def has_link_def)
  then obtain i' j' where w: "twin (lnk m i q) = Some (i', links_gen (entities m ! i'), j')" "has_link m i' j'"
    "i' \<noteq> i" "twin (lnk m i' j') = Some (i, ?G, q)"
    by (auto simp: wired_def)
  note R = Suc.prems(1) and hl = rewired_has_link [OF Suc.prems(1)]
  have lx: "lnk x i q = lnk m i q" "lnk x i' j' = lnk m i' j'"
    using rewired_lnk [OF R h] rewired_lnk [OF R w(2)] w(1,3,4) by simp_all
  have gx: "links_gen (entities x ! i') = links_gen (entities m ! i')" "links_gen (entities x ! i) = Suc ?G"
    using R w(2,3) assms(3) by (auto simp: rewired_def has_link_def)
  let ?y = "set_lnk x i' j' ((lnk m i' j')\<lparr>twin := Some (i, Suc ?G, q)\<rparr>)"
  have l1: "the_link x (i, links_gen (entities x ! i), q) = Some (lnk m i q)"
    using the_link_ok [of x i q] h hl lx by simp
  have u1: "upd_link x (i', links_gen (entities m ! i'), j') (\<lambda>l. l\<lparr>twin := Some (i, links_gen (entities x ! i), q)\<rparr>) = Some ?y"
    using upd_link_ok [of x i' j'] w(2) hl lx gx by simp
  have hx: "has_link x i' j'" using w(2) hl by simp
  have "rewired m i (Suc q) ?y"
    unfolding rewired_def
  proof (intro conjI allI impI)
    show "same_frame m ?y" using R by (simp add: rewired_def)
    show "length (entities ?y) = length (entities m)" using R by (simp add: rewired_def)
    fix a assume "a < length (entities m)"
    then show "info (entities ?y ! a) = info (entities m ! a)" "pads (entities ?y ! a) = pads (entities m ! a)"
      "max_links (entities ?y ! a) = max_links (entities m ! a)"
      "links_gen (entities ?y ! a) = links_gen (entities m ! a) + of_bool (a = i)"
      "length (links (entities ?y ! a)) = length (links (entities m ! a))"
      using R w(3) by (auto simp: set_lnk_entity [OF hx] rewired_def)
  next
    fix a b assume ab: "has_link m a b"
    have uniq: "(a, b) = (i', j')" if "twin (lnk m a b) = Some (i, ?G, q)"
    proof -
      have "wired m a b" using assms(1) ab that by (auto simp: twins_ok_def)
      then show ?thesis using that w(1) by (auto simp: wired_def)
    qed
    note o = rewired_lnk [OF R ab]
    show "lnk ?y a b = (if \<exists>c < Suc q. twin (lnk m a b) = Some (i, ?G, c)
         then (lnk m a b)\<lparr>twin := map_option (\<lambda>(u, g, v). (u, g + 1, v)) (twin (lnk m a b))\<rparr> else lnk m a b)"
    proof (cases "(a, b) = (i', j')")
      case True
      then show ?thesis using w(4) by (auto simp: lnk_set_lnk [OF hx])
    next
      case False
      then have "twin (lnk m a b) \<noteq> Some (i, ?G, q)" using uniq by blast
      then show ?thesis using o False by (auto simp: lnk_set_lnk [OF hx] less_Suc_eq)
    qed
  qed
  from Suc.IH [OF this] Suc.prems(2) show ?case by (simp add: l1 [unfolded gx] w(1) u1 [unfolded gx] gx)
qed

text \<open>What \<open>media_entity_add_link\<close> does for entity \<open>i\<close>: one blank link more, the others as before, and
  the pointers between them all valid again.\<close>

definition room :: "media_device \<Rightarrow> nat \<Rightarrow> bool" where
  "room m i \<longleftrightarrow> 0 < max_links (entities m ! i) \<and> length (links (entities m ! i)) \<le> max_links (entities m ! i)"

definition grown :: "media_device \<Rightarrow> nat \<Rightarrow> media_device \<Rightarrow> bool" where
  "grown m i x \<longleftrightarrow> same_frame m x \<and> length (entities x) = length (entities m) \<and>
     (\<forall>a < length (entities m). info (entities x ! a) = info (entities m ! a) \<and>
        pads (entities x ! a) = pads (entities m ! a) \<and>
        (room m a \<longrightarrow> a \<noteq> i \<longrightarrow> room x a) \<and>
        (a \<noteq> i \<longrightarrow> links_gen (entities x ! a) = links_gen (entities m ! a)) \<and>
        length (links (entities x ! a)) = length (links (entities m ! a)) + of_bool (a = i)) \<and>
     (\<forall>a b. has_link m a b \<longrightarrow> link_view (lnk x a b) = link_view (lnk m a b) \<and>
        (twin (lnk x a b) = None) = (twin (lnk m a b) = None) \<and> twin_of x (a, b) = twin_of m (a, b)) \<and>
     lnk x i (length (links (entities m ! i))) = null_link \<and> twins_ok x"

lemma upd_entity_nth:
  "i < length (entities m) \<Longrightarrow> a < length (entities m) \<Longrightarrow>
    entities (upd_entity m i f) ! a = (if a = i then f (entities m ! i) else entities m ! a)"
  by (simp add: upd_entity_def nth_list_update)

lemma length_upd_entity [simp]: "length (entities (upd_entity m i f)) = length (entities m)"
  by (simp add: upd_entity_def)

text \<open>Appending the blank link.\<close>

lemma grown_append:
  assumes "twins_ok m" "i < length (entities m)"
  shows "grown m i (upd_entity m i (\<lambda>e. e\<lparr>links := links e @ [null_link]\<rparr>))" (is "grown m i ?x")
proof -
  note n = upd_entity_nth [OF assms(2)]
  have l: "lnk ?x a b = lnk m a b" if "has_link m a b" for a b
    using that by (auto simp: has_link_def lnk_def n nth_append)
  have h: "has_link ?x a b \<longleftrightarrow> has_link m a b \<or> (a = i \<and> b = length (links (entities m ! i)))" for a b
    using assms(2) by (cases "a = i") (auto simp: has_link_def n less_Suc_eq)
  have nl: "lnk ?x i (length (links (entities m ! i))) = null_link"
    using assms(2) by (simp add: lnk_def n)
  have g: "links_gen (entities ?x ! a) = links_gen (entities m ! a)" if "a < length (entities m)" for a
    using that by (simp add: n)
  have "twins_ok ?x"
    unfolding twins_ok_def
  proof (intro allI impI)
    fix a b assume a: "has_link ?x a b \<and> twin (lnk ?x a b) \<noteq> None"
    then have hm: "has_link m a b" using h nl by (auto simp: null_link_def)
    then have "wired m a b" using a assms(1) l by (auto simp: twins_ok_def)
    then obtain i' j where w: "twin (lnk m a b) = Some (i', links_gen (entities m ! i'), j)" "has_link m i' j" "i' \<noteq> a"
      "twin (lnk m i' j) = Some (a, links_gen (entities m ! a), b)" by (auto simp: wired_def)
    have "a < length (entities m)" "i' < length (entities m)" using hm w(2) by (simp_all add: has_link_def)
    then show "wired ?x a b" using w hm by (auto simp: wired_def l h g)
  qed
  then show ?thesis using assms(2) l nl
    by (auto simp: grown_def n twin_of_def room_def)
qed

text \<open>Moving the block.\<close>

lemma grown_after_move:
  assumes "rewired m i (length (links (entities m ! i))) y" "twins_ok m" "all_twinned m i" "i < length (entities m)"
  shows "twins_ok y" "\<And>a b. has_link m a b \<Longrightarrow> link_view (lnk y a b) = link_view (lnk m a b) \<and>
    (twin (lnk y a b) = None) = (twin (lnk m a b) = None) \<and> twin_of y (a, b) = twin_of m (a, b)"
proof -
  let ?G = "links_gen (entities m ! i)"
  have hl: "has_link y a b = has_link m a b" for a b by (rule rewired_has_link [OF assms(1)])
  have g: "links_gen (entities y ! a) = links_gen (entities m ! a) + of_bool (a = i)" if "a < length (entities m)" for a
    using assms(1) that by (simp add: rewired_def)
  have l: "lnk y a b = (if \<exists>c < length (links (entities m ! i)). twin (lnk m a b) = Some (i, ?G, c)
         then (lnk m a b)\<lparr>twin := map_option (\<lambda>(u, g, v). (u, g + 1, v)) (twin (lnk m a b))\<rparr> else lnk m a b)"
    if "has_link m a b" for a b by (rule rewired_lnk [OF assms(1) that])
  show v: "link_view (lnk y a b) = link_view (lnk m a b) \<and>
    (twin (lnk y a b) = None) = (twin (lnk m a b) = None) \<and> twin_of y (a, b) = twin_of m (a, b)"
    if "has_link m a b" for a b
    by (auto simp: l [OF that] link_view_def twin_of_def)
  have tw: "twin (lnk y a b) = Some (i', links_gen (entities y ! i'), j)"
    if "has_link m a b" "twin (lnk m a b) = Some (i', links_gen (entities m ! i'), j)" "has_link m i' j" for a b i' j
    using l [OF that(1)] that(2,3) g [of i'] by (auto simp: has_link_def)
  show "twins_ok y"
    unfolding twins_ok_def
  proof (intro allI impI)
    fix a b assume a: "has_link y a b \<and> twin (lnk y a b) \<noteq> None"
    then have hm: "has_link m a b" by (simp add: hl)
    then have "wired m a b" using a v [OF hm] assms(2) by (simp add: twins_ok_def)
    then obtain i' j where w: "twin (lnk m a b) = Some (i', links_gen (entities m ! i'), j)" "has_link m i' j" "i' \<noteq> a"
      "twin (lnk m i' j) = Some (a, links_gen (entities m ! a), b)" by (auto simp: wired_def)
    show "wired y a b" using tw [OF hm w(1,2)] tw [OF w(2,4) hm] w(2,3) by (auto simp: wired_def hl)
  qed
qed

lemma upd_max_links:
  assumes "i < length (entities y)"
  shows "lnk (upd_entity y i (\<lambda>e. e\<lparr>max_links := n\<rparr>)) = lnk y"
    "has_link (upd_entity y i (\<lambda>e. e\<lparr>max_links := n\<rparr>)) = has_link y"
    "twins_ok (upd_entity y i (\<lambda>e. e\<lparr>max_links := n\<rparr>)) = twins_ok y"
proof -
  let ?x = "upd_entity y i (\<lambda>e. e\<lparr>max_links := n\<rparr>)"
  have e: "links (entities ?x ! a) = links (entities y ! a)" "links_gen (entities ?x ! a) = links_gen (entities y ! a)" for a
    by (cases "a = i"; simp add: upd_entity_def assms)+
  show l: "lnk ?x = lnk y" and h: "has_link ?x = has_link y" by (simp_all add: lnk_def has_link_def e fun_eq_iff)
  show "twins_ok ?x = twins_ok y" by (simp add: twins_ok_def wired_def l h e)
qed

lemma add_link_ok:
  assumes "twins_ok m" "all_twinned m i" "i < length (entities m)" "room m i" "\<And>n. k_mem k n"
  shows "\<exists>x. media_entity_add_link k m i = Some (Some (length (links (entities m ! i))), x) \<and> grown m i x \<and> room x i"
proof (cases "length (links (entities m ! i)) \<ge> max_links (entities m ! i)")
  case False
  then show ?thesis using grown_append [OF assms(1,3)] assms(3,4)
    by (auto simp: media_entity_add_link_def room_def upd_entity_nth)
next
  case True
  let ?n = "length (links (entities m ! i))" and ?ml = "max_links (entities m ! i) * 2"
  let ?m0 = "upd_entity m i (\<lambda>e. e\<lparr>links_gen := links_gen e + 1\<rparr>)"
  have "lnk ?m0 a b = lnk m a b" if "has_link m a b" for a b
    using that assms(3) by (cases "a = i") (auto simp: lnk_def upd_entity_nth has_link_def)
  then have r0: "rewired m i 0 ?m0" using assms(3) by (auto simp: rewired_def upd_entity_nth)
  obtain y where y: "rewire i 0 ?n ?m0 = Some y" "rewired m i ?n y"
    using rewire_ok [OF assms(1-3) r0, of ?n] by auto
  have ylen: "length (entities y) = length (entities m)" "length (links (entities y ! i)) = ?n"
    using y(2) assms(3) by (auto simp: rewired_def)
  note mv = grown_after_move [OF y(2) assms(1-3)]
  let ?x = "upd_entity y i (\<lambda>e. e\<lparr>max_links := ?ml\<rparr>)"
  have i: "i < length (entities ?x)" "i < length (entities y)" using ylen assms(3) by simp_all
  note u = upd_max_links [OF i(2), of ?ml]
  let ?z = "upd_entity ?x i (\<lambda>e. e\<lparr>links := links e @ [null_link]\<rparr>)"
  have gz: "grown ?x i ?z" by (rule grown_append [OF _ i(1)]) (simp add: u mv(1))
  have xl: "links (entities ?x ! i) = links (entities y ! i)" "max_links (entities ?x ! i) = ?ml"
    using i(2) by (simp_all add: upd_entity_nth)
  have n: "?n < ?ml" using assms(4) by (simp add: room_def)
  have "media_entity_add_link k m i = Some (Some ?n, ?z)"
    using True n assms(3,5) y(1) xl ylen i by (simp add: media_entity_add_link_def Let_def)
  moreover have rz: "room ?z i" using n xl ylen i by (simp add: room_def upd_entity_nth)
  moreover have "grown m i ?z"
    unfolding grown_def
  proof (intro conjI allI impI)
    show "same_frame m ?z" using y(2) by (simp add: rewired_def)
    show "length (entities ?z) = length (entities m)" using ylen by simp
    show "lnk ?z i ?n = null_link" "twins_ok ?z" using gz xl ylen by (simp_all add: grown_def)
  next
    fix a assume a: "a < length (entities m)"
    then show "info (entities ?z ! a) = info (entities m ! a)" "pads (entities ?z ! a) = pads (entities m ! a)"
      "room m a \<Longrightarrow> a \<noteq> i \<Longrightarrow> room ?z a"
      "length (links (entities ?z ! a)) = length (links (entities m ! a)) + of_bool (a = i)"
      "a \<noteq> i \<Longrightarrow> links_gen (entities ?z ! a) = links_gen (entities m ! a)"
      using y(2) assms(3,4) ylen by (auto simp: rewired_def upd_entity_nth room_def)
  next
    fix a b assume ab: "has_link m a b"
    then have hx: "has_link ?x a b" using u(2) rewired_has_link [OF y(2)] by simp
    have tx: "twin_of ?x (a, b) = twin_of y (a, b)" by (simp add: twin_of_def u(1))
    show "link_view (lnk ?z a b) = link_view (lnk m a b)" "(twin (lnk ?z a b) = None) = (twin (lnk m a b) = None)"
      "twin_of ?z (a, b) = twin_of m (a, b)"
      using gz hx mv(2) [OF ab] tx u(1) by (auto simp: grown_def)
  qed
  ultimately show ?thesis using rz by blast
qed

end
