(* ===== verification/Media_Build.thy ===== *)
theory Media_Build
  imports Media_Enum
begin

text \<open>
  What \<open>media_device_enumerate\<close> builds: given a kernel that lists its entities in the order of their ids
  and describes a consistent graph, the device ends up with exactly these entities and links, and the
  graph is well-formed, so that the functions of link setup apply to it.
\<close>

section \<open>Entering a link twice\<close>

definition links_ok :: "media_device \<Rightarrow> bool" where
  "links_ok m \<longleftrightarrow> (\<forall>a b. has_link m a b \<longrightarrow> link_ok m a b \<and> flags_ok m a b)"

lemma graph_ok_split: "graph_ok m \<longleftrightarrow> pads_ok m \<and> links_ok m"
  by (simp add: graph_ok_def links_ok_def)

text \<open>Link \<open>b\<close> of entity \<open>a\<close> agrees with its twin, and the two are listed by its two ends.\<close>

definition paired :: "media_device \<Rightarrow> nat \<Rightarrow> nat \<Rightarrow> bool" where
  "paired m a b \<longleftrightarrow> twin (lnk m a b) \<noteq> None \<and>
     link_view (lnk m (fst (twin_of m (a, b))) (snd (twin_of m (a, b)))) = link_view (lnk m a b) \<and>
     pad_ok m (source (lnk m a b)) \<and> pad_ok m (sink (lnk m a b)) \<and>
     {fst (source (lnk m a b)), fst (sink (lnk m a b))} = {a, fst (twin_of m (a, b))}"

lemma links_ok_iff: "links_ok m \<longleftrightarrow> twins_ok m \<and> (\<forall>a b. has_link m a b \<longrightarrow> paired m a b)"
proof
  assume L: "links_ok m"
  have w: "wired m a b \<and> paired m a b" if "has_link m a b" for a b
  proof -
    have lo: "link_ok m a b" using L that by (simp add: links_ok_def)
    obtain i j where "twin (lnk m a b) = Some (i, links_gen (entities m ! i), j)" "has_link m i j" "i \<noteq> a"
      "twin (lnk m i j) = Some (a, links_gen (entities m ! a), b)" "source (lnk m i j) = source (lnk m a b)"
      "sink (lnk m i j) = sink (lnk m a b)" "{fst (source (lnk m a b)), fst (sink (lnk m a b))} = {a, i}"
      "pad_ok m (source (lnk m a b))" "pad_ok m (sink (lnk m a b))"
      using lo unfolding link_ok_def by blast
    moreover have "flags_ok m a b" using L that by (simp add: links_ok_def)
    ultimately show ?thesis by (auto simp: wired_def paired_def twin_of_def link_view_def flags_ok_def)
  qed
  then show "twins_ok m \<and> (\<forall>a b. has_link m a b \<longrightarrow> paired m a b)" by (auto simp: twins_ok_def)
next
  assume R: "twins_ok m \<and> (\<forall>a b. has_link m a b \<longrightarrow> paired m a b)"
  show "links_ok m"
    unfolding links_ok_def
  proof (intro allI impI)
    fix a b assume h: "has_link m a b"
    then have p: "paired m a b" using R by blast
    then have "wired m a b" using R h by (auto simp: twins_ok_def paired_def)
    then obtain i j where "twin (lnk m a b) = Some (i, links_gen (entities m ! i), j)" "has_link m i j" "i \<noteq> a"
      "twin (lnk m i j) = Some (a, links_gen (entities m ! a), b)"
      by (auto simp: wired_def)
    then show "link_ok m a b \<and> flags_ok m a b"
      using p by (auto simp: link_ok_def flags_ok_def paired_def twin_of_def link_view_def)
  qed
qed

text \<open>Writing a link that has no twin yet.\<close>

lemma has_link_set_lnk: "has_link x a b \<Longrightarrow> has_link (set_lnk x a b l) = has_link x"
proof (intro ext)
  fix c d assume "has_link x a b"
  then show "has_link (set_lnk x a b l) c d = has_link x c d"
    by (cases "c < length (entities x)") (auto simp: has_link_def set_lnk_entity)
qed

lemma set_untwinned:
  assumes "twins_ok x" "has_link x a b" "twin (lnk x a b) = None" "twin l = None"
  shows "twins_ok (set_lnk x a b l)"
proof -
  let ?y = "set_lnk x a b l"
  have h: "has_link ?y = has_link x" by (rule has_link_set_lnk [OF assms(2)])
  have g: "links_gen (entities ?y ! c) = links_gen (entities x ! c)" if "c < length (entities x)" for c
    using that by (simp add: set_lnk_entity [OF assms(2)])
  show ?thesis
    unfolding twins_ok_def
  proof (intro allI impI)
    fix c d assume cd: "has_link ?y c d \<and> twin (lnk ?y c d) \<noteq> None"
    then have ne: "(c, d) \<noteq> (a, b)" using assms(4) by (auto simp: lnk_set_lnk [OF assms(2)])
    then have "wired x c d" using cd h assms(1) by (auto simp: twins_ok_def lnk_set_lnk [OF assms(2)])
    then obtain i j where w: "twin (lnk x c d) = Some (i, links_gen (entities x ! i), j)" "has_link x i j" "i \<noteq> c"
      "twin (lnk x i j) = Some (c, links_gen (entities x ! c), d)" by (auto simp: wired_def)
    then have "(i, j) \<noteq> (a, b)" using assms(3) by auto
    moreover have "c < length (entities x)" "i < length (entities x)" using cd h w(2) by (auto simp: has_link_def)
    ultimately show "wired ?y c d" using w ne by (auto simp: wired_def lnk_set_lnk [OF assms(2)] h g)
  qed
qed

text \<open>Making two links the twins of each other.\<close>

definition pair_up :: "media_device \<Rightarrow> nat \<Rightarrow> nat \<Rightarrow> nat \<Rightarrow> nat \<Rightarrow> media_device" where
  "pair_up x a b c d =
     (let y = set_lnk x a b ((lnk x a b)\<lparr>twin := Some (c, links_gen (entities x ! c), d)\<rparr>)
      in set_lnk y c d ((lnk y c d)\<lparr>twin := Some (a, links_gen (entities x ! a), b)\<rparr>))"

lemma pair_up_spec:
  assumes "has_link x a b" "has_link x c d" "a \<noteq> c"
  shows "has_link (pair_up x a b c d) e f = has_link x e f"
    "e < length (entities x) \<Longrightarrow> links_gen (entities (pair_up x a b c d) ! e) = links_gen (entities x ! e) \<and>
      info (entities (pair_up x a b c d) ! e) = info (entities x ! e) \<and>
      pads (entities (pair_up x a b c d) ! e) = pads (entities x ! e) \<and>
      max_links (entities (pair_up x a b c d) ! e) = max_links (entities x ! e) \<and>
      length (links (entities (pair_up x a b c d) ! e)) = length (links (entities x ! e))"
    "lnk (pair_up x a b c d) e f =
      (if (e, f) = (a, b) then (lnk x a b)\<lparr>twin := Some (c, links_gen (entities x ! c), d)\<rparr>
       else if (e, f) = (c, d) then (lnk x c d)\<lparr>twin := Some (a, links_gen (entities x ! a), b)\<rparr>
       else lnk x e f)"
    "length (entities (pair_up x a b c d)) = length (entities x)" "same_frame m (pair_up x a b c d) = same_frame m x"
proof -
  let ?y = "set_lnk x a b ((lnk x a b)\<lparr>twin := Some (c, links_gen (entities x ! c), d)\<rparr>)"
  have hy: "has_link ?y = has_link x" by (rule has_link_set_lnk [OF assms(1)])
  have hc: "has_link ?y c d" using assms(2) hy by simp
  show "has_link (pair_up x a b c d) e f = has_link x e f"
    by (simp add: pair_up_def Let_def has_link_set_lnk [OF hc] hy)
  show "e < length (entities x) \<Longrightarrow> links_gen (entities (pair_up x a b c d) ! e) = links_gen (entities x ! e) \<and>
      info (entities (pair_up x a b c d) ! e) = info (entities x ! e) \<and>
      pads (entities (pair_up x a b c d) ! e) = pads (entities x ! e) \<and>
      max_links (entities (pair_up x a b c d) ! e) = max_links (entities x ! e) \<and>
      length (links (entities (pair_up x a b c d) ! e)) = length (links (entities x ! e))"
    by (simp add: pair_up_def Let_def set_lnk_entity [OF hc] set_lnk_entity [OF assms(1)])
  show "lnk (pair_up x a b c d) e f =
      (if (e, f) = (a, b) then (lnk x a b)\<lparr>twin := Some (c, links_gen (entities x ! c), d)\<rparr>
       else if (e, f) = (c, d) then (lnk x c d)\<lparr>twin := Some (a, links_gen (entities x ! a), b)\<rparr>
       else lnk x e f)"
    using assms(3) by (auto simp: pair_up_def Let_def lnk_set_lnk [OF hc] lnk_set_lnk [OF assms(1)])
  show "length (entities (pair_up x a b c d)) = length (entities x)" "same_frame m (pair_up x a b c d) = same_frame m x"
    by (simp_all add: pair_up_def Let_def)
qed

lemma pair_up_twins:
  assumes "has_link x a b" "has_link x c d" "a \<noteq> c" "twins_ok x" "twin (lnk x a b) = None" "twin (lnk x c d) = None"
  shows "twins_ok (pair_up x a b c d)"
  unfolding twins_ok_def
proof (intro allI impI)
  note P = pair_up_spec [OF assms(1-3)]
  have ends: "a < length (entities x)" "c < length (entities x)" using assms(1,2) by (simp_all add: has_link_def)
  fix e f assume ef: "has_link (pair_up x a b c d) e f \<and> twin (lnk (pair_up x a b c d) e f) \<noteq> None"
  show "wired (pair_up x a b c d) e f"
  proof (cases "(e, f) = (a, b) \<or> (e, f) = (c, d)")
    case True
    then show ?thesis using assms(1-3) ends by (auto simp: wired_def P)
  next
    case False
    then have "wired x e f" using ef assms(4) by (auto simp: twins_ok_def P)
    then obtain i j where w: "twin (lnk x e f) = Some (i, links_gen (entities x ! i), j)" "has_link x i j" "i \<noteq> e"
      "twin (lnk x i j) = Some (e, links_gen (entities x ! e), f)" by (auto simp: wired_def)
    have ij: "\<not> (i = a \<and> j = b)" "\<not> (i = c \<and> j = d)" using w(4) assms(5,6) by auto
    have "i < length (entities x)" "e < length (entities x)" using ef w(2) P(1) by (auto simp: has_link_def)
    note g = P(2) [OF this(1)] P(2) [OF this(2)]
    have "lnk (pair_up x a b c d) e f = lnk x e f" "lnk (pair_up x a b c d) i j = lnk x i j"
      using P(3) [of e f] P(3) [of i j] False ij by (auto split: if_splits)
    then show ?thesis unfolding wired_def using w g P(1) by (intro exI [of _ i] exI [of _ j]) simp
  qed
qed


text \<open>The whole of one link: \<open>x\<close> is \<open>m\<close> with a link from \<open>src\<close> to \<open>snk\<close> entered with both their entities.\<close>

definition link_added :: "media_device \<Rightarrow> pad_ptr \<Rightarrow> pad_ptr \<Rightarrow> u32 \<Rightarrow> media_device \<Rightarrow> bool" where
  "link_added m src snk fl x \<longleftrightarrow> same_frame m x \<and> length (entities x) = length (entities m) \<and>
     (\<forall>a < length (entities m). info (entities x ! a) = info (entities m ! a) \<and>
        pads (entities x ! a) = pads (entities m ! a) \<and> (room m a \<longrightarrow> room x a) \<and>
        map link_view (links (entities x ! a)) = map link_view (links (entities m ! a)) @
          (if a = fst src \<or> a = fst snk then [(src, snk, fl)] else []))"

lemma map_link_view:
  assumes "length (links (entities x ! a)) = length (links (entities m ! a)) + n" "length vs = n"
    "\<And>b. b < length (links (entities m ! a)) \<Longrightarrow> link_view (lnk x a b) = link_view (lnk m a b)"
    "\<And>j. j < n \<Longrightarrow> link_view (lnk x a (length (links (entities m ! a)) + j)) = vs ! j"
  shows "map link_view (links (entities x ! a)) = map link_view (links (entities m ! a)) @ vs"
proof (rule nth_equalityI)
  show "length (map link_view (links (entities x ! a))) = length (map link_view (links (entities m ! a)) @ vs)"
    using assms(1,2) by simp
  fix b assume b: "b < length (map link_view (links (entities x ! a)))"
  show "map link_view (links (entities x ! a)) ! b = (map link_view (links (entities m ! a)) @ vs) ! b"
  proof (cases "b < length (links (entities m ! a))")
    case True
    then show ?thesis using b assms(3) [OF True] by (simp add: nth_append lnk_def)
  next
    case False
    then obtain j where j: "b = length (links (entities m ! a)) + j" by (metis le_Suc_ex not_less)
    then show ?thesis using b assms(1) assms(4) [of j] by (simp add: nth_append lnk_def)
  qed
qed


lemma grown_simps:
  assumes "grown m i x" "a < length (entities m)"
  shows "info (entities x ! a) = info (entities m ! a)" "pads (entities x ! a) = pads (entities m ! a)"
    "room m a \<Longrightarrow> a \<noteq> i \<Longrightarrow> room x a" "a \<noteq> i \<Longrightarrow> links_gen (entities x ! a) = links_gen (entities m ! a)"
    "length (links (entities x ! a)) = length (links (entities m ! a)) + of_bool (a = i)"
    "b < length (links (entities m ! a)) \<Longrightarrow> link_view (lnk x a b) = link_view (lnk m a b)"
    "b < length (links (entities m ! a)) \<Longrightarrow> (twin (lnk x a b) = None) = (twin (lnk m a b) = None)"
    "b < length (links (entities m ! a)) \<Longrightarrow> twin_of x (a, b) = twin_of m (a, b)"
  using assms unfolding grown_def has_link_def by blast+

lemma grown_glob:
  assumes "grown m i x"
  shows "same_frame m x" "length (entities x) = length (entities m)" "twins_ok x"
    "lnk x i (length (links (entities m ! i))) = null_link"
  using assms unfolding grown_def by blast+

definition written :: "pad_ptr \<Rightarrow> pad_ptr \<Rightarrow> u32 \<Rightarrow> media_link" where
  "written src snk fl = \<lparr>source = src, sink = snk, twin = None, lflags = fl\<rparr>"

lemma grown_write:
  assumes "grown m i x" "i < length (entities m)" "twins_ok m"
  defines "n \<equiv> length (links (entities m ! i))"
  shows "has_link x i n" "upd_link x (i, links_gen (entities x ! i), n)
      (\<lambda>l. l\<lparr>source := src, sink := snk, lflags := fl\<rparr>) = Some (set_lnk x i n (written src snk fl))"
    "twins_ok (set_lnk x i n (written src snk fl))"
proof -
  show h: "has_link x i n" using grown_simps(5) [OF assms(1,2)] grown_glob(2) [OF assms(1)] assms(2)
    by (simp add: has_link_def n_def)
  have l: "lnk x i n = null_link" using grown_glob(4) [OF assms(1)] by (simp add: n_def)
  show "upd_link x (i, links_gen (entities x ! i), n)
      (\<lambda>l. l\<lparr>source := src, sink := snk, lflags := fl\<rparr>) = Some (set_lnk x i n (written src snk fl))"
    by (simp add: upd_link_ok [OF h] l null_link_def written_def)
  show "twins_ok (set_lnk x i n (written src snk fl))"
    by (rule set_untwinned [OF grown_glob(3) [OF assms(1)] h]) (simp_all add: l null_link_def written_def)
qed

lemma pair_up_steps:
  assumes "has_link x a b" "has_link x c d" "a \<noteq> c"
  shows "do { m \<leftarrow> upd_link x (a, links_gen (entities x ! a), b) (\<lambda>l. l\<lparr>twin := Some (c, links_gen (entities x ! c), d)\<rparr>);
      upd_link m (c, links_gen (entities x ! c), d) (\<lambda>l. l\<lparr>twin := Some (a, links_gen (entities x ! a), b)\<rparr>) } =
    Some (pair_up x a b c d)"
proof -
  let ?y = "set_lnk x a b ((lnk x a b)\<lparr>twin := Some (c, links_gen (entities x ! c), d)\<rparr>)"
  have "has_link ?y c d" using assms(2) by (simp add: has_link_set_lnk [OF assms(1)])
  moreover have "links_gen (entities ?y ! c) = links_gen (entities x ! c)"
    using assms(2,3) by (simp add: set_lnk_entity [OF assms(1)] has_link_def)
  ultimately have "upd_link ?y (c, links_gen (entities x ! c), d) f = Some (set_lnk ?y c d (f (lnk ?y c d)))" for f
    using upd_link_ok [of ?y c d f] by simp
  then show ?thesis by (simp add: upd_link_ok [OF assms(1)] pair_up_def Let_def)
qed


text \<open>The state after the two additions and the two writes of the fields, before the twins are set.\<close>

definition both_added ::
  "media_device \<Rightarrow> pad_ptr \<Rightarrow> pad_ptr \<Rightarrow> u32 \<Rightarrow> media_device \<Rightarrow> bool" where
  "both_added m src snk fl x \<longleftrightarrow> same_frame m x \<and> length (entities x) = length (entities m) \<and> twins_ok x \<and>
     (\<forall>a < length (entities m). info (entities x ! a) = info (entities m ! a) \<and>
        pads (entities x ! a) = pads (entities m ! a) \<and> (room m a \<longrightarrow> room x a) \<and>
        length (links (entities x ! a)) = length (links (entities m ! a)) + of_bool (a = fst src \<or> a = fst snk)) \<and>
     (\<forall>a b. has_link m a b \<longrightarrow> link_view (lnk x a b) = link_view (lnk m a b) \<and>
        (twin (lnk x a b) = None) = (twin (lnk m a b) = None) \<and> twin_of x (a, b) = twin_of m (a, b)) \<and>
     (\<forall>e \<in> {fst src, fst snk}. link_view (lnk x e (length (links (entities m ! e)))) = (src, snk, fl) \<and>
        twin (lnk x e (length (links (entities m ! e)))) = None)"

lemma room_set_lnk: "has_link x a b \<Longrightarrow> c < length (entities x) \<Longrightarrow> room (set_lnk x a b l) c = room x c"
  by (auto simp: room_def set_lnk_entity)

lemma add_both_ok:
  fixes fl :: u32
  assumes "links_ok m" "fst src < length (entities m)" "fst snk < length (entities m)" "fst src \<noteq> fst snk"
    "room m (fst src)" "room m (fst snk)" "\<And>n. k_mem k n"
  defines "s \<equiv> fst src" and "t \<equiv> fst snk" and "W \<equiv> written src snk fl"
  defines "ns \<equiv> length (links (entities m ! s))" and "nt \<equiv> length (links (entities m ! t))"
  shows "\<exists>m1 m3. media_entity_add_link k m s = Some (Some ns, m1) \<and>
    upd_link m1 (s, links_gen (entities m1 ! s), ns) (\<lambda>l. l\<lparr>source := src, sink := snk, lflags := fl\<rparr>) =
      Some (set_lnk m1 s ns W) \<and>
    media_entity_add_link k (set_lnk m1 s ns W) t = Some (Some nt, m3) \<and>
    upd_link m3 (t, links_gen (entities m3 ! t), nt) (\<lambda>l. l\<lparr>source := src, sink := snk, lflags := fl\<rparr>) =
      Some (set_lnk m3 t nt W) \<and>
    links_gen (entities (set_lnk m3 t nt W) ! s) = links_gen (entities m1 ! s) \<and>
    links_gen (entities (set_lnk m3 t nt W) ! t) = links_gen (entities m3 ! t) \<and>
    both_added m src snk fl (set_lnk m3 t nt W)"
proof -
  have st: "s < length (entities m)" "t < length (entities m)" "s \<noteq> t" "t \<noteq> s"
    using assms(2-4) by (auto simp: s_def t_def)
  have T: "twins_ok m" and P: "\<And>a b. has_link m a b \<Longrightarrow> paired m a b" using assms(1) by (auto simp: links_ok_iff)
  have tw: "twin (lnk m a b) \<noteq> None" if "has_link m a b" for a b using P [OF that] by (simp add: paired_def)
  have A: "all_twinned m a" if "a < length (entities m)" for a
    using tw that by (simp add: all_twinned_def has_link_def)
  obtain m1 where m1: "media_entity_add_link k m s = Some (Some ns, m1)" "grown m s m1" "room m1 s"
    using add_link_ok [OF T A [OF st(1)] st(1) assms(5) [folded s_def] assms(7)] ns_def by blast
  note g1 = grown_simps [OF m1(2)] and w1 = grown_write(1) [OF m1(2) st(1) T, folded ns_def]
      grown_write(2,3) [OF m1(2) st(1) T, folded ns_def, where src = src and snk = snk and fl = fl, folded W_def]
  have len1: "length (entities m1) = length (entities m)" by (rule grown_glob(2) [OF m1(2)])
  let ?m2 = "set_lnk m1 s ns W"
  have e2: "entities ?m2 ! a = entities m1 ! a" if "a < length (entities m)" "a \<noteq> s" for a
    using that len1 by (simp add: set_lnk_entity [OF w1(1)])
  have l2: "lnk ?m2 a b = (if a = s \<and> b = ns then W else lnk m1 a b)" for a b by (rule lnk_set_lnk [OF w1(1)])
  have len2: "length (entities ?m2) = length (entities m)" using len1 by simp
  have nt2: "length (links (entities ?m2 ! t)) = nt" using e2 [OF st(2,4)] g1(5) [OF st(2)] st by (simp add: nt_def)
  have at: "all_twinned ?m2 t"
    unfolding all_twinned_def nt2 using g1(7) [OF st(2)] tw st by (auto simp: l2 nt_def has_link_def)
  have r2: "room ?m2 t" using room_set_lnk [OF w1(1)] g1(3) [OF st(2) assms(6) [folded t_def] st(4)] len1 st by simp
  obtain m3 where m3: "media_entity_add_link k ?m2 t = Some (Some nt, m3)" "grown ?m2 t m3" "room m3 t"
    using add_link_ok [OF w1(3) at _ r2 assms(7)] st len2 nt2 by auto
  note g3 = grown_simps [OF m3(2)] and w3 = grown_write(1) [OF m3(2) _ w1(3), unfolded nt2]
      grown_write(2,3) [OF m3(2) _ w1(3), unfolded nt2, where src = src and snk = snk and fl = fl, folded W_def]
  have w3': "has_link m3 t nt" using w3(1) st len2 by simp
  have len3: "length (entities m3) = length (entities m)" using grown_glob(2) [OF m3(2)] len1 by simp
  let ?m4 = "set_lnk m3 t nt W"
  have l4: "lnk ?m4 a b = (if a = t \<and> b = nt then W else lnk m3 a b)" for a b by (rule lnk_set_lnk [OF w3'])
  have e4: "info (entities ?m4 ! a) = info (entities m3 ! a) \<and> pads (entities ?m4 ! a) = pads (entities m3 ! a) \<and>
     max_links (entities ?m4 ! a) = max_links (entities m3 ! a) \<and>
     links_gen (entities ?m4 ! a) = links_gen (entities m3 ! a) \<and>
     length (links (entities ?m4 ! a)) = length (links (entities m3 ! a))" if "a < length (entities m)" for a
    using that len3 by (simp add: set_lnk_entity [OF w3'])
  have e2': "info (entities ?m2 ! a) = info (entities m1 ! a) \<and> pads (entities ?m2 ! a) = pads (entities m1 ! a) \<and>
     max_links (entities ?m2 ! a) = max_links (entities m1 ! a) \<and>
     links_gen (entities ?m2 ! a) = links_gen (entities m1 ! a) \<and>
     length (links (entities ?m2 ! a)) = length (links (entities m1 ! a))" if "a < length (entities m)" for a
    using that len1 by (simp add: set_lnk_entity [OF w1(1)])
  have "both_added m src snk fl ?m4"
    unfolding both_added_def
  proof (intro conjI allI impI ballI)
    show "same_frame m ?m4" using grown_glob(1) [OF m1(2)] grown_glob(1) [OF m3(2)] same_frame_trans [of m m1 m3] by simp
    show "length (entities ?m4) = length (entities m)" using len3 by simp
    show "twins_ok ?m4" using w3(3) st len2 by simp
  next
    fix a assume a: "a < length (entities m)"
    then have a2: "a < length (entities ?m2)" using len2 by simp
    show "info (entities ?m4 ! a) = info (entities m ! a)" "pads (entities ?m4 ! a) = pads (entities m ! a)"
      using e4 [OF a] e2' [OF a] g1(1,2) [OF a] g3(1,2) [OF a2] by simp_all
    show "length (links (entities ?m4 ! a)) = length (links (entities m ! a)) + of_bool (a = fst src \<or> a = fst snk)"
      using e4 [OF a] e2' [OF a] g1(5) [OF a] g3(5) [OF a2] st by (auto simp: s_def t_def)
    assume r: "room m a"
    have "room m1 a" using g1(3) [OF a r] m1(3) by blast
    then have "room ?m2 a" using room_set_lnk [OF w1(1)] a len1 by simp
    then have "room m3 a" using g3(3) [OF a2] m3(3) by blast
    then show "room ?m4 a" using room_set_lnk [OF w3'] a len3 by simp
  next
    fix a b assume h: "has_link m a b"
    then have a: "a < length (entities m)" and b: "b < length (links (entities m ! a))" by (simp_all add: has_link_def)
    then have a2: "a < length (entities ?m2)" and b2: "b < length (links (entities ?m2 ! a))"
      using len2 e2' [OF a] g1(5) [OF a] by simp_all
    have ne: "\<not> (a = s \<and> b = ns)" "\<not> (a = t \<and> b = nt)" using b by (auto simp: ns_def nt_def)
    have "lnk ?m4 a b = lnk m3 a b" "lnk ?m2 a b = lnk m1 a b" using ne by (simp_all only: l4 l2 if_False)
    then show "link_view (lnk ?m4 a b) = link_view (lnk m a b)" "(twin (lnk ?m4 a b) = None) = (twin (lnk m a b) = None)"
      "twin_of ?m4 (a, b) = twin_of m (a, b)"
      using g1(6-8) [OF a b] g3(6-8) [OF a2 b2] by (auto simp: twin_of_def)
  next
    have W: "link_view W = (src, snk, fl)" "twin W = None" by (simp_all add: W_def written_def link_view_def)
    have s2: "s < length (entities ?m2)" "ns < length (links (entities ?m2 ! s))"
      using len2 e2' [OF st(1)] g1(5) [OF st(1)] st by (simp_all add: ns_def)
    have s4: "link_view (lnk ?m4 s ns) = (src, snk, fl)" "twin (lnk ?m4 s ns) = None"
      using g3(6,7) [OF s2] W st(3) l2 [of s ns] l4 [of s ns] by simp_all
    fix e assume "e \<in> {fst src, fst snk}"
    then have e: "e = s \<or> e = t" by (auto simp: s_def t_def)
    then show "link_view (lnk ?m4 e (length (links (entities m ! e)))) = (src, snk, fl)"
      using s4 W l4 [of t nt] by (auto simp: ns_def nt_def)
    show "twin (lnk ?m4 e (length (links (entities m ! e)))) = None"
      using e s4 W l4 [of t nt] by (auto simp: ns_def nt_def)
  qed
  moreover have "links_gen (entities ?m4 ! s) = links_gen (entities m1 ! s)"
    using e4 [OF st(1)] g3(4) [of s] e2' [OF st(1)] st len2 by simp
  moreover have "links_gen (entities ?m4 ! t) = links_gen (entities m3 ! t)" using e4 [OF st(2)] by simp
  moreover have "t < length (entities ?m2)" using st(2) len2 by simp
  note w3(2) [OF this]
  ultimately show ?thesis using m1(1) w1(2) m3(1) by (intro exI [of _ m1] exI [of _ m3] conjI)
qed

lemma both_added_simps:
  assumes "both_added m src snk fl x"
  shows "same_frame m x" "length (entities x) = length (entities m)" "twins_ok x"
    "a < length (entities m) \<Longrightarrow> info (entities x ! a) = info (entities m ! a)"
    "a < length (entities m) \<Longrightarrow> pads (entities x ! a) = pads (entities m ! a)"
    "a < length (entities m) \<Longrightarrow> room m a \<Longrightarrow> room x a"
    "a < length (entities m) \<Longrightarrow> length (links (entities x ! a)) =
      length (links (entities m ! a)) + of_bool (a = fst src \<or> a = fst snk)"
    "has_link m a b \<Longrightarrow> link_view (lnk x a b) = link_view (lnk m a b)"
    "has_link m a b \<Longrightarrow> (twin (lnk x a b) = None) = (twin (lnk m a b) = None)"
    "has_link m a b \<Longrightarrow> twin_of x (a, b) = twin_of m (a, b)"
    "e = fst src \<or> e = fst snk \<Longrightarrow> link_view (lnk x e (length (links (entities m ! e)))) = (src, snk, fl)"
    "e = fst src \<or> e = fst snk \<Longrightarrow> twin (lnk x e (length (links (entities m ! e)))) = None"
  using assms by (auto simp: both_added_def)


lemma link_view_eqD: "link_view l = (a, b, c) \<Longrightarrow> source l = a \<and> sink l = b \<and> lflags l = c"
  by (simp add: link_view_def)

lemma both_added_pair_up:
  assumes "links_ok m" "both_added m src snk fl y" "pad_ok m src" "pad_ok m snk" "fst src \<noteq> fst snk"
  defines "ns \<equiv> length (links (entities m ! fst src))" and "nt \<equiv> length (links (entities m ! fst snk))"
  shows "links_ok (pair_up y (fst src) ns (fst snk) nt)" "link_added m src snk fl (pair_up y (fst src) ns (fst snk) nt)"
    "has_link y (fst src) ns" "has_link y (fst snk) nt"
proof -
  let ?s = "fst src" and ?t = "fst snk"
  let ?x = "pair_up y ?s ns ?t nt"
  note B = both_added_simps [OF assms(2)]
  have st: "?s < length (entities m)" "?t < length (entities m)" using assms(3,4) by (simp_all add: pad_ok_def)
  show hy: "has_link y ?s ns" "has_link y ?t nt"
    using B(2,7) st by (auto simp: has_link_def ns_def nt_def)
  note P = pair_up_spec [OF hy assms(5)]
  have tw: "twins_ok ?x"
    by (rule pair_up_twins [OF hy assms(5) B(3)]) (auto simp: ns_def nt_def B(12))
  have new: "link_view (lnk ?x ?s ns) = (src, snk, fl)" "link_view (lnk ?x ?t nt) = (src, snk, fl)"
    "twin_of ?x (?s, ns) = (?t, nt)" "twin_of ?x (?t, nt) = (?s, ns)"
    "twin (lnk ?x ?s ns) \<noteq> None" "twin (lnk ?x ?t nt) \<noteq> None"
    using B(11) [of ?s, folded ns_def] B(11) [of ?t, folded nt_def] assms(5)
    by (simp_all add: P(3) twin_of_def link_view_def)
  have old: "link_view (lnk ?x a b) = link_view (lnk m a b)" "(twin (lnk ?x a b) = None) = (twin (lnk m a b) = None)"
    "twin_of ?x (a, b) = twin_of m (a, b)" if "has_link m a b" for a b
  proof -
    have "\<not> (a = ?s \<and> b = ns)" "\<not> (a = ?t \<and> b = nt)" using that by (auto simp: has_link_def ns_def nt_def)
    then have "lnk ?x a b = lnk y a b" by (auto simp: P(3))
    then show "link_view (lnk ?x a b) = link_view (lnk m a b)" "(twin (lnk ?x a b) = None) = (twin (lnk m a b) = None)"
      "twin_of ?x (a, b) = twin_of m (a, b)"
      using B(8-10) [OF that] by (simp_all add: twin_of_def)
  qed
  have len: "length (entities ?x) = length (entities m)" using P(4) B(2) by simp
  have ent: "info (entities ?x ! a) = info (entities m ! a)" "pads (entities ?x ! a) = pads (entities m ! a)"
    "room m a \<Longrightarrow> room ?x a"
    "length (links (entities ?x ! a)) = length (links (entities m ! a)) + of_bool (a = ?s \<or> a = ?t)"
    if "a < length (entities m)" for a
    using P(2) [of a] B(2) B(4-7) [OF that] that by (simp_all add: room_def)
  have po: "pad_ok ?x p = pad_ok m p" for p using len ent(2) by (auto simp: pad_ok_def)
  have cases: "has_link m a b \<or> (a = ?s \<and> b = ns) \<or> (a = ?t \<and> b = nt)" if "has_link ?x a b" for a b
  proof -
    have "a < length (entities m)" using that len by (simp add: has_link_def)
    then have "b < length (links (entities m ! a)) + of_bool (a = ?s \<or> a = ?t)"
      using that ent(4) by (simp add: has_link_def)
    then show ?thesis using \<open>a < length (entities m)\<close>
      by (cases "a = ?s"; cases "a = ?t") (auto simp: has_link_def ns_def nt_def less_Suc_eq)
  qed
  have "paired ?x a b" if h: "has_link ?x a b" for a b
  proof (cases "has_link m a b")
    case True
    then have p: "paired m a b" and w: "wired m a b"
      using assms(1) by (auto simp: links_ok_iff twins_ok_def paired_def)
    obtain i j where ij: "twin_of m (a, b) = (i, j)" by force
    have "has_link m i j" using w ij by (auto simp: wired_def twin_of_def)
    moreover have "source (lnk ?x a b) = source (lnk m a b)" "sink (lnk ?x a b) = sink (lnk m a b)"
      using old(1) [OF True] by (simp_all add: link_view_def)
    ultimately show ?thesis using p old [OF True] old(1) [of i j] ij by (simp add: paired_def po)
  next
    case False
    then consider "a = ?s" "b = ns" | "a = ?t" "b = nt" using cases [OF h] by blast
    then show ?thesis
      using new link_view_eqD [OF new(1)] link_view_eqD [OF new(2)] assms(3,4)
      by cases (auto simp: paired_def po)
  qed
  then show "links_ok ?x" using tw by (auto simp: links_ok_iff)
  show "link_added m src snk fl ?x"
    unfolding link_added_def
  proof (intro conjI allI impI)
    show "same_frame m ?x" using B(1) by (simp add: P(5))
    show "length (entities ?x) = length (entities m)" by (rule len)
    fix a assume a: "a < length (entities m)"
    show "info (entities ?x ! a) = info (entities m ! a)" "pads (entities ?x ! a) = pads (entities m ! a)"
      "room m a \<Longrightarrow> room ?x a" using ent [OF a] by simp_all
    show "map link_view (links (entities ?x ! a)) = map link_view (links (entities m ! a)) @
          (if a = ?s \<or> a = ?t then [(src, snk, fl)] else [])"
      by (rule map_link_view [OF ent(4) [OF a]]) (use old(1) [of a] new(1,2) a in \<open>auto simp: has_link_def ns_def nt_def\<close>)
  qed
qed

lemma enum_link_ok:
  assumes "links_ok m" "media_get_entity_by_id m (fst (ld_source d)) = Some (fst src)"
    "media_get_entity_by_id m (fst (ld_sink d)) = Some (fst snk)" "snd src = unat (snd (ld_source d))"
    "snd snk = unat (snd (ld_sink d))" "pad_ok m src" "pad_ok m snk" "fst src \<noteq> fst snk"
    "room m (fst src)" "room m (fst snk)" "\<And>n. k_mem k n"
  shows "\<exists>x. enum_link k m d = Some (0, x) \<and> links_ok x \<and> link_added m src snk (ld_flags d) x"
proof -
  let ?s = "fst src" and ?t = "fst snk"
  let ?ns = "length (links (entities m ! ?s))" and ?nt = "length (links (entities m ! ?t))"
  let ?W = "written src snk (ld_flags d)"
  have st: "?s < length (entities m)" "?t < length (entities m)" using assms(6,7) by (simp_all add: pad_ok_def)
  obtain m1 m3 where a: "media_entity_add_link k m ?s = Some (Some ?ns, m1)"
    "upd_link m1 (?s, links_gen (entities m1 ! ?s), ?ns) (\<lambda>l. l\<lparr>source := src, sink := snk, lflags := ld_flags d\<rparr>) =
      Some (set_lnk m1 ?s ?ns ?W)"
    "media_entity_add_link k (set_lnk m1 ?s ?ns ?W) ?t = Some (Some ?nt, m3)"
    "upd_link m3 (?t, links_gen (entities m3 ! ?t), ?nt) (\<lambda>l. l\<lparr>source := src, sink := snk, lflags := ld_flags d\<rparr>) =
      Some (set_lnk m3 ?t ?nt ?W)"
    "links_gen (entities (set_lnk m3 ?t ?nt ?W) ! ?s) = links_gen (entities m1 ! ?s)"
    "links_gen (entities (set_lnk m3 ?t ?nt ?W) ! ?t) = links_gen (entities m3 ! ?t)"
    "both_added m src snk (ld_flags d) (set_lnk m3 ?t ?nt ?W)"
    using add_both_ok [OF assms(1) st assms(8-11)] by blast
  let ?y = "set_lnk m3 ?t ?nt ?W"
  note b = both_added_pair_up [OF assms(1) a(7) assms(6-8)]
  note p = pair_up_steps [OF b(3,4) assms(8), unfolded a(5,6)]
  have src: "(?s, unat (snd (ld_source d))) = src" "(?t, unat (snd (ld_sink d))) = snk"
    using assms(4,5) by (simp_all add: prod_eq_iff)
  obtain z where z: "upd_link ?y (?s, links_gen (entities m1 ! ?s), ?ns) (\<lambda>l. l\<lparr>twin := Some (?t, links_gen (entities m3 ! ?t), ?nt)\<rparr>) = Some z"
    "upd_link z (?t, links_gen (entities m3 ! ?t), ?nt) (\<lambda>l. l\<lparr>twin := Some (?s, links_gen (entities m1 ! ?s), ?ns)\<rparr>) =
       Some (pair_up ?y ?s ?ns ?t ?nt)"
    using p by (rule bind_Some_elim)
  have "enum_link k m d = Some (0, pair_up ?y ?s ?ns ?t ?nt)"
    by (simp add: enum_link_def assms(2,3) src a(1-4) z Let_def)
  then show ?thesis using b(1,2) by blast
qed


section \<open>The links of the kernel\<close>

text \<open>The graph that the kernel describes: for every entity its outgoing links, as source, sink, flags.\<close>

type_synonym link_view = "pad_ptr \<times> pad_ptr \<times> u32"

definition desc_of :: "media_entity_desc list \<Rightarrow> link_view \<Rightarrow> link_desc" where
  "desc_of ds v = \<lparr>ld_source = (ent_id (ds ! fst (fst v)), of_nat (snd (fst v))),
     ld_sink = (ent_id (ds ! fst (fst (snd v))), of_nat (snd (fst (snd v)))), ld_flags = snd (snd v)\<rparr>"

definition view_ok :: "media_entity_desc list \<Rightarrow> nat \<Rightarrow> link_view \<Rightarrow> bool" where
  "view_ok ds i v \<longleftrightarrow> fst (fst v) = i \<and> snd (fst v) < npads (ds ! i) \<and> fst (fst (snd v)) < length ds \<and>
     fst (fst (snd v)) \<noteq> i \<and> snd (fst (snd v)) < npads (ds ! fst (fst (snd v)))"

text \<open>The documented answers: pads are numbered from 0, and the links of an entity are those that leave it.\<close>

definition kernel_graph :: "kernel \<Rightarrow> media_entity_desc list \<Rightarrow> link_view list list \<Rightarrow> bool" where
  "kernel_graph k ds G \<longleftrightarrow> length G = length ds \<and> (\<forall>i < length ds. npads (ds ! i) \<le> 65535 \<and>
     length (G ! i) = nlinks (ds ! i) \<and> (\<forall>v \<in> set (G ! i). view_ok ds i v) \<and>
     (\<exists>ps. k_links k (ent_id (ds ! i)) = Inr (ps, map (desc_of ds) (G ! i)) \<and> length ps = npads (ds ! i) \<and>
        (\<forall>j < npads (ds ! i). fst (ps ! j) = of_nat j)))"

definition touches :: "nat \<Rightarrow> link_view \<Rightarrow> bool" where
  "touches a v \<longleftrightarrow> fst (fst v) = a \<or> fst (fst (snd v)) = a"

text \<open>The state in which the links \<open>vs\<close> have been entered, and the pads of the first \<open>i\<close> entities.\<close>

definition built :: "media_device \<Rightarrow> media_entity_desc list \<Rightarrow> link_view list \<Rightarrow> nat \<Rightarrow> media_device \<Rightarrow> bool" where
  "built m ds vs i x \<longleftrightarrow> same_frame m x \<and> map info (entities x) = ds \<and> links_ok x \<and>
     (\<forall>a < length ds. length (pads (entities x ! a)) = npads (ds ! a) \<and> (0 < npads (ds ! a) \<longrightarrow> room x a) \<and>
        map link_view (links (entities x ! a)) = filter (touches a) vs \<and>
        (a < i \<longrightarrow> (\<forall>j < npads (ds ! a). pad_entity (pads (entities x ! a) ! j) = Some (ents_gen m, a) \<and>
           pad_index (pads (entities x ! a) ! j) = of_nat j)))"

lemma map_info_nth: "map info (entities x) = ds \<Longrightarrow> a < length ds \<Longrightarrow> info (entities x ! a) = ds ! a"
  by auto

lemma by_id_loop_ok:
  assumes "distinct (map (ent_id \<circ> info) es)" "t < length es"
  shows "by_id_loop False (ent_id (info (es ! t))) es n = Some (n + t)"
  using assms
proof (induction es arbitrary: t n)
  case (Cons e es)
  show ?case
  proof (cases t)
    case (Suc t')
    then have "ent_id (info e) \<noteq> ent_id (info (es ! t'))" using Cons.prems by (auto simp: image_iff)
    then show ?thesis using Cons.IH [of t' "Suc n"] Cons.prems Suc by simp
  qed simp
qed simp

text \<open>Ids below the flag bit.\<close>

definition ids_ok :: "media_entity_desc list \<Rightarrow> bool" where
  "ids_ok ds \<longleftrightarrow> sorted_wrt (<) (map ent_id ds) \<and> (\<forall>d \<in> set ds. 0 < ent_id d \<and> ent_id d < MEDIA_ENT_ID_FLAG_NEXT)"

lemma small_id:
  assumes "(i :: u32) < MEDIA_ENT_ID_FLAG_NEXT"
  shows "no_flag i MEDIA_ENT_ID_FLAG_NEXT" "i AND NOT MEDIA_ENT_ID_FLAG_NEXT = i"
proof -
  have "uint i < 2 ^ 31" using assms by (simp add: word_less_def MEDIA_ENT_ID_FLAG_NEXT_def)
  then have t: "take_bit 31 (uint i) = uint i" by (simp add: take_bit_int_eq_self)
  have b: "\<not> bit i n" if "31 \<le> n" for n
  proof
    assume "bit i n"
    then have "bit (uint i) n" using bit_imp_le_length [of i n] by (simp add: bit_uint_iff)
    then have "bit (take_bit 31 (uint i)) n" by (simp only: t)
    then show False using that by (simp add: bit_take_bit_iff)
  qed
  have f: "bit MEDIA_ENT_ID_FLAG_NEXT n \<longleftrightarrow> n = 31" for n
  proof -
    have e: "MEDIA_ENT_ID_FLAG_NEXT = push_bit 31 1" by (simp add: MEDIA_ENT_ID_FLAG_NEXT_def push_bit_eq_mult)
    show ?thesis unfolding e bit_push_bit_iff by (auto simp: bit_1_iff possible_bit_word)
  qed
  show "no_flag i MEDIA_ENT_ID_FLAG_NEXT" "i AND NOT MEDIA_ENT_ID_FLAG_NEXT = i"
    using b [of 31] by (auto simp: no_flag_def bit_and_iff bit_not_iff f intro!: bit_eqI)
qed

lemma by_id_ok:
  assumes "ids_ok ds" "map info (entities x) = ds" "t < length ds"
  shows "media_get_entity_by_id x (ent_id (ds ! t)) = Some t"
proof -
  have "sorted_wrt (<) (map (ent_id \<circ> info) (entities x))" using assms(1,2) by (auto simp: ids_ok_def)
  then have "distinct (map (ent_id \<circ> info) (entities x))" by (simp add: strict_sorted_iff)
  from by_id_loop_ok [OF this, of t 0] small_id [of "ent_id (ds ! t)"] assms
  show ?thesis by (auto simp: media_get_entity_by_id_def ids_ok_def)
qed


lemma touches_iff: "view_ok ds i v \<Longrightarrow> touches a v \<longleftrightarrow> a = i \<or> a = fst (fst (snd v))"
  by (auto simp: touches_def view_ok_def)

lemma built_link:
  assumes "built m ds vs n x" "ids_ok ds" "view_ok ds i v" "i < length ds" "\<And>i. i < length ds \<Longrightarrow> npads (ds ! i) \<le> 65535"
    "\<And>n. k_mem k n"
  shows "\<exists>y. enum_link k x (desc_of ds v) = Some (0, y) \<and> built m ds (vs @ [v]) n y"
proof -
  obtain src snk fl where v: "v = (src, snk, fl)" by (metis prod.exhaust)
  note b = assms(1) [unfolded built_def]
  have len: "length (entities x) = length ds" using b by auto
  have e: "fst src < length ds" "fst snk < length ds" "fst src \<noteq> fst snk" "snd src < npads (ds ! fst src)"
    "snd snk < npads (ds ! fst snk)"
    using assms(3,4) by (auto simp: view_ok_def v)
  have w: "unat (of_nat j :: u32) = j" if "j < npads (ds ! a)" "a < length ds" for a j
    using that assms(5) [OF that(2)] by (simp add: unat_of_nat)
  have "\<exists>y. enum_link k x (desc_of ds v) = Some (0, y) \<and> links_ok y \<and> link_added x src snk (ld_flags (desc_of ds v)) y"
  proof (rule enum_link_ok)
    show "links_ok x" using b by blast
    show "media_get_entity_by_id x (fst (ld_source (desc_of ds v))) = Some (fst src)"
      "media_get_entity_by_id x (fst (ld_sink (desc_of ds v))) = Some (fst snk)"
      using by_id_ok [OF assms(2)] b e by (auto simp: desc_of_def v)
    show "snd src = unat (snd (ld_source (desc_of ds v)))" "snd snk = unat (snd (ld_sink (desc_of ds v)))"
      using w [OF e(4,1)] w [OF e(5,2)] by (simp_all add: desc_of_def v)
    show "pad_ok x src" "pad_ok x snk" using b e len by (auto simp: pad_ok_def)
    show "room x (fst src)" "room x (fst snk)" using b e by auto
  qed (use e assms(6) in auto)
  then obtain y where y: "enum_link k x (desc_of ds v) = Some (0, y)" "links_ok y" "link_added x src snk fl y"
    by (auto simp: desc_of_def v)
  note c = y(3) [unfolded link_added_def]
  have "built m ds (vs @ [v]) n y"
    unfolding built_def
  proof (intro conjI allI impI)
    show "same_frame m y" using b c same_frame_trans by blast
    show "map info (entities y) = ds" using b c len by (auto intro!: nth_equalityI)
    show "links_ok y" by (rule y(2))
    fix a assume a: "a < length ds"
    show "length (pads (entities y ! a)) = npads (ds ! a)" "0 < npads (ds ! a) \<Longrightarrow> room y a" using b c a len by auto
    show "map link_view (links (entities y ! a)) = filter (touches a) (vs @ [v])"
      using b c a len by (auto simp: touches_def v)
    show "pad_entity (pads (entities y ! a) ! j) = Some (ents_gen m, a)" "pad_index (pads (entities y ! a) ! j) = of_nat j"
      if "a < n" "j < npads (ds ! a)" for j
      using b c a len that by auto
  qed
  then show ?thesis using y(1) by blast
qed

lemma built_links:
  assumes "ids_ok ds" "i < length ds" "\<And>i. i < length ds \<Longrightarrow> npads (ds ! i) \<le> 65535" "\<And>n. k_mem k n"
  shows "built m ds vs n x \<Longrightarrow> \<forall>v \<in> set ws. view_ok ds i v \<Longrightarrow>
    \<exists>y. enum_entity_links k (map (desc_of ds) ws) ret x = Some (ret, y) \<and> built m ds (vs @ ws) n y"
proof (induction ws arbitrary: vs x)
  case Nil
  then show ?case by simp
next
  case (Cons w ws)
  have "view_ok ds i w" using Cons.prems(2) by simp
  from built_link [OF Cons.prems(1) assms(1) this assms(2,3,4)]
  obtain y where y: "enum_link k x (desc_of ds w) = Some (0, y)" "built m ds (vs @ [w]) n y" by blast
  from Cons.IH [OF y(2)] Cons.prems(2) show ?case by (simp add: y(1))
qed


lemma built_fill_pads:
  assumes "built m ds vs i x" "i < length ds" "length ps = npads (ds ! i)" "\<forall>j < npads (ds ! i). fst (ps ! j) = of_nat j"
  shows "\<exists>y. fill_pads x i ps = Some y \<and> built m ds vs (Suc i) y"
proof -
  note b = assms(1) [unfolded built_def]
  have len: "length (entities x) = length ds" using b by auto
  have i: "i < length (entities x)" "info (entities x ! i) = ds ! i" "length (pads (entities x ! i)) = npads (ds ! i)"
    subgoal using assms(2) len by simp
    subgoal using map_info_nth [of x ds i] b assms(2) by blast
    subgoal using b assms(2) by blast
    done
  have g: "ents_gen x = ents_gen m" using b by (auto dest: same_frame_fields)
  let ?P = "map (\<lambda>p. \<lparr>pad_entity = Some (ents_gen m, i), pad_index = fst p, pad_flags = snd p\<rparr>) ps"
  let ?y = "upd_entity x i (\<lambda>e. e\<lparr>pads := ?P\<rparr>)"
  have an: "answer (0, 0) (length ps) ps = ps" by (simp add: answer_def)
  have "upd_entity x i (\<lambda>e. e\<lparr>pads := ?P @ drop (npads (info e)) (pads e)\<rparr>) = ?y"
    by (simp add: upd_entity_def i)
  then have f: "fill_pads x i ps = Some ?y"
    using i by (simp add: fill_pads_def g assms(3) [symmetric] an upd_entity_def)
  have n: "entities ?y ! a = (if a = i then (entities x ! i)\<lparr>pads := ?P\<rparr> else entities x ! a)" if "a < length ds" for a
    using upd_entity_nth [OF i(1)] that len by simp
  have el: "links (entities ?y ! a) = links (entities x ! a)" "links_gen (entities ?y ! a) = links_gen (entities x ! a)"
    "length (pads (entities ?y ! a)) = length (pads (entities x ! a))" for a
    by (cases "a = i"; simp add: upd_entity_def i(1) i(3) assms(3))+
  have l: "lnk ?y = lnk x" "has_link ?y = has_link x" "pad_ok ?y = pad_ok x"
    by (simp_all add: fun_eq_iff lnk_def has_link_def pad_ok_def el)
  have "built m ds vs (Suc i) ?y"
    unfolding built_def
  proof (intro conjI allI impI)
    have "same_frame m x" using b by blast
    then show "same_frame m ?y" by simp
    have "info (entities ?y ! a) = ds ! a" if "a < length ds" for a
      using n [OF that] i(2) map_info_nth [of x ds a] b that by simp
    then show "map info (entities ?y) = ds" using len by (intro nth_equalityI) simp_all
    have "links_ok x" using b by blast
    then show "links_ok ?y" by (simp add: links_ok_def link_ok_def flags_ok_def l el)
    fix a assume a: "a < length ds"
    have "length (pads (entities x ! a)) = npads (ds ! a)" "map link_view (links (entities x ! a)) = filter (touches a) vs"
      using b a by blast+
    then show "length (pads (entities ?y ! a)) = npads (ds ! a)"
      "map link_view (links (entities ?y ! a)) = filter (touches a) vs" by (simp_all add: el)
    show "room ?y a" if "0 < npads (ds ! a)"
    proof -
      have "room x a" using b a that by blast
      then show ?thesis using n [OF a] by (cases "a = i") (simp_all add: room_def)
    qed
    fix j assume j: "a < Suc i" "j < npads (ds ! a)"
    show "pad_entity (pads (entities ?y ! a) ! j) = Some (ents_gen m, a)" "pad_index (pads (entities ?y ! a) ! j) = of_nat j"
    proof -
      have "pad_entity (pads (entities ?y ! a) ! j) = Some (ents_gen m, a) \<and> pad_index (pads (entities ?y ! a) ! j) = of_nat j"
      proof (cases "a = i")
        case True
        then show ?thesis using n [OF a] j assms(3,4) by simp
      next
        case False
        then have "a < i" using j by simp
        then show ?thesis using n [OF a] False b a j(2) by simp
      qed
      then show "pad_entity (pads (entities ?y ! a) ! j) = Some (ents_gen m, a)"
        "pad_index (pads (entities ?y ! a) ! j) = of_nat j" by simp_all
    qed
  qed
  then show ?thesis using f by blast
qed

lemma built_loop:
  assumes "ids_ok ds" "kernel_graph k ds G" "\<And>n. k_mem k n"
  shows "built m ds (concat (take i G)) i x \<Longrightarrow> i + n = length ds \<Longrightarrow>
    \<exists>y. enum_links_loop k i n 0 x = Some (0, y) \<and> built m ds (concat G) (length ds) y"
proof (induction n arbitrary: i x)
  case 0
  then show ?case using assms(2) by (simp add: kernel_graph_def)
next
  case (Suc n)
  have i: "i < length ds" using Suc.prems(2) by simp
  note b = Suc.prems(1) [unfolded built_def]
  have len: "length (entities x) = length ds" using b by auto
  then have e: "c_read (entities x) (int i) = Some (entities x ! i)" "info (entities x ! i) = ds ! i"
    using b i by auto
  obtain ps where ps: "k_links k (ent_id (ds ! i)) = Inr (ps, map (desc_of ds) (G ! i))" "length ps = npads (ds ! i)"
    "\<forall>j < npads (ds ! i). fst (ps ! j) = of_nat j"
    using assms(2) i unfolding kernel_graph_def by blast
  have G: "length (G ! i) = nlinks (ds ! i)" "\<forall>v \<in> set (G ! i). view_ok ds i v" "length G = length ds"
    "\<And>i. i < length ds \<Longrightarrow> npads (ds ! i) \<le> 65535"
    using assms(2) i unfolding kernel_graph_def by blast+
  obtain y where y: "fill_pads x i ps = Some y" "built m ds (concat (take i G)) (Suc i) y"
    using built_fill_pads [OF Suc.prems(1) i ps(2,3)] by blast
  obtain z where z: "enum_entity_links k (map (desc_of ds) (G ! i)) 0 y = Some (0, z)"
    "built m ds (concat (take i G) @ G ! i) (Suc i) z"
    using built_links [OF assms(1) i G(4) assms(3) y(2) G(2)] by blast
  have "concat (take (Suc i) G) = concat (take i G) @ G ! i" using i G(3) by (simp add: take_Suc_conv_app_nth)
  then obtain w where "enum_links_loop k (Suc i) n 0 z = Some (0, w)" "built m ds (concat G) (length ds) w"
    using Suc.IH [of "Suc i" z] z(2) Suc.prems(2) by auto
  moreover have "answer no_link (nlinks (ds ! i)) (map (desc_of ds) (G ! i)) = map (desc_of ds) (G ! i)"
    by (simp add: answer_def G(1))
  ultimately show ?case by (simp add: e ps(1) assms(3) y(1) z(1))
qed

section \<open>The entities of the kernel\<close>

text \<open>The documented answer to \<open>MEDIA_IOC_ENUM_ENTITIES\<close> with the flag for the next entity: the first
  entity with a larger id, or \<open>EINVAL\<close> after the last.\<close>

definition lists_entities :: "kernel \<Rightarrow> media_entity_desc list \<Rightarrow> bool" where
  "lists_entities k ds \<longleftrightarrow> ids_ok ds \<and> (\<forall>i < MEDIA_ENT_ID_FLAG_NEXT. k_entity k (i OR MEDIA_ENT_ID_FLAG_NEXT) =
     (case find (\<lambda>d. i < ent_id d) ds of None \<Rightarrow> Inl EINVAL | Some d \<Rightarrow> Inr d))"

text \<open>The device name of every device node can be looked up without overflowing a buffer.\<close>

definition names_fit :: "kernel \<Rightarrow> media_entity_desc list \<Rightarrow> bool" where
  "names_fit k ds \<longleftrightarrow> (\<forall>d \<in> set ds. media_get_devname_sysfs k d '''' \<noteq> None)"

text \<open>No default entity was set when the block had moved more than \<open>n\<close> times.\<close>

definition defs_le :: "nat \<Rightarrow> media_device \<Rightarrow> bool" where
  "defs_le n x \<longleftrightarrow> (\<forall>t p. media_get_default_entity x t = Some p \<longrightarrow> fst p \<le> n)"

lemma defs_le_mono: "defs_le n x \<Longrightarrow> n \<le> n' \<Longrightarrow> defs_le n' x"
  by (auto simp: defs_le_def intro: le_trans)

lemma default_frame [simp]:
  "media_get_default_entity (x\<lparr>ents_gen := g\<rparr>) = media_get_default_entity x"
  "media_get_default_entity (x\<lparr>entities := es\<rparr>) = media_get_default_entity x"
  "media_get_default_entity (upd_entity x i f) = media_get_default_entity x"
  "media_get_default_entity (x\<lparr>fd := f'\<rparr>) = media_get_default_entity x"
  "media_get_default_entity (x\<lparr>trace := tr\<rparr>) = media_get_default_entity x"
  by (simp_all add: media_get_default_entity_def upd_entity_def fun_eq_iff)

lemma default_same_frame: "same_frame x y \<Longrightarrow> media_get_default_entity y = media_get_default_entity x"
  by (simp add: media_get_default_entity_def fun_eq_iff same_frame_fields)

lemma defs_le_frame [simp]:
  "defs_le n (x\<lparr>ents_gen := g\<rparr>) = defs_le n x" "defs_le n (x\<lparr>entities := es\<rparr>) = defs_le n x"
  "defs_le n (upd_entity x i f) = defs_le n x"
  by (simp_all add: defs_le_def)

lemma devnode_types_distinct [simp]:
  "MEDIA_ENT_T_DEVNODE_V4L \<noteq> MEDIA_ENT_T_DEVNODE_FB" "MEDIA_ENT_T_DEVNODE_V4L \<noteq> MEDIA_ENT_T_DEVNODE_ALSA" "MEDIA_ENT_T_DEVNODE_V4L \<noteq> MEDIA_ENT_T_DEVNODE_DVB"
  "MEDIA_ENT_T_DEVNODE_FB \<noteq> MEDIA_ENT_T_DEVNODE_V4L" "MEDIA_ENT_T_DEVNODE_FB \<noteq> MEDIA_ENT_T_DEVNODE_ALSA" "MEDIA_ENT_T_DEVNODE_FB \<noteq> MEDIA_ENT_T_DEVNODE_DVB"
  "MEDIA_ENT_T_DEVNODE_ALSA \<noteq> MEDIA_ENT_T_DEVNODE_V4L" "MEDIA_ENT_T_DEVNODE_ALSA \<noteq> MEDIA_ENT_T_DEVNODE_FB" "MEDIA_ENT_T_DEVNODE_ALSA \<noteq> MEDIA_ENT_T_DEVNODE_DVB"
  "MEDIA_ENT_T_DEVNODE_DVB \<noteq> MEDIA_ENT_T_DEVNODE_V4L" "MEDIA_ENT_T_DEVNODE_DVB \<noteq> MEDIA_ENT_T_DEVNODE_FB" "MEDIA_ENT_T_DEVNODE_DVB \<noteq> MEDIA_ENT_T_DEVNODE_ALSA"
  by (simp_all add: MEDIA_ENT_T_DEVNODE_V4L_def MEDIA_ENT_T_DEVNODE_FB_def MEDIA_ENT_T_DEVNODE_ALSA_def MEDIA_ENT_T_DEVNODE_DVB_def)

text \<open>Every kind of device node with a default entity among \<open>ds\<close> has one in \<open>x\<close>.\<close>

definition devnode_types :: "u32 list" where
  "devnode_types = [MEDIA_ENT_T_DEVNODE_V4L, MEDIA_ENT_T_DEVNODE_FB, MEDIA_ENT_T_DEVNODE_ALSA, MEDIA_ENT_T_DEVNODE_DVB]"

definition defs_set :: "media_entity_desc list \<Rightarrow> media_device \<Rightarrow> bool" where
  "defs_set ds x \<longleftrightarrow> (\<forall>d \<in> set ds. \<not> no_flag (ent_flags d) MEDIA_ENT_FL_DEFAULT \<and> ent_type d \<in> set devnode_types \<longrightarrow>
     media_get_default_entity x (ent_type d) \<noteq> None)"

lemma defs_set_frame [simp]:
  "defs_set ds (x\<lparr>ents_gen := g\<rparr>) = defs_set ds x" "defs_set ds (x\<lparr>entities := es\<rparr>) = defs_set ds x"
  "defs_set ds (upd_entity x i f) = defs_set ds x"
  by (simp_all add: defs_set_def)

lemma set_default_get:
  assumes "t \<in> set devnode_types"
  shows "media_get_default_entity (set_default t p x) t' = (if t' = t then Some p else media_get_default_entity x t')"
proof -
  consider "t = MEDIA_ENT_T_DEVNODE_V4L" | "t = MEDIA_ENT_T_DEVNODE_FB" | "t = MEDIA_ENT_T_DEVNODE_ALSA" |
    "t = MEDIA_ENT_T_DEVNODE_DVB" using assms by (auto simp: devnode_types_def)
  then show ?thesis by cases (simp_all add: set_default_def media_get_default_entity_def)
qed

lemma set_default_skip: "t \<notin> set devnode_types \<Longrightarrow> set_default t p x = x"
  by (simp add: devnode_types_def set_default_def)

lemma set_default_sets:
  "media_get_default_entity x t' \<noteq> None \<Longrightarrow> media_get_default_entity (set_default t p x) t' \<noteq> None"
  by (cases "t \<in> set devnode_types") (simp_all add: set_default_get set_default_skip)

lemma defs_le_set_default:
  assumes "defs_le n x" "fst p \<le> n"
  shows "defs_le n (set_default t p x)"
  using assms by (cases "t \<in> set devnode_types") (auto simp: defs_le_def set_default_get set_default_skip)

lemma defs_set_default:
  assumes "defs_set ds x"
  shows "defs_set (ds @ [d]) (set_default (ent_type d) p x)"
  unfolding defs_set_def
proof (intro ballI impI)
  fix d' assume a: "d' \<in> set (ds @ [d])" "\<not> no_flag (ent_flags d') MEDIA_ENT_FL_DEFAULT \<and> ent_type d' \<in> set devnode_types"
  show "media_get_default_entity (set_default (ent_type d) p x) (ent_type d') \<noteq> None"
  proof (cases "d' = d")
    case True
    then show ?thesis using a(2) by (simp add: set_default_get)
  next
    case False
    then have "media_get_default_entity x (ent_type d') \<noteq> None" using assms a by (auto simp: defs_set_def)
    then show ?thesis by (rule set_default_sets)
  qed
qed

lemma defs_set_skip: "defs_set ds x \<Longrightarrow> no_flag (ent_flags d) MEDIA_ENT_FL_DEFAULT \<Longrightarrow> defs_set (ds @ [d]) x"
  by (simp add: defs_set_def)

text \<open>The state \<open>x\<close> in which \<open>ds\<close> have been listed, in blocks moved \<open>n\<close> times.\<close>

definition listed :: "media_device \<Rightarrow> media_entity_desc list \<Rightarrow> nat \<Rightarrow> media_device \<Rightarrow> bool" where
  "listed m ds n x \<longleftrightarrow> map info (entities x) = ds \<and> ents_gen x = n \<and> fd x = fd m \<and> trace x = trace m \<and>
     refcount x = refcount m \<and> devnode x = devnode m \<and> defs_le n x \<and> defs_set ds x \<and>
     (\<forall>e \<in> set (entities x). length (pads e) = npads (info e) \<and> links e = [] \<and>
        max_links e = npads (info e) + nlinks (info e))"

lemma set_default_simps [simp]:
  "entities (set_default t p m) = entities m" "ents_gen (set_default t p m) = ents_gen m"
  "fd (set_default t p m) = fd m" "trace (set_default t p m) = trace m" "refcount (set_default t p m) = refcount m"
  "devnode (set_default t p m) = devnode m"
  by (simp_all add: set_default_def)

lemma enum_entity_ok:
  assumes "listed m ds n x" "media_get_devname_sysfs k d '''' \<noteq> None" "\<And>n. k_mem k n"
  shows "\<exists>y. enum_entity k d x = Some (0, y) \<and> listed m (ds @ [d]) n y"
proof -
  obtain r dn where dn: "media_get_devname_sysfs k d '''' = Some (r, dn)" using assms(2) by auto
  define e where "e = \<lparr>info = d, pads = replicate (npads d) null_pad, links = [], max_links = npads d + nlinks d,
                 links_gen = 0, devname = '''', efd = -1\<rparr>"
  define x' where "x' = x\<lparr>entities := entities x @ [e]\<rparr>"
  define y where "y = (if \<not> no_flag (ent_flags d) MEDIA_ENT_FL_DEFAULT
    then set_default (ent_type d) (ents_gen x', length (entities x)) x' else x')"
  have y: "listed m (ds @ [d]) n y"
    using assms(1) by (auto simp: listed_def y_def x'_def e_def defs_le_set_default
      defs_set_default defs_set_skip)
  have ey: "entities y = entities x @ [e]" by (simp add: y_def x'_def)
  let ?z = "upd_entity y (length (entities x)) (\<lambda>e. e\<lparr>devname := dn\<rparr>)"
  have "entities ?z = entities x @ [e\<lparr>devname := dn\<rparr>]" by (simp add: upd_entity_def ey)
  then have "listed m (ds @ [d]) n ?z" using y by (auto simp: listed_def ey upd_entity_def)
  moreover have "enum_entity k d x = Some (0, y) \<or> enum_entity k d x = Some (0, ?z)"
    unfolding enum_entity_def y_def x'_def e_def by (simp add: assms(3) dn Let_def)
  ultimately show ?thesis using y by blast
qed

lemma find_next:
  assumes "sorted_wrt (<) (map ent_id (xs @ ys))" "\<forall>d \<in> set xs. ent_id d \<le> i" "\<forall>d \<in> set ys. i < ent_id d"
  shows "find (\<lambda>d. i < ent_id d) (xs @ ys) = (case ys of [] \<Rightarrow> None | d # _ \<Rightarrow> Some d)"
  using assms by (induction xs) (auto simp: not_less split: list.splits)

lemma enum_entities_ok:
  assumes "lists_entities k ds" "names_fit k ds" "\<And>n. k_mem k n"
  shows "ds = xs @ ys \<Longrightarrow> listed m xs n x \<Longrightarrow> \<forall>d \<in> set xs. ent_id d \<le> i \<Longrightarrow> \<forall>d \<in> set ys. i < ent_id d \<Longrightarrow>
    i < MEDIA_ENT_ID_FLAG_NEXT \<Longrightarrow>
    \<exists>y. enum_entities_loop k i x = Some (0, y) \<and> listed m ds (n + length ys + 1) y \<and> defs_le (n + length ys) y"
proof (induction ys arbitrary: xs x i n)
  case Nil
  have "k_entity k (i OR MEDIA_ENT_ID_FLAG_NEXT) = Inl EINVAL"
    using assms(1) Nil.prems find_next [of xs "[]" i] by (auto simp: lists_entities_def ids_ok_def)
  then show ?case using Nil.prems(1,2) assms(3)
    by (subst enum_entities_loop.simps) (auto simp: listed_def intro: defs_le_mono)
next
  case (Cons d ys)
  have srt: "sorted_wrt (<) (map ent_id (xs @ d # ys))" using assms(1) Cons.prems(1) by (simp add: lists_entities_def ids_ok_def)
  have k: "k_entity k (i OR MEDIA_ENT_ID_FLAG_NEXT) = Inr d"
    using assms(1) Cons.prems(1,5) find_next [OF srt Cons.prems(3,4)] by (simp add: lists_entities_def)
  let ?x = "x\<lparr>ents_gen := ents_gen x + 1\<rparr>"
  have l: "listed m xs (n + 1) ?x" using Cons.prems(2) by (auto simp: listed_def intro: defs_le_mono)
  have fit: "media_get_devname_sysfs k d '''' \<noteq> None" using assms(2) Cons.prems(1) by (simp add: names_fit_def)
  obtain y where y: "enum_entity k d ?x = Some (0, y)" "listed m (xs @ [d]) (n + 1) y"
    using enum_entity_ok [OF l fit assms(3)] by blast
  have ids: "ent_id d < MEDIA_ENT_ID_FLAG_NEXT" using assms(1) Cons.prems(1) by (simp add: lists_entities_def ids_ok_def)
  have o: "\<forall>d' \<in> set (xs @ [d]). ent_id d' \<le> ent_id d" "\<forall>d' \<in> set ys. ent_id d < ent_id d'"
    using srt by (auto simp: sorted_wrt_append intro: less_imp_le)
  have "ds = (xs @ [d]) @ ys" using Cons.prems(1) by simp
  from Cons.IH [OF this y(2) o ids]
  obtain z where z: "enum_entities_loop k (ent_id d) y = Some (0, z)" "listed m ds (n + 1 + length ys + 1) z"
    "defs_le (n + 1 + length ys) z"
    by blast
  have "enum_entities_loop k i x = Some (0, z)"
    using y(1) z(1) by (subst enum_entities_loop.simps) (simp add: k assms(3))
  then show ?case using z(2,3) by simp
qed

section \<open>Enumerating the device\<close>

text \<open>A device that has just been created, and a kernel whose answers are complete and consistent.\<close>

definition fresh :: "media_device \<Rightarrow> bool" where
  "fresh m \<longleftrightarrow> fd m = -1 \<and> entities m = [] \<and> ents_gen m = 0 \<and> defs_le 0 m"

definition kernel_ready :: "kernel \<Rightarrow> media_entity_desc list \<Rightarrow> link_view list list \<Rightarrow> media_device \<Rightarrow> bool" where
  "kernel_ready k ds G m \<longleftrightarrow> lists_entities k ds \<and> names_fit k ds \<and> kernel_graph k ds G \<and> (\<forall>n. k_mem k n) \<and>
     0 \<le> k_open k (trace m) \<and> k_info k (trace m @ [MOpen]) = 0"

lemma listed_built:
  assumes "listed m ds n x"
  shows "built x ds [] 0 x"
proof -
  note l = assms [unfolded listed_def]
  have nl: "\<not> has_link x a b" for a b using l by (auto simp: has_link_def)
  have e: "length (pads (entities x ! a)) = npads (ds ! a) \<and> links (entities x ! a) = [] \<and>
      max_links (entities x ! a) = npads (ds ! a) + nlinks (ds ! a)" if "a < length ds" for a
  proof -
    have "entities x ! a \<in> set (entities x)" "info (entities x ! a) = ds ! a" using l that by auto
    then show ?thesis using l by auto
  qed
  show ?thesis using l nl e by (simp add: built_def links_ok_def room_def)
qed

lemma built_graph_ok:
  assumes "built m ds vs (length ds) x" "ents_gen x = ents_gen m" "\<And>i. i < length ds \<Longrightarrow> npads (ds ! i) \<le> 65535"
  shows "graph_ok x"
proof -
  note b = assms(1) [unfolded built_def]
  have len: "length (entities x) = length ds" using b by auto
  have "pads_ok x" using b len assms(2,3) map_info_nth [of x ds] by (simp add: pads_ok_def)
  then show ?thesis using b by (simp add: graph_ok_split)
qed

lemma enumerate_ok:
  assumes "fresh m" "kernel_ready k ds G m"
  shows "\<exists>x. media_device_enumerate k m = Some (0, x) \<and> graph_ok x \<and> fd x = -1 \<and> map info (entities x) = ds \<and>
    (\<forall>a < length ds. map link_view (links (entities x ! a)) = filter (touches a) (concat G)) \<and>
    ents_gen x = length ds + 1 \<and> defs_le (length ds) x \<and> defs_set ds x"
proof -
  let ?n = "k_open k (trace m)"
  let ?m = "m\<lparr>fd := ?n, trace := trace m @ [MOpen]\<rparr>"
  have K: "lists_entities k ds" "names_fit k ds" "kernel_graph k ds G" "\<And>n. k_mem k n" "0 \<le> ?n"
    "k_info k (trace m @ [MOpen]) = 0" using assms(2) by (auto simp: kernel_ready_def)
  have op: "media_device_open k m = (0, ?m)" using assms(1) K(5) by (simp add: media_device_open_def fresh_def)
  have l0: "listed ?m [] 0 ?m" using assms(1) by (simp add: listed_def fresh_def defs_le_def defs_set_def)
  have ids: "ids_ok ds" using K(1) by (simp add: lists_entities_def)
  then have pos: "\<forall>d \<in> set ds. 0 < ent_id d" "(0 :: u32) < MEDIA_ENT_ID_FLAG_NEXT"
    by (auto simp: ids_ok_def MEDIA_ENT_ID_FLAG_NEXT_def)
  obtain x where x: "enum_entities_loop k 0 ?m = Some (0, x)" "listed ?m ds (0 + length ds + 1) x" "defs_le (0 + length ds) x"
    using enum_entities_ok [OF K(1,2,4), of "[]" ds ?m 0 ?m 0] l0 pos by auto
  have lx: "length (entities x) = length ds" "fd x = ?n" "ents_gen x = length ds + 1"
    using x(2) by (auto simp: listed_def)
  obtain y where y: "enum_links_loop k 0 (length ds) 0 x = Some (0, y)" "built x ds (concat G) (length ds) y"
    using built_loop [OF ids K(3,4), of x 0 x "length ds"] listed_built [OF x(2)] by auto
  have fr: "same_frame x y" using y(2) by (simp add: built_def)
  note f = same_frame_fields [OF fr]
  have np: "npads (ds ! i) \<le> 65535" if "i < length ds" for i using K(3) that by (simp add: kernel_graph_def)
  have g: "graph_ok y" by (rule built_graph_ok [OF y(2) f(1) np])
  have d: "defs_le (length ds) y" using x(3) default_same_frame [OF fr] by (simp add: defs_le_def)
  have "defs_set ds x" using x(2) by (simp add: listed_def)
  then have ds: "defs_set ds y" using default_same_frame [OF fr] by (simp add: defs_set_def)
  let ?z = "media_device_close y"
  have z: "?z = y\<lparr>fd := -1, trace := trace y @ [MClose ?n]\<rparr>" using K(5) by (simp add: media_device_close_def f lx)
  have e: "media_device_enumerate k m = Some (0, ?z)"
    using assms(1) K(6) by (simp add: media_device_enumerate_def op media_enum_entities_def x(1) media_enum_links_def lx y(1) fresh_def)
  have "graph_ok ?z" "fd ?z = -1" "entities ?z = entities y" "ents_gen ?z = length ds + 1" "defs_le (length ds) ?z" "defs_set ds ?z"
    using g d ds f lx by (simp_all add: z defs_le_def defs_set_def)
  then show ?thesis using e y(2) by (auto simp: built_def)
qed

section \<open>A concrete kernel\<close>

text \<open>A sensor (one source pad, one link) and a receiver (a sink and a source pad) that is also the
  default video node; the documented answers are computed from the lists.\<close>

definition list_kernel :: "media_entity_desc list \<Rightarrow> (u32 \<Rightarrow> int + ((u32 \<times> u32) list \<times> link_desc list)) \<Rightarrow> kernel" where
  "list_kernel ds ls = \<lparr>k_open = \<lambda>_. 5, k_setup = \<lambda>_ u. (0, ld_flags u), k_info = \<lambda>_. 0,
     k_entity = \<lambda>i. (case find (\<lambda>d. i AND NOT MEDIA_ENT_ID_FLAG_NEXT < ent_id d) ds of None \<Rightarrow> Inl EINVAL | Some d \<Rightarrow> Inr d),
     k_links = ls, k_readlink = \<lambda>_. Inr ''../../devices/video0'', k_stat = \<lambda>_. Inr (81, 0), k_mem = \<lambda>_. True\<rparr>"

definition cam_entities :: "media_entity_desc list" where
  "cam_entities =
     [\<lparr>ent_id = 1, ent_name = ''sensor'', ent_type = 0x20000, ent_flags = 0, npads = 1, nlinks = 1, major = 81, minor = 1\<rparr>,
      \<lparr>ent_id = 4, ent_name = ''receiver'', ent_type = 0x10001, ent_flags = 1, npads = 2, nlinks = 0, major = 81, minor = 0\<rparr>]"

definition cam_links :: "link_view list list" where
  "cam_links = [[((0, 0), (1, 0), 1)], []]"

definition cam_kernel :: kernel where
  "cam_kernel = list_kernel cam_entities (\<lambda>i. if i = 1 then Inr ([(0, 2)], map (desc_of cam_entities) (cam_links ! 0))
     else Inr ([(0, 1), (1, 2)], []))"

definition new_device :: media_device where
  "new_device = media_device_blank\<lparr>devnode := Some ''/dev/media0''\<rparr>"

lemma or_flag_id:
  assumes "(i :: u32) < MEDIA_ENT_ID_FLAG_NEXT"
  shows "(i OR MEDIA_ENT_ID_FLAG_NEXT) AND NOT MEDIA_ENT_ID_FLAG_NEXT = i"
proof -
  have "(i OR f) AND NOT f = i AND NOT f" for f :: u32
    by (rule bit_eqI) (auto simp: bit_and_iff bit_or_iff bit_not_iff)
  then show ?thesis using small_id(2) [OF assms] by simp
qed

lemma list_kernel_lists: "ids_ok ds \<Longrightarrow> lists_entities (list_kernel ds ls) ds"
  by (simp add: lists_entities_def list_kernel_def or_flag_id)

lemma cam_names: "names_fit cam_kernel cam_entities"
  by (simp add: names_fit_def cam_entities_def cam_kernel_def list_kernel_def media_get_devname_sysfs_def Let_def
      dec.simps)

lemma cam_ready: "kernel_ready cam_kernel cam_entities cam_links new_device"
proof -
  have "ids_ok cam_entities" by (simp add: ids_ok_def cam_entities_def MEDIA_ENT_ID_FLAG_NEXT_def)
  then have "lists_entities cam_kernel cam_entities" unfolding cam_kernel_def by (rule list_kernel_lists)
  moreover have "kernel_graph cam_kernel cam_entities cam_links"
    by (auto simp: kernel_graph_def cam_kernel_def list_kernel_def cam_entities_def cam_links_def view_ok_def less_Suc_eq less_2_cases_iff)
  ultimately show ?thesis using cam_names by (simp add: kernel_ready_def cam_kernel_def list_kernel_def)
qed

lemma new_device_fresh: "fresh new_device"
  by (simp add: fresh_def new_device_def media_device_blank_def defs_le_def media_get_default_entity_def)

section \<open>Properties\<close>

text \<open>C10: enumerating a new device terminates and builds the kernel's graph: given the documented
  answers of the kernel (entities in the order of their ids, pads numbered from 0, for every entity
  the links that leave it, between different entities), it returns 0, has closed the device again,
  knows exactly the kernel's entities, lists with each of them the links that touch it, in order,
  and the graph is well-formed, although blocks of links were moved on the way.\<close>

theorem enumerate_builds_graph:
  assumes "fresh m" "kernel_ready k ds G m"
  shows "\<exists>x. media_device_enumerate k m = Some (0, x) \<and> graph_ok x \<and> fd x = -1 \<and> map info (entities x) = ds \<and>
    (\<forall>a < length ds. map link_view (links (entities x ! a)) = filter (touches a) (concat G))"
  using enumerate_ok [OF assms] by blast

theorem enumerate_builds_graph_witness:
  "\<exists>x. media_device_enumerate cam_kernel new_device = Some (0, x) \<and> graph_ok x \<and>
     map link_view (links (entities x ! 1)) = [((0, 0), (1, 0), 1)]"
proof -
  obtain x where "media_device_enumerate cam_kernel new_device = Some (0, x)" "graph_ok x"
    "\<forall>a < length cam_entities. map link_view (links (entities x ! a)) = filter (touches a) (concat cam_links)"
    using enumerate_builds_graph [OF new_device_fresh cam_ready] by blast
  moreover have "filter (touches 1) (concat cam_links) = [((0, 0), (1, 0), 1)]"
    by (simp add: cam_links_def touches_def)
  moreover have "length cam_entities = 2" by (simp add: cam_entities_def)
  ultimately show ?thesis by (intro exI [of _ x]) simp
qed

text \<open>the pointers to the default entities never survive the enumeration that sets them: every
  kind of device node with a default entity gets a pointer, but the block of entities is moved once
  more afterwards, by the pass that finds no further entity, so following the pointer is undefined.\<close>

theorem default_entities_dangle:
  assumes "fresh m" "kernel_ready k ds G m"
  shows "\<exists>x. media_device_enumerate k m = Some (0, x) \<and>
    (\<forall>t p. media_get_default_entity x t = Some p \<longrightarrow> the_entity x p = None) \<and>
    (\<forall>d \<in> set ds. \<not> no_flag (ent_flags d) MEDIA_ENT_FL_DEFAULT \<and> ent_type d \<in> set devnode_types \<longrightarrow>
       media_get_default_entity x (ent_type d) \<noteq> None)"
proof -
  obtain x where x: "media_device_enumerate k m = Some (0, x)" "ents_gen x = length ds + 1" "defs_le (length ds) x" "defs_set ds x"
    using enumerate_ok [OF assms] by blast
  then have "the_entity x p = None" if "media_get_default_entity x t = Some p" for t p
  proof -
    have "fst p \<le> length ds" using x(3) that unfolding defs_le_def by blast
    then show ?thesis using x(2) by (simp add: the_entity_def)
  qed
  then show ?thesis using x(1,4) unfolding defs_set_def by blast
qed

theorem default_entities_dangle_witness:
  "\<exists>x p. media_device_enumerate cam_kernel new_device = Some (0, x) \<and>
     media_get_default_entity x MEDIA_ENT_T_DEVNODE_V4L = Some p \<and> the_entity x p = None"
proof -
  let ?d = "cam_entities ! 1"
  have "?d \<in> set cam_entities" "\<not> no_flag (ent_flags ?d) MEDIA_ENT_FL_DEFAULT" "ent_type ?d = MEDIA_ENT_T_DEVNODE_V4L"
    by (simp_all add: cam_entities_def no_flag_def MEDIA_ENT_FL_DEFAULT_def MEDIA_ENT_T_DEVNODE_V4L_def)
  moreover have "MEDIA_ENT_T_DEVNODE_V4L \<in> set devnode_types" by (simp add: devnode_types_def)
  ultimately show ?thesis
    using default_entities_dangle [OF new_device_fresh cam_ready] by fastforce
qed

text \<open>A failed enumeration cannot be repeated: when the kernel reports an error for the first entity,
  the call returns it and closes the device, but the block of entities has been allocated, so every
  later call reports success at once, for a device without entities, whatever the kernel says then.\<close>

theorem enumerate_retry_reports_success:
  assumes "fresh m" "0 \<le> k_open k (trace m)" "k_info k (trace m @ [MOpen]) = 0" "k_mem k sizeof_entity"
    "k_entity k MEDIA_ENT_ID_FLAG_NEXT = Inl err" "0 < err" "err \<noteq> EINVAL"
  shows "\<exists>x. media_device_enumerate k m = Some (- err, x) \<and> fd x = -1 \<and> entities x = [] \<and>
    media_device_enumerate k' x = Some (0, x)"
proof -
  let ?m = "m\<lparr>fd := k_open k (trace m), trace := trace m @ [MOpen]\<rparr>"
  have op: "media_device_open k m = (0, ?m)" using assms(1,2) by (simp add: media_device_open_def fresh_def)
  have "enum_entities_loop k 0 ?m = Some (- err, ?m\<lparr>ents_gen := 1\<rparr>)"
    using assms by (subst enum_entities_loop.simps) (simp add: fresh_def)
  then have "media_device_enumerate k m = Some (- err, media_device_close (?m\<lparr>ents_gen := 1\<rparr>))"
    using assms(1,3,6) by (simp add: media_device_enumerate_def op media_enum_entities_def fresh_def)
  then show ?thesis using assms(1,2) by (simp add: media_device_close_def media_device_enumerate_def fresh_def)
qed

theorem enumerate_retry_reports_success_witness:
  "\<exists>x. media_device_enumerate (demo_kernel\<lparr>k_entity := \<lambda>_. Inl 5\<rparr>) new_device = Some (-5, x) \<and>
     media_device_enumerate cam_kernel x = Some (0, x)"
  using enumerate_retry_reports_success [OF new_device_fresh, of "demo_kernel\<lparr>k_entity := \<lambda>_. Inl 5\<rparr>" 5 cam_kernel]
  by (auto simp: demo_kernel_def EINVAL_def)

end
