(* ===== verification/Frame_Copy.thy ===== *)
theory Frame_Copy
  imports Ansync_Decoder
begin

text \<open>
  Copying a decoded picture into the buffer of a window: \<open>sCopyFrame\<close>, \<open>sDirectCopyToSurface\<close>
  (\<open>VirtualCameraService.cpp\<close>) and their counterparts \<open>copyFrame\<close>, \<open>directCopyToSurface\<close> of the
  application (\<open>jrtplibutil_jni.cpp\<close>). The pointers into the two blocks are offsets; a \<open>memcpy\<close> that
  leaves either block has no result.
\<close>

section \<open>Copying rows\<close>

text \<open>One \<open>memcpy\<close> of the loops, with the advance of both pointers.\<close>

definition copy_row :: "u8 list \<Rightarrow> int \<Rightarrow> int \<Rightarrow> int \<Rightarrow> u8 list \<times> int \<times> int \<Rightarrow> (u8 list \<times> int \<times> int) option" where
  "copy_row src width stride_src stride_dest st =
     (case st of (dest, s, d) \<Rightarrow>
        if s < 0 then None
        else do {
          dest \<leftarrow> c_memcpy (Some dest) d (drop (nat s) src) width;
          Some (dest, s + stride_src, d + stride_dest) })"

primrec copy_rows :: "nat \<Rightarrow> u8 list \<Rightarrow> int \<Rightarrow> int \<Rightarrow> int \<Rightarrow> u8 list \<times> int \<times> int \<Rightarrow>
    (u8 list \<times> int \<times> int) option" where
  "copy_rows 0 src width stride_src stride_dest st = Some st"
| "copy_rows (Suc n) src width stride_src stride_dest st = do {
     st \<leftarrow> copy_row src width stride_src stride_dest st;
     copy_rows n src width stride_src stride_dest st }"

text \<open>The second loop: eight rows each time, \<open>i\<close> going up by eight.\<close>

function copy_blocks :: "int \<Rightarrow> int \<Rightarrow> u8 list \<Rightarrow> int \<Rightarrow> int \<Rightarrow> int \<Rightarrow> u8 list \<times> int \<times> int \<Rightarrow>
    (u8 list \<times> int \<times> int) option" where
  "copy_blocks i height src width stride_src stride_dest st =
     (if i < height then do {
        st \<leftarrow> copy_rows 8 src width stride_src stride_dest st;
        if in_int (i + 8) then copy_blocks (i + 8) height src width stride_src stride_dest st else None }
      else Some st)"
  by auto
termination by (relation "measure (\<lambda>(i, height, _). nat (height - i))") auto

declare copy_blocks.simps [simp del]

definition sCopyFrame :: "u8 list \<Rightarrow> u8 list \<Rightarrow> int \<Rightarrow> int \<Rightarrow> int \<Rightarrow> int \<Rightarrow> u8 list option" where
  "sCopyFrame src dest width height stride_src stride_dest = do {
     h8 \<leftarrow> c_mod height 8;
     st \<leftarrow> copy_rows (nat h8) src width stride_src stride_dest (dest, 0, 0);
     (dest, s, d) \<leftarrow> copy_blocks 0 height src width stride_src stride_dest st;
     Some dest }"

section \<open>Windows\<close>

text \<open>\<open>ANativeWindow_Buffer\<close>, what \<open>ANativeWindow_lock\<close> fills in: sizes in pixels and the pixels.\<close>

record win_buffer =
  bw :: int
  bh :: int
  bstride :: int
  bits :: "u8 list"

text \<open>
  A window is what locking it yields, \<open>None\<close> when \<open>ANativeWindow_lock\<close> fails. The result is the value
  returned and the pixels posted, if any.
\<close>

definition sDirectCopyToSurface ::
  "u8 list \<Rightarrow> int \<Rightarrow> int \<Rightarrow> win_buffer option option \<Rightarrow> (int \<times> u8 list option) option" where
  "sDirectCopyToSurface rgb w h window =
     (case window of None \<Rightarrow> Some (-1, None)
      | Some None \<Rightarrow> Some (-1, None)
      | Some (Some b) \<Rightarrow>
          if bstride b = w then do {
            n \<leftarrow> c_int (bstride b * (if h < bh b then h else bh b));
            n \<leftarrow> c_int (n * 4);
            p \<leftarrow> c_memcpy (Some (bits b)) 0 rgb n;
            Some (0, Some p) }
          else do {
            src_w \<leftarrow> c_int (w * 4);
            dest_w \<leftarrow> c_int (bw b * 4);
            dest_step \<leftarrow> c_int (bstride b * 4);
            let width = (if src_w < dest_w then src_w else dest_w);
            let height = (if h < bh b then h else bh b);
            height \<leftarrow> c_int (height - 10);
            p \<leftarrow> sCopyFrame rgb (bits b) width height src_w dest_step;
            Some (0, Some p) })"

text \<open>The application copies pictures of three bytes per pixel; its \<open>copyFrame\<close> is \<open>sCopyFrame\<close>.\<close>

definition copyFrame :: "u8 list \<Rightarrow> u8 list \<Rightarrow> int \<Rightarrow> int \<Rightarrow> int \<Rightarrow> int \<Rightarrow> u8 list option" where
  "copyFrame src dest width height stride_src stride_dest = do {
     h8 \<leftarrow> c_mod height 8;
     st \<leftarrow> copy_rows (nat h8) src width stride_src stride_dest (dest, 0, 0);
     (dest, s, d) \<leftarrow> copy_blocks 0 height src width stride_src stride_dest st;
     Some dest }"

definition directCopyToSurface ::
  "u8 list \<Rightarrow> int \<Rightarrow> int \<Rightarrow> win_buffer option option \<Rightarrow> (int \<times> u8 list option) option" where
  "directCopyToSurface rgb w h window =
     (case window of None \<Rightarrow> Some (-1, None)
      | Some None \<Rightarrow> Some (-1, None)
      | Some (Some b) \<Rightarrow>
          if bstride b = bw b then do {
            n \<leftarrow> c_int (w * h);
            n \<leftarrow> c_int (n * 3);
            p \<leftarrow> c_memcpy (Some (bits b)) 0 rgb n;
            Some (0, Some p) }
          else do {
            src_w \<leftarrow> c_int (w * 3);
            dest_w \<leftarrow> c_int (bw b * 3);
            dest_step \<leftarrow> c_int (bstride b * 3);
            let width = (if src_w < dest_w then src_w else dest_w);
            let height = (if h < bh b then h else bh b);
            p \<leftarrow> copyFrame rgb (bits b) width height src_w dest_step;
            Some (0, Some p) })"

section \<open>What the loops do\<close>

text \<open>\<open>blit n\<close> is the specification: byte \<open>k\<close> of the destination lies in row \<open>k div stride_dest\<close>; the
  first \<open>width\<close> bytes of the first \<open>n\<close> rows come from the source, everything else is kept.\<close>

definition blit_byte :: "nat \<Rightarrow> u8 list \<Rightarrow> nat \<Rightarrow> nat \<Rightarrow> nat \<Rightarrow> u8 list \<Rightarrow> nat \<Rightarrow> u8" where
  "blit_byte n src width ss sd dest k =
     (if k div sd < n \<and> k mod sd < width then src ! (k div sd * ss + k mod sd) else dest ! k)"

definition blit :: "nat \<Rightarrow> u8 list \<Rightarrow> nat \<Rightarrow> nat \<Rightarrow> nat \<Rightarrow> u8 list \<Rightarrow> u8 list" where
  "blit n src width ss sd dest = map (blit_byte n src width ss sd dest) [0..<length dest]"

lemma length_blit [simp]: "length (blit n src width ss sd dest) = length dest"
  by (simp add: blit_def)

lemma nth_blit [simp]:
  "k < length dest \<Longrightarrow> blit n src width ss sd dest ! k = blit_byte n src width ss sd dest k"
  by (simp add: blit_def)

lemma blit_0 [simp]: "blit 0 src width ss sd dest = dest"
  by (rule nth_equalityI) (simp_all add: blit_byte_def)

text \<open>One more row.\<close>

lemma c_memcpy_nat:
  "off + n \<le> length d \<Longrightarrow> n \<le> length s \<Longrightarrow>
    c_memcpy (Some d) (int off) s (int n) = Some (take off d @ take n s @ drop (off + n) d)"
  by (simp add: c_memcpy_def nat_add_distrib flip: of_nat_add)

lemma c_memcpy_out: "int (length d) < off + n \<Longrightarrow> c_memcpy (Some d) off s n = None"
  by (simp add: c_memcpy_def)

lemma nth_memcpy:
  assumes "off + n \<le> length d" "k < length d" "n \<le> length s"
  shows "(take off d @ take n s @ drop (off + n) d) ! k = (if off \<le> k \<and> k < off + n then s ! (k - off) else d ! k)"
  using assms by (auto simp: nth_append min_def)

lemma blit_Suc:
  assumes "width \<le> sd" "0 < sd" "n * sd + width \<le> length dest" "n * ss + width \<le> length src"
  shows "c_memcpy (Some (blit n src width ss sd dest)) (int (n * sd)) (drop (n * ss) src) (int width)
    = Some (blit (Suc n) src width ss sd dest)" (is "?l = Some ?r")
proof -
  let ?b = "blit n src width ss sd dest"
  have "?l = Some (take (n * sd) ?b @ take width (drop (n * ss) src) @ drop (n * sd + width) ?b)"
    using assms by (intro c_memcpy_nat) auto
  moreover have "take (n * sd) ?b @ take width (drop (n * ss) src) @ drop (n * sd + width) ?b = ?r"
  proof (rule nth_equalityI)
    show "length (take (n * sd) ?b @ take width (drop (n * ss) src) @ drop (n * sd + width) ?b) = length ?r"
      using assms by simp
  next
    fix k assume "k < length (take (n * sd) ?b @ take width (drop (n * ss) src) @ drop (n * sd + width) ?b)"
    then have k: "k < length dest" using assms by simp
    have eq: "n * sd \<le> k \<and> k < n * sd + width \<longleftrightarrow> k div sd = n \<and> k mod sd < width"
    proof
      assume a: "n * sd \<le> k \<and> k < n * sd + width"
      then obtain r where r: "k = n * sd + r" "r < width" by (metis add_diff_inverse_nat add_less_cancel_left not_less)
      then show "k div sd = n \<and> k mod sd < width" using assms(1,2) by simp
    next
      assume "k div sd = n \<and> k mod sd < width"
      moreover have "k = k div sd * sd + k mod sd" by simp
      ultimately show "n * sd \<le> k \<and> k < n * sd + width" by (metis le_add1 add_less_cancel_left)
    qed
    have off: "n * ss + (k - n * sd) = k div sd * ss + k mod sd" if "k div sd = n"
      using that by (metis minus_mult_div_eq_mod mult.commute)
    show "(take (n * sd) ?b @ take width (drop (n * ss) src) @ drop (n * sd + width) ?b) ! k = ?r ! k"
      using assms k eq off by (subst nth_memcpy) (auto simp: blit_byte_def less_Suc_eq)
  qed
  ultimately show ?thesis by simp
qed

lemma copy_rows_add:
  "copy_rows (m + n) src w ss sd st = Option.bind (copy_rows m src w ss sd st) (copy_rows n src w ss sd)"
  by (induction m arbitrary: st) (auto intro: Option.bind_cong)

lemma copy_row_blit:
  assumes "width \<le> sd" "0 < sd" "n * sd + width \<le> length dest" "n * ss + width \<le> length src"
  shows "copy_row src (int width) (int ss) (int sd) (blit n src width ss sd dest, int (n * ss), int (n * sd))
    = Some (blit (Suc n) src width ss sd dest, int (Suc n * ss), int (Suc n * sd))"
  using blit_Suc [OF assms] by (simp add: copy_row_def del: of_nat_mult)

text \<open>\<open>n\<close> further rows fit when the last of them does.\<close>

definition rows_fit :: "nat \<Rightarrow> nat \<Rightarrow> nat \<Rightarrow> nat \<Rightarrow> bool" where
  "rows_fit n width step len \<longleftrightarrow> n = 0 \<or> (n - 1) * step + width \<le> len"

lemma rows_fit_mono: "rows_fit n width step len \<Longrightarrow> m \<le> n \<Longrightarrow> rows_fit m width step len"
  unfolding rows_fit_def by (metis add_le_mono1 diff_le_mono le_trans le_zero_eq mult_le_mono1)

lemma rows_fit_last: "rows_fit n width step len \<Longrightarrow> m < n \<Longrightarrow> m * step + width \<le> len"
  using rows_fit_mono [of n width step len "Suc m"] by (simp add: rows_fit_def)

lemma copy_rows_blit:
  assumes "width \<le> sd" "0 < sd" "rows_fit (m + n) width sd (length dest)" "rows_fit (m + n) width ss (length src)"
  shows "copy_rows n src (int width) (int ss) (int sd) (blit m src width ss sd dest, int (m * ss), int (m * sd))
    = Some (blit (m + n) src width ss sd dest, int ((m + n) * ss), int ((m + n) * sd))"
  using assms(3,4)
proof (induction n arbitrary: m)
  case (Suc n)
  have "copy_row src (int width) (int ss) (int sd) (blit m src width ss sd dest, int (m * ss), int (m * sd))
    = Some (blit (Suc m) src width ss sd dest, int (Suc m * ss), int (Suc m * sd))"
    using Suc.prems assms(1,2) by (intro copy_row_blit) (auto intro: rows_fit_last)
  then show ?case using Suc.IH [of "Suc m"] Suc.prems by (simp del: of_nat_mult of_nat_Suc)
qed simp

text \<open>The second loop from \<open>i\<close> copies the remaining rows rounded up to a multiple of eight.\<close>

definition up8 :: "int \<Rightarrow> nat" where
  "up8 n = 8 * nat ((n + 7) div 8)"

lemma copy_blocks_rows:
  assumes "height \<le> 2147483640" "0 \<le> i"
  shows "copy_blocks i height src w ss sd st = copy_rows (up8 (height - i)) src w ss sd st"
  using assms
proof (induction i height src w ss sd st rule: copy_blocks.induct)
  case (1 i height src w ss sd st)
  show ?case
  proof (cases "i < height")
    case True
    have "up8 (height - i) = 8 + up8 (height - (i + 8))"
    proof -
      have "(height - i + 7) div 8 = 1 + (height - (i + 8) + 7) div 8" by simp
      moreover have "0 \<le> (height - (i + 8) + 7) div 8" using True by simp
      ultimately show ?thesis by (simp add: up8_def nat_add_distrib)
    qed
    moreover have "in_int (i + 8)" using 1 True by (simp add: in_int_def)
    ultimately show ?thesis using 1 True
      by (subst copy_blocks.simps) (cases "copy_rows 8 src w ss sd st"; simp add: copy_rows_add)
  next
    case False
    then show ?thesis by (subst copy_blocks.simps) (simp add: up8_def)
  qed
qed

text \<open>The number of rows \<open>sCopyFrame\<close> copies.\<close>

definition rows_copied :: "int \<Rightarrow> nat" where
  "rows_copied height = (if height \<le> 0 then 0 else if 8 dvd height then nat height else nat height + 8)"

lemma rows_copied_split:
  assumes "0 < height"
  shows "nat (height mod 8) + up8 height = rows_copied height"
proof -
  obtain n where n: "height = int n" using assms by (metis nonneg_int_cases order_less_imp_le)
  have "(n + 7) div 8 = n div 8 + (if n mod 8 = 0 then 0 else 1)" by presburger
  then have e: "n mod 8 + 8 * ((n + 7) div 8) = (if n mod 8 = 0 then n else n + 8)"
    using mod_mult_div_eq [of n 8] by (simp split: if_splits)
  have "int n mod 8 = int (n mod 8)" "(int n + 7) div 8 = int ((n + 7) div 8)"
    by (simp_all add: zmod_int zdiv_int)
  moreover have "(8 dvd int n) = (n mod 8 = 0)" using int_dvd_int_iff [of 8 n] by (simp add: dvd_eq_mod_eq_0)
  ultimately show ?thesis using e assms by (simp only: n up8_def rows_copied_def nat_int) simp
qed

lemma rows_copied_split_neg:
  assumes "height \<le> 0"
  shows "nat (sgn height * (- height mod 8)) + up8 height = rows_copied height"
proof -
  have "sgn height * (- height mod 8) \<le> 0" using assms by (cases "height = 0") auto
  then show ?thesis using assms by (simp add: rows_copied_def up8_def)
qed

lemma sCopyFrame_rows:
  assumes "height \<le> 2147483640"
  shows "sCopyFrame src dest w height ss sd =
    map_option fst (copy_rows (rows_copied height) src w ss sd (dest, 0, 0))"
proof -
  obtain h8 where h8: "c_mod height 8 = Some h8" "rows_copied height = nat h8 + up8 height"
  proof (cases "height \<le> 0")
    case True
    then show ?thesis using that rows_copied_split_neg [OF True] by (simp add: c_mod_def)
  next
    case False
    then show ?thesis using that rows_copied_split [of height] by (simp add: c_mod_def)
  qed
  show ?thesis
    unfolding sCopyFrame_def h8 copy_rows_add copy_blocks_rows [OF assms order_refl]
    by (cases "copy_rows (nat h8) src w ss sd (dest, 0, 0)";
        cases "copy_rows (up8 height) src w ss sd (the (copy_rows (nat h8) src w ss sd (dest, 0, 0)))")
      auto
qed

lemma sCopyFrame_blit:
  assumes "height \<le> 2147483640" "width \<le> sd" "0 < sd"
    "rows_fit (rows_copied height) width sd (length dest)" "rows_fit (rows_copied height) width ss (length src)"
  shows "sCopyFrame src dest (int width) height (int ss) (int sd) =
    Some (blit (rows_copied height) src width ss sd dest)"
  using copy_rows_blit [of width sd 0 "rows_copied height" dest ss src] assms
  by (simp add: sCopyFrame_rows)

lemma copyFrame_eq: "copyFrame = sCopyFrame"
  by (intro ext) (simp add: copyFrame_def sCopyFrame_def)

text \<open>Conversely, rows that do not fit are not copied without leaving a block.\<close>

lemma c_memcpy_Some_bounds:
  "c_memcpy (Some d) off s n = Some d' \<Longrightarrow>
    length d' = length d \<and> 0 \<le> n \<and> n \<le> int (length s) \<and> off + n \<le> int (length d)"
  by (auto simp: c_memcpy_def split: if_splits)

lemma copy_row_Some:
  "copy_row src w ss sd (dest, s, d) = Some st \<Longrightarrow>
    s + w \<le> max s (int (length src)) \<and> d + w \<le> int (length dest) \<and>
    length (fst st) = length dest \<and> snd st = (s + ss, d + sd)"
  by (auto simp: copy_row_def bind_Some_iff dest!: c_memcpy_Some_bounds split: if_splits)

lemma copy_rows_Some:
  "copy_rows (Suc n) src w ss sd (dest, s, d) = Some st \<Longrightarrow>
    s + int n * ss + w \<le> max (s + int n * ss) (int (length src)) \<and> d + int n * sd + w \<le> int (length dest)"
proof (induction n arbitrary: dest s d)
  case 0
  then show ?case by (auto dest!: copy_row_Some simp: bind_Some_iff)
next
  case (Suc n)
  obtain t where t: "copy_row src w ss sd (dest, s, d) = Some t" "copy_rows (Suc n) src w ss sd t = Some st"
    using Suc.prems by (auto simp only: copy_rows.simps(2) [of "Suc n"] bind_Some_iff)
  from copy_row_Some [OF t(1)] Suc.IH [of "fst t" "s + ss" "d + sd"] t(2) show ?case
    by (cases t) (simp add: algebra_simps)
qed

lemma sCopyFrame_overrun:
  assumes "0 < height" "height \<le> 2147483640" "\<not> 8 dvd height" "0 < w" "0 \<le> ss" "0 \<le> sd"
    "int (length src) \<le> height * ss \<or> int (length dest) \<le> height * sd"
  shows "sCopyFrame src dest w height ss sd = None"
proof (rule ccontr)
  assume "sCopyFrame src dest w height ss sd \<noteq> None"
  moreover have "rows_copied height = Suc (nat height + 7)" using assms by (simp add: rows_copied_def)
  ultimately obtain st where st: "copy_rows (Suc (nat height + 7)) src w ss sd (dest, 0, 0) = Some st"
    using sCopyFrame_rows [OF assms(2), of src dest w ss sd] by auto
  have "int (nat height + 7) * ss \<ge> height * ss" "int (nat height + 7) * sd \<ge> height * sd"
    using assms by (auto intro!: mult_right_mono)
  with copy_rows_Some [OF st] assms show False by (auto simp: max_def split: if_splits)
qed

section \<open>Properties\<close>

text \<open>A window whose buffer is what \<open>ANativeWindow_lock\<close> documents for \<open>bpp\<close> bytes per pixel: \<open>stride\<close>
  pixels for each of the \<open>height\<close> rows, \<open>width\<close> of them visible.\<close>

definition win_ok :: "nat \<Rightarrow> win_buffer \<Rightarrow> bool" where
  "win_ok bpp b \<longleftrightarrow> 0 < bw b \<and> bw b \<le> bstride b \<and> bstride b \<le> 16384 \<and> 0 \<le> bh b \<and> bh b \<le> 16384 \<and>
     length (bits b) = nat (bstride b) * nat (bh b) * bpp"

text \<open>The rows of the window that a picture of height \<open>h\<close> fills.\<close>

definition shown_rows :: "int \<Rightarrow> int \<Rightarrow> win_buffer \<Rightarrow> nat" where
  "shown_rows w h b = (if bstride b = w then nat (min h (bh b)) else rows_copied (min h (bh b) - 10))"

definition shown_width :: "int \<Rightarrow> win_buffer \<Rightarrow> int" where
  "shown_width w b = (if bstride b = w then w else min w (bw b))"

lemma rows_copied_le: "10 \<le> m \<Longrightarrow> int (rows_copied (m - 10)) \<le> m"
  by (auto simp: rows_copied_def)

lemma rows_copied_le': "0 \<le> m \<Longrightarrow> rows_copied (m - 10) \<le> nat m"
  using rows_copied_le [of m] by (cases "10 \<le> m") (auto simp: rows_copied_def)

lemma rows_fit_le: "n \<le> m \<Longrightarrow> width \<le> step \<Longrightarrow> m * step \<le> len \<Longrightarrow> rows_fit n width step len"
  unfolding rows_fit_def using mult_le_mono1 [of n m step] by (cases n) auto

lemma in_int_le: "0 \<le> x \<Longrightarrow> x \<le> 2147483647 \<Longrightarrow> in_int x"
  by (simp add: in_int_def)

lemma area_le:
  fixes a b :: int
  assumes "0 \<le> a" "a \<le> 16384" "0 \<le> b" "b \<le> 16384"
  shows "a * b * 4 \<le> 1073741824" "a * b \<le> 268435456"
  using mult_mono [OF assms(2,4)] assms by auto

lemma in_int_area:
  fixes a b :: int
  assumes "0 \<le> a" "a \<le> 16384" "0 \<le> b" "b \<le> 16384"
  shows "in_int (a * b)" "in_int (a * b * 4)"
  using area_le [OF assms] assms by (auto intro!: in_int_le)

lemma blit_whole_rows:
  assumes "n * sd \<le> length src" "n * sd \<le> length dest" "0 < sd"
  shows "take (n * sd) src @ drop (n * sd) dest = blit n src sd sd sd dest"
proof (rule nth_equalityI)
  show "length (take (n * sd) src @ drop (n * sd) dest) = length (blit n src sd sd sd dest)"
    using assms by simp
next
  fix k assume "k < length (take (n * sd) src @ drop (n * sd) dest)"
  then have "k < length dest" using assms by auto
  moreover have "k div sd < n \<longleftrightarrow> k < n * sd" using assms(3) by (simp add: div_less_iff_less_mult)
  ultimately show "(take (n * sd) src @ drop (n * sd) dest) ! k = blit n src sd sd sd dest ! k"
    using assms by (auto simp: blit_byte_def nth_append)
qed

text \<open>C18: showing a picture of four bytes per pixel writes inside the buffer of the window and reads
  inside the picture, whatever the two sizes are up to 16384 rows and columns: \<open>sCopyFrame\<close> copies up to eight rows more than it is
  asked for, and the ten rows its caller holds back make up for them. The window then shows the first
  rows of the picture, cut to its width, and keeps everything else.\<close>

theorem DirectCopyToSurface_in_bounds:
  assumes "win_ok 4 b" "0 < w" "w \<le> 16384" "0 \<le> h" "h \<le> 16384" "length rgb = nat w * nat h * 4"
  shows "int (shown_rows w h b) \<le> min h (bh b) \<and>
    sDirectCopyToSurface rgb w h (Some (Some b)) =
      Some (0, Some (blit (shown_rows w h b) rgb (4 * nat (shown_width w b)) (4 * nat w) (4 * nat (bstride b)) (bits b)))"
proof -
  define m where "m = min h (bh b)"
  have b: "0 < bw b" "bw b \<le> bstride b" "bstride b \<le> 16384" "0 \<le> bh b" "bh b \<le> 16384"
    "length (bits b) = nat (bh b) * (4 * nat (bstride b))"
    using assms(1) by (auto simp: win_ok_def)
  have m: "0 \<le> m" "m \<le> 16384" "m \<le> h" "m \<le> bh b" "(if h < bh b then h else bh b) = m"
    using assms b by (auto simp: m_def)
  have rgb: "length rgb = nat h * (4 * nat w)" using assms(6) by simp
  have le: "nat m * (4 * nat w) \<le> length rgb" "nat m * (4 * nat (bstride b)) \<le> length (bits b)"
    unfolding rgb b(6) using m by (auto intro!: mult_le_mono1 simp del: mult_le_cancel2)
  have rows: "int (shown_rows w h b) \<le> min h (bh b)"
    using rows_copied_le' [OF m(1)] m(1) by (auto simp: shown_rows_def simp flip: m_def)
  have "sDirectCopyToSurface rgb w h (Some (Some b)) =
      Some (0, Some (blit (shown_rows w h b) rgb (4 * nat (shown_width w b)) (4 * nat w) (4 * nat (bstride b)) (bits b)))"
  proof (cases "bstride b = w")
    case True
    have "w * m * 4 = int (nat m * (4 * nat w))" using m assms by simp
    moreover have "c_memcpy (Some (bits b)) (int 0) rgb (int (nat m * (4 * nat w))) =
        Some (take (nat m * (4 * nat w)) rgb @ drop (nat m * (4 * nat w)) (bits b))"
      using le True by (subst c_memcpy_nat) auto
    ultimately have "c_memcpy (Some (bits b)) 0 rgb (w * m * 4) =
        Some (blit (nat m) rgb (4 * nat w) (4 * nat w) (4 * nat w) (bits b))"
      using True assms(2) le by (simp add: blit_whole_rows del: of_nat_mult)
    moreover have "in_int (w * m)" "in_int (w * m * 4)" using in_int_area [of w m] m assms by auto
    ultimately show ?thesis
      using True m by (simp add: sDirectCopyToSurface_def shown_rows_def shown_width_def flip: m_def)
  next
    case False
    define n where "n = nat (min w (bw b))"
    have n: "n \<le> nat (bw b)" "n \<le> nat w" "n \<le> nat (bstride b)" using assms b by (auto simp: n_def)
    have ints: "in_int (w * 4)" "in_int (bw b * 4)" "in_int (bstride b * 4)" "in_int (m - 10)"
      using assms b m by (auto simp: in_int_def)
    have conv: "(if w * 4 < bw b * 4 then w * 4 else bw b * 4) = int (4 * n)" "w * 4 = int (4 * nat w)"
      "bstride b * 4 = int (4 * nat (bstride b))"
      using assms b by (auto simp: n_def)
    have "sCopyFrame rgb (bits b) (if w * 4 < bw b * 4 then w * 4 else bw b * 4) (m - 10) (w * 4) (bstride b * 4) =
        sCopyFrame rgb (bits b) (int (4 * n)) (m - 10) (int (4 * nat w)) (int (4 * nat (bstride b)))"
      unfolding conv(1) by (simp only: conv(2) [symmetric] conv(3) [symmetric])
    also have "\<dots> =
        Some (blit (rows_copied (m - 10)) rgb (4 * n) (4 * nat w) (4 * nat (bstride b)) (bits b))"
      using m n b assms(2) le rows_copied_le' [OF m(1)]
      by (intro sCopyFrame_blit rows_fit_le [of _ "nat m"]) auto
    finally show ?thesis
      using False ints m by (simp add: sDirectCopyToSurface_def shown_rows_def shown_width_def n_def flip: m_def)
  qed
  with rows show ?thesis by blast
qed

theorem DirectCopyToSurface_in_bounds_witness:
  "let b = \<lparr>bw = 1, bh = 12, bstride = 2, bits = replicate 96 0\<rparr> in
     shown_rows 3 11 b = 9 \<and>
     sDirectCopyToSurface (replicate 132 7) 3 11 (Some (Some b)) = Some (0, Some (blit 9 (replicate 132 7) 4 12 8 (bits b)))"
  using DirectCopyToSurface_in_bounds [of "\<lparr>bw = 1, bh = 12, bstride = 2, bits = replicate 96 0\<rparr>" 3 11 "replicate 132 7"]
  by (simp add: win_ok_def shown_rows_def shown_width_def rows_copied_def)

text \<open>the application's copy does not hold rows back, and in the other branch it does not look at the
  height of the window: it leaves a block when the rows to copy are not a multiple of eight, and when
  the picture has more pixels than the window.\<close>

theorem directCopyToSurface_overruns:
  assumes "win_ok 3 b" "0 < w" "w \<le> 16384" "0 < h" "h \<le> 16384" "length rgb = nat w * nat h * 3"
    "if bstride b = bw b then bstride b * bh b < w * h else 0 < bh b \<and> \<not> 8 dvd min h (bh b)"
  shows "directCopyToSurface rgb w h (Some (Some b)) = None"
proof -
  have b: "0 < bw b" "bw b \<le> bstride b" "bstride b \<le> 16384" "0 \<le> bh b" "bh b \<le> 16384"
    "int (length (bits b)) = bstride b * bh b * 3"
    using assms(1) by (auto simp: win_ok_def)
  show ?thesis
  proof (cases "bstride b = bw b")
    case True
    then have "int (length (bits b)) < 0 + w * h * 3" using assms(7) b by (simp add: mult.commute)
    then have "c_memcpy (Some (bits b)) 0 rgb (w * h * 3) = None" by (rule c_memcpy_out)
    then show ?thesis using True by (auto simp: directCopyToSurface_def bind_Some_iff c_int_eq_Some split: Option.bind_splits)
  next
    case False
    define m where "m = (if h < bh b then h else bh b)"
    have m: "0 < m" "\<not> 8 dvd m" "m = h \<or> m = bh b" "m \<le> 16384"
      using assms False b by (auto simp: m_def min_def split: if_splits)
    define wd where "wd = (if w * 3 < bw b * 3 then w * 3 else bw b * 3)"
    have "0 < wd" using assms b by (simp add: wd_def)
    moreover have "int (length rgb) \<le> m * (w * 3) \<or> int (length (bits b)) \<le> m * (bstride b * 3)"
      using m(3) assms(2,4,6) b by (auto simp: algebra_simps)
    ultimately have "sCopyFrame rgb (bits b) wd m (w * 3) (bstride b * 3) = None"
      using m assms b by (intro sCopyFrame_overrun) auto
    moreover have "in_int (w * 3)" "in_int (bw b * 3)" "in_int (bstride b * 3)"
      using assms b by (auto simp: in_int_def)
    ultimately show ?thesis
      using False unfolding directCopyToSurface_def copyFrame_eq
      by (cases "w < bw b") (simp_all add: Let_def wd_def flip: m_def)
  qed
qed

theorem directCopyToSurface_overruns_witness:
  "directCopyToSurface (replicate 9 7) 3 1 (Some (Some \<lparr>bw = 1, bh = 1, bstride = 2, bits = replicate 6 0\<rparr>)) = None"
  by (rule directCopyToSurface_overruns) (simp_all add: win_ok_def)

end
