(* ===== verification/Yuv_Convert.thy ===== *)
theory Yuv_Convert
  imports Frame_Copy
begin

text \<open>
  The conversion of a decoded RGBA picture to YUV 4:2:0 in the buffer of the application's call-back
  surface: \<open>rgbToYuv420\<close>, \<open>produceFrame\<close> and \<open>sDirectCopyToCallBackSurface\<close> of
  \<open>VirtualCameraService.cpp\<close>. The mapped buffer is one block of bytes, the planes are offsets into it.
  Sizes of type \<open>size_t\<close> are natural numbers, those of type \<open>uint32_t\<close> keep their width.
\<close>

section \<open>One pixel\<close>

text \<open>The three expressions of the conversion, computed in \<open>int\<close> and stored as bytes.\<close>

definition luma :: "u8 \<Rightarrow> u8 \<Rightarrow> u8 \<Rightarrow> u8" where
  "luma R G B = word_of_int ((77 * uint R + 150 * uint G + 29 * uint B) div 256)"

definition chroma_b :: "u8 \<Rightarrow> u8 \<Rightarrow> u8 \<Rightarrow> u8" where
  "chroma_b R G B = word_of_int ((- 43 * uint R - 85 * uint G + 128 * uint B) div 256 + 128)"

definition chroma_r :: "u8 \<Rightarrow> u8 \<Rightarrow> u8 \<Rightarrow> u8" where
  "chroma_r R G B = word_of_int ((128 * uint R - 107 * uint G - 21 * uint B) div 256 + 128)"

text \<open>The body of the inner loop; the cursors are \<open>index\<close>, \<open>y\<close>, \<open>cr\<close> and \<open>cb\<close>.\<close>

type_synonym cursors = "u8 list \<times> nat \<times> nat \<times> nat \<times> nat"

definition yuv_pixel :: "u8 list \<Rightarrow> nat \<Rightarrow> nat \<Rightarrow> nat \<Rightarrow> cursors \<Rightarrow> cursors option" where
  "yuv_pixel rgbBuf chromaStep j i st =
     (case st of (mem, index, y, cr, cb) \<Rightarrow> do {
        R \<leftarrow> c_read rgbBuf (int index);
        G \<leftarrow> c_read rgbBuf (int index + 1);
        B \<leftarrow> c_read rgbBuf (int index + 2);
        A \<leftarrow> c_read rgbBuf (int index + 3);
        mem \<leftarrow> c_write mem (int y) (luma R G B);
        if even j \<and> even i then do {
          mem \<leftarrow> c_write mem (int cb) (chroma_b R G B);
          mem \<leftarrow> c_write mem (int cr) (chroma_r R G B);
          Some (mem, index + 4, y + 1, cr + chromaStep, cb + chromaStep) }
        else Some (mem, index + 4, y + 1, cr, cb) })"

text \<open>The inner loop: \<open>n\<close> pixels from column \<open>i\<close> on.\<close>

fun yuv_row :: "u8 list \<Rightarrow> nat \<Rightarrow> nat \<Rightarrow> nat \<Rightarrow> nat \<Rightarrow> cursors \<Rightarrow> cursors option" where
  "yuv_row rgbBuf chromaStep j i 0 st = Some st"
| "yuv_row rgbBuf chromaStep j i (Suc n) st = do {
     st \<leftarrow> yuv_pixel rgbBuf chromaStep j i st;
     yuv_row rgbBuf chromaStep j (i + 1) n st }"

text \<open>The outer loop: \<open>n\<close> rows from row \<open>j\<close> on; the cursors hold the three plane pointers.\<close>

fun yuv_rows :: "u8 list \<Rightarrow> nat \<Rightarrow> nat \<Rightarrow> nat \<Rightarrow> nat \<Rightarrow> nat \<Rightarrow> nat \<Rightarrow> cursors \<Rightarrow> cursors option" where
  "yuv_rows rgbBuf width chromaStep yStride chromaStride j 0 st = Some st"
| "yuv_rows rgbBuf width chromaStep yStride chromaStride j (Suc n) (mem, index, yPlane, crPlane, cbPlane) = do {
     (mem, index, y, cr, cb) \<leftarrow> yuv_row rgbBuf chromaStep j 0 width (mem, index, yPlane, crPlane, cbPlane);
     yuv_rows rgbBuf width chromaStep yStride chromaStride (j + 1) n
       (mem, index, yPlane + yStride,
        if even j then crPlane + chromaStride else crPlane,
        if even j then cbPlane + chromaStride else cbPlane) }"

text \<open>\<open>android_ycbcr\<close>: where the planes are in the mapped buffer and how they are laid out.\<close>

record android_ycbcr =
  y_off :: nat
  cb_off :: nat
  cr_off :: nat
  ystride :: nat
  cstride :: nat
  chroma_step :: nat

definition rgbToYuv420 :: "u8 list \<Rightarrow> nat \<Rightarrow> nat \<Rightarrow> android_ycbcr \<Rightarrow> u8 list \<Rightarrow> u8 list option" where
  "rgbToYuv420 rgbBuf width height l mem =
     map_option fst (yuv_rows rgbBuf width (chroma_step l) (ystride l) (cstride l) 0 height
       (mem, 0, y_off l, cr_off l, cb_off l))"

section \<open>Producing a frame\<close>

definition NO_ERROR :: int where "NO_ERROR = 0"
definition BAD_VALUE :: int where "BAD_VALUE = - 22"

definition FMT_RGBA_8888 :: int where "FMT_RGBA_8888 = 1"
definition FMT_YCrCb_420_SP :: int where "FMT_YCrCb_420_SP = 17"
definition FMT_BLOB :: int where "FMT_BLOB = 33"
definition FMT_YCbCr_420_888 :: int where "FMT_YCbCr_420_888 = 35"
definition FMT_YV12 :: int where "FMT_YV12 = 842094169"

text \<open>
  The window and the graphic buffer it hands out: the results of the calls \<open>produceFrame\<close> makes on them,
  the dimensions of the buffer and its bytes. \<open>w_ycbcr\<close> is what \<open>lockYCbCr\<close> fills in.
\<close>

record native_window =
  w_dequeue :: int
  w_width :: u32
  w_height :: u32
  w_stride :: u32
  w_bytes :: "u8 list"
  w_query :: int
  w_format :: int
  w_lock :: int
  w_ycbcr :: android_ycbcr
  w_unlock :: int
  w_queue :: int

datatype w_call = Dequeue | Lock | LockYCbCr | Unlock | Queue

datatype outcome = Abort | Return int

text \<open>What follows the conversion: unlock and queue.\<close>

definition finish_frame :: "native_window \<Rightarrow> w_call list \<Rightarrow> u8 list \<Rightarrow> outcome \<times> w_call list \<times> u8 list" where
  "finish_frame anw cs mem =
     (if w_unlock anw \<noteq> NO_ERROR then (Return (w_unlock anw), cs @ [Unlock], mem)
      else if w_queue anw \<noteq> NO_ERROR then (Return (w_queue anw), cs @ [Unlock, Queue], mem)
      else (Return NO_ERROR, cs @ [Unlock, Queue], mem))"

text \<open>The three cases of the switch. \<open>n\<close> is \<open>totalSizeBytes\<close>.\<close>

definition frame_nv21 :: "native_window \<Rightarrow> u8 list \<Rightarrow> nat \<Rightarrow> nat \<Rightarrow> (outcome \<times> w_call list \<times> u8 list) option" where
  "frame_nv21 anw rgb bufferLength n =
     (if bufferLength < n then Some (Return BAD_VALUE, [Dequeue], w_bytes anw)
      else if w_lock anw \<noteq> NO_ERROR then Some (Return (w_lock anw), [Dequeue, Lock], w_bytes anw)
      else do {
        let width = unat (w_width anw);
        let height = unat (w_height anw);
        mem \<leftarrow> rgbToYuv420 rgb width height
          \<lparr>y_off = 0, cb_off = height * width + 1, cr_off = height * width, ystride = width,
           cstride = width, chroma_step = 2\<rparr> (w_bytes anw);
        Some (finish_frame anw [Dequeue, Lock] mem) })"

definition yv12_cstride :: "u32 \<Rightarrow> u32" where
  "yv12_cstride stride = (stride div 2 + 16 - 1) AND NOT 15"

definition frame_yv12 :: "native_window \<Rightarrow> u8 list \<Rightarrow> nat \<Rightarrow> nat \<Rightarrow> (outcome \<times> w_call list \<times> u8 list) option" where
  "frame_yv12 anw rgb bufferLength n =
     (if bufferLength < n then Some (Return BAD_VALUE, [Dequeue], w_bytes anw)
      else if odd (unat (w_width anw)) \<or> odd (unat (w_height anw)) then
        Some (Return BAD_VALUE, [Dequeue], w_bytes anw)
      else if w_lock anw \<noteq> NO_ERROR then Some (Return (w_lock anw), [Dequeue, Lock], w_bytes anw)
      else if w_stride anw mod 16 \<noteq> 0 then Some (Abort, [Dequeue, Lock], w_bytes anw)
      else do {
        let cStride = yv12_cstride (w_stride anw);
        let cr = unat (w_height anw * w_stride anw);
        mem \<leftarrow> rgbToYuv420 rgb (unat (w_width anw)) (unat (w_height anw))
          \<lparr>y_off = 0, cb_off = cr + unat (cStride * w_height anw div 2), cr_off = cr,
           ystride = unat (w_stride anw), cstride = unat cStride, chroma_step = 1\<rparr> (w_bytes anw);
        Some (finish_frame anw [Dequeue, Lock] mem) })"

definition frame_420_888 :: "native_window \<Rightarrow> u8 list \<Rightarrow> nat \<Rightarrow> nat \<Rightarrow> (outcome \<times> w_call list \<times> u8 list) option" where
  "frame_420_888 anw rgb bufferLength n =
     (if bufferLength < n then Some (Return BAD_VALUE, [Dequeue], w_bytes anw)
      else if w_lock anw \<noteq> NO_ERROR then Some (Return (w_lock anw), [Dequeue, LockYCbCr], w_bytes anw)
      else do {
        mem \<leftarrow> rgbToYuv420 rgb (unat (w_width anw)) (unat (w_height anw)) (w_ycbcr anw) (w_bytes anw);
        Some (finish_frame anw [Dequeue, LockYCbCr] mem) })"

text \<open>The size the pixel buffer must have, computed in \<open>uint32_t\<close>.\<close>

definition frame_size :: "native_window \<Rightarrow> int \<Rightarrow> u32" where
  "frame_size anw pixelFmt =
     (if w_format anw \<noteq> pixelFmt \<and> w_format anw = FMT_RGBA_8888 \<and> pixelFmt = FMT_BLOB
      then 4 * (w_width anw + w_stride anw * (w_height anw - 1))
      else if pixelFmt = FMT_BLOB then w_width anw else 4 * w_height anw * w_width anw)"

text \<open>
  \<open>width\<close> and \<open>height\<close> are overwritten with those of the buffer just before they are compared with
  them, so that the comparison never fails; the test against \<open>SIZE_MAX\<close> cannot succeed either.
\<close>

definition produceFrame ::
  "native_window option \<Rightarrow> u8 list option \<Rightarrow> int \<Rightarrow> int \<Rightarrow> int \<Rightarrow> int \<Rightarrow> (outcome \<times> w_call list \<times> u8 list) option" where
  "produceFrame win pixelBuffer bufWidth bufHeight pixelFmt bufSize =
     (case win of None \<Rightarrow> Some (Return BAD_VALUE, [], [])
      | Some anw \<Rightarrow>
     (case pixelBuffer of None \<Rightarrow> Some (Return BAD_VALUE, [], w_bytes anw)
      | Some rgb \<Rightarrow>
          if bufWidth < 0 \<or> bufHeight < 0 \<or> bufSize < 0 then Some (Return BAD_VALUE, [], w_bytes anw)
          else if w_dequeue anw \<noteq> NO_ERROR then Some (Return (w_dequeue anw), [Dequeue], w_bytes anw)
          else if w_query anw \<noteq> NO_ERROR then Some (Return (w_query anw), [Dequeue], w_bytes anw)
          else
            let bufferLength = nat bufSize;
                totalSizeBytes = unat (frame_size anw pixelFmt)
            in if pixelFmt = FMT_YCrCb_420_SP then frame_nv21 anw rgb bufferLength totalSizeBytes
               else if pixelFmt = FMT_YV12 then frame_yv12 anw rgb bufferLength totalSizeBytes
               else if pixelFmt = FMT_YCbCr_420_888 then frame_420_888 anw rgb bufferLength totalSizeBytes
               else Some (Return BAD_VALUE, [Dequeue], w_bytes anw)))"

text \<open>The caller ignores the status.\<close>

definition sDirectCopyToCallBackSurface ::
  "u8 list \<Rightarrow> int \<Rightarrow> int \<Rightarrow> native_window option \<Rightarrow> (int \<times> (outcome \<times> w_call list \<times> u8 list) option) option" where
  "sDirectCopyToCallBackSurface rgb w h window =
     (case window of None \<Rightarrow> Some (-1, None)
      | Some anw \<Rightarrow> do {
          n \<leftarrow> c_int (w * h);
          n \<leftarrow> c_int (n * 4);
          r \<leftarrow> produceFrame (Some anw) (Some rgb) w h FMT_YCbCr_420_888 n;
          Some (0, Some r) })"

text \<open>What the decoder calls with every picture.\<close>

definition sDecoder_cb ::
  "u8 list \<Rightarrow> int \<Rightarrow> int \<Rightarrow> int \<Rightarrow> native_window option \<Rightarrow> win_buffer option option \<Rightarrow>
    ((outcome \<times> w_call list \<times> u8 list) option \<times> u8 list option) option" where
  "sDecoder_cb data w h mediaType msCallBackWindow msWindow =
     (if mediaType = 1 then do {
        (_, r) \<leftarrow> sDirectCopyToCallBackSurface data w h msCallBackWindow;
        (_, p) \<leftarrow> sDirectCopyToSurface data w h msWindow;
        Some (r, p) }
      else Some (None, None))"

section \<open>Samples and their addresses\<close>

text \<open>
  The reference description of a conversion: a set of samples, each with an address and a value. The
  loops are shown to store exactly these, in some order.
\<close>

datatype sample = Y nat nat | Cb nat nat | Cr nat nat

fun addr :: "android_ycbcr \<Rightarrow> sample \<Rightarrow> nat" where
  "addr l (Y j i) = y_off l + j * ystride l + i"
| "addr l (Cb j i) = cb_off l + j * cstride l + i * chroma_step l"
| "addr l (Cr j i) = cr_off l + j * cstride l + i * chroma_step l"

text \<open>The value of a sample of a picture with \<open>w\<close> pixels in a row; a chroma sample is taken from the
  top left of its four pixels.\<close>

definition px :: "u8 list \<Rightarrow> nat \<Rightarrow> nat \<Rightarrow> nat \<Rightarrow> nat \<Rightarrow> u8" where
  "px rgb w j i c = rgb ! ((j * w + i) * 4 + c)"

fun val :: "u8 list \<Rightarrow> nat \<Rightarrow> sample \<Rightarrow> u8" where
  "val rgb w (Y j i) = luma (px rgb w j i 0) (px rgb w j i 1) (px rgb w j i 2)"
| "val rgb w (Cb j i) = chroma_b (px rgb w (2 * j) (2 * i) 0) (px rgb w (2 * j) (2 * i) 1) (px rgb w (2 * j) (2 * i) 2)"
| "val rgb w (Cr j i) = chroma_r (px rgb w (2 * j) (2 * i) 0) (px rgb w (2 * j) (2 * i) 1) (px rgb w (2 * j) (2 * i) 2)"

text \<open>The samples in the order in which the loops store them.\<close>

definition pixel_samples :: "nat \<Rightarrow> nat \<Rightarrow> sample list" where
  "pixel_samples j i = Y j i # (if even j \<and> even i then [Cb (j div 2) (i div 2), Cr (j div 2) (i div 2)] else [])"

definition row_samples :: "nat \<Rightarrow> nat \<Rightarrow> nat \<Rightarrow> sample list" where
  "row_samples j i n = concat (map (pixel_samples j) [i..<i + n])"

definition frame_samples :: "nat \<Rightarrow> nat \<Rightarrow> nat \<Rightarrow> sample list" where
  "frame_samples w j n = concat (map (\<lambda>j. row_samples j 0 w) [j..<j + n])"

definition samples :: "nat \<Rightarrow> nat \<Rightarrow> sample set" where
  "samples w h = {Y j i | j i. j < h \<and> i < w} \<union>
     {Cb j i | j i. 2 * j < h \<and> 2 * i < w} \<union> {Cr j i | j i. 2 * j < h \<and> 2 * i < w}"

fun store :: "(sample \<Rightarrow> nat) \<Rightarrow> (sample \<Rightarrow> u8) \<Rightarrow> sample list \<Rightarrow> u8 list \<Rightarrow> u8 list option" where
  "store a f [] mem = Some mem"
| "store a f (s # ss) mem = do { mem \<leftarrow> c_write mem (int (a s)) (f s); store a f ss mem }"

lemma store_append: "store a f (xs @ ys) mem = Option.bind (store a f xs mem) (store a f ys)"
  by (induction xs arbitrary: mem) (auto intro: Option.bind_cong)

lemma upt_add_Suc: "[i..<i + Suc n] = i # [Suc i..<Suc i + n]"
  by (simp add: upt_conv_Cons del: upt_Suc)

lemma row_samples_Suc: "row_samples j i (Suc n) = pixel_samples j i @ row_samples j (Suc i) n"
  unfolding row_samples_def upt_add_Suc by simp

lemma frame_samples_Suc: "frame_samples w j (Suc n) = row_samples j 0 w @ frame_samples w (Suc j) n"
  unfolding frame_samples_def upt_add_Suc by simp

lemma set_samples: "set (frame_samples w 0 h) = samples w h"
proof (intro set_eqI)
  fix s
  have "s \<in> set (frame_samples w 0 h) \<longleftrightarrow> (\<exists>j < h. \<exists>i < w. s \<in> set (pixel_samples j i))"
    by (simp add: frame_samples_def row_samples_def Bex_def)
  also have "\<dots> \<longleftrightarrow> s \<in> samples w h"
  proof (cases s)
    case (Y j i)
    then show ?thesis by (auto simp: pixel_samples_def samples_def)
  next
    case (Cb j i)
    then have "s \<in> set (pixel_samples j' i') \<longleftrightarrow> j' = 2 * j \<and> i' = 2 * i" for j' i'
      by (auto simp: pixel_samples_def elim!: evenE)
    then show ?thesis using Cb by (auto simp: samples_def)
  next
    case (Cr j i)
    then have "s \<in> set (pixel_samples j' i') \<longleftrightarrow> j' = 2 * j \<and> i' = 2 * i" for j' i'
      by (auto simp: pixel_samples_def elim!: evenE)
    then show ?thesis using Cr by (auto simp: samples_def)
  qed
  finally show "s \<in> set (frame_samples w 0 h) \<longleftrightarrow> s \<in> samples w h" .
qed

text \<open>Storing at distinct addresses inside the block: every sample is where it belongs at the end, and
  nothing else has changed.\<close>

lemma store_spec:
  assumes "\<forall>s \<in> set xs. a s < length mem" "inj_on a (set xs)"
  shows "\<exists>mem'. store a f xs mem = Some mem' \<and> length mem' = length mem \<and>
    (\<forall>s \<in> set xs. mem' ! a s = f s) \<and> (\<forall>k. k \<notin> a ` set xs \<longrightarrow> mem' ! k = mem ! k)"
  using assms
proof (induction xs arbitrary: mem rule: list.induct)
  case (Cons s xs)
  define m1 where "m1 = mem[a s := f s]"
  obtain m2 where m2: "store a f xs m1 = Some m2" "length m2 = length m1" "\<forall>s \<in> set xs. m2 ! a s = f s"
    "\<forall>k. k \<notin> a ` set xs \<longrightarrow> m2 ! k = m1 ! k"
    using Cons.IH [of m1] Cons.prems by (auto simp: m1_def inj_on_insert)
  have "store a f (s # xs) mem = Some m2" using m2(1) Cons.prems by (simp add: m1_def)
  moreover have "m2 ! a s = f s"
  proof (cases "s \<in> set xs")
    case False
    then have "a s \<notin> a ` set xs" using Cons.prems(2) by (auto simp: inj_on_def)
    then show ?thesis using m2(4) Cons.prems(1) by (simp add: m1_def)
  qed (use m2 in blast)
  moreover have "m2 ! k = mem ! k" if "k \<notin> a ` set (s # xs)" for k
    using that m2(4) by (simp add: m1_def)
  ultimately show ?case using m2 by (auto simp: m1_def)
qed simp

section \<open>The loops store the samples\<close>

lemma px_Some:
  assumes "(j * w + i) * 4 + 3 < length rgb"
  shows "c < 4 \<Longrightarrow> c_read rgb (int ((j * w + i) * 4) + int c) = Some (px rgb w j i c)"
proof -
  assume "c < 4"
  then have "(j * w + i) * 4 + c < length rgb" using assms by linarith
  then show ?thesis by (simp add: px_def c_read_def del: of_nat_mult flip: of_nat_add)
qed

text \<open>The chroma cursors before pixel \<open>i\<close> of row \<open>j\<close>; in an odd row they stay where they are.\<close>

definition at_pixel :: "android_ycbcr \<Rightarrow> nat \<Rightarrow> nat \<Rightarrow> nat \<Rightarrow> u8 list \<Rightarrow> cursors" where
  "at_pixel l w j i mem =
     (let x = (if even j then (i + 1) div 2 else 0) in
      (mem, (j * w + i) * 4, addr l (Y j i), addr l (Cr ((j + 1) div 2) x), addr l (Cb ((j + 1) div 2) x)))"

lemma yuv_pixel_store:
  assumes "(j * w + i) * 4 + 3 < length rgb"
  shows "yuv_pixel rgb (chroma_step l) j i (at_pixel l w j i mem) =
    map_option (at_pixel l w j (i + 1)) (store (addr l) (val rgb w) (pixel_samples j i) mem)"
proof -
  note r = px_Some [OF assms, of 0] px_Some [OF assms, of 1] px_Some [OF assms, of 2] px_Some [OF assms, of 3]
  show ?thesis
  proof (cases "even j \<and> even i")
    case True
    then obtain j' i' where "j = 2 * j'" "i = 2 * i'" by (auto elim!: evenE)
    then show ?thesis using r
      by (auto simp: yuv_pixel_def at_pixel_def pixel_samples_def Let_def split: Option.bind_splits)
  next
    case False
    then have "(if even j then (i + 1 + 1) div 2 else 0) = (if even j then (i + 1) div 2 else 0)" by auto
    then show ?thesis using r False
      by (auto simp: yuv_pixel_def at_pixel_def pixel_samples_def Let_def split: Option.bind_splits)
  qed
qed

lemma yuv_row_store:
  assumes "(j * w + i + n) * 4 \<le> length rgb"
  shows "yuv_row rgb (chroma_step l) j i n (at_pixel l w j i mem) =
    map_option (at_pixel l w j (i + n)) (store (addr l) (val rgb w) (row_samples j i n) mem)"
  using assms
proof (induction n arbitrary: i mem)
  case 0
  then show ?case by (simp add: row_samples_def)
next
  case (Suc n)
  have "yuv_pixel rgb (chroma_step l) j i (at_pixel l w j i mem) =
    map_option (at_pixel l w j (i + 1)) (store (addr l) (val rgb w) (pixel_samples j i) mem)"
    using Suc.prems by (intro yuv_pixel_store) simp
  then show ?case using Suc.IH [of "Suc i"] Suc.prems
    by (cases "store (addr l) (val rgb w) (pixel_samples j i) mem") (simp_all add: row_samples_Suc store_append)
qed

lemma yuv_rows_store:
  assumes "(j + n) * w * 4 \<le> length rgb"
  shows "map_option fst (yuv_rows rgb w (chroma_step l) (ystride l) (cstride l) j n (at_pixel l w j 0 mem)) =
    store (addr l) (val rgb w) (frame_samples w j n) mem"
  using assms
proof (induction n arbitrary: j mem)
  case 0
  then show ?case by (simp add: frame_samples_def at_pixel_def Let_def)
next
  case (Suc n)
  have len: "(j * w + 0 + w) * 4 \<le> length rgb" using Suc.prems by (simp add: algebra_simps)
  let ?cr = "addr l (Cr ((j + 1) div 2) 0)" and ?cb = "addr l (Cb ((j + 1) div 2) 0)" and ?y = "addr l (Y j 0)"
  have start: "at_pixel l w j 0 mem = (mem, j * w * 4, ?y, ?cr, ?cb)"
    by (simp add: at_pixel_def)
  have step: "(mem', (j * w + w) * 4, ?y + ystride l, if even j then ?cr + cstride l else ?cr,
      if even j then ?cb + cstride l else ?cb) = at_pixel l w (Suc j) 0 mem'" for mem'
    by (auto simp: at_pixel_def Let_def algebra_simps elim!: evenE oddE)
  have row: "yuv_row rgb (chroma_step l) j 0 w (mem, j * w * 4, ?y, ?cr, ?cb) =
      map_option (at_pixel l w j w) (store (addr l) (val rgb w) (row_samples j 0 w) mem)"
    using yuv_row_store [OF len, of l mem] unfolding start by simp
  show ?case
  proof (cases "store (addr l) (val rgb w) (row_samples j 0 w) mem")
    case None
    then show ?thesis unfolding start using row by (simp add: frame_samples_Suc store_append)
  next
    case (Some mem')
    then obtain y cr cb where
      "yuv_row rgb (chroma_step l) j 0 w (mem, j * w * 4, ?y, ?cr, ?cb) = Some (mem', (j * w + w) * 4, y, cr, cb)"
      using row by (auto simp: at_pixel_def Let_def)
    then have "yuv_rows rgb w (chroma_step l) (ystride l) (cstride l) j (Suc n) (mem, j * w * 4, ?y, ?cr, ?cb) =
        yuv_rows rgb w (chroma_step l) (ystride l) (cstride l) (Suc j) n (at_pixel l w (Suc j) 0 mem')"
      unfolding step [symmetric] by simp
    then show ?thesis unfolding start using Some Suc.IH [of "Suc j" mem'] Suc.prems
      by (simp add: frame_samples_Suc store_append)
  qed
qed

lemma rgbToYuv420_store:
  "w * h * 4 \<le> length rgb \<Longrightarrow> rgbToYuv420 rgb w h l mem = store (addr l) (val rgb w) (frame_samples w 0 h) mem"
  using yuv_rows_store [of 0 h w rgb l mem] by (simp add: rgbToYuv420_def at_pixel_def Let_def mult.commute)

section \<open>Layouts\<close>

text \<open>A layout is right for a picture and a block when different samples have different addresses, all
  of them in the block.\<close>

definition layout_ok :: "android_ycbcr \<Rightarrow> nat \<Rightarrow> nat \<Rightarrow> nat \<Rightarrow> bool" where
  "layout_ok l w h len \<longleftrightarrow> (\<forall>s \<in> samples w h. addr l s < len) \<and> inj_on (addr l) (samples w h)"

text \<open>What a conversion leaves in the block.\<close>

definition converted :: "android_ycbcr \<Rightarrow> nat \<Rightarrow> nat \<Rightarrow> u8 list \<Rightarrow> u8 list \<Rightarrow> u8 list \<Rightarrow> bool" where
  "converted l w h rgb mem mem' \<longleftrightarrow> length mem' = length mem \<and>
     (\<forall>s \<in> samples w h. mem' ! addr l s = val rgb w s) \<and>
     (\<forall>k. k \<notin> addr l ` samples w h \<longrightarrow> mem' ! k = mem ! k)"

lemma convert_ok:
  assumes "layout_ok l w h (length mem)" "w * h * 4 \<le> length rgb"
  obtains mem' where "rgbToYuv420 rgb w h l mem = Some mem'" "converted l w h rgb mem mem'"
  using store_spec [of "frame_samples w 0 h" "addr l" mem "val rgb w"] assms
  by (auto simp: rgbToYuv420_store layout_ok_def converted_def set_samples)

text \<open>Three planes one after the other.\<close>

lemma row_inj:
  fixes j i :: nat
  assumes "j * s + i = j' * s + i'" "i < s" "i' < s"
  shows "j = j' \<and> i = i'"
proof -
  have "(j * s + i) div s = j" "(j' * s + i') div s = j'" using assms(2,3) by auto
  then show ?thesis using assms(1) by auto
qed

lemma row_below:
  fixes j :: nat
  assumes "j < n" "i < s"
  shows "j * s + i < n * s"
proof -
  have "j * s + i < Suc j * s" using assms by simp
  also have "\<dots> \<le> n * s" using assms by (intro mult_le_mono1) simp
  finally show ?thesis .
qed

definition planes :: "nat \<Rightarrow> nat \<Rightarrow> nat \<Rightarrow> nat \<Rightarrow> android_ycbcr" where
  "planes st cs cr cb = \<lparr>y_off = 0, cb_off = cb, cr_off = cr, ystride = st, cstride = cs, chroma_step = 1\<rparr>"

lemma in_samples [simp]:
  "Y j i \<in> samples w h \<longleftrightarrow> j < h \<and> i < w"
  "Cb j i \<in> samples w h \<longleftrightarrow> 2 * j < h \<and> 2 * i < w"
  "Cr j i \<in> samples w h \<longleftrightarrow> 2 * j < h \<and> 2 * i < w"
  by (auto simp: samples_def)

lemma ball_samples:
  "(\<forall>s \<in> samples w h. P s) \<longleftrightarrow> (\<forall>j i. j < h \<longrightarrow> i < w \<longrightarrow> P (Y j i)) \<and>
     (\<forall>j i. 2 * j < h \<longrightarrow> 2 * i < w \<longrightarrow> P (Cb j i) \<and> P (Cr j i))"
  by (auto simp: samples_def)

text \<open>Rows at least as long as a picture's, the planes in disjoint ranges: for both layouts below.\<close>

lemma layout_okI:
  assumes y: "\<And>j i. j < h \<Longrightarrow> i < w \<Longrightarrow> addr l (Y j i) < a"
    and b: "\<And>j i. 2 * j < h \<Longrightarrow> 2 * i < w \<Longrightarrow> a \<le> addr l (Cb j i) \<and> addr l (Cb j i) < len"
    and r: "\<And>j i. 2 * j < h \<Longrightarrow> 2 * i < w \<Longrightarrow> a \<le> addr l (Cr j i) \<and> addr l (Cr j i) < len"
    and br: "\<And>j i j' i'. 2 * j < h \<Longrightarrow> 2 * i < w \<Longrightarrow> 2 * j' < h \<Longrightarrow> 2 * i' < w \<Longrightarrow> addr l (Cb j i) \<noteq> addr l (Cr j' i')"
    and rows: "w \<le> ystride l" "\<And>i. 2 * i < w \<Longrightarrow> i * chroma_step l < cstride l" "0 < chroma_step l" "a \<le> len"
  shows "layout_ok l w h len"
  unfolding layout_ok_def
proof
  show "\<forall>s \<in> samples w h. addr l s < len"
    unfolding ball_samples using y b r rows(4) by (meson less_le_trans)
  have iy: "j = j' \<and> i = i'" if "j * ystride l + i = j' * ystride l + i'" "i < w" "i' < w" for j i j' i'
    using row_inj [OF that(1)] that rows(1) by auto
  have ic: "j = j' \<and> i = i'"
    if "j * cstride l + i * chroma_step l = j' * cstride l + i' * chroma_step l" "2 * i < w" "2 * i' < w" for j i j' i'
    using row_inj [OF that(1) rows(2) [OF that(2)] rows(2) [OF that(3)]] rows(3) by auto
  have ne: "addr l (Y j i) \<noteq> addr l (Cb j' i')" "addr l (Y j i) \<noteq> addr l (Cr j' i')"
    if "j < h" "i < w" "2 * j' < h" "2 * i' < w" for j i j' i'
    using y [OF that(1,2)] b [OF that(3,4)] r [OF that(3,4)] by linarith+
  show "inj_on (addr l) (samples w h)"
  proof (rule inj_onI)
    fix s t assume s: "s \<in> samples w h" and t: "t \<in> samples w h" and eq: "addr l s = addr l t"
    show "s = t"
    proof (cases s)
      case (Y j i)
      then show ?thesis using s t eq ne [of j i] iy [of j i] by (cases t) (auto simp del: addr.simps(2,3))
    next
      case (Cb j i)
      then show ?thesis
      proof (cases t)
        case (Cr j' i')
        then have "addr l (Cb j i) = addr l (Cr j' i')" using Cb eq by blast
        then show ?thesis using Cb Cr s t br [of j i j' i'] by (simp del: addr.simps)
      qed (use s t eq ne(1) [of _ _ j i] ic [of j i] Cb in \<open>auto simp: eq_commute\<close>)
    next
      case (Cr j i)
      then show ?thesis
      proof (cases t)
        case (Cb j' i')
        then have "addr l (Cb j' i') = addr l (Cr j i)" using Cr eq by simp
        then show ?thesis using Cb Cr s t br [of j' i' j i] by (simp del: addr.simps)
      qed (use s t eq ne(2) [of _ _ j i] ic [of j i] Cr in \<open>auto simp: eq_commute\<close>)
    qed
  qed
qed

lemma planar_layout:
  assumes "w \<le> st" "w \<le> 2 * cs" "h = 2 * h2" "cr = st * h" "cb = cr + cs * h2" "cb + cs * h2 \<le> len"
  shows "layout_ok (planes st cs cr cb) w h len"
proof -
  have y: "j * st + i < cr" if "j < h" "i < w" for j i
    using row_below [OF that(1), of i st] that assms by (simp add: mult.commute)
  have c: "j * cs + i < cs * h2" if "2 * j < h" "2 * i < w" for j i
    using row_below [of j h2 i cs] that assms by (simp add: mult.commute)
  show ?thesis
  proof (rule layout_okI [where a = cr])
    fix j i assume "2 * j < h" "2 * i < w"
    from c [OF this] assms(5,6) show
      "cr \<le> addr (planes st cs cr cb) (Cb j i) \<and> addr (planes st cs cr cb) (Cb j i) < len"
      "cr \<le> addr (planes st cs cr cb) (Cr j i) \<and> addr (planes st cs cr cb) (Cr j i) < len"
      by (simp_all add: planes_def)
  next
    fix j i j' i' assume "2 * j < h" "2 * i < w" "2 * j' < h" "2 * i' < w"
    from c [OF this(1,2)] c [OF this(3,4)] assms(5)
    show "addr (planes st cs cr cb) (Cb j i) \<noteq> addr (planes st cs cr cb) (Cr j' i')" by (simp add: planes_def)
  qed (use y assms in \<open>auto simp: planes_def\<close>)
qed

text \<open>A plane of luma and one of interleaved chroma.\<close>

definition semi_planes :: "nat \<Rightarrow> nat \<Rightarrow> android_ycbcr" where
  "semi_planes w h = \<lparr>y_off = 0, cb_off = h * w + 1, cr_off = h * w, ystride = w, cstride = w, chroma_step = 2\<rparr>"

lemma semi_planar_layout:
  assumes "even w" "h * w + (h + 1) div 2 * w \<le> len"
  shows "layout_ok (semi_planes w h) w h len"
proof -
  obtain w2 where w2: "w = 2 * w2" using assms(1) by (auto elim: evenE)
  have y: "j * w + i < h * w" if "j < h" "i < w" for j i
    using row_below [OF that] .
  have c: "j * w + 2 * i + 1 < (h + 1) div 2 * w" if "2 * j < h" "2 * i < w" for j i
    using row_below [of j "(h + 1) div 2" "2 * i + 1" w] that w2 by auto
  show ?thesis
  proof (rule layout_okI [where a = "h * w"])
    fix j i assume "2 * j < h" "2 * i < w"
    from c [OF this] assms(2) show
      "h * w \<le> addr (semi_planes w h) (Cb j i) \<and> addr (semi_planes w h) (Cb j i) < len"
      "h * w \<le> addr (semi_planes w h) (Cr j i) \<and> addr (semi_planes w h) (Cr j i) < len"
      by (simp_all add: semi_planes_def)
  next
    fix j i j' i'
    have "even (addr (semi_planes w h) (Cr j' i')) \<noteq> even (addr (semi_planes w h) (Cb j i))"
      using assms(1) by (simp add: semi_planes_def)
    then show "addr (semi_planes w h) (Cb j i) \<noteq> addr (semi_planes w h) (Cr j' i')" by metis
  qed (use y assms in \<open>auto simp: semi_planes_def\<close>)
qed

section \<open>Properties\<close>

text \<open>The buffer a window of a given format hands out.\<close>

definition layout_of :: "int \<Rightarrow> native_window \<Rightarrow> android_ycbcr" where
  "layout_of fmt anw =
     (let w = unat (w_width anw); h = unat (w_height anw); st = unat (w_stride anw);
          cs = unat (yv12_cstride (w_stride anw))
      in if fmt = FMT_YCrCb_420_SP then semi_planes w h
         else if fmt = FMT_YV12 then planes st cs (h * st) (h * st + cs * (h div 2))
         else w_ycbcr anw)"

definition gralloc_ok :: "int \<Rightarrow> native_window \<Rightarrow> bool" where
  "gralloc_ok fmt anw \<longleftrightarrow>
     (let w = unat (w_width anw); h = unat (w_height anw); st = unat (w_stride anw); len = length (w_bytes anw)
      in w \<le> 16384 \<and> h \<le> 16384 \<and> w \<le> st \<and> st \<le> 16384 \<and>
         (if fmt = FMT_YCrCb_420_SP then even w \<and> h * w + (h + 1) div 2 * w \<le> len
          else if fmt = FMT_YV12 then h * st + unat (yv12_cstride (w_stride anw)) * h \<le> len
          else layout_ok (w_ycbcr anw) w h len))"

lemma and_not_15:
  fixes x :: u32
  assumes "unat x < 2 ^ 31"
  shows "unat (x AND NOT 15) = unat x div 16 * 16"
proof -
  have m: "(15 :: u32) = mask 4" by (simp add: mask_eq_exp_minus_1)
  have "x AND NOT (mask 4) = push_bit 4 (drop_bit 4 x)"
    by (rule bit_eqI) (auto simp: bit_simps simp del: mask_numeral)
  then have "x AND NOT 15 = push_bit 4 (drop_bit 4 x)" by (simp only: m)
  moreover have "unat (push_bit 4 (drop_bit 4 x)) = take_bit 32 (push_bit 4 (drop_bit 4 (unat x)))"
    unfolding unsigned_push_bit_eq unsigned_drop_bit_eq
    using assms by (simp add: take_bit_nat_eq_self)
  ultimately have "unat (x AND NOT 15) = take_bit 32 (unat x div 16 * 16)"
    by (simp only: push_bit_eq_mult drop_bit_eq_div) simp
  moreover have "unat x div 16 * 16 < 2 ^ 32" using assms by simp
  ultimately show ?thesis by (simp add: take_bit_nat_eq_self)
qed

lemma yv12_cstride_val:
  assumes "unat st \<le> 16384"
  shows "unat (yv12_cstride st) = (unat st div 2 + 15) div 16 * 16"
proof -
  have half: "unat (st div 2) = unat st div 2" by (simp add: unat_div)
  have "unat (st div 2 + 15) = unat (st div 2) + unat (15 :: u32)"
    using assms by (subst unat_add_lem [THEN iffD1]) (simp_all add: half)
  moreover have "st div 2 + 16 - 1 = st div 2 + 15" by simp
  ultimately have sum: "unat (st div 2 + 16 - 1) = unat st div 2 + 15" by (simp only: half) simp
  have "unat (yv12_cstride st) = unat (st div 2 + 16 - 1) div 16 * 16"
    unfolding yv12_cstride_def by (rule and_not_15) (use sum assms in simp)
  then show ?thesis by (simp only: sum)
qed

lemma yv12_cstride_bounds:
  assumes "unat st \<le> 16384"
  shows "even (unat st) \<Longrightarrow> unat st \<le> 2 * unat (yv12_cstride st)" "unat (yv12_cstride st) \<le> 16384"
proof -
  have *: "m \<le> (m + 15) div 16 * 16" "(m + 15) div 16 * 16 \<le> m + 15" for m :: nat
    using div_mult_mod_eq [of "m + 15" 16] mod_less_divisor [of 16 "m + 15"] by linarith+
  show "unat (yv12_cstride st) \<le> 16384"
    unfolding yv12_cstride_val [OF assms] using *(2) [of "unat st div 2"] assms by linarith
  assume "even (unat st)"
  then show "unat st \<le> 2 * unat (yv12_cstride st)"
    unfolding yv12_cstride_val [OF assms] using *(1) [of "unat st div 2"] by (auto elim!: evenE)
qed

lemma unat_mult_16384:
  fixes a b :: u32
  assumes "unat a \<le> 16384" "unat b \<le> 16384"
  shows "unat (a * b) = unat a * unat b" "unat (4 * a * b) = 4 * unat a * unat b" "unat a * unat b \<le> 268435456"
proof -
  show ab: "unat a * unat b \<le> 268435456" using mult_mono [OF assms] by simp
  then show m: "unat (a * b) = unat a * unat b" by (subst unat_mult_lem [THEN iffD1]) simp_all
  have "unat (4 * (a * b)) = unat (4 :: u32) * unat (a * b)"
    using ab m by (subst unat_mult_lem [THEN iffD1]) simp_all
  then show "unat (4 * a * b) = 4 * unat a * unat b" using m by (simp add: mult.assoc)
qed

lemma frame_size_small:
  assumes "unat (w_width anw) \<le> 16384" "unat (w_height anw) \<le> 16384" "fmt \<noteq> FMT_BLOB"
  shows "unat (frame_size anw fmt) = unat (w_width anw) * unat (w_height anw) * 4"
  using assms unat_mult_16384(2) [of "w_height anw" "w_width anw"] by (simp add: frame_size_def)

lemma yv12_layout:
  assumes "gralloc_ok FMT_YV12 anw" "w_stride anw mod 16 = 0" "even (unat (w_height anw))"
  shows "layout_ok (layout_of FMT_YV12 anw) (unat (w_width anw)) (unat (w_height anw)) (length (w_bytes anw))"
    "layout_of FMT_YV12 anw = \<lparr>y_off = 0,
       cb_off = unat (w_height anw * w_stride anw) + unat (yv12_cstride (w_stride anw) * w_height anw div 2),
       cr_off = unat (w_height anw * w_stride anw), ystride = unat (w_stride anw),
       cstride = unat (yv12_cstride (w_stride anw)), chroma_step = 1\<rparr>"
proof -
  define cs where "cs = unat (yv12_cstride (w_stride anw))"
  have g: "unat (w_width anw) \<le> unat (w_stride anw)" "unat (w_stride anw) \<le> 16384" "unat (w_height anw) \<le> 16384"
    "unat (w_height anw) * unat (w_stride anw) + cs * unat (w_height anw) \<le> length (w_bytes anw)"
    using assms(1) by (auto simp: gralloc_ok_def Let_def cs_def FMT_YV12_def FMT_YCrCb_420_SP_def)
  obtain h2 where h2: "unat (w_height anw) = 2 * h2" using assms(3) by (auto elim: evenE)
  have "unat (w_stride anw mod 16) = 0" using assms(2) by simp
  then have "unat (w_stride anw) mod 16 = 0" by (simp add: unat_mod)
  then have "even (unat (w_stride anw))" by presburger
  then have cs: "unat (w_stride anw) \<le> 2 * cs" "cs \<le> 16384"
    using yv12_cstride_bounds [OF g(2)] by (simp_all add: cs_def)
  have m: "unat (w_height anw * w_stride anw) = unat (w_height anw) * unat (w_stride anw)"
    "unat (yv12_cstride (w_stride anw) * w_height anw div 2) = cs * h2"
    using unat_mult_16384(1) [of "w_height anw" "w_stride anw"] unat_mult_16384(1) [of "yv12_cstride (w_stride anw)" "w_height anw"]
      g cs h2 by (simp_all add: cs_def unat_div)
  have l: "layout_of FMT_YV12 anw = planes (unat (w_stride anw)) cs (unat (w_height anw) * unat (w_stride anw))
      (unat (w_height anw) * unat (w_stride anw) + cs * h2)"
    by (simp add: layout_of_def Let_def FMT_YV12_def FMT_YCrCb_420_SP_def h2 cs_def)
  show "layout_of FMT_YV12 anw = \<lparr>y_off = 0,
       cb_off = unat (w_height anw * w_stride anw) + unat (yv12_cstride (w_stride anw) * w_height anw div 2),
       cr_off = unat (w_height anw * w_stride anw), ystride = unat (w_stride anw),
       cstride = unat (yv12_cstride (w_stride anw)), chroma_step = 1\<rparr>"
    unfolding l m planes_def by (simp add: cs_def)
  show "layout_ok (layout_of FMT_YV12 anw) (unat (w_width anw)) (unat (w_height anw)) (length (w_bytes anw))"
    unfolding l using g cs h2 by (intro planar_layout) (auto simp: algebra_simps)
qed

lemma nv21_layout:
  assumes "gralloc_ok FMT_YCrCb_420_SP anw"
  shows "layout_ok (layout_of FMT_YCrCb_420_SP anw) (unat (w_width anw)) (unat (w_height anw)) (length (w_bytes anw))"
    "layout_of FMT_YCrCb_420_SP anw = semi_planes (unat (w_width anw)) (unat (w_height anw))"
  using assms by (auto simp: gralloc_ok_def layout_of_def Let_def intro!: semi_planar_layout)

lemma ycbcr_layout:
  assumes "gralloc_ok FMT_YCbCr_420_888 anw"
  shows "layout_ok (layout_of FMT_YCbCr_420_888 anw) (unat (w_width anw)) (unat (w_height anw)) (length (w_bytes anw))"
    "layout_of FMT_YCbCr_420_888 anw = w_ycbcr anw"
  using assms
  by (simp_all add: gralloc_ok_def layout_of_def Let_def FMT_YCbCr_420_888_def FMT_YV12_def FMT_YCrCb_420_SP_def)

lemma finish_frame_mem [simp]: "snd (snd (finish_frame anw cs mem)) = mem"
  by (simp add: finish_frame_def)

text \<open>What one of the three cases leaves behind when the frame is queued.\<close>

definition frame_good :: "int \<Rightarrow> native_window \<Rightarrow> u8 list \<Rightarrow> (outcome \<times> w_call list \<times> u8 list) option \<Rightarrow> bool" where
  "frame_good fmt anw rgb r \<longleftrightarrow> completes r (\<lambda>(out, cs, mem). out = Return NO_ERROR \<longrightarrow>
     converted (layout_of fmt anw) (unat (w_width anw)) (unat (w_height anw)) rgb (w_bytes anw) mem)"

lemma frame_good_finish:
  assumes "layout_ok (layout_of fmt anw) (unat (w_width anw)) (unat (w_height anw)) (length (w_bytes anw))"
    "unat (w_width anw) * unat (w_height anw) * 4 \<le> length rgb" "l = layout_of fmt anw"
  shows "frame_good fmt anw rgb (do { mem \<leftarrow> rgbToYuv420 rgb (unat (w_width anw)) (unat (w_height anw)) l (w_bytes anw);
     Some (finish_frame anw cs mem) })"
proof -
  obtain mem where "rgbToYuv420 rgb (unat (w_width anw)) (unat (w_height anw)) (layout_of fmt anw) (w_bytes anw) = Some mem"
    "converted (layout_of fmt anw) (unat (w_width anw)) (unat (w_height anw)) rgb (w_bytes anw) mem"
    using convert_ok [OF assms(1,2)] by blast
  then show ?thesis using assms(3) finish_frame_mem [of anw cs mem]
    by (cases "finish_frame anw cs mem") (auto simp: frame_good_def)
qed

lemma frame_good_error [simp]: "e \<noteq> Return NO_ERROR \<Longrightarrow> frame_good fmt anw rgb (Some (e, x))"
  by (cases x) (simp add: frame_good_def)

text \<open>C7: with a buffer as the graphics allocator documents it, \<open>produceFrame\<close> stays inside both blocks
  for each of the three formats, and a frame it queues holds at every sample of every plane exactly
  the value of the conversion, the bytes between the samples untouched. The pixel is the one at this
  place in a picture as wide as the \<open>window\<close>, whatever the width of the decoded picture.\<close>

theorem produceFrame_converts:
  assumes "gralloc_ok fmt anw" "nat bufSize \<le> length rgb"
    "fmt = FMT_YCrCb_420_SP \<or> fmt = FMT_YV12 \<or> fmt = FMT_YCbCr_420_888"
  shows "frame_good fmt anw rgb (produceFrame (Some anw) (Some rgb) bufWidth bufHeight fmt bufSize)"
proof -
  let ?n = "unat (w_width anw) * unat (w_height anw) * 4"
  have ne: "FMT_YCrCb_420_SP \<noteq> FMT_YV12" "FMT_YCbCr_420_888 \<noteq> FMT_YCrCb_420_SP" "FMT_YCbCr_420_888 \<noteq> FMT_YV12"
    "fmt \<noteq> FMT_BLOB" "BAD_VALUE \<noteq> NO_ERROR"
    using assms(3) by (auto simp: FMT_YCrCb_420_SP_def FMT_YV12_def FMT_YCbCr_420_888_def FMT_BLOB_def BAD_VALUE_def NO_ERROR_def)
  have size: "unat (frame_size anw fmt) = ?n"
    using assms(1) ne by (intro frame_size_small) (auto simp: gralloc_ok_def Let_def)
  have "frame_good FMT_YCrCb_420_SP anw rgb (frame_nv21 anw rgb (nat bufSize) ?n)" if "fmt = FMT_YCrCb_420_SP"
    using that assms nv21_layout [of anw] ne
    by (auto simp: frame_nv21_def Let_def not_less semi_planes_def intro!: frame_good_finish)
  moreover have "frame_good FMT_YV12 anw rgb (frame_yv12 anw rgb (nat bufSize) ?n)" if "fmt = FMT_YV12"
  proof (cases "w_stride anw mod 16 = 0 \<and> even (unat (w_height anw))")
    case True
    note l = yv12_layout [OF _ conjunct1 [OF True] conjunct2 [OF True]]
    have "frame_good FMT_YV12 anw rgb (do { mem \<leftarrow> rgbToYuv420 rgb (unat (w_width anw)) (unat (w_height anw))
        (layout_of FMT_YV12 anw) (w_bytes anw); Some (finish_frame anw [Dequeue, Lock] mem) })" if "?n \<le> length rgb"
      using l(1) assms(1) that \<open>fmt = FMT_YV12\<close> by (intro frame_good_finish) auto
    then show ?thesis
      using True assms(2) ne l(2) assms(1) \<open>fmt = FMT_YV12\<close> by (simp add: frame_yv12_def Let_def not_less)
  next
    case False
    then show ?thesis using ne by (auto simp: frame_yv12_def Let_def)
  qed
  moreover have "frame_good FMT_YCbCr_420_888 anw rgb (frame_420_888 anw rgb (nat bufSize) ?n)" if "fmt = FMT_YCbCr_420_888"
    using that assms ycbcr_layout [of anw] ne
    by (auto simp: frame_420_888_def Let_def not_less intro!: frame_good_finish)
  ultimately show ?thesis
    using assms(3) ne by (auto simp: produceFrame_def Let_def size)
qed

definition demo_window :: "int \<Rightarrow> native_window" where
  "demo_window fmt = \<lparr>w_dequeue = 0, w_width = 2, w_height = 2, w_stride = 16, w_bytes = replicate 64 9, w_query = 0,
     w_format = fmt, w_lock = 0, w_ycbcr = planes 16 8 32 40, w_unlock = 0, w_queue = 0\<rparr>"

theorem produceFrame_converts_witness:
  "frame_good FMT_YCrCb_420_SP (demo_window FMT_YCrCb_420_SP) (replicate 16 100)
     (produceFrame (Some (demo_window FMT_YCrCb_420_SP)) (Some (replicate 16 100)) 2 2 FMT_YCrCb_420_SP 16) \<and>
   map_option (\<lambda>(out, cs, mem). (out, cs, take 8 mem))
     (produceFrame (Some (demo_window FMT_YCrCb_420_SP)) (Some (replicate 16 100)) 2 2 FMT_YCrCb_420_SP 16) =
   Some (Return 0, [Dequeue, Lock, Unlock, Queue], [100, 100, 100, 100, 128, 128, 9, 9])"
proof
  show "frame_good FMT_YCrCb_420_SP (demo_window FMT_YCrCb_420_SP) (replicate 16 100)
     (produceFrame (Some (demo_window FMT_YCrCb_420_SP)) (Some (replicate 16 100)) 2 2 FMT_YCrCb_420_SP 16)"
    by (rule produceFrame_converts) (simp_all add: gralloc_ok_def demo_window_def)
qed code_simp

text \<open>the narrowing of the three expressions to a byte loses nothing: each is between 0 and 255, and a
  grey pixel keeps its value and has neutral chroma.\<close>

theorem yuv_values_exact:
  "uint (luma R G B) = (77 * uint R + 150 * uint G + 29 * uint B) div 256 \<and>
   uint (chroma_b R G B) = (- 43 * uint R - 85 * uint G + 128 * uint B) div 256 + 128 \<and>
   uint (chroma_r R G B) = (128 * uint R - 107 * uint G - 21 * uint B) div 256 + 128 \<and>
   luma R R R = R \<and> chroma_b R R R = 128 \<and> chroma_r R R R = 128"
proof -
  have "uint x < 2 ^ LENGTH(8)" for x :: u8 by (rule unsigned_less)
  then have b: "0 \<le> uint x" "uint x \<le> 255" for x :: u8
    using uint_ge_0 [of x] by (simp_all add: zle_diff1_eq [of _ 256, simplified, symmetric])
  have fits: "uint (word_of_int x :: u8) = x" if "0 \<le> x" "x \<le> 255" for x
    using that by (simp add: unsigned_of_int take_bit_int_eq_self)
  have r: "0 \<le> x div 256 \<and> x div 256 \<le> 255" if "0 \<le> x" "x \<le> 65535" for x :: int
    using that zdiv_mono1 [of x 65535 256] by (simp add: pos_imp_zdiv_nonneg_iff)
  have r': "0 \<le> x div 256 + 128 \<and> x div 256 + 128 \<le> 255" if "- 32768 \<le> x" "x \<le> 32767" for x :: int
    using r [of "x + 32768"] that div_mult_self2 [of 256 x 128] by simp
  have y: "uint (luma R G B) = (77 * uint R + 150 * uint G + 29 * uint B) div 256" for R G B
    unfolding luma_def using r [of "77 * uint R + 150 * uint G + 29 * uint B"] b [of R] b [of G] b [of B]
    by (intro fits) auto
  have cb: "uint (chroma_b R G B) = (- 43 * uint R - 85 * uint G + 128 * uint B) div 256 + 128" for R G B
    unfolding chroma_b_def using r' [of "- 43 * uint R - 85 * uint G + 128 * uint B"] b [of R] b [of G] b [of B]
    by (intro fits) auto
  have cr: "uint (chroma_r R G B) = (128 * uint R - 107 * uint G - 21 * uint B) div 256 + 128" for R G B
    unfolding chroma_r_def using r' [of "128 * uint R - 107 * uint G - 21 * uint B"] b [of R] b [of G] b [of B]
    by (intro fits) auto
  have "luma R R R = R" "chroma_b R R R = 128" "chroma_r R R R = 128"
    using y [of R R R] cb [of R R R] cr [of R R R] by (auto simp: word_uint_eq_iff)
  then show ?thesis using y cb cr by blast
qed

lemma larger_surface_rejected:
  assumes "unat (w_width anw) \<le> 16384" "unat (w_height anw) \<le> 16384" "0 \<le> w" "w \<le> 16384" "0 \<le> h" "h \<le> 16384"
    "w_dequeue anw = NO_ERROR" "w_query anw = NO_ERROR" "nat w * nat h < unat (w_width anw) * unat (w_height anw)"
  shows "sDirectCopyToCallBackSurface rgb w h (Some anw) =
    Some (0, Some (Return BAD_VALUE, [Dequeue], w_bytes anw))"
proof -
  have "FMT_YCbCr_420_888 \<noteq> FMT_BLOB" by (simp add: FMT_YCbCr_420_888_def FMT_BLOB_def)
  then have "unat (frame_size anw FMT_YCbCr_420_888) = unat (w_width anw) * unat (w_height anw) * 4"
    using assms by (intro frame_size_small) auto
  moreover have "nat (w * h * 4) = nat w * nat h * 4" using assms by (simp add: nat_mult_distrib)
  ultimately show ?thesis
    using assms in_int_area [of w h] mult_nonneg_nonneg [of h w, THEN leD]
    by (simp add: sDirectCopyToCallBackSurface_def produceFrame_def frame_420_888_def Let_def
        FMT_YCbCr_420_888_def FMT_YV12_def FMT_YCrCb_420_SP_def)
qed

text \<open>the locks of the buffer are balanced on every path, but the buffer itself is handed back only by
  a frame that gets to the end: every error after the window has given out a buffer keeps it. (A
  surface larger than the decoded picture is such an error, with every picture:
  \<open>larger_surface_rejected\<close>.)\<close>

theorem error_keeps_buffer:
  "produceFrame (Some anw) pixels w h fmt sz = Some (Return e, cs, mem) \<Longrightarrow> e \<noteq> NO_ERROR \<Longrightarrow>
     w_queue anw = NO_ERROR \<Longrightarrow>
     Queue \<notin> set cs \<and> (Unlock \<in> set cs \<longrightarrow> w_unlock anw = e) \<and>
     ((Lock \<in> set cs \<or> LockYCbCr \<in> set cs) \<and> w_lock anw = NO_ERROR \<longrightarrow> Unlock \<in> set cs)"
  by (auto simp: produceFrame_def frame_nv21_def frame_yv12_def frame_420_888_def finish_frame_def Let_def
      bind_Some_iff split: if_splits option.splits)

theorem error_keeps_buffer_witness:
  "sDirectCopyToCallBackSurface (replicate 8 1) 2 1 (Some (demo_window FMT_YCbCr_420_888)) =
     Some (0, Some (Return BAD_VALUE, [Dequeue], replicate 64 9)) \<and>
   Queue \<notin> set [Dequeue]"
proof -
  have r: "produceFrame (Some (demo_window FMT_YCbCr_420_888)) (Some (replicate 8 1)) 2 1 FMT_YCbCr_420_888 8 =
      Some (Return BAD_VALUE, [Dequeue], replicate 64 9)"
    by code_simp
  then have "Queue \<notin> set [Dequeue]"
    using error_keeps_buffer [OF r] by (simp add: BAD_VALUE_def NO_ERROR_def demo_window_def)
  moreover have "sDirectCopyToCallBackSurface (replicate 8 1) 2 1 (Some (demo_window FMT_YCbCr_420_888)) =
      Some (0, Some (Return BAD_VALUE, [Dequeue], replicate 64 9))"
    using r by (simp add: sDirectCopyToCallBackSurface_def in_int_def)
  ultimately show ?thesis by blast
qed

end
