(* ===== verification/Rtp_Transport.thy ===== *)
theory Rtp_Transport
  imports Ansync_Decoder
begin

text \<open>
  How a coded picture travels: the sender cuts it into RTP payloads (\<open>RTPSession::SendPacketAfterSlice\<close>,
  the addition of this project to JRTPLIB), the receivers of the service
  (\<open>sReceiveVideoPacket\<close>, \<open>VirtualCameraService.cpp\<close>) and of the application (\<open>receiveVideoPacket\<close>,
  \<open>receiveAudioPacket\<close>, \<open>jrtplibutil_jni.cpp\<close>) join them in one buffer and hand the result to the
  decoder. What JRTPLIB does with a payload in between is not part of the model: \<open>SendPacket\<close> is known
  by its status, and \<open>GetNextPacket\<close> by the payloads it returns.
\<close>

section \<open>Sending\<close>

record rtp_packet =
  payload :: "u8 list"
  mark :: bool
  ts_inc :: u32

text \<open>
  The body of the loop, its three cases differing in the flag of the second byte, in the length of the
  slice (only the last may be shorter) and in the marker. \<open>buf\<close> is \<open>slice_data\<close>, \<open>cap\<close> its capacity
  without the two header bytes.
\<close>

definition slice_step ::
  "u8 \<Rightarrow> nat \<Rightarrow> u8 list \<Rightarrow> int \<Rightarrow> int \<Rightarrow> u32 \<Rightarrow> int \<Rightarrow> u8 list \<Rightarrow> (u8 list \<times> rtp_packet) option" where
  "slice_step nalu_header cap data n l timestampinc step buf =
     (let last = (step \<noteq> 0 \<and> step = n - 1);
          flag = (if step = 0 then 0x80 else if last then 0x40 else 0);
          len = (if last \<and> l \<noteq> 0 then l else int cap)
      in do {
        buf \<leftarrow> c_write buf 1 ((nalu_header AND 0x1F) OR flag);
        buf \<leftarrow> c_memcpy (Some buf) 2 (drop (nat step * cap) data) len;
        Some (buf, \<lparr>payload = take (nat len + 2) buf, mark = last, ts_inc = (if step = 0 then timestampinc else 0)\<rparr>) })"

text \<open>A run of the sender: the packets given to \<open>SendPacket\<close> and whether the process went on; a
  negative status of a slice ends it. \<open>send\<close> gives the status for each packet.\<close>

function slice_loop ::
  "(rtp_packet \<Rightarrow> int) \<Rightarrow> u8 \<Rightarrow> nat \<Rightarrow> u8 list \<Rightarrow> int \<Rightarrow> int \<Rightarrow> u32 \<Rightarrow> int \<Rightarrow> u8 list \<Rightarrow> (bool \<times> rtp_packet list) option" where
  "slice_loop send nalu_header cap data n l timestampinc step buf =
     (if step < n then do {
        (buf, p) \<leftarrow> slice_step nalu_header cap data n l timestampinc step buf;
        if send p < 0 then Some (False, [p])
        else do {
          (ok, ps) \<leftarrow> slice_loop send nalu_header cap data n l timestampinc (step + 1) buf;
          Some (ok, p # ps) } }
      else Some (True, []))"
  by auto
termination by (relation "measure (\<lambda>(_, _, _, _, n, _, _, step, _). nat (n - step))") auto

declare slice_loop.simps [simp del]

definition ERR_RTP_SESSION_NOTCREATED :: int where
  "ERR_RTP_SESSION_NOTCREATED = - 62"

text \<open>The result: the value returned (\<open>None\<close> when the process has ended) and the packets sent.\<close>

definition SendPacketAfterSlice ::
  "(rtp_packet \<Rightarrow> int) \<Rightarrow> bool \<Rightarrow> nat \<Rightarrow> u8 list \<Rightarrow> u8 list \<Rightarrow> bool \<Rightarrow> u32 \<Rightarrow> (int option \<times> rtp_packet list) option" where
  "SendPacketAfterSlice send created cap buf data marker timestampinc =
     (if \<not> created then Some (Some ERR_RTP_SESSION_NOTCREATED, [])
      else if length data > cap then do {
        nalu_header \<leftarrow> c_read data 4;
        let fu_indicator = (nalu_header AND 0xE0) OR 28;
        n \<leftarrow> (if cap = 0 then None else Some (to_int (of_nat (length data div cap))));
        let l = to_int (of_nat (length data mod cap));
        n \<leftarrow> (if l \<noteq> 0 then c_int (n + 1) else Some n);
        buf \<leftarrow> c_write buf 0 fu_indicator;
        (ok, ps) \<leftarrow> slice_loop send nalu_header cap data n l timestampinc 0 buf;
        Some (if ok then Some 0 else None, ps) }
      else Some (Some 0, [\<lparr>payload = data, mark = marker, ts_inc = timestampinc\<rparr>]))"

section \<open>Receiving\<close>

text \<open>
  A payload joins the buffer \<open>data\<close> at \<open>dataLen\<close>, or starts it anew; \<open>deliver\<close> is the decoder. The
  service resets \<open>dataLen\<close> after a picture, the application (\<open>keep\<close>) does not. Neither checks the
  length of the payload or of the buffer.
\<close>

definition rx_packet ::
  "('s \<Rightarrow> packet \<Rightarrow> 's option) \<Rightarrow> bool \<Rightarrow> u8 list \<Rightarrow> u8 list \<times> nat \<times> 's \<Rightarrow> (u8 list \<times> nat \<times> 's) option" where
  "rx_packet deliver keep p st =
     (case st of (data, dataLen, dec) \<Rightarrow> do {
        b0 \<leftarrow> c_read p 0;
        if b0 AND 0x1F = 28 then do {
          b1 \<leftarrow> c_read p 1;
          let flag = b1 AND 0xC0;
          if flag = 0x80 then do {
            data \<leftarrow> c_memcpy (Some data) 0 (drop 2 p) (int (length p) - 2);
            Some (data, length p - 2, dec) }
          else do {
            data \<leftarrow> c_memcpy (Some data) (int dataLen) (drop 2 p) (int (length p) - 2);
            let dataLen = dataLen + (length p - 2);
            if flag = 0x40 then do {
              dec \<leftarrow> deliver dec \<lparr>pk_data = data, pk_len = to_int (of_nat dataLen), pk_timestamp = 0, pk_type = 1\<rparr>;
              Some (data, if keep then dataLen else 0, dec) }
            else Some (data, dataLen, dec) } }
        else do {
          data \<leftarrow> c_memcpy (Some data) 0 p (int (length p));
          let dataLen = length p;
          dec \<leftarrow> deliver dec \<lparr>pk_data = data, pk_len = to_int (of_nat dataLen), pk_timestamp = 0, pk_type = 1\<rparr>;
          Some (data, if keep then dataLen else 0, dec) } })"

text \<open>The loop over the packets of a source.\<close>

fun rx_packets ::
  "('s \<Rightarrow> packet \<Rightarrow> 's option) \<Rightarrow> bool \<Rightarrow> u8 list list \<Rightarrow> u8 list \<times> nat \<times> 's \<Rightarrow> (u8 list \<times> nat \<times> 's) option" where
  "rx_packets deliver keep [] st = Some st"
| "rx_packets deliver keep (p # ps) st = do { st \<leftarrow> rx_packet deliver keep p st; rx_packets deliver keep ps st }"

definition decoder_sink ::
  "('r ring_state_scheme \<Rightarrow> 'r ring_state_scheme) \<Rightarrow> 'r ring_state_scheme option \<Rightarrow> packet \<Rightarrow>
    'r ring_state_scheme option option" where
  "decoder_sink sleep dec p = AnsyncDecoder_ReceiveData (\<lambda>_. True) sleep dec p"

text \<open>One call: every source with packets, each up to its last packet.\<close>

definition sReceiveVideoPacket ::
  "('r ring_state_scheme \<Rightarrow> 'r ring_state_scheme) \<Rightarrow> u8 list list list \<Rightarrow>
    u8 list \<times> nat \<times> 'r ring_state_scheme option \<Rightarrow> (u8 list \<times> nat \<times> 'r ring_state_scheme option) option" where
  "sReceiveVideoPacket sleep sources st = rx_packets (decoder_sink sleep) False (concat sources) st"

definition receiveVideoPacket ::
  "('r ring_state_scheme \<Rightarrow> 'r ring_state_scheme) \<Rightarrow> u8 list list list \<Rightarrow>
    u8 list \<times> nat \<times> 'r ring_state_scheme option \<Rightarrow> (u8 list \<times> nat \<times> 'r ring_state_scheme option) option" where
  "receiveVideoPacket sleep sources st = rx_packets (decoder_sink sleep) True (concat sources) st"

text \<open>The application's audio goes through the same buffer and the same length.\<close>

definition rx_audio ::
  "('s \<Rightarrow> packet \<Rightarrow> 's option) \<Rightarrow> u8 list \<Rightarrow> u8 list \<times> nat \<times> 's \<Rightarrow> (u8 list \<times> nat \<times> 's) option" where
  "rx_audio deliver p st =
     (case st of (data, dataLen, dec) \<Rightarrow> do {
        data \<leftarrow> c_memcpy (Some data) 0 p (int (length p));
        dec \<leftarrow> deliver dec \<lparr>pk_data = data, pk_len = to_int (of_nat (length p)), pk_timestamp = 0, pk_type = 2\<rparr>;
        Some (data, length p, dec) })"

fun rx_audios ::
  "('s \<Rightarrow> packet \<Rightarrow> 's option) \<Rightarrow> u8 list list \<Rightarrow> u8 list \<times> nat \<times> 's \<Rightarrow> (u8 list \<times> nat \<times> 's) option" where
  "rx_audios deliver [] st = Some st"
| "rx_audios deliver (p # ps) st = do { st \<leftarrow> rx_audio deliver p st; rx_audios deliver ps st }"

definition receiveAudioPacket ::
  "('r ring_state_scheme \<Rightarrow> 'r ring_state_scheme) \<Rightarrow> u8 list list list \<Rightarrow>
    u8 list \<times> nat \<times> 'r ring_state_scheme option \<Rightarrow> (u8 list \<times> nat \<times> 'r ring_state_scheme option) option" where
  "receiveAudioPacket sleep sources st = rx_audios (decoder_sink sleep) (concat sources) st"

text \<open>One pass of the application's receiver thread: audio, then video.\<close>

definition recv_pass ::
  "('r ring_state_scheme \<Rightarrow> 'r ring_state_scheme) \<Rightarrow> u8 list list list \<Rightarrow> u8 list list list \<Rightarrow>
    u8 list \<times> nat \<times> 'r ring_state_scheme option \<Rightarrow> (u8 list \<times> nat \<times> 'r ring_state_scheme option) option" where
  "recv_pass sleep audio video st = do {
     st \<leftarrow> receiveAudioPacket sleep audio st;
     receiveVideoPacket sleep video st }"

text \<open>\<open>sendMediaPacket\<close> of the application.\<close>

definition sendMediaPacket ::
  "(rtp_packet \<Rightarrow> int) \<Rightarrow> bool \<Rightarrow> nat \<Rightarrow> u8 list \<Rightarrow> u8 list \<Rightarrow> int \<Rightarrow> (int option \<times> rtp_packet list \<times> rtp_packet list) option" where
  "sendMediaPacket send created cap buf data ty =
     (if ty = 1 then do {
        (r, ps) \<leftarrow> SendPacketAfterSlice send created cap buf data True 10;
        Some (if r = None then None else Some 0, ps, []) }
      else if ty = 2 then Some (Some 0, [], if created then [\<lparr>payload = data, mark = True, ts_inc = 10\<rparr>] else [])
      else Some (Some 0, [], []))"

section \<open>What the sender sends\<close>

text \<open>The reference: slice \<open>k\<close> of a picture, and the payload that carries it.\<close>

definition slice :: "nat \<Rightarrow> u8 list \<Rightarrow> nat \<Rightarrow> u8 list" where
  "slice cap data k = take cap (drop (k * cap) data)"

definition fu_payload :: "u8 \<Rightarrow> u8 \<Rightarrow> u8 list \<Rightarrow> u8 list" where
  "fu_payload h fl s = ((h AND 0xE0) OR 28) # ((h AND 0x1F) OR fl) # s"

definition fu_flag :: "nat \<Rightarrow> nat \<Rightarrow> u8" where
  "fu_flag n k = (if k = 0 then 0x80 else if k = n - 1 then 0x40 else 0)"

definition n_slices :: "nat \<Rightarrow> u8 list \<Rightarrow> nat" where
  "n_slices cap data = (length data + cap - 1) div cap"

definition fu_packet :: "nat \<Rightarrow> u8 list \<Rightarrow> u32 \<Rightarrow> nat \<Rightarrow> rtp_packet" where
  "fu_packet cap data inc k =
     \<lparr>payload = fu_payload (data ! 4) (fu_flag (n_slices cap data) k) (slice cap data k),
      mark = (k \<noteq> 0 \<and> k = n_slices cap data - 1), ts_inc = (if k = 0 then inc else 0)\<rparr>"

lemma n_slices_eq:
  assumes "0 < cap"
  shows "n_slices cap data = length data div cap + (if length data mod cap = 0 then 0 else 1)"
proof -
  obtain q r where qr: "length data = q * cap + r" "r < cap"
    using assms by (metis div_mult_mod_eq mod_less_divisor)
  show ?thesis
  proof (cases "r = 0")
    case True
    then have "length data + cap - 1 = q * cap + (cap - 1)" using qr by simp
    moreover have "(q * cap + (cap - 1)) div cap = q" using assms by (subst div_mult_self3) auto
    ultimately show ?thesis using True qr assms by (simp only: n_slices_def) simp
  next
    case False
    then have "length data + cap - 1 = (q + 1) * cap + (r - 1)" using qr assms by simp
    moreover have "((q + 1) * cap + (r - 1)) div cap = q + 1" using qr(2) assms by (subst div_mult_self3) auto
    ultimately show ?thesis using False qr assms by (simp add: n_slices_def)
  qed
qed

lemma slice_length:
  assumes "0 < cap" "k < n_slices cap data"
  shows "int (length (slice cap data k)) =
    (if k = n_slices cap data - 1 \<and> length data mod cap \<noteq> 0 then int (length data mod cap) else int cap)"
proof -
  obtain q r where qr: "length data = q * cap + r" "r < cap" "q = length data div cap" "r = length data mod cap"
    using assms(1) by (metis div_mult_mod_eq mod_less_divisor)
  have n: "n_slices cap data = q + (if r = 0 then 0 else 1)" using n_slices_eq [OF assms(1)] qr(3,4) by simp
  show ?thesis
  proof (cases "k < q")
    case True
    then have "Suc k * cap \<le> q * cap" by (intro mult_le_mono1) simp
    then have "k * cap + cap \<le> length data" using qr(1) by simp
    then have "length (slice cap data k) = cap" by (simp add: slice_def)
    moreover have "\<not> (k = n_slices cap data - 1 \<and> r \<noteq> 0)" using True n by (cases "r = 0") auto
    ultimately show ?thesis unfolding qr(4) [symmetric] by auto
  next
    case False
    then have k: "k = q" "r \<noteq> 0" using n assms(2) by (cases "r = 0"; simp)+
    then have "length (slice cap data k) = r" using qr(1,2) by (simp add: slice_def)
    then show ?thesis unfolding qr(4) [symmetric] using k n by simp
  qed
qed

lemma slice_step_packet:
  assumes "0 < cap" "length buf = cap + 2" "buf ! 0 = (data ! 4 AND 0xE0) OR 28" "k < n_slices cap data"
    "1 < n_slices cap data"
  obtains buf' where "slice_step (data ! 4) cap data (int (n_slices cap data)) (int (length data mod cap)) inc (int k) buf =
      Some (buf', fu_packet cap data inc k)"
    "length buf' = cap + 2" "buf' ! 0 = (data ! 4 AND 0xE0) OR 28"
proof -
  define n where "n = n_slices cap data"
  define hdr where "hdr = (data ! 4 AND 0x1F) OR fu_flag n k"
  define s where "s = slice cap data k"
  have sl: "length s \<le> cap" by (simp add: s_def slice_def)
  have last: "int k \<noteq> 0 \<and> int k = int n - 1 \<longleftrightarrow> k \<noteq> 0 \<and> k = n - 1" using assms(4,5) by (auto simp: n_def)
  have flag: "(if int k = 0 then 0x80 else if int k \<noteq> 0 \<and> int k = int n - 1 then 0x40 else 0) = fu_flag n k"
    using last by (auto simp: fu_flag_def)
  have len: "(if (int k \<noteq> 0 \<and> int k = int n - 1) \<and> int (length data mod cap) \<noteq> 0 then int (length data mod cap) else int cap)
      = int (length s)"
    using slice_length [OF assms(1,4)] last assms(4,5) unfolding s_def n_def by auto
  have s_take: "take (length s) (drop (k * cap) data) = s" by (simp add: s_def slice_def min_def)
  obtain b0 b1 bs where buf: "buf = b0 # b1 # bs" "length bs = cap" using assms(2) by (cases buf; cases "tl buf") auto
  have m: "c_memcpy (Some (b0 # hdr # bs)) 2 (drop (k * cap) data) (int (length s)) = Some (b0 # hdr # s @ drop (length s) bs)"
    using sl buf(2) s_take unfolding c_memcpy_def
    by (simp add: nat_add_distrib numeral_2_eq_2) (simp add: s_def slice_def)
  have "slice_step (data ! 4) cap data (int n) (int (length data mod cap)) inc (int k) buf =
      Some (b0 # hdr # s @ drop (length s) bs, fu_packet cap data inc k)"
    unfolding slice_step_def Let_def flag len
    using m last assms(3) by (simp add: buf c_write_def numeral_2_eq_2 hdr_def fu_packet_def fu_payload_def n_def s_def nat_add_distrib)
  then show ?thesis using that sl buf assms(3) by (simp add: n_def)
qed

lemma slice_loop_packets:
  assumes "0 < cap" "1 < n_slices cap data" "\<forall>p. 0 \<le> send p"
    "length buf = cap + 2" "buf ! 0 = (data ! 4 AND 0xE0) OR 28" "k \<le> n_slices cap data"
  shows "slice_loop send (data ! 4) cap data (int (n_slices cap data)) (int (length data mod cap)) inc (int k) buf =
    Some (True, map (fu_packet cap data inc) [k..<n_slices cap data])"
  using assms(4-6)
proof (induction "n_slices cap data - k" arbitrary: k buf)
  case 0
  then show ?case by (simp add: slice_loop.simps)
next
  case (Suc m)
  then have k: "k < n_slices cap data" by simp
  obtain buf' where b: "slice_step (data ! 4) cap data (int (n_slices cap data)) (int (length data mod cap)) inc (int k) buf =
      Some (buf', fu_packet cap data inc k)"
    "length buf' = cap + 2" "buf' ! 0 = (data ! 4 AND 0xE0) OR 28"
    using slice_step_packet [OF assms(1) Suc.prems(1,2) k assms(2)] by blast
  have "slice_loop send (data ! 4) cap data (int (n_slices cap data)) (int (length data mod cap)) inc (int (Suc k)) buf' =
    Some (True, map (fu_packet cap data inc) [Suc k..<n_slices cap data])"
    using Suc b k by (intro Suc.hyps(1)) auto
  then have "slice_loop send (data ! 4) cap data (int (n_slices cap data)) (int (length data mod cap)) inc (int k + 1) buf' =
    Some (True, map (fu_packet cap data inc) [Suc k..<n_slices cap data])"
    by (simp add: add.commute)
  then show ?case
    using b(1) k assms(3) by (subst slice_loop.simps) (simp add: upt_conv_Cons not_less)
qed

text \<open>What a picture becomes: one payload, or one for each of its slices.\<close>

definition frame_payloads :: "nat \<Rightarrow> u8 list \<Rightarrow> u8 list list" where
  "frame_payloads cap data =
     (if length data > cap
      then map (\<lambda>k. fu_payload (data ! 4) (fu_flag (n_slices cap data) k) (slice cap data k)) [0..<n_slices cap data]
      else [data])"

lemma n_slices_gt: "0 < cap \<Longrightarrow> cap < length data \<Longrightarrow> 1 < n_slices cap data"
proof -
  assume a: "0 < cap" "cap < length data"
  then have "2 * cap \<le> length data + cap - 1" by simp
  then have "2 * cap div cap \<le> (length data + cap - 1) div cap" by (rule div_le_mono)
  then show ?thesis using a by (simp add: n_slices_def)
qed

lemma SendPacketAfterSlice_payloads:
  assumes "0 < cap" "4 < cap" "length data < 2 ^ 31" "\<forall>p. 0 \<le> send p" "length buf = cap + 2"
  shows "\<exists>ps. SendPacketAfterSlice send True cap buf data mk inc = Some (Some 0, ps) \<and>
    map payload ps = frame_payloads cap data"
proof (cases "length data > cap")
  case True
  let ?n = "n_slices cap data"
  let ?buf = "buf[0 := (data ! 4 AND 0xE0) OR 28]"
  have n: "1 < ?n" using n_slices_gt [OF assms(1) True] .
  have le: "length data div cap \<le> length data" "length data mod cap \<le> length data" by (simp_all add: div_le_dividend)
  then have ints: "to_int (of_nat (length data div cap)) = int (length data div cap)"
    "to_int (of_nat (length data mod cap)) = int (length data mod cap)"
    using assms(3) to_int_of_nat [of "length data div cap"] to_int_of_nat [of "length data mod cap"] by linarith+
  have "length data div cap \<le> length data div 2" using assms(2) by (intro div_le_mono2) auto
  then have fit: "in_int (int (length data div cap) + 1)" using assms(3) by (simp add: in_int_def)
  have nn: "(if length data mod cap \<noteq> 0 then Some (int (length data div cap) + 1) else Some (int (length data div cap))) = Some (int ?n)"
    using n_slices_eq [OF assms(1), of data] by simp
  have "slice_loop send (data ! 4) cap data (int ?n) (int (length data mod cap)) inc (int 0) ?buf =
      Some (True, map (fu_packet cap data inc) [0..<?n])"
    using assms n by (intro slice_loop_packets) (auto simp: nth_list_update)
  then have "SendPacketAfterSlice send True cap buf data mk inc = Some (Some 0, map (fu_packet cap data inc) [0..<?n])"
    using True assms(1,2,5) ints fit nn by (auto simp: SendPacketAfterSlice_def Let_def c_write_def simp del: upt_Suc)
  then show ?thesis using True by (simp add: frame_payloads_def fu_packet_def)
next
  case False
  then show ?thesis by (simp add: SendPacketAfterSlice_def frame_payloads_def)
qed

section \<open>What the receiver makes of it\<close>

lemma fu_bits:
  "((h AND 0xE0) OR 28) AND 0x1F = (28 :: u8)" "((h AND 0x1F) OR 0x80) AND 0xC0 = (0x80 :: u8)"
  "((h AND 0x1F) OR 0x40) AND 0xC0 = (0x40 :: u8)" "(h AND 0x1F) AND 0xC0 = (0 :: u8)"
  by (simp_all add: bit.conj_disj_distrib2 and.assoc)

text \<open>Joining at the end of what is there.\<close>

lemma memcpy_join:
  "length s \<le> length rest \<Longrightarrow>
    c_memcpy (Some (acc @ rest)) (int (length acc)) s (int (length s)) = Some (acc @ s @ drop (length s) rest)"
  by (simp add: c_memcpy_def nat_add_distrib flip: of_nat_add)

lemma rx_slice:
  assumes "length s \<le> length rest"
  shows "rx_packet deliver keep (fu_payload h 0 s) (acc @ rest, length acc, dec) =
    Some (acc @ s @ drop (length s) rest, length acc + length s, dec)"
  using memcpy_join [OF assms, of acc] by (simp add: rx_packet_def fu_payload_def fu_bits Let_def)

lemma rx_first_slice:
  assumes "length s \<le> length data"
  shows "rx_packet deliver keep (fu_payload h 0x80 s) (data, dataLen, dec) =
    Some (s @ drop (length s) data, length s, dec)"
  using memcpy_join [OF assms, of "[]"] by (simp add: rx_packet_def fu_payload_def fu_bits)

lemma rx_last_slice:
  assumes "length s \<le> length rest"
  shows "rx_packet deliver keep (fu_payload h 0x40 s) (acc @ rest, length acc, dec) =
    map_option (\<lambda>dec. (acc @ s @ drop (length s) rest, if keep then length acc + length s else 0, dec))
      (deliver dec \<lparr>pk_data = acc @ s @ drop (length s) rest, pk_len = to_int (of_nat (length acc + length s)),
        pk_timestamp = 0, pk_type = 1\<rparr>)"
  using memcpy_join [OF assms, of acc]
  by (simp add: rx_packet_def fu_payload_def fu_bits map_option_case Let_def split: Option.bind_splits option.splits)

lemma rx_whole:
  assumes "p \<noteq> []" "hd p AND 0x1F \<noteq> 28" "length p \<le> length data"
  shows "rx_packet deliver keep p (data, dataLen, dec) =
    map_option (\<lambda>dec. (p @ drop (length p) data, if keep then length p else 0, dec))
      (deliver dec \<lparr>pk_data = p @ drop (length p) data, pk_len = to_int (of_nat (length p)),
        pk_timestamp = 0, pk_type = 1\<rparr>)"
  using memcpy_join [OF assms(3), of "[]"] assms(1,2)
  by (cases p) (auto simp: rx_packet_def map_option_case Let_def split: Option.bind_splits option.splits)

lemma rx_packets_append:
  "rx_packets deliver keep (ps @ qs) st = Option.bind (rx_packets deliver keep ps st) (rx_packets deliver keep qs)"
  by (induction ps arbitrary: st) (auto intro: Option.bind_cong)

lemma rx_slices:
  assumes "sum_list (map length ss) \<le> length rest"
  shows "rx_packets deliver keep (map (fu_payload h 0) ss) (acc @ rest, length acc, dec) =
    Some (acc @ concat ss @ drop (sum_list (map length ss)) rest, length acc + sum_list (map length ss), dec)"
  using assms
proof (induction ss arbitrary: acc rest)
  case (Cons s ss)
  have "rx_packets deliver keep (map (fu_payload h 0) ss)
      ((acc @ s) @ drop (length s) rest, length (acc @ s), dec) =
    Some ((acc @ s) @ concat ss @ drop (sum_list (map length ss)) (drop (length s) rest),
      length (acc @ s) + sum_list (map length ss), dec)"
    using Cons.prems by (intro Cons.IH) simp
  then show ?case using rx_slice [of s rest deliver keep h acc dec] Cons.prems by (simp add: add.commute)
qed simp

lemma concat_slices:
  assumes "0 < cap" "k \<le> n_slices cap data"
  shows "concat (map (slice cap data) [k..<n_slices cap data]) = drop (k * cap) data"
  using assms(2)
proof (induction "n_slices cap data - k" arbitrary: k)
  case 0
  obtain q r where qr: "length data = q * cap + r" "r < cap" "q = length data div cap" "r = length data mod cap"
    using assms(1) by (metis div_mult_mod_eq mod_less_divisor)
  have "length data \<le> n_slices cap data * cap"
    unfolding n_slices_eq [OF assms(1)] qr(3,4) [symmetric] using qr(1,2) by simp
  then show ?case using 0 by simp
next
  case (Suc m)
  then have "concat (map (slice cap data) [Suc k..<n_slices cap data]) = drop (Suc k * cap) data" by simp
  then show ?case using Suc by (simp add: upt_conv_Cons slice_def) (metis add.commute append_take_drop_id drop_drop)
qed

lemma frame_payloads_split:
  assumes "cap < length data" "0 < cap"
  defines "n \<equiv> n_slices cap data" and "h \<equiv> data ! 4"
  shows "frame_payloads cap data = fu_payload h 0x80 (slice cap data 0) #
    map (fu_payload h 0) (map (slice cap data) [1..<n - 1]) @ [fu_payload h 0x40 (slice cap data (n - 1))]"
proof -
  have "1 < n" using n_slices_gt [OF assms(2,1)] by (simp add: n_def)
  then have "[0..<n] = 0 # [1..<n - 1] @ [n - 1]"
    by (metis One_nat_def Suc_diff_1 Suc_leI gr_implies_not0 le_add2 less_imp_le_nat neq0_conv plus_1_eq_Suc
        upt_Suc_append upt_conv_Cons less_diff_conv add.commute)
  then show ?thesis
    using assms(1) \<open>1 < n\<close> by (simp add: frame_payloads_def fu_flag_def flip: n_def h_def)
qed

text \<open>The slices after the first, which joins nothing.\<close>

lemma slices_split:
  assumes "cap < length data" "0 < cap"
  defines "n \<equiv> n_slices cap data"
  shows "slice cap data 0 @ concat (map (slice cap data) [1..<n - 1]) @ slice cap data (n - 1) = data"
proof -
  have "1 < n" using n_slices_gt [OF assms(2,1)] by (simp add: n_def)
  then have "slice cap data 0 # map (slice cap data) [1..<n - 1] @ [slice cap data (n - 1)] = map (slice cap data) [0..<n]"
    by (cases n) (auto simp: upt_conv_Cons)
  then have "concat (slice cap data 0 # map (slice cap data) [1..<n - 1] @ [slice cap data (n - 1)]) = drop (0 * cap) data"
    using concat_slices [OF assms(2), of 0 data] by (simp only: n_def)
  then show ?thesis by simp
qed

text \<open>The contract of the decoder, as far as the receiver relies on it: while there is room, what is
  delivered is what has been in the buffer, in order.\<close>

locale frame_sink =
  fixes deliver :: "'s \<Rightarrow> packet \<Rightarrow> 's option" and got :: "'s \<Rightarrow> (int \<times> u8 list \<times> u32) list" and room :: "'s \<Rightarrow> nat"
  assumes deliver_got: "0 < room s \<Longrightarrow> packet_ok p \<Longrightarrow>
    \<exists>t. deliver s p = Some t \<and> got t = got s @ [packet_view p] \<and> room t = room s - 1"
begin

lemma deliver_frame:
  assumes "0 < room dec" "length f \<le> 2147483391"
  shows "\<exists>t. deliver dec \<lparr>pk_data = f @ rest, pk_len = to_int (of_nat (length f)), pk_timestamp = 0, pk_type = 1\<rparr> = Some t \<and>
    got t = got dec @ [(1, f, 0)] \<and> room t = room dec - 1"
  using deliver_got [OF assms(1), of "\<lparr>pk_data = f @ rest, pk_len = int (length f), pk_timestamp = 0, pk_type = 1\<rparr>"]
    to_int_of_nat [of "length f"] assms(2)
  by (simp add: packet_ok_def packet_view_def)

text \<open>The slices after the first join whatever is in the buffer.\<close>

lemma rx_rest:
  assumes g: "concat m @ l = g" and "0 < room dec" "length g \<le> length r" "length (acc @ g) \<le> 2147483391"
  shows "\<exists>data' t. rx_packets deliver keep (map (fu_payload h 0) m @ [fu_payload h 0x40 l]) (acc @ r, length acc, dec) =
      Some (data', if keep then length (acc @ g) else 0, t) \<and>
    length data' = length (acc @ r) \<and> got t = got dec @ [(1, acc @ g, 0)] \<and> room t = room dec - 1"
proof -
  have lens: "sum_list (map length m) + length l = length g"
    using arg_cong [OF g, of length] by (simp add: length_concat)
  define r2 where "r2 = drop (sum_list (map length m)) r"
  have fit: "sum_list (map length m) \<le> length r" "length l \<le> length r2"
    using lens assms(3) unfolding r2_def length_drop by linarith+
  obtain t where t: "deliver dec \<lparr>pk_data = (acc @ g) @ drop (length l) r2,
      pk_len = to_int (of_nat (length (acc @ g))), pk_timestamp = 0, pk_type = 1\<rparr> = Some t"
    "got t = got dec @ [(1, acc @ g, 0)]" "room t = room dec - 1"
    using deliver_frame [OF assms(2,4)] by blast
  have e: "(acc @ concat m) @ l @ drop (length l) r2 = (acc @ g) @ drop (length l) r2"
    "length (acc @ concat m) + length l = length (acc @ g)"
    unfolding g [symmetric] by simp_all
  have 1: "rx_packets deliver keep (map (fu_payload h 0) m) (acc @ r, length acc, dec) =
      Some ((acc @ concat m) @ r2, length (acc @ concat m), dec)"
    using rx_slices [OF fit(1), of deliver keep h acc dec] by (simp add: r2_def length_concat)
  have 2: "rx_packet deliver keep (fu_payload h 0x40 l) ((acc @ concat m) @ r2, length (acc @ concat m), dec) =
      Some ((acc @ g) @ drop (length l) r2, if keep then length (acc @ g) else 0, t)"
    unfolding rx_last_slice [OF fit(2)] e t(1) by simp
  have "length ((acc @ g) @ drop (length l) r2) = length (acc @ r)"
    using lens assms(3) unfolding r2_def by simp
  then show ?thesis
    using t(2,3) 1 2 by (simp only: rx_packets_append rx_packets.simps bind.bind_lunit) blast
qed

lemma rx_sliced:
  assumes all: "s @ concat m @ l = f" and "0 < room dec" "length f \<le> length data" "length f \<le> 2147483391"
  shows "\<exists>data' dataLen' t. rx_packets deliver keep
      (fu_payload h 0x80 s # map (fu_payload h 0) m @ [fu_payload h 0x40 l]) (data, dataLen, dec) = Some (data', dataLen', t) \<and>
    length data' = length data \<and> got t = got dec @ [(1, f, 0)] \<and> room t = room dec - 1"
proof -
  have lens: "length s + length (concat m @ l) = length f"
    using arg_cong [OF all, of length] by simp
  then have s: "length s \<le> length data" using assms(3) by linarith
  have "length (concat m @ l) \<le> length (drop (length s) data)" using lens assms(3) unfolding length_drop by linarith
  then obtain data' t where "rx_packets deliver keep (map (fu_payload h 0) m @ [fu_payload h 0x40 l])
      (s @ drop (length s) data, length s, dec) = Some (data', if keep then length f else 0, t)"
    "length data' = length data" "got t = got dec @ [(1, f, 0)]" "room t = room dec - 1"
    using rx_rest [OF refl assms(2), of m l "drop (length s) data" s keep h] all assms(4) s by auto
  then show ?thesis
    using rx_first_slice [OF s, of deliver keep h dataLen dec] by (auto simp: rx_packets_append)
qed

lemma rx_frame:
  assumes "0 < cap" "0 < room dec" "length f \<le> length data" "length f \<le> 2147483391"
    "length f \<le> cap \<longrightarrow> f \<noteq> [] \<and> hd f AND 0x1F \<noteq> 28"
  shows "\<exists>data' dataLen' t. rx_packets deliver keep (frame_payloads cap f) (data, dataLen, dec) = Some (data', dataLen', t) \<and>
    length data' = length data \<and> got t = got dec @ [(1, f, 0)] \<and> room t = room dec - 1"
proof (cases "cap < length f")
  case False
  obtain t where "deliver dec \<lparr>pk_data = f @ drop (length f) data, pk_len = to_int (of_nat (length f)), pk_timestamp = 0,
      pk_type = 1\<rparr> = Some t" "got t = got dec @ [(1, f, 0)]" "room t = room dec - 1"
    using deliver_frame [OF assms(2,4)] by blast
  then show ?thesis
    using False assms(3,5) rx_whole [of f data deliver keep dataLen dec] by (simp add: frame_payloads_def)
next
  case True
  show ?thesis
    unfolding frame_payloads_split [OF True assms(1)]
    by (rule rx_sliced [OF slices_split [OF True assms(1)] assms(2,3,4)])
qed

text \<open>Any number of pictures, as far as there is room.\<close>

lemma rx_frames:
  assumes "0 < cap" "length fs \<le> room dec"
    "\<forall>f \<in> set fs. length f \<le> length data \<and> length f \<le> 2147483391 \<and>
      (length f \<le> cap \<longrightarrow> f \<noteq> [] \<and> hd f AND 0x1F \<noteq> 28)"
  shows "\<exists>data' dataLen' t. rx_packets deliver keep (concat (map (frame_payloads cap) fs)) (data, dataLen, dec) =
      Some (data', dataLen', t) \<and> got t = got dec @ map (\<lambda>f. (1, f, 0)) fs"
  using assms(2,3)
proof (induction fs arbitrary: data dataLen dec)
  case (Cons f fs)
  have room: "0 < room dec" using Cons.prems(1) by simp
  obtain data' dataLen' t where f: "rx_packets deliver keep (frame_payloads cap f) (data, dataLen, dec) = Some (data', dataLen', t)"
    "length data' = length data" "got t = got dec @ [(1, f, 0)]" "room t = room dec - 1"
    using rx_frame [OF assms(1) room, of f data keep dataLen] Cons.prems by auto
  have "length fs \<le> room t" using f(4) Cons.prems(1) by simp
  then show ?case
    using Cons.IH [of t data' dataLen'] f Cons.prems(2) by (auto simp: rx_packets_append)
qed auto

end

text \<open>The decoder of the model keeps the contract.\<close>

definition decoder_got :: "'r ring_state_scheme option \<Rightarrow> (int \<times> u8 list \<times> u32) list" where
  "decoder_got dec = (case dec of None \<Rightarrow> [] | Some st \<Rightarrow> ring_content st)"

definition decoder_room :: "'r ring_state_scheme option \<Rightarrow> nat" where
  "decoder_room dec = (case dec of None \<Rightarrow> 0
     | Some st \<Rightarrow> if ring_inv st \<and> running st \<noteq> 0 then 240 - length (ring_content st) else 0)"

lemma decoder_sink_law:
  assumes "0 < decoder_room dec" "packet_ok p"
  shows "\<exists>t. decoder_sink sleep dec p = Some t \<and> decoder_got t = decoder_got dec @ [packet_view p] \<and>
    decoder_room t = decoder_room dec - 1"
proof -
  obtain st m where st: "dec = Some st" "ring_holds st m" "running st \<noteq> 0" "m < 240"
    using assms(1) ring_content_length by (auto simp: decoder_room_def ring_inv_def split: option.splits if_splits)
  note e = ring_enq_spec [OF st(2,4) assms(2)]
  have "ring_inv (ring_enq st p)" "ring_inv st" using e(1) st(2) by (auto simp: ring_inv_def)
  then show ?thesis
    using ReceiveData_enq [OF st(2,4,3) assms(2), of sleep] e(2) st(1,3)
    by (simp add: decoder_sink_def decoder_got_def decoder_room_def)
qed

interpretation decoder: frame_sink "decoder_sink sleep" decoder_got decoder_room for sleep
  by unfold_locales (rule decoder_sink_law)

section \<open>Properties\<close>

text \<open>C1: the way of a picture through the network. Whatever the receiver's buffer and length were before
  (so after any loss as well), the packets made of a list of pictures, arriving complete and in order
  from any division among sources, put exactly these pictures in the decoder's ring, in order, each
  once, while the ring has room and the buffer holds the longest of them.\<close>

theorem slices_round_trip:
  assumes "4 < cap" "length buf = cap + 2" "\<forall>p. 0 \<le> send p"
    "\<forall>f \<in> set fs. length f \<le> length data \<and> length f < 2147483392 \<and>
      (length f \<le> cap \<longrightarrow> f \<noteq> [] \<and> hd f AND 0x1F \<noteq> 28)"
    "ring_inv st" "running st \<noteq> 0" "length (ring_content st) + length fs \<le> 240"
    "concat sources = concat (map (\<lambda>f. map payload (snd (the (SendPacketAfterSlice send True cap buf f mk inc)))) fs)"
  shows "(\<forall>f \<in> set fs. \<exists>ps. SendPacketAfterSlice send True cap buf f mk inc = Some (Some 0, ps)) \<and>
    (\<exists>data' dataLen' dec. sReceiveVideoPacket sleep sources (data, dataLen, Some st) = Some (data', dataLen', dec) \<and>
      decoder_got dec = ring_content st @ map (\<lambda>f. (1, f, 0)) fs)"
proof -
  have s: "\<exists>ps. SendPacketAfterSlice send True cap buf f mk inc = Some (Some 0, ps) \<and> map payload ps = frame_payloads cap f"
    if "f \<in> set fs" for f
    using assms(1-4) that by (intro SendPacketAfterSlice_payloads) auto
  then have "map payload (snd (the (SendPacketAfterSlice send True cap buf f mk inc))) = frame_payloads cap f"
    if "f \<in> set fs" for f
    using s [OF that] by auto
  then have src: "concat sources = concat (map (frame_payloads cap) fs)"
    unfolding assms(8) by (intro arg_cong [where f = concat] map_cong) auto
  have "length fs \<le> decoder_room (Some st)" using assms(5-7) by (simp add: decoder_room_def)
  moreover have "\<forall>f \<in> set fs. length f \<le> length data \<and> length f \<le> 2147483391 \<and>
      (length f \<le> cap \<longrightarrow> f \<noteq> [] \<and> hd f AND 0x1F \<noteq> 28)"
    using assms(4) by auto
  ultimately obtain data' dataLen' t where
    "rx_packets (decoder_sink sleep) False (concat (map (frame_payloads cap) fs)) (data, dataLen, Some st) = Some (data', dataLen', t)"
    "decoder_got t = decoder_got (Some st) @ map (\<lambda>f. (1, f, 0)) fs"
    using decoder.rx_frames [of cap fs "Some st" data sleep False dataLen] assms(1) by auto
  then show ?thesis using s src by (auto simp: sReceiveVideoPacket_def decoder_got_def)
qed

theorem slices_round_trip_witness:
  "let fs = [[0, 0, 0, 1, 0x65, 7, 8, 9, 10, 11, 12], [0, 0, 0, 1]];
       pay = (\<lambda>f. map payload (snd (the (SendPacketAfterSlice (\<lambda>_. 0) True 5 (replicate 7 0) f True 10))))
   in concat (map pay fs) = [[0x7C, 0x85, 0, 0, 0, 1, 0x65], [0x7C, 0x05, 7, 8, 9, 10, 11], [0x7C, 0x45, 12], [0, 0, 0, 1]] \<and>
      (\<exists>data' dataLen' dec. sReceiveVideoPacket (\<lambda>s. s) [concat (map pay fs)] (replicate 20 0, 3, Some fresh_ring) =
          Some (data', dataLen', dec) \<and>
        decoder_got dec = [(1, [0, 0, 0, 1, 0x65, 7, 8, 9, 10, 11, 12], 0), (1, [0, 0, 0, 1], 0)])"
proof -
  let ?fs = "[[0, 0, 0, 1, 0x65, 7, 8, 9, 10, 11, 12], [0, 0, 0, 1]] :: u8 list list"
  let ?pay = "\<lambda>f. map payload (snd (the (SendPacketAfterSlice (\<lambda>_. 0) True 5 (replicate 7 0) f True 10)))"
  have 1: "concat (map ?pay ?fs) = [[0x7C, 0x85, 0, 0, 0, 1, 0x65], [0x7C, 0x05, 7, 8, 9, 10, 11], [0x7C, 0x45, 12], [0, 0, 0, 1]]"
    by code_simp
  have ring: "ring_inv fresh_ring" "ring_content fresh_ring = []" "running fresh_ring \<noteq> 0"
    using fresh_ring_holds ring_content_eq [OF fresh_ring_holds] by (auto simp: ring_inv_def fresh_ring_def)
  have "\<exists>data' dataLen' dec. sReceiveVideoPacket (\<lambda>s. s) [concat (map ?pay ?fs)] (replicate 20 0, 3, Some fresh_ring) =
          Some (data', dataLen', dec) \<and> decoder_got dec = ring_content fresh_ring @ map (\<lambda>f. (1, f, 0)) ?fs"
    by (rule slices_round_trip [where fs = ?fs and send = "\<lambda>_. 0" and cap = 5 and buf = "replicate 7 0" and mk = True
          and inc = 10, THEN conjunct2]) (use ring in auto)
  with 1 ring show ?thesis by (simp only: Let_def) simp
qed

text \<open>A payload that is neither the first nor the last slice.\<close>

definition continuation :: "u8 list \<Rightarrow> bool" where
  "continuation p \<longleftrightarrow> 2 \<le> length p \<and> p ! 0 AND 0x1F = 28 \<and> (p ! 1 AND 0xC0 = 0 \<or> p ! 1 AND 0xC0 = 0xC0)"

text \<open>the joining has no bound: a sender whose continuation slices never end, together longer than what
  is left of the receiver's buffer (of 8294400 bytes in the service), makes the receiver write past
  its end.\<close>

theorem fragments_overflow:
  assumes "\<forall>p \<in> set (concat sources). continuation p"
    "length data < dataLen + sum_list (map (\<lambda>p. length p - 2) (concat sources))" "dataLen \<le> length data"
  shows "sReceiveVideoPacket sleep sources (data, dataLen, dec) = None"
proof -
  have "rx_packets deliver keep ps (data, dataLen, dec) = None"
    if "\<forall>p \<in> set ps. continuation p" "length data < dataLen + sum_list (map (\<lambda>p. length p - 2) ps)" "dataLen \<le> length data"
    for deliver keep ps dataLen and data :: "u8 list" and dec :: "'a ring_state_scheme option"
    using that
  proof (induction ps arbitrary: data dataLen)
    case (Cons p ps)
    obtain b0 b1 s where p: "p = b0 # b1 # s" "b0 AND 0x1F = 28" "b1 AND 0xC0 = 0 \<or> b1 AND 0xC0 = 0xC0"
      using Cons.prems(1) by (cases p; cases "tl p") (auto simp: continuation_def)
    have step: "rx_packet deliver keep p (data, dataLen, dec) =
        map_option (\<lambda>data. (data, dataLen + length s, dec)) (c_memcpy (Some data) (int dataLen) s (int (length s)))"
      using p by (auto simp: rx_packet_def Let_def map_option_case split: option.splits Option.bind_splits)
    show ?case
    proof (cases "dataLen + length s \<le> length data")
      case True
      define data' where "data' = take dataLen data @ s @ drop (dataLen + length s) data"
      have "c_memcpy (Some data) (int dataLen) s (int (length s)) = Some data'"
        using True by (simp add: c_memcpy_def data'_def nat_add_distrib flip: of_nat_add)
      moreover have "length data' = length data" using True by (simp add: data'_def)
      ultimately show ?thesis
        using step Cons.IH [of data' "dataLen + length s"] Cons.prems p(1) True by simp
    next
      case False
      then have "c_memcpy (Some data) (int dataLen) s (int (length s)) = None" by (simp add: c_memcpy_def)
      then show ?thesis using step by simp
    qed
  qed simp
  then show ?thesis using assms unfolding sReceiveVideoPacket_def by blast
qed

theorem fragments_overflow_witness:
  "sReceiveVideoPacket (\<lambda>s. s) [[[0x7C, 0x05, 1, 2, 3], [0x7C, 0x05, 4, 5, 6]]] (replicate 5 0, 0, Some fresh_ring) = None"
  by (rule fragments_overflow) (simp_all add: continuation_def)

text \<open>the application joins audio and video in one buffer with one length. When audio arrives in a pass
  between two slices of a picture, the decoder is given, as the picture, the audio followed by what
  comes after the first slice.\<close>

theorem audio_replaces_first_slice:
  assumes "0 < cap" "cap < length f" "length f < 2 ^ 31" "length a + length f \<le> length data" "length a + length f < 2147483392"
    "ring_inv st" "running st \<noteq> 0" "length (ring_content st) + 2 \<le> 240"
  shows "\<exists>st1 data' dataLen' dec. recv_pass sleep [] [[hd (frame_payloads cap f)]] (data, dataLen, Some st) = Some st1 \<and>
    recv_pass sleep [[a]] [tl (frame_payloads cap f)] st1 = Some (data', dataLen', dec) \<and>
    decoder_got dec = ring_content st @ [(2, a, 0), (1, a @ drop cap f, 0)]"
proof -
  let ?h = "f ! 4" and ?s = "slice cap f 0" and ?m = "map (slice cap f) [1..<n_slices cap f - 1]"
  let ?l = "slice cap f (n_slices cap f - 1)"
  note split = frame_payloads_split [OF assms(2,1)]
  have all: "?s @ concat ?m @ ?l = f" by (rule slices_split [OF assms(2,1)])
  then have rest: "concat ?m @ ?l = drop cap f"
    using assms(2) by (simp add: slice_def append_eq_conv_conj min_def)
  have s: "length ?s \<le> length data" using assms(2,4) by (simp add: slice_def)
  have first: "recv_pass sleep [] [[hd (frame_payloads cap f)]] (data, dataLen, Some st) =
      Some (?s @ drop (length ?s) data, length ?s, Some st)"
    using rx_first_slice [OF s, of "decoder_sink sleep" True ?h dataLen "Some st"]
    by (simp add: recv_pass_def receiveAudioPacket_def receiveVideoPacket_def split)
  define data1 where "data1 = ?s @ drop (length ?s) data"
  have d1: "length data1 = length data" using s by (simp add: data1_def)
  define r1 where "r1 = drop (length a) data1"
  have room: "0 < decoder_room (Some st)" using assms(6-8) by (simp add: decoder_room_def)
  have la: "length a < 2 ^ 31" using assms(5) by simp
  obtain t where t: "decoder_sink sleep (Some st) \<lparr>pk_data = a @ r1, pk_len = int (length a), pk_timestamp = 0, pk_type = 2\<rparr> = Some t"
    "decoder_got t = ring_content st @ [(2, a, 0)]" "decoder_room t = decoder_room (Some st) - 1"
    using decoder_sink_law [OF room, of "\<lparr>pk_data = a @ r1, pk_len = int (length a), pk_timestamp = 0, pk_type = 2\<rparr>" sleep]
      assms(5) by (auto simp: packet_ok_def packet_view_def decoder_got_def)
  have "c_memcpy (Some data1) 0 a (int (length a)) = Some (a @ r1)"
    using memcpy_join [of a data1 "[]"] assms(4) d1 by (simp add: r1_def)
  then have audio: "receiveAudioPacket sleep [[a]] (data1, length ?s, Some st) = Some (a @ r1, length a, t)"
    using t(1) to_int_of_nat [OF la] by (simp add: receiveAudioPacket_def rx_audio_def)
  have room_t: "0 < decoder_room t" using t(3) assms(6-8) by (simp add: decoder_room_def)
  have fit: "length (drop cap f) \<le> length r1" "length (a @ drop cap f) \<le> 2147483391"
    using assms(2,4,5) d1 by (simp_all add: r1_def)
  obtain data' u where "rx_packets (decoder_sink sleep) True (map (fu_payload ?h 0) ?m @ [fu_payload ?h 0x40 ?l])
      (a @ r1, length a, t) = Some (data', length (a @ drop cap f), u)"
    "decoder_got u = decoder_got t @ [(1, a @ drop cap f, 0)]"
    using decoder.rx_rest [OF rest room_t fit, of sleep True ?h] by auto
  then show ?thesis
    using first audio t(2) by (simp add: recv_pass_def data1_def receiveVideoPacket_def split)
qed

theorem audio_replaces_first_slice_witness:
  "\<exists>st1 data' dataLen' dec.
    recv_pass (\<lambda>s. s) [] [[[0x7C, 0x85, 0, 0, 0, 1, 0x65]]] (replicate 20 0, 0, Some fresh_ring) = Some st1 \<and>
    recv_pass (\<lambda>s. s) [[[9, 9]]] [[[0x7C, 0x05, 7, 8, 9, 10, 11], [0x7C, 0x45, 12]]] st1 = Some (data', dataLen', dec) \<and>
    decoder_got dec = [(2, [9, 9], 0), (1, [9, 9, 7, 8, 9, 10, 11, 12], 0)]"
proof -
  let ?f = "[0, 0, 0, 1, 0x65, 7, 8, 9, 10, 11, 12] :: u8 list"
  have p: "frame_payloads 5 ?f = [[0x7C, 0x85, 0, 0, 0, 1, 0x65], [0x7C, 0x05, 7, 8, 9, 10, 11], [0x7C, 0x45, 12]]"
    by code_simp
  have ring: "ring_inv fresh_ring" "ring_content fresh_ring = []" "running fresh_ring \<noteq> 0"
    using fresh_ring_holds ring_content_eq [OF fresh_ring_holds] by (auto simp: ring_inv_def fresh_ring_def)
  show ?thesis
    using audio_replaces_first_slice [of 5 ?f "[9, 9]" "replicate 20 0" fresh_ring "\<lambda>s. s" 0] ring
    by (simp add: p)
qed

end
