(* ===== verification/Camera_Session.thy ===== *)
theory Camera_Session
  imports C_String
begin

text \<open>
  The binder service of the camera (\<open>VirtualCameraService.cpp\<close>): the address of the camera, the life
  cycle of the media session with its receiver thread, and the surfaces of the clients. Every entry
  point runs under \<open>mInputMutex\<close>, the receiver thread does not take it, so that the two run
  interleaved.
\<close>

section \<open>The address of the camera\<close>

text \<open>\<open>atoi\<close>: white space, a sign, digits; a value outside \<open>int\<close> is undefined.\<close>

definition c_atoi :: "string \<Rightarrow> int option" where
  "c_atoi s =
     (let q = skip_space s;
          neg = (q \<noteq> [] \<and> hd q = CHR ''-'');
          r = (if neg \<or> (q \<noteq> [] \<and> hd q = CHR ''+'') then tl q else q);
          v = int (digits_val (takeWhile isdigit r))
      in c_int (if neg then - v else v))"

text \<open>\<open>strtok_r (s, ".")\<close>: the next token and the text after its separator.\<close>

definition strtok_dot :: "string \<Rightarrow> (string \<times> string) option" where
  "strtok_dot s =
     (let q = dropWhile (\<lambda>c. c = CHR ''.'') s
      in if q = [] then None else Some (takeWhile (\<lambda>c. c \<noteq> CHR ''.'') q, tl (dropWhile (\<lambda>c. c \<noteq> CHR ''.'') q)))"

text \<open>The loop, at most \<open>n\<close> more times.\<close>

fun split_loop :: "nat \<Rightarrow> int \<Rightarrow> string \<Rightarrow> u8 list \<Rightarrow> (int \<times> u8 list) option" where
  "split_loop 0 count s ip = Some (count, ip)"
| "split_loop (Suc n) count s ip =
     (case strtok_dot s of None \<Rightarrow> Some (count, ip)
      | Some (tok, rest) \<Rightarrow> do {
          v \<leftarrow> c_atoi tok;
          ip \<leftarrow> c_write ip count (word_of_int v);
          split_loop n (count + 1) rest ip })"

text \<open>The text is copied to 1024 bytes first, whatever its length.\<close>

definition mysplit :: "string \<Rightarrow> u8 list \<Rightarrow> (int \<times> u8 list) option" where
  "mysplit buf ip = (if length buf < 1024 then split_loop 4 0 buf ip else None)"

text \<open>The file, as \<open>open\<close> and \<open>read\<close> see it.\<close>

datatype ip_file = NoFile | Unreadable | Contents string

text \<open>\<open>read\<close> may fill all of the 256 bytes, and the text is then not terminated.\<close>

definition get_virtualcamera_ip :: "ip_file \<Rightarrow> u8 list \<Rightarrow> (int \<times> u8 list) option" where
  "get_virtualcamera_ip f ip =
     (case f of NoFile \<Rightarrow> Some (4, [192, 168, 1, 8])
      | Unreadable \<Rightarrow> Some (0, ip)
      | Contents s \<Rightarrow>
          if s = [] then Some (0, ip)
          else
            let buf = take 256 s in
            if length buf = 256 \<and> CHR 0x00 \<notin> set buf then None
            else mysplit (takeWhile (\<lambda>c. c \<noteq> CHR 0x00) buf) ip)"

section \<open>The media session\<close>

text \<open>
  The receiver thread: \<open>pthread_create\<close> failed, started, about to create the decoder, inside its loop at
  the test or in a pass, past the loop, returned. The client: outside the service, in \<open>sDestroyMediaSession\<close> before \<open>msRecvQuit\<close> is set, and in
  \<open>Thread_Destroy\<close>, waiting for the thread.
\<close>

datatype receiver = TNever | TStart | TBegin | TLoop | TPass | TFree | TDone

datatype client = CIdle | CBye | CJoin

record service =
  msRecvThread :: "receiver option"
  msRecvQuit :: int
  msDecoder :: bool
  session_ip :: "u8 list option"
  client :: client

definition service_init :: service where
  "service_init = \<lparr>msRecvThread = None, msRecvQuit = 1, msDecoder = False, session_ip = None, client = CIdle\<rparr>"

text \<open>
  The statuses of \<open>RTPSession::Create\<close> and \<open>AddDestination\<close>, and whether \<open>Thread_Create\<close> has memory and
  \<open>pthread_create\<close> succeeds. A negative status ends the process: \<open>None\<close>.
\<close>

record session_env =
  st_create :: int
  st_dest :: int
  ok_thread_create :: bool
  ok_pthread_create :: bool

definition sCreateMediaSession :: "session_env \<Rightarrow> u8 list \<Rightarrow> service \<Rightarrow> service option" where
  "sCreateMediaSession e ip s =
     (if msRecvThread s \<noteq> None then Some s
      else if st_create e < 0 then None
      else if st_dest e < 0 then None
      else Some (s\<lparr>session_ip := Some ip, 
        msRecvThread := (if \<not> ok_thread_create e then None else if ok_pthread_create e then Some TStart else Some TNever)\<rparr>))"

text \<open>The argument of \<open>createSession\<close> is parsed first, its result overwritten with that of the file.\<close>

definition createSession :: "session_env \<Rightarrow> ip_file \<Rightarrow> string \<Rightarrow> service \<Rightarrow> service option option" where
  "createSession e f sip s = do {
     (count, ip) \<leftarrow> mysplit sip [0, 0, 0, 0];
     (count, ip) \<leftarrow> get_virtualcamera_ip f ip;
     Some (if count = 4 then sCreateMediaSession e ip s else Some s) }"

text \<open>The two statements of \<open>sDestroyMediaSession\<close> before the wait, and what follows it.\<close>

definition destroy_bye :: "service \<Rightarrow> service" where
  "destroy_bye s = (if msRecvThread s = None then s else s\<lparr>session_ip := None, client := CBye\<rparr>)"

definition destroy_quit :: "service \<Rightarrow> service" where
  "destroy_quit s = s\<lparr>msRecvQuit := 1, client := CJoin\<rparr>"

definition destroy_done :: "service \<Rightarrow> service" where
  "destroy_done s = s\<lparr>msRecvThread := None, client := CIdle\<rparr>"

text \<open>
  One step of \<open>thread_recv_virtualcamera\<close>, each access to a shared variable on its own; \<open>ok\<close> is whether
  \<open>malloc\<close>, or \<open>AnsyncDecoder_Create\<close>, succeeds.
\<close>

definition recv_step :: "bool \<Rightarrow> service \<Rightarrow> service" where
  "recv_step ok s =
     (case msRecvThread s of
        None \<Rightarrow> s
      | Some TNever \<Rightarrow> s
      | Some TStart \<Rightarrow> if ok then s\<lparr>msRecvQuit := 0, msRecvThread := Some TBegin\<rparr> else s\<lparr>msRecvThread := Some TDone\<rparr>
      | Some TBegin \<Rightarrow> s\<lparr>msDecoder := ok, msRecvThread := Some TLoop\<rparr>
      | Some TLoop \<Rightarrow> if msRecvQuit s = 0 then s\<lparr>msRecvThread := Some TPass\<rparr> else s\<lparr>msRecvThread := Some TFree\<rparr>
      | Some TPass \<Rightarrow> s\<lparr>msRecvThread := Some TLoop\<rparr>
      | Some TFree \<Rightarrow> s\<lparr>msDecoder := False, msRecvThread := Some TDone\<rparr>
      | Some TDone \<Rightarrow> s)"

inductive session_step :: "service \<Rightarrow> service \<Rightarrow> bool" where
  create: "client s = CIdle \<Longrightarrow> createSession e f sip s = Some (Some t) \<Longrightarrow> session_step s t"
| bye: "client s = CIdle \<Longrightarrow> session_step s (destroy_bye s)"
| quit: "client s = CBye \<Longrightarrow> session_step s (destroy_quit s)"
| join: "client s = CJoin \<Longrightarrow> msRecvThread s = Some TDone \<or> msRecvThread s = Some TNever \<Longrightarrow>
    session_step s (destroy_done s)"
| thread: "msRecvThread s \<noteq> None \<Longrightarrow> session_step s (recv_step ok s)"

inductive_cases session_stepE: "session_step s t"

inductive session_steps :: "service \<Rightarrow> service \<Rightarrow> bool" where
  refl: "session_steps s s"
| step: "session_steps s t \<Longrightarrow> session_step t u \<Longrightarrow> session_steps s u"

definition session_reachable :: "service \<Rightarrow> bool" where
  "session_reachable s \<longleftrightarrow> session_steps service_init s"

section \<open>Surfaces\<close>

text \<open>The calls made on a window, with their arguments, and the results that matter.\<close>

datatype surface_call = SLock | SGeometry int int int | SUnlock | SUsage | SScaling | SDataspace | SQuery
  | SCount int

record surface =
  lock1 :: "(int \<times> int) option"
  lock2 :: bool
  min_undequeued :: "int option"

definition FMT_R8G8B8A8 :: int where "FMT_R8G8B8A8 = 1"
definition FMT_420_888 :: int where "FMT_420_888 = 35"

record surfaces =
  msWindow :: "surface option"
  msCallBackWindow :: "surface option"

definition setSurface :: "surface option \<Rightarrow> int \<Rightarrow> int \<Rightarrow> surfaces \<Rightarrow> surface_call list \<times> surfaces" where
  "setSurface producer width height s =
     (case producer of None \<Rightarrow> []
      | Some w \<Rightarrow>
          (case lock1 w of None \<Rightarrow> [SLock]
           | Some (bw, bh) \<Rightarrow>
               let width = (if bw > 1 then bw else width); height = (if bh > 1 then bh else height)
               in [SLock, SGeometry width height FMT_R8G8B8A8, SUnlock]) @
          [SScaling] @ (if lock2 w then [SLock, SUnlock] else [SLock]),
      s\<lparr>msWindow := producer\<rparr>)"

text \<open>When the query fails \<open>maxConsumerBuffers\<close> is read uninitialised.\<close>

definition setCallBackSurface ::
  "surface option \<Rightarrow> int \<Rightarrow> int \<Rightarrow> surfaces \<Rightarrow> (surface_call list \<times> surfaces) option" where
  "setCallBackSurface producer width height s =
     (case producer of None \<Rightarrow> Some ([], s\<lparr>msCallBackWindow := None\<rparr>)
      | Some w \<Rightarrow> do {
          let locked = (if lock1 w = None then [SLock] else [SLock, SGeometry width height FMT_420_888, SUnlock]);
          n \<leftarrow> min_undequeued w;
          n \<leftarrow> c_int (n + 6);
          Some (locked @ [SUsage, SScaling, SDataspace, SQuery, SCount n], s\<lparr>msCallBackWindow := Some w\<rparr>) })"

definition releaseSurface :: "surfaces \<Rightarrow> surfaces" where
  "releaseSurface s = s\<lparr>msWindow := None\<rparr>"

definition releaseCallBackSurface :: "surfaces \<Rightarrow> surfaces" where
  "releaseCallBackSurface s = s\<lparr>msCallBackWindow := None\<rparr>"

section \<open>Parsing an address\<close>

lemma dec_no_dot: "c \<in> set (dec n) \<Longrightarrow> c \<noteq> CHR ''.''"
  using dec_digits [of n] by (auto simp: isdigit_def)

lemma takeWhile_dec [simp]: "takeWhile isdigit (dec n) = dec n"
  using dec_digits [of n] by (simp add: takeWhile_eq_all_conv)

lemma dot_dec [simp]:
  "takeWhile (\<lambda>c. c \<noteq> CHR ''.'') (dec n @ CHR ''.'' # s) = dec n"
  "dropWhile (\<lambda>c. c \<noteq> CHR ''.'') (dec n @ CHR ''.'' # s) = CHR ''.'' # s"
  "takeWhile (\<lambda>c. c \<noteq> CHR ''.'') (dec n) = dec n" "dropWhile (\<lambda>c. c \<noteq> CHR ''.'') (dec n) = []"
  using dec_no_dot [of _ n] by (auto simp: takeWhile_append dropWhile_append takeWhile_eq_all_conv)

lemma c_atoi_dec:
  assumes "n < 2 ^ 31"
  shows "c_atoi (dec n) = Some (int n)"
proof -
  obtain c ds where d: "dec n = c # ds" "isdigit c" using dec_digits [of n] by (cases "dec n") auto
  have "skip_space (dec n) = dec n" using digit_not(1) [OF d(2)] by (simp add: skip_space_def d(1))
  moreover have "in_int (int n)" using assms by (simp add: in_int_def)
  moreover have "hd (dec n) = c" by (simp add: d(1))
  ultimately show ?thesis using digit_not(2,3) [OF d(2)] dec_digits [of n] by (simp add: c_atoi_def Let_def)
qed

lemma strtok_dec:
  "strtok_dot (dec n @ CHR ''.'' # s) = Some (dec n, s)" "strtok_dot (dec n) = Some (dec n, [])"
proof -
  obtain c ds where d: "dec n = c # ds" using dec_digits [of n] by (cases "dec n") auto
  then have c: "c \<noteq> CHR ''.''" using dec_no_dot [of _ n] by auto
  have "dropWhile (\<lambda>c. c = CHR ''.'') (dec n @ t) = dec n @ t" for t using c by (simp add: d)
  from this [of "CHR ''.'' # s"] this [of "[]"]
  have "dropWhile (\<lambda>c. c = CHR ''.'') (dec n @ CHR ''.'' # s) = dec n @ CHR ''.'' # s"
    "dropWhile (\<lambda>c. c = CHR ''.'') (dec n) = dec n" by simp_all
  moreover have "dec n \<noteq> []" by (simp add: d)
  ultimately show "strtok_dot (dec n @ CHR ''.'' # s) = Some (dec n, s)" "strtok_dot (dec n) = Some (dec n, [])"
    by (simp_all add: strtok_dot_def)
qed

lemma dec_length:
  assumes "n < 1000"
  shows "length (dec n) \<le> 3"
  using assms by (simp add: dec.simps [of n] dec.simps [of "n div 10"] dec.simps [of "n div 10 div 10"])

text \<open>Four numbers are needed and all four bytes are then written: what the array held does not matter.\<close>

lemma split_loop_independent:
  "split_loop n count s ip = Some (m, ip1) \<Longrightarrow> m = count + int n \<Longrightarrow> length ip = length ip' \<Longrightarrow>
    \<forall>k < nat count. ip ! k = ip' ! k \<Longrightarrow> 0 \<le> count \<Longrightarrow> nat count + n = length ip \<Longrightarrow>
    split_loop n count s ip' = Some (m, ip1)"
proof (induction n arbitrary: count s ip ip')
  case 0
  then show ?case by (auto intro: nth_equalityI)
next
  case (Suc n)
  show ?case
  proof (cases "strtok_dot s")
    case None
    then show ?thesis using Suc.prems by simp
  next
    case (Some tr)
    obtain tok rest where tr: "tr = (tok, rest)" by (cases tr)
    obtain v where v: "c_atoi tok = Some v"
      "split_loop n (count + 1) rest (ip[nat count := word_of_int v]) = Some (m, ip1)"
      using Suc.prems Some tr by (auto simp: bind_Some_iff c_write_def split: if_splits)
    have "split_loop n (count + 1) rest (ip'[nat count := word_of_int v]) = Some (m, ip1)"
      by (rule Suc.IH [OF v(2)]) (use Suc.prems in \<open>auto simp: nth_list_update nat_add_distrib\<close>)
    then show ?thesis using Some tr v(1) Suc.prems by (simp add: c_write_def)
  qed
qed

lemma split_loop_length: "split_loop n count s ip = Some (m, ip1) \<Longrightarrow> length ip1 = length ip"
proof (induction n arbitrary: count s ip)
  case (Suc n)
  show ?case
  proof (cases "strtok_dot s")
    case (Some tr)
    obtain tok rest where tr: "tr = (tok, rest)" by (cases tr)
    obtain v ip2 where "c_write ip count (word_of_int v) = Some ip2" "split_loop n (count + 1) rest ip2 = Some (m, ip1)"
      using Suc.prems Some tr by (auto simp: bind_Some_iff)
    then show ?thesis using Suc.IH [of "count + 1" rest ip2] c_write_length [of ip] by simp
  qed (use Suc.prems in simp)
qed simp

lemma mysplit_independent:
  assumes "length ip = 4" "length ip' = 4" "mysplit s ip = Some (4, ip1)"
  shows "mysplit s ip' = Some (4, ip1)"
proof -
  have "split_loop 4 0 s ip = Some (4, ip1)" "length s < 1024"
    using assms(3) by (auto simp: mysplit_def split: if_splits)
  then have "split_loop 4 0 s ip' = Some (4, ip1)"
    by (intro split_loop_independent [of 4 0 s ip 4 ip1 ip']) (use assms(1,2) in auto)
  then show ?thesis using \<open>length s < 1024\<close> by (simp add: mysplit_def)
qed

lemma ip_independent:
  assumes "length ip = 4" "length ip' = 4" "get_virtualcamera_ip f ip = Some (4, ip1)"
  shows "get_virtualcamera_ip f ip' = Some (4, ip1)"
proof (cases f)
  case (Contents s)
  then show ?thesis
    using assms mysplit_independent [OF assms(1,2)]
    unfolding get_virtualcamera_ip_def by (simp add: Let_def split: if_splits)
qed (use assms in \<open>simp_all add: get_virtualcamera_ip_def\<close>)

text \<open>How many numbers are found does not depend on the array either.\<close>

lemma split_loop_count:
  "length ip = length ip' \<Longrightarrow> map_option fst (split_loop n count s ip) = map_option fst (split_loop n count s ip')"
proof (induction n arbitrary: count s ip ip')
  case (Suc n)
  show ?case
  proof (cases "strtok_dot s")
    case (Some tr)
    obtain tok rest where tr: "tr = (tok, rest)" by (cases tr)
    have "map_option fst (split_loop n (count + 1) rest (ip[nat count := word_of_int v])) =
        map_option fst (split_loop n (count + 1) rest (ip'[nat count := word_of_int v]))" for v
      using Suc.prems by (intro Suc.IH) simp
    then show ?thesis using Some tr Suc.prems by (cases "c_atoi tok") (simp_all add: c_write_def)
  qed simp
qed simp

lemma mysplit_count:
  "length ip = length ip' \<Longrightarrow> map_option fst (mysplit s ip) = map_option fst (mysplit s ip')"
  unfolding mysplit_def by (simp add: split_loop_count [of ip ip'])

lemma ip_count:
  assumes "length ip = length ip'"
  shows "map_option fst (get_virtualcamera_ip f ip) = map_option fst (get_virtualcamera_ip f ip')"
  unfolding get_virtualcamera_ip_def Let_def
  by (cases f) (simp_all only: ip_file.case if_distrib [of "map_option fst"] mysplit_count [OF assms] option.map fst_conv)

section \<open>Invariants of the session\<close>

text \<open>The decoder exists only while the receiver thread is inside its loop, and a client is in
  \<open>sDestroyMediaSession\<close> only while there is a thread.\<close>

definition session_inv :: "service \<Rightarrow> bool" where
  "session_inv s \<longleftrightarrow>
     (msDecoder s \<longrightarrow> msRecvThread s \<in> {Some TLoop, Some TPass, Some TFree}) \<and>
     (client s \<noteq> CIdle \<longrightarrow> msRecvThread s \<noteq> None \<and> session_ip s = None) \<and>
     (msRecvQuit s = 1 \<or> msRecvQuit s = 0 \<and> msRecvThread s \<in> {Some TBegin, Some TLoop, Some TPass}) \<and>
     (msRecvThread s \<in> {Some TBegin, Some TLoop, Some TPass} \<and> client s \<noteq> CJoin \<longrightarrow> msRecvQuit s = 0)"

lemma recv_step_client [simp]: "client (recv_step ok s) = client s" "session_ip (recv_step ok s) = session_ip s"
  by (simp_all add: recv_step_def split: option.splits receiver.splits)

lemma createSession_cases:
  "createSession e f sip s = Some (Some t) \<Longrightarrow> t = s \<or> (msRecvThread s = None \<and>
    (\<exists>ip th. th \<in> {None, Some TStart, Some TNever} \<and> t = s\<lparr>session_ip := Some ip, msRecvThread := th\<rparr>))"
  by (auto simp: createSession_def sCreateMediaSession_def bind_Some_iff split: if_splits)

lemma session_inv_step:
  assumes "session_step s t" and inv: "session_inv s"
  shows "session_inv t"
  using assms(1)
proof (cases rule: session_step.cases)
  case (create e f sip)
  from createSession_cases [OF create(2)] show ?thesis
  proof (elim disjE conjE exE)
    fix ip th
    assume "msRecvThread s = None" "th \<in> {None, Some TStart, Some TNever}" "t = s\<lparr>session_ip := Some ip, msRecvThread := th\<rparr>"
    then show ?thesis using create(1) inv unfolding session_inv_def by (elim insertE) simp_all
  qed (use inv in simp)
next
  case (thread ok)
  then obtain r where r: "msRecvThread s = Some r" by auto
  show ?thesis
    using inv unfolding thread(1) session_inv_def recv_step_def by (cases r) (auto simp: r)
qed (use inv in \<open>auto simp: session_inv_def destroy_bye_def destroy_quit_def destroy_done_def\<close>)

lemma session_reachable_inv: "session_reachable s \<Longrightarrow> session_inv s"
proof -
  have "session_steps s t \<Longrightarrow> session_inv s \<Longrightarrow> session_inv t" for s t
    by (induction rule: session_steps.induct) (auto intro: session_inv_step)
  moreover have "session_inv service_init" by (simp add: session_inv_def service_init_def)
  ultimately show "session_reachable s \<Longrightarrow> session_inv s" by (auto simp: session_reachable_def)
qed

lemma session_steps_trans: "session_steps t u \<Longrightarrow> session_steps s t \<Longrightarrow> session_steps s u"
  by (induction rule: session_steps.induct) (auto intro: session_steps.step)

lemma session_steps_one: "session_step s t \<Longrightarrow> session_steps s t"
  using session_steps.step [OF session_steps.refl] .

text \<open>Waiting for a thread that has overwritten the request to stop.\<close>

definition lost_quit :: "service \<Rightarrow> bool" where
  "lost_quit s \<longleftrightarrow> client s = CJoin \<and> msRecvQuit s = 0 \<and> msRecvThread s \<in> {Some TBegin, Some TLoop, Some TPass}"

lemma lost_quit_step: "session_step s t \<Longrightarrow> lost_quit s \<Longrightarrow> lost_quit t"
  by (erule session_stepE) (auto simp: lost_quit_def recv_step_def split: option.splits receiver.splits)

lemma lost_quit_steps: "session_steps s t \<Longrightarrow> lost_quit s \<Longrightarrow> lost_quit t"
  by (induction rule: session_steps.induct) (auto intro: lost_quit_step)

lemma recv_session_step: "msRecvThread s \<noteq> None \<Longrightarrow> session_steps (recv_step ok s) u \<Longrightarrow> session_steps s u"
  using session_steps_trans session_steps_one session_step.thread by blast

lemma join_returns:
  assumes "client s = CJoin" "msRecvQuit s = 1" "msRecvThread s = Some r" "r \<noteq> TStart"
  shows "\<exists>t. session_steps s t \<and> client t = CIdle \<and> msRecvThread t = None"
proof -
  have fin: "\<exists>t. session_steps s t \<and> client t = CIdle \<and> msRecvThread t = None"
    if "client s = CJoin" "msRecvThread s = Some TDone \<or> msRecvThread s = Some TNever" for s
    using session_steps_one [OF session_step.join [OF that]] by (auto simp: destroy_done_def)
  have free: "\<exists>t. session_steps s t \<and> client t = CIdle \<and> msRecvThread t = None"
    if "client s = CJoin" "msRecvThread s = Some TFree" for s
    using fin [of "recv_step True s"] that recv_session_step [of s True] by (fastforce simp: recv_step_def)
  have loop: "\<exists>t. session_steps s t \<and> client t = CIdle \<and> msRecvThread t = None"
    if "client s = CJoin" "msRecvQuit s = 1" "msRecvThread s = Some TLoop" for s
    using free [of "recv_step True s"] that recv_session_step [of s True] by (fastforce simp: recv_step_def)
  have pass: "\<exists>t. session_steps s t \<and> client t = CIdle \<and> msRecvThread t = None"
    if "client s = CJoin" "msRecvQuit s = 1" "msRecvThread s = Some TPass \<or> msRecvThread s = Some TBegin" for s
    using loop [of "recv_step True s"] that recv_session_step [of s True] by (fastforce simp: recv_step_def)
  show ?thesis using assms fin [of s] free [of s] loop [of s] pass [of s] by (cases r) auto
qed

section \<open>Properties\<close>

text \<open>an address in the usual notation is parsed to its four bytes, all of them written.\<close>

theorem mysplit_round_trip:
  assumes "a < 256" "b < 256" "c < 256" "d < 256" "length ip = 4"
  shows "mysplit (dec a @ CHR ''.'' # dec b @ CHR ''.'' # dec c @ CHR ''.'' # dec d) ip =
    Some (4, [of_nat a, of_nat b, of_nat c, of_nat d])"
proof -
  have len: "length (dec n) \<le> 3" if "n < 256" for n using that by (intro dec_length) simp
  obtain i0 i1 i2 i3 where ip: "ip = [i0, i1, i2, i3]"
    using assms(5) by (auto simp: numeral_eq_Suc length_Suc_conv)
  have at: "c_atoi (dec n) = Some (int n)" if "n < 256" for n using that by (intro c_atoi_dec) simp
  have "split_loop (Suc (Suc (Suc (Suc 0)))) 0 (dec a @ CHR ''.'' # dec b @ CHR ''.'' # dec c @ CHR ''.'' # dec d) ip =
    Some (4, [of_nat a, of_nat b, of_nat c, of_nat d])"
    using assms by (simp add: strtok_dec at ip c_write_def numeral_eq_Suc)
  moreover have "length (dec a @ CHR ''.'' # dec b @ CHR ''.'' # dec c @ CHR ''.'' # dec d) < 1024"
    using len [OF assms(1)] len [OF assms(2)] len [OF assms(3)] len [OF assms(4)] by simp
  ultimately show ?thesis by (simp add: mysplit_def numeral_eq_Suc)
qed

theorem mysplit_round_trip_witness: "mysplit ''10.0.255.7'' [9, 9, 9, 9] = Some (4, [10, 0, 255, 7])"
proof -
  have "dec 10 @ CHR ''.'' # dec 0 @ CHR ''.'' # dec 255 @ CHR ''.'' # dec 7 = ''10.0.255.7''" by code_simp
  then show ?thesis using mysplit_round_trip [of 10 0 255 7 "[9, 9, 9, 9]"] by simp
qed

text \<open>the address a client passes to \<open>createSession\<close> has no effect on the session: where it is parsed at
  all, the service ends up in the state determined by the file alone. A longer argument overruns the
  buffer of the parser.\<close>

theorem createSession_ignores_argument:
  assumes "length sip < 1024 \<longrightarrow> mysplit sip [0, 0, 0, 0] \<noteq> None"
  shows "createSession e f sip s = (if length sip < 1024 then createSession e f [] s else None)"
proof (cases "length sip < 1024")
  case True
  then obtain n ip where m: "mysplit sip [0, 0, 0, 0] = Some (n, ip)" using assms by (cases "mysplit sip [0, 0, 0, 0]") auto
  then have len: "length ip = 4" using split_loop_length by (fastforce simp: mysplit_def split: if_splits)
  have nil: "mysplit [] [0, 0, 0, 0] = Some (0, [0, 0, 0, 0])" by code_simp
  have l4: "length ip = length [0, 0, 0, 0 :: u8]" using len by simp
  have "map_option fst (get_virtualcamera_ip f ip) = map_option fst (get_virtualcamera_ip f [0, 0, 0, 0])"
    by (rule ip_count [OF l4])
  then consider "get_virtualcamera_ip f ip = None" "get_virtualcamera_ip f [0, 0, 0, 0] = None"
    | k ip1 ip2 where "get_virtualcamera_ip f ip = Some (k, ip1)" "get_virtualcamera_ip f [0, 0, 0, 0] = Some (k, ip2)"
    by (cases "get_virtualcamera_ip f ip"; cases "get_virtualcamera_ip f [0, 0, 0, 0]") auto
  then show ?thesis
  proof cases
    case (2 k ip1 ip2)
    show ?thesis
    proof (cases "k = 4")
      case True
      then have "ip1 = ip2" using 2 ip_independent [OF len, of "[0, 0, 0, 0]" f ip1] by simp
      then show ?thesis using 2 m nil \<open>length sip < 1024\<close> by (simp add: createSession_def)
    qed (use 2 m nil \<open>length sip < 1024\<close> in \<open>simp add: createSession_def\<close>)
  qed (use m nil True in \<open>simp add: createSession_def\<close>)
qed (simp add: createSession_def mysplit_def)

definition all_well :: session_env where
  "all_well = \<lparr>st_create = 0, st_dest = 0, ok_thread_create = True, ok_pthread_create = True\<rparr>"

theorem createSession_ignores_argument_witness:
  "map_option (map_option session_ip) (createSession all_well NoFile ''10.0.0.1'' service_init) = Some (Some (Some [192, 168, 1, 8]))"
proof -
  have "mysplit ''10.0.0.1'' [0, 0, 0, 0] \<noteq> None" by code_simp
  then have "createSession all_well NoFile ''10.0.0.1'' service_init = createSession all_well NoFile [] service_init"
    using createSession_ignores_argument [of "''10.0.0.1''" all_well NoFile service_init] by simp
  moreover have "map_option (map_option session_ip) (createSession all_well NoFile [] service_init) = Some (Some (Some [192, 168, 1, 8]))"
    by code_simp
  ultimately show ?thesis by simp
qed

text \<open>C35: under every interleaving of the clients and the receiver thread the decoder exists only from its creation
  at the head of the thread's loop to its destruction right after the loop (not without a thread, nor when the thread has not
  started, is about to create it, or has ended); as long as a client is in \<open>sDestroyMediaSession\<close>, before and in its
  wait, there is a thread and the session is closed; and when the client leaves it, the service is exactly in its initial
  state: no thread, no decoder, no session, the request to stop set.\<close>

theorem session_teardown:
  assumes "session_reachable s"
  shows "(msDecoder s \<longrightarrow> msRecvThread s \<in> {Some TLoop, Some TPass, Some TFree}) \<and>
    (client s \<noteq> CIdle \<longrightarrow> msRecvThread s \<noteq> None \<and> session_ip s = None) \<and>
    (\<forall>t. session_step s t \<and> client s = CJoin \<and> client t = CIdle \<longrightarrow> t = service_init)"
proof -
  note inv = session_reachable_inv [OF assms]
  have "t = service_init" if "session_step s t" "client s = CJoin" "client t = CIdle" for t
    using that(1)
  proof (cases rule: session_step.cases)
    case join
    then show ?thesis using inv that(2) by (auto simp: session_inv_def destroy_done_def service_init_def)
  qed (use that in auto)
  then show ?thesis using inv by (auto simp: session_inv_def)
qed

definition one_thread :: service where
  "one_thread = service_init\<lparr>session_ip := Some [192, 168, 1, 8], msRecvThread := Some TStart\<rparr>"

lemma one_thread_reachable: "session_reachable one_thread"
proof -
  have "createSession all_well NoFile [] service_init = Some (Some one_thread)" by code_simp
  then have "session_step service_init one_thread"
    by (intro session_step.create) (simp add: service_init_def)
  then show ?thesis by (simp add: session_reachable_def session_steps_one)
qed

lemma reachable_step: "session_reachable s \<Longrightarrow> session_step s t \<Longrightarrow> session_reachable t"
  unfolding session_reachable_def by (rule session_steps.step)

theorem session_teardown_witness:
  "\<exists>s t. session_reachable s \<and> msRecvThread s = Some TDone \<and> client s = CJoin \<and> session_step s t \<and> t = service_init \<and> \<not> msDecoder s"
proof -
  let ?s = "destroy_quit (destroy_bye (recv_step False one_thread))"
  have c: "client (recv_step False one_thread) = CIdle" "client (destroy_bye (recv_step False one_thread)) = CBye"
    "client ?s = CJoin" "msRecvThread ?s = Some TDone"
    by (simp_all add: one_thread_def service_init_def recv_step_def destroy_bye_def destroy_quit_def)
  have "session_reachable (recv_step False one_thread)"
    by (rule reachable_step [OF one_thread_reachable session_step.thread]) (simp add: one_thread_def)
  then have r: "session_reachable ?s" using c(1,2) by (metis reachable_step session_step.bye session_step.quit)
  have j: "session_step ?s (destroy_done ?s)" using c(3,4) by (intro session_step.join) simp_all
  have "client (destroy_done ?s) = CIdle" by (simp add: destroy_done_def)
  then show ?thesis using session_teardown [OF r] r j c(3,4) by (intro exI [of _ ?s] exI [of _ "destroy_done ?s"]) auto
qed

text \<open>C12: whether \<open>destroySession\<close> returns. The receiver thread clears \<open>msRecvQuit\<close> when it starts; if the
  client has set it before, the request is lost, the thread never leaves its loop, and the client waits
  for ever holding the mutex. If the request stands and the thread has started, the client returns.\<close>

theorem destroySession_returns:
  assumes "session_reachable s" "client s = CJoin" "msRecvThread s \<noteq> Some TStart"
  shows "if msRecvQuit s = 0 then \<forall>t. session_steps s t \<longrightarrow> client t = CJoin \<and> msRecvThread t \<noteq> Some TDone
    else \<exists>t. session_steps s t \<and> client t = CIdle \<and> msRecvThread t = None"
proof (cases "msRecvQuit s = 0")
  case True
  then have "lost_quit s" using session_reachable_inv [OF assms(1)] assms(2) by (auto simp: lost_quit_def session_inv_def)
  then have "lost_quit t" if "session_steps s t" for t using lost_quit_steps [OF that] by blast
  then have "client t = CJoin \<and> msRecvThread t \<noteq> Some TDone" if "session_steps s t" for t
    using that by (fastforce simp: lost_quit_def)
  then show ?thesis using True by simp
next
  case False
  then obtain r where "msRecvQuit s = 1" "msRecvThread s = Some r"
    using session_reachable_inv [OF assms(1)] assms(2) by (auto simp: session_inv_def)
  then show ?thesis using False join_returns [of s r] assms(2,3) by auto
qed

theorem destroySession_returns_witness:
  "\<exists>s. session_reachable s \<and> (\<forall>t. session_steps s t \<longrightarrow> client t = CJoin)"
proof -
  let ?s = "recv_step True (destroy_quit (destroy_bye one_thread))"
  have c: "client one_thread = CIdle" "client (destroy_bye one_thread) = CBye"
    "msRecvThread (destroy_quit (destroy_bye one_thread)) = Some TStart"
    by (simp_all add: one_thread_def service_init_def destroy_bye_def destroy_quit_def)
  have "session_reachable (destroy_quit (destroy_bye one_thread))"
    using one_thread_reachable c(1,2) by (metis reachable_step session_step.bye session_step.quit)
  then have "session_reachable ?s"
    by (rule reachable_step [OF _ session_step.thread]) (simp add: c(3))
  moreover have "client ?s = CJoin" "msRecvThread ?s \<noteq> Some TStart" "msRecvQuit ?s = 0"
    using c(3) by (simp_all add: recv_step_def destroy_quit_def)
  ultimately show ?thesis using destroySession_returns [of ?s] by (intro exI [of _ ?s]) auto
qed

end
