(* ===== verification/Preview_Memory.thy ===== *)
theory Preview_Memory
  imports VC_Prelude "HOL-Library.Multiset"
begin

text \<open>
  The preview buffers of the camera device: \<open>MemManagerBase\<close> and \<open>GrallocDrmMemManager\<close>
  (\<open>camera_vir/device/VirtualCameraMemManager.cpp\<close>). The graphics allocator behind \<open>mOps\<close> is a
  parameter: \<open>alloc i\<close> is the result of the allocation for buffer \<open>i\<close>. The state records, besides the
  two arrays, which allocations are live and whether \<open>mLock\<close>, which is not recursive, is held.
\<close>

section \<open>State\<close>

record cam_mem =
  mem_id :: nat
  phy_addr :: u64
  vir_addr :: u64
  mem_fd :: u32

datatype buffer_type = PREVIEWBUFFER | RAWBUFFER | JPEGBUFFER | VIDEOENCBUFFER

datatype addr_type = ADDR_PHY | ADDR_VIR | SHARE_FD

record bufferinfo =
  mNumBffers :: u32
  mPerBuffersize :: u64
  mBufferSizes :: u64
  mPhyBaseAddr :: u64
  mVirBaseAddr :: u64
  mShareFd :: u64
  mBufType :: buffer_type
  bi_width :: u32
  bi_height :: u32

text \<open>\<open>mPreviewData\<close> is an array of pointers, null after \<open>memset\<close>; an entry of \<open>mPreviewBufferInfo\<close> not
  yet written is \<open>None\<close>.\<close>

record mem_manager =
  mPreviewData :: "cam_mem option list option"
  mPreviewBufferInfo :: "bufferinfo option list option"
  live :: "cam_mem list"
  held :: bool
  handle :: bool

definition new_manager :: "bool \<Rightarrow> mem_manager" where
  "new_manager ok = \<lparr>mPreviewData = None, mPreviewBufferInfo = None, live = [], held = False, handle = ok\<rparr>"

text \<open>A call that tries to take the lock while it is held does not return.\<close>

datatype 'a call_result = Deadlock | Ret 'a mem_manager

definition PAGE_ALIGN :: "int \<Rightarrow> int option" where
  "PAGE_ALIGN x = do { y \<leftarrow> c_int (x + 4095); Some (y div 4096 * 4096) }"

section \<open>Operations\<close>

definition getBufferAddr :: "mem_manager \<Rightarrow> buffer_type \<Rightarrow> u32 \<Rightarrow> addr_type \<Rightarrow> u64 option" where
  "getBufferAddr mm ty idx a =
     (if ty \<noteq> PREVIEWBUFFER then Some 0
      else do {
        infos \<leftarrow> mPreviewBufferInfo mm;
        first \<leftarrow> c_read infos 0;
        bi \<leftarrow> first;
        if idx > mNumBffers bi then Some 0
        else do {
          e \<leftarrow> c_read infos (uint idx);
          b \<leftarrow> e;
          Some (case a of ADDR_VIR \<Rightarrow> mVirBaseAddr b | ADDR_PHY \<Rightarrow> mPhyBaseAddr b | SHARE_FD \<Rightarrow> mShareFd b) } })"

text \<open>The allocation loop from buffer \<open>i\<close> on, \<open>n\<close> of them left, \<open>page\<close> being the aligned size: the record that is filled in, the two
  arrays and the live allocations; the flag tells whether every allocation succeeded.\<close>

fun alloc_loop ::
  "(nat \<Rightarrow> cam_mem option) \<Rightarrow> u64 \<Rightarrow> nat \<Rightarrow> nat \<Rightarrow>
    bufferinfo \<times> cam_mem option list \<times> bufferinfo option list \<times> cam_mem list \<Rightarrow>
    (bool \<times> nat \<times> bufferinfo \<times> cam_mem option list \<times> bufferinfo option list \<times> cam_mem list) option" where
  "alloc_loop alloc page i 0 (gb, data, infos, lv) = Some (True, i, gb, data, infos, lv)"
| "alloc_loop alloc page i (Suc n) (gb, data, infos, lv) = do {
     data \<leftarrow> c_write data (int i) (alloc i);
     case alloc i of None \<Rightarrow> Some (False, i, gb, data, infos, lv)
     | Some m \<Rightarrow> do {
         let gb = gb\<lparr>mPhyBaseAddr := phy_addr m, mVirBaseAddr := vir_addr m, mPerBuffersize := page,
                     mShareFd := ucast (mem_fd m)\<rparr>;
         infos \<leftarrow> c_write infos (int i) (Some gb);
         alloc_loop alloc page (i + 1) n (gb, data, infos, lv @ [m]) } }"

text \<open>\<open>while (--i >= 0) mOps->free (mHandle, *--tmpalloc)\<close>.\<close>

fun free_back :: "nat \<Rightarrow> cam_mem option list \<Rightarrow> cam_mem list \<Rightarrow> cam_mem list option" where
  "free_back 0 data lv = Some lv"
| "free_back (Suc i) data lv = do {
     p \<leftarrow> c_read data (int i);
     m \<leftarrow> p;
     free_back i data (remove1 m lv) }"

definition createGrallocDrmBuffer ::
  "(nat \<Rightarrow> cam_mem option) \<Rightarrow> bool \<Rightarrow> bufferinfo option \<Rightarrow> mem_manager \<Rightarrow> (int \<times> mem_manager) option" where
  "createGrallocDrmBuffer alloc ok_info grallocbuf mm =
     (case grallocbuf of None \<Rightarrow> Some (-1, mm)
      | Some gb \<Rightarrow> do {
          let numBufs = to_int (mNumBffers gb);
          let frame_size = to_int (ucast (mPerBuffersize gb));
          page \<leftarrow> PAGE_ALIGN frame_size;
          total \<leftarrow> c_int (numBufs * page);
          let gb = gb\<lparr>mBufferSizes := word_of_int total\<rparr>;
          if mBufType gb \<noteq> PREVIEWBUFFER then Some (-1, mm)
          else if \<not> ok_info then Some (-1, mm)
          else do {
            data \<leftarrow> mPreviewData mm;
            let infos = replicate (nat numBufs) None;
            (ok, i, gb, data, infos, lv) \<leftarrow> alloc_loop alloc (word_of_int page) 0 (nat numBufs) (gb, data, infos, live mm);
            if ok then Some (0, mm\<lparr>mPreviewData := Some data, mPreviewBufferInfo := Some infos, live := lv\<rparr>)
            else do {
              lv \<leftarrow> free_back i data lv;
              Some (-1, mm\<lparr>mPreviewData := Some data, mPreviewBufferInfo := None, live := lv\<rparr>) } } })"

text \<open>The loop over the allocations, as \<open>destroyGrallocDrmBuffer\<close> and \<open>flushCacheMem\<close> have it: the
  buffers at \<open>i\<close> and after that have an address.\<close>

fun each_mapped :: "nat \<Rightarrow> nat \<Rightarrow> cam_mem option list \<Rightarrow> cam_mem list option" where
  "each_mapped i 0 data = Some []"
| "each_mapped i (Suc n) data = do {
     p \<leftarrow> c_read data (int i);
     ms \<leftarrow> each_mapped (i + 1) n data;
     Some (case p of None \<Rightarrow> ms | Some m \<Rightarrow> if vir_addr m \<noteq> 0 then m # ms else ms) }"

definition preview_mapped :: "mem_manager \<Rightarrow> cam_mem list option" where
  "preview_mapped mm =
     (case mPreviewBufferInfo mm of None \<Rightarrow> Some []
      | Some infos \<Rightarrow> do {
          first \<leftarrow> c_read infos 0;
          bi \<leftarrow> first;
          each_mapped 0 (unat (mNumBffers bi)) (case mPreviewData mm of None \<Rightarrow> [] | Some d \<Rightarrow> d) })"

definition destroyGrallocDrmBuffer :: "mem_manager \<Rightarrow> mem_manager option" where
  "destroyGrallocDrmBuffer mm = do {
     ms \<leftarrow> preview_mapped mm;
     Some (mm\<lparr>live := fold remove1 ms (live mm), mPreviewData := None, mPreviewBufferInfo := None\<rparr>) }"

definition destroyPreviewBuffer :: "mem_manager \<Rightarrow> int call_result option" where
  "destroyPreviewBuffer mm =
     (if held mm then Some Deadlock
      else do { mm \<leftarrow> destroyGrallocDrmBuffer (mm\<lparr>held := True\<rparr>); Some (Ret 0 (mm\<lparr>held := False\<rparr>)) })"

text \<open>
  The lock is taken at the start and, with buffers from before, again in \<open>destroyPreviewBuffer\<close>. (What
  would follow, a \<open>memset\<close> of the array just freed, is not reached.)
\<close>

definition createPreviewBuffer ::
  "(nat \<Rightarrow> cam_mem option) \<Rightarrow> bool \<Rightarrow> bool \<Rightarrow> bufferinfo \<Rightarrow> mem_manager \<Rightarrow> int call_result option" where
  "createPreviewBuffer alloc ok_data ok_info pb mm =
     (if held mm then Some Deadlock
      else
        let mm = mm\<lparr>held := True\<rparr>;
            n = unat (mNumBffers pb)
        in case mPreviewData mm of
          None \<Rightarrow>
            if \<not> ok_data then Some (Ret (-1) (mm\<lparr>held := False\<rparr>))
            else do {
              (ret, mm) \<leftarrow> createGrallocDrmBuffer alloc ok_info (Some pb) (mm\<lparr>mPreviewData := Some (replicate n None)\<rparr>);
              Some (Ret ret (if ret = 0 then mm\<lparr>held := False\<rparr> else mm\<lparr>mPreviewData := None, held := False\<rparr>)) }
        | Some data \<Rightarrow> do {
            p \<leftarrow> c_read data 0;
            m \<leftarrow> p;
            if vir_addr m \<noteq> 0 then do {
              r \<leftarrow> destroyPreviewBuffer mm;
              case r of Deadlock \<Rightarrow> Some Deadlock | Ret _ mm \<Rightarrow> None }
            else if n > length data then None
            else do {
              (ret, mm) \<leftarrow> createGrallocDrmBuffer alloc ok_info (Some pb)
                (mm\<lparr>mPreviewData := Some (replicate n None @ drop n data)\<rparr>);
              Some (Ret ret (if ret = 0 then mm\<lparr>held := False\<rparr> else mm\<lparr>mPreviewData := None, held := False\<rparr>)) } })"

text \<open>The buffers flushed.\<close>

definition flushCacheMem :: "mem_manager \<Rightarrow> cam_mem list call_result option" where
  "flushCacheMem mm =
     (if held mm then Some Deadlock
      else do { ms \<leftarrow> preview_mapped mm; Some (Ret ms mm) })"

text \<open>The destructor: whether the allocator is shut down, and what is then still live.\<close>

definition delete_manager :: "mem_manager \<Rightarrow> (bool \<times> cam_mem list) call_result option" where
  "delete_manager mm =
     (case mPreviewData mm of None \<Rightarrow> Some (Ret (handle mm, live mm) mm)
      | Some _ \<Rightarrow> do {
          r \<leftarrow> destroyPreviewBuffer mm;
          Some (case r of Deadlock \<Rightarrow> Deadlock | Ret _ mm \<Rightarrow> Ret (handle mm, live mm) mm) })"

section \<open>The allocation loop\<close>

text \<open>What is stored for an allocation.\<close>

definition entry :: "u64 \<Rightarrow> bufferinfo \<Rightarrow> cam_mem \<Rightarrow> bufferinfo" where
  "entry page gb m = gb\<lparr>mPhyBaseAddr := phy_addr m, mVirBaseAddr := vir_addr m, mPerBuffersize := page, mShareFd := ucast (mem_fd m)\<rparr>"

lemma entry_entry [simp]: "entry page (entry page gb m) m' = entry page gb m'"
  by (simp add: entry_def)

lemma entry_simps [simp]:
  "mNumBffers (entry page gb m) = mNumBffers gb" "mVirBaseAddr (entry page gb m) = vir_addr m"
  "mPhyBaseAddr (entry page gb m) = phy_addr m" "mShareFd (entry page gb m) = ucast (mem_fd m)"
  by (simp_all add: entry_def)

lemma write_next:
  "c_write (map Some xs @ replicate (Suc n) None) (int (length xs)) (Some x) = Some (map Some (xs @ [x]) @ replicate n None)"
  "c_write (map Some xs @ replicate (Suc n) None) (int (length xs)) None = Some (map Some xs @ replicate (Suc n) None)"
  by (simp_all add: c_write_def list_update_append)

text \<open>The allocations before the first that fails.\<close>

definition granted :: "(nat \<Rightarrow> cam_mem option) \<Rightarrow> nat \<Rightarrow> nat \<Rightarrow> cam_mem list" where
  "granted alloc i n = map the (takeWhile (\<lambda>m. m \<noteq> None) (map alloc [i..<i + n]))"

lemma granted_0 [simp]: "granted alloc i 0 = []"
  by (simp add: granted_def)

lemma granted_Suc:
  "granted alloc i (Suc n) = (case alloc i of None \<Rightarrow> [] | Some m \<Rightarrow> m # granted alloc (Suc i) n)"
proof -
  have "[i..<i + Suc n] = i # [Suc i..<Suc i + n]" by (simp add: upt_conv_Cons del: upt_Suc)
  then show ?thesis unfolding granted_def by (simp split: option.splits)
qed

lemma granted_length: "length (granted alloc i n) \<le> n"
  unfolding granted_def by (metis length_map length_takeWhile_le length_upt add_diff_cancel_left')

lemma granted_all:
  "length (granted alloc 0 n) = n \<longleftrightarrow> (\<forall>i < n. alloc i \<noteq> None)"
  "length (granted alloc 0 n) = n \<Longrightarrow> i < n \<Longrightarrow> alloc i = Some (granted alloc 0 n ! i)"
proof -
  have iff: "length (granted alloc 0 n) = n \<longleftrightarrow> takeWhile (\<lambda>m. m \<noteq> None) (map alloc [0..<n]) = map alloc [0..<n]"
  proof
    assume "length (granted alloc 0 n) = n"
    then have "length (takeWhile (\<lambda>m. m \<noteq> None) (map alloc [0..<n])) = length (map alloc [0..<n])"
      by (simp add: granted_def)
    then show "takeWhile (\<lambda>m. m \<noteq> None) (map alloc [0..<n]) = map alloc [0..<n]"
      by (subst takeWhile_eq_take) simp
  next
    assume "takeWhile (\<lambda>m. m \<noteq> None) (map alloc [0..<n]) = map alloc [0..<n]"
    then have "length (takeWhile (\<lambda>m. m \<noteq> None) (map alloc [0..<n])) = length (map alloc [0..<n])" by (rule arg_cong)
    then show "length (granted alloc 0 n) = n" by (simp add: granted_def)
  qed
  then show a: "length (granted alloc 0 n) = n \<longleftrightarrow> (\<forall>i < n. alloc i \<noteq> None)"
    by (auto simp: takeWhile_eq_all_conv)
  assume g: "length (granted alloc 0 n) = n" and i: "i < n"
  then have "granted alloc 0 n = map the (map alloc [0..<n])" using iff [THEN iffD1, OF g] by (simp only: granted_def add_0)
  then show "alloc i = Some (granted alloc 0 n ! i)" using i a g by auto
qed

lemma alloc_loop_spec:
  assumes "length bis = length ms" "i = length ms"
  shows "\<exists>gb'. alloc_loop alloc page i n (gb, map Some ms @ replicate n None, map Some bis @ replicate n None, lv) =
    Some (length (granted alloc i n) = n, i + length (granted alloc i n), gb',
      map Some (ms @ granted alloc i n) @ replicate (n - length (granted alloc i n)) None,
      map Some (bis @ map (entry page gb) (granted alloc i n)) @ replicate (n - length (granted alloc i n)) None,
      lv @ granted alloc i n)"
  using assms
proof (induction n arbitrary: i gb ms bis lv)
  case (Suc n)
  show ?case
  proof (cases "alloc i")
    case None
    then show ?thesis using Suc.prems write_next(2) [of ms n]
      by (simp add: granted_Suc del: replicate_Suc)
  next
    case (Some m)
    have "\<exists>gb'. alloc_loop alloc page (Suc i) n (entry page gb m, map Some (ms @ [m]) @ replicate n None,
        map Some (bis @ [entry page gb m]) @ replicate n None, lv @ [m]) =
      Some (length (granted alloc (Suc i) n) = n, Suc i + length (granted alloc (Suc i) n), gb',
        map Some ((ms @ [m]) @ granted alloc (Suc i) n) @ replicate (n - length (granted alloc (Suc i) n)) None,
        map Some ((bis @ [entry page gb m]) @ map (entry page (entry page gb m)) (granted alloc (Suc i) n)) @
          replicate (n - length (granted alloc (Suc i) n)) None,
        (lv @ [m]) @ granted alloc (Suc i) n)"
      using Suc.prems by (intro Suc.IH) simp_all
    then show ?thesis
      using Some Suc.prems write_next(1) [of ms n m] write_next(1) [of bis n "entry page gb m"]
      by (simp add: granted_Suc entry_def [symmetric] Let_def comp_def del: replicate_Suc)
  qed
qed simp

text \<open>Freeing every allocation leaves none.\<close>

lemma mset_fold_remove1: "mset (fold remove1 xs ys) = mset ys - mset xs"
  by (induction xs arbitrary: ys) (simp_all add: diff_diff_add)

lemma fold_remove1_self: "mset xs = mset ys \<Longrightarrow> fold remove1 xs ys = []"
  using mset_fold_remove1 [of xs ys] by simp

lemma free_back_spec:
  "i \<le> length ms \<Longrightarrow> free_back i (map Some ms @ r) lv = Some (fold remove1 (rev (take i ms)) lv)"
proof (induction i arbitrary: lv)
  case (Suc i)
  then have "take (Suc i) ms = take i ms @ [ms ! i]" "c_read (map Some ms @ r) (int i) = Some (Some (ms ! i))"
    by (simp_all add: take_Suc_conv_app_nth nth_append)
  then show ?case using Suc by (simp del: take_Suc)
qed simp

lemma each_mapped_spec:
  assumes "\<forall>m \<in> set ms. vir_addr m \<noteq> 0" "i + n = length ms"
  shows "each_mapped i n (map Some ms) = Some (drop i ms)"
  using assms(2)
proof (induction n arbitrary: i)
  case (Suc n)
  then have "i < length ms" "each_mapped (Suc i) n (map Some ms) = Some (drop (Suc i) ms)" by simp_all
  moreover have "vir_addr (ms ! i) \<noteq> 0" using assms(1) \<open>i < length ms\<close> by simp
  ultimately show ?case by (simp add: Cons_nth_drop_Suc)
qed simp

section \<open>The invariant\<close>

text \<open>Either there are no buffers at all, or the two arrays describe the same allocations, which are the
  live ones.\<close>

definition buffers_of :: "mem_manager \<Rightarrow> cam_mem list \<Rightarrow> bool" where
  "buffers_of mm ms \<longleftrightarrow> \<not> held mm \<and> live mm = ms \<and>
     (if ms = [] then mPreviewData mm = None \<and> mPreviewBufferInfo mm = None
      else mPreviewData mm = Some (map Some ms) \<and> length ms < 2 ^ 31 \<and> (\<forall>m \<in> set ms. vir_addr m \<noteq> 0) \<and>
        (\<exists>page gb. mPreviewBufferInfo mm = Some (map Some (map (entry page gb) ms)) \<and>
           mNumBffers gb = of_nat (length ms)))"

lemma buffers_ofI:
  assumes "ms \<noteq> []" "\<not> held mm" "live mm = ms" "mPreviewData mm = Some (map Some ms)" "length ms < 2 ^ 31"
    "\<forall>m \<in> set ms. vir_addr m \<noteq> 0" "mPreviewBufferInfo mm = Some (map Some (map (entry page gb) ms))"
    "mNumBffers gb = of_nat (length ms)"
  shows "buffers_of mm ms"
  unfolding buffers_of_def using assms by (simp only: if_False) blast

lemma preview_mapped_spec:
  assumes "buffers_of mm ms"
  shows "preview_mapped mm = Some ms"
proof (cases "ms = []")
  case True
  then show ?thesis using assms by (simp add: buffers_of_def preview_mapped_def)
next
  case False
  then obtain page gb where b: "mPreviewData mm = Some (map Some ms)" "length ms < 2 ^ 31" "\<forall>m \<in> set ms. vir_addr m \<noteq> 0"
    "mPreviewBufferInfo mm = Some (map Some (map (entry page gb) ms))" "mNumBffers gb = of_nat (length ms)"
    using assms by (auto simp: buffers_of_def)
  have "unat (mNumBffers (entry page gb (hd ms))) = length ms" using b(2,5) by (simp add: unat_of_nat)
  moreover have "c_read (map Some (map (entry page gb) ms)) 0 = Some (Some (entry page gb (hd ms)))"
    using False by (simp add: c_read_def hd_conv_nth)
  moreover have "each_mapped 0 (length ms) (map Some ms) = Some ms"
    using each_mapped_spec [OF b(3), of 0 "length ms"] by simp
  ultimately show ?thesis using b(1,4) by (simp add: preview_mapped_def)
qed

lemma preview_mapped_held [simp]: "preview_mapped (mm\<lparr>held := x\<rparr>) = preview_mapped mm"
  by (simp add: preview_mapped_def cong: option.case_cong)

lemma destroy_spec:
  assumes "buffers_of mm ms"
  shows "\<exists>mm'. destroyPreviewBuffer mm = Some (Ret 0 mm') \<and> buffers_of mm' []"
proof -
  have "preview_mapped mm = Some ms" by (rule preview_mapped_spec [OF assms])
  then show ?thesis
    using assms fold_remove1_self [of ms ms]
    by (simp add: destroyPreviewBuffer_def destroyGrallocDrmBuffer_def buffers_of_def)
qed

text \<open>Creating buffers from none.\<close>

lemma createGralloc_spec:
  assumes "mPreviewData mm = Some (replicate n None)" "live mm = []" "n < 2 ^ 31"
    "mBufType pb = PREVIEWBUFFER" "mNumBffers pb = of_nat n"
    "PAGE_ALIGN (to_int (ucast (mPerBuffersize pb))) = Some page" "in_int (int n * page)"
  shows "\<exists>mm'. createGrallocDrmBuffer alloc True (Some pb) mm =
      Some (if length (granted alloc 0 n) = n then 0 else -1, mm') \<and>
    held mm' = held mm \<and>
    (if length (granted alloc 0 n) = n
     then live mm' = granted alloc 0 n \<and> mPreviewData mm' = Some (map Some (granted alloc 0 n)) \<and>
       mPreviewBufferInfo mm' = Some (map Some (map (entry (word_of_int page) (pb\<lparr>mBufferSizes := word_of_int (int n * page)\<rparr>)) (granted alloc 0 n)))
     else live mm' = [] \<and> mPreviewBufferInfo mm' = None)"
proof -
  let ?g = "granted alloc 0 n" and ?gb = "pb\<lparr>mBufferSizes := word_of_int (int n * page)\<rparr>"
  have num: "to_int (mNumBffers pb) = int n" using to_int_of_nat [OF assms(3)] assms(5) by simp
  obtain gb' where l: "alloc_loop alloc (word_of_int page) 0 n (?gb, replicate n None, replicate n None, []) =
    Some (length ?g = n, length ?g, gb', map Some ?g @ replicate (n - length ?g) None,
      map Some (map (entry (word_of_int page) ?gb) ?g) @ replicate (n - length ?g) None, ?g)"
    using alloc_loop_spec [of "[]" "[]" 0 alloc "word_of_int page" n ?gb "[]"] by auto
  have f: "free_back (length ?g) (map Some ?g @ r) ?g = Some []" for r
    using free_back_spec [of "length ?g" ?g r ?g] fold_remove1_self [of "rev ?g" ?g] by simp
  show ?thesis
    using assms(1,2,4,6,7) num l f
    by (cases "length ?g = n") (simp_all add: createGrallocDrmBuffer_def Let_def del: map_map)
qed

section \<open>Properties\<close>

text \<open>The address of the kind asked for.\<close>

fun addr_of :: "addr_type \<Rightarrow> cam_mem \<Rightarrow> u64" where
  "addr_of ADDR_PHY m = phy_addr m"
| "addr_of ADDR_VIR m = vir_addr m"
| "addr_of SHARE_FD m = ucast (mem_fd m)"

lemma getBufferAddr_spec:
  assumes "buffers_of mm ms" "ms \<noteq> []"
  shows "i < length ms \<Longrightarrow> getBufferAddr mm PREVIEWBUFFER (of_nat i) a = Some (addr_of a (ms ! i))"
    and "getBufferAddr mm PREVIEWBUFFER (of_nat (length ms)) a = None"
proof -
  obtain page gb where b: "length ms < 2 ^ 31"
    "mPreviewBufferInfo mm = Some (map Some (map (entry page gb) ms))" "mNumBffers gb = of_nat (length ms)"
    using assms by (auto simp: buffers_of_def)
  have first: "c_read (map Some (map (entry page gb) ms)) 0 = Some (Some (entry page gb (hd ms)))"
    using assms(2) by (simp add: c_read_def hd_conv_nth)
  have u: "uint (of_nat i :: u32) = int i" if "i \<le> length ms" for i
    using that b(1) by (simp add: unsigned_of_nat take_bit_nat_eq_self)
  have le: "\<not> (of_nat (length ms) :: u32) < of_nat i" if "i \<le> length ms" for i
    using that b(1) by (simp add: word_less_nat_alt unat_of_nat)
  show "getBufferAddr mm PREVIEWBUFFER (of_nat i) a = Some (addr_of a (ms ! i))" if "i < length ms"
    using that first u [of i] le [of i] b(2,3)
    by (cases a) (simp_all add: getBufferAddr_def c_read_def del: map_map)
  show "getBufferAddr mm PREVIEWBUFFER (of_nat (length ms)) a = None"
    using first u [of "length ms"] b(2,3) by (simp add: getBufferAddr_def c_read_def del: map_map)
qed

text \<open>C16: no preview buffer is lost and none is freed twice. Creating \<open>n\<close> buffers from none either gives
  all of them, in order, each with its three addresses under its index, or, whichever allocation fails,
  returns -1 with every buffer allocated so far freed and both arrays gone; and destroying afterwards
  leaves nothing live. The one index past the last is let through to a read past the array.\<close>

theorem preview_buffers_balanced:
  assumes "buffers_of mm []" "0 < n" "n < 2 ^ 31" "mBufType pb = PREVIEWBUFFER" "mNumBffers pb = of_nat n"
    "PAGE_ALIGN (to_int (ucast (mPerBuffersize pb))) = Some page" "in_int (int n * page)"
    "\<forall>i m. alloc i = Some m \<longrightarrow> i < n \<longrightarrow> vir_addr m \<noteq> 0"
  shows "\<exists>ret mm'. createPreviewBuffer alloc True True pb mm = Some (Ret ret mm') \<and>
    (if ret = 0
     then (\<forall>i < n. alloc i = Some (live mm' ! i)) \<and> length (live mm') = n \<and> buffers_of mm' (live mm') \<and>
       (\<forall>i < n. \<forall>a. getBufferAddr mm' PREVIEWBUFFER (of_nat i) a = Some (addr_of a (live mm' ! i))) \<and>
       getBufferAddr mm' PREVIEWBUFFER (of_nat n) ADDR_VIR = None
     else ret = -1 \<and> (\<exists>i < n. alloc i = None) \<and> buffers_of mm' []) \<and>
    (\<exists>mm''. destroyPreviewBuffer mm' = Some (Ret 0 mm'') \<and> buffers_of mm'' [])"
proof -
  let ?g = "granted alloc 0 n"
  have mm: "\<not> held mm" "live mm = []" "mPreviewData mm = None" "mPreviewBufferInfo mm = None"
    using assms(1) by (simp_all add: buffers_of_def)
  have n: "unat (mNumBffers pb) = n" using assms(3,5) by (simp add: unat_of_nat)
  let ?m0 = "mm\<lparr>held := True, mPreviewData := Some (replicate n None)\<rparr>"
  obtain mm1 where c: "createGrallocDrmBuffer alloc True (Some pb) ?m0 = Some (if length ?g = n then 0 else -1, mm1)"
    "held mm1 = held ?m0"
    "if length ?g = n then live mm1 = ?g \<and> mPreviewData mm1 = Some (map Some ?g) \<and>
       mPreviewBufferInfo mm1 = Some (map Some (map (entry (word_of_int page) (pb\<lparr>mBufferSizes := word_of_int (int n * page)\<rparr>)) ?g))
     else live mm1 = [] \<and> mPreviewBufferInfo mm1 = None"
    using createGralloc_spec [of ?m0 n pb page alloc] assms mm by auto
  have all: "length ?g = n \<longleftrightarrow> (\<forall>i < n. alloc i \<noteq> None)" "length ?g = n \<Longrightarrow> i < n \<Longrightarrow> alloc i = Some (?g ! i)" for i
    using granted_all [of alloc n] by auto
  show ?thesis
  proof (cases "length ?g = n")
    case True
    have "\<forall>m \<in> set ?g. vir_addr m \<noteq> 0"
      using all(2) [OF True] assms(8) True by (metis in_set_conv_nth)
    moreover have ne: "?g \<noteq> []" using True assms(2) by auto
    ultimately have b: "buffers_of (mm1\<lparr>held := False\<rparr>) ?g"
      using c(3) True assms(3,5)
      by (intro buffers_ofI [where gb = "pb\<lparr>mBufferSizes := word_of_int (int n * page)\<rparr>" and page = "word_of_int page"])
        (simp_all del: map_map)
    have "createPreviewBuffer alloc True True pb mm = Some (Ret 0 (mm1\<lparr>held := False\<rparr>))"
      using mm n c(1) True by (simp add: createPreviewBuffer_def Let_def)
    then show ?thesis
      using b c(3) True all(2) [OF True] getBufferAddr_spec [OF b ne] destroy_spec [OF b] by auto
  next
    case False
    have b: "buffers_of (mm1\<lparr>mPreviewData := None, held := False\<rparr>) []"
      using c(3) False by (simp add: buffers_of_def)
    have "createPreviewBuffer alloc True True pb mm = Some (Ret (-1) (mm1\<lparr>mPreviewData := None, held := False\<rparr>))"
      using mm n c(1) False by (simp add: createPreviewBuffer_def Let_def)
    then show ?thesis using b False all(1) destroy_spec [OF b] by auto
  qed
qed

definition demo_mem :: "nat \<Rightarrow> cam_mem" where
  "demo_mem i = \<lparr>mem_id = i, phy_addr = 0, vir_addr = of_nat (i + 1) * 4096, mem_fd = of_nat i\<rparr>"

definition demo_info :: bufferinfo where
  "demo_info = \<lparr>mNumBffers = 2, mPerBuffersize = 5000, mBufferSizes = 0, mPhyBaseAddr = 0, mVirBaseAddr = 0, mShareFd = 0,
     mBufType = PREVIEWBUFFER, bi_width = 0, bi_height = 0\<rparr>"

theorem preview_buffers_balanced_witness:
  "\<exists>mm'. createPreviewBuffer (\<lambda>i. Some (demo_mem i)) True True demo_info (new_manager True) = Some (Ret 0 mm') \<and>
    length (live mm') = 2 \<and> getBufferAddr mm' PREVIEWBUFFER 2 ADDR_VIR = None"
proof -
  have "PAGE_ALIGN (to_int (ucast (mPerBuffersize demo_info))) = Some 8192" by code_simp
  moreover have "\<forall>i m. Some (demo_mem i) = Some m \<longrightarrow> i < 2 \<longrightarrow> vir_addr m \<noteq> 0"
    by (auto simp: demo_mem_def less_2_cases_iff)
  moreover have "buffers_of (new_manager True) []" by (simp add: buffers_of_def new_manager_def)
  ultimately obtain ret mm' where
    "createPreviewBuffer (\<lambda>i. Some (demo_mem i)) True True demo_info (new_manager True) = Some (Ret ret mm')"
    "if ret = 0 then length (live mm') = 2 \<and> getBufferAddr mm' PREVIEWBUFFER (of_nat 2) ADDR_VIR = None else False"
    using preview_buffers_balanced [of "new_manager True" 2 demo_info 8192 "\<lambda>i. Some (demo_mem i)"]
    by (fastforce simp: demo_info_def in_int_def split: if_splits)
  then show ?thesis by (cases "ret = 0") auto
qed

text \<open>creating preview buffers while there are some does not return: \<open>createPreviewBuffer\<close> holds the lock
  and calls \<open>destroyPreviewBuffer\<close>, which takes it again. A caller has to destroy them first; after that
  the same call succeeds.\<close>

theorem recreate_deadlocks:
  assumes "buffers_of mm ms" "ms \<noteq> []"
  shows "createPreviewBuffer alloc ok_data ok_info pb mm = Some Deadlock \<and>
    (\<exists>mm'. destroyPreviewBuffer mm = Some (Ret 0 mm') \<and> createPreviewBuffer alloc ok_data ok_info pb mm' \<noteq> Some Deadlock)"
proof -
  have b: "\<not> held mm" "mPreviewData mm = Some (map Some ms)" "vir_addr (hd ms) \<noteq> 0"
    using assms by (auto simp: buffers_of_def)
  have "c_read (map Some ms) 0 = Some (Some (hd ms))" using assms(2) by (simp add: c_read_def hd_conv_nth)
  then have "createPreviewBuffer alloc ok_data ok_info pb mm = Some Deadlock"
    using b by (simp add: createPreviewBuffer_def destroyPreviewBuffer_def Let_def)
  moreover obtain mm' where m: "destroyPreviewBuffer mm = Some (Ret 0 mm')" "buffers_of mm' []"
    using destroy_spec [OF assms(1)] by blast
  moreover have "createPreviewBuffer alloc ok_data ok_info pb mm' \<noteq> Some Deadlock"
    using m(2) by (auto simp: buffers_of_def createPreviewBuffer_def Let_def split: Option.bind_splits)
  ultimately show ?thesis by blast
qed

theorem recreate_deadlocks_witness:
  "case createPreviewBuffer (\<lambda>i. Some (demo_mem i)) True True demo_info (new_manager True) of
     Some (Ret _ mm) \<Rightarrow> createPreviewBuffer (\<lambda>i. Some (demo_mem i)) True True demo_info mm = Some Deadlock
   | _ \<Rightarrow> False"
proof -
  define mm where "mm = \<lparr>mPreviewData = Some (map Some [demo_mem 0, demo_mem 1]),
    mPreviewBufferInfo = Some (map Some (map (entry 8192 (demo_info\<lparr>mBufferSizes := 16384\<rparr>)) [demo_mem 0, demo_mem 1])),
    live = [demo_mem 0, demo_mem 1], held = False, handle = True\<rparr>"
  have c: "createPreviewBuffer (\<lambda>i. Some (demo_mem i)) True True demo_info (new_manager True) = Some (Ret 0 mm)"
    unfolding mm_def by code_simp
  have "buffers_of mm [demo_mem 0, demo_mem 1]"
    by (rule buffers_ofI [where page = 8192 and gb = "demo_info\<lparr>mBufferSizes := 16384\<rparr>"])
      (simp_all add: mm_def demo_info_def demo_mem_def)
  then show ?thesis using recreate_deadlocks [of mm "[demo_mem 0, demo_mem 1]" "\<lambda>i. Some (demo_mem i)" True True demo_info] c by simp
qed

end
