(* ===== verification/Mp4_Recorder.thy ===== *)
theory Mp4_Recorder
  imports Ansync_Decoder
begin

text \<open>
  Two further clients of coded frames in \<open>VirtualCamera/AnsyncDecoder\<close>: the MP4 recorder (\<open>ff_mp4.c\<close>, with
  the classification of frames of \<open>ff_common.h\<close>) and the wrapper of the platform's decoder
  (\<open>NativeDecodec.c\<close>). The muxer and the media codec are known by the results of their calls; a failed
  assertion ends the process and has no result, like undefined behaviour.
\<close>

section \<open>Frames\<close>

datatype frame_type = UNKNOMN | SPS_FRAME | PPS_FRAME | I_FRAME | P_FRAME

text \<open>The fifth byte is the first one after a start code of four.\<close>

definition check_frame_type :: "u8 list \<Rightarrow> frame_type option" where
  "check_frame_type data = do {
     b \<leftarrow> c_read data 4;
     Some (if b AND 0x1F = 1 then P_FRAME else if b AND 0x1F = 5 then I_FRAME
           else if b AND 0x1F = 7 then SPS_FRAME else if b AND 0x1F = 8 then PPS_FRAME else UNKNOMN) }"

section \<open>The recorder\<close>

record av_packet =
  av_data :: "u8 list"
  pts :: int
  flags :: int
  stream_index :: int

text \<open>\<open>written\<close> is what was passed to \<open>av_interleaved_write_frame\<close>, \<open>trailer\<close> whether the file was finished.\<close>

record FFMp4 =
  extradata :: "u8 list"
  isRunning :: int
  frameRate :: int
  frame_count :: int
  written :: "av_packet list"

record muxer =
  r_alloc :: int
  ok_stream :: bool
  nofile :: bool
  r_open :: int
  r_header :: int

definition ff_mp4_init :: "muxer \<Rightarrow> u8 list \<Rightarrow> int \<Rightarrow> int \<Rightarrow> FFMp4 option option" where
  "ff_mp4_init m sps_pps sps_pps_len rate =
     (if sps_pps_len \<le> 0 then Some None
      else if r_alloc m < 0 \<or> \<not> ok_stream m then None
      else if int (length sps_pps) < sps_pps_len then None
      else if \<not> nofile m \<and> r_open m < 0 then None
      else if r_header m < 0 then None
      else Some (Some \<lparr>extradata = take (nat sps_pps_len) sps_pps, isRunning = 1, frameRate = rate,
                       frame_count = 0, written = []\<rparr>))"

definition ff_mp4_isRunning :: "FFMp4 option \<Rightarrow> int" where
  "ff_mp4_isRunning f = (case f of None \<Rightarrow> 0 | Some r \<Rightarrow> if isRunning r \<noteq> 0 then 1 else 0)"

text \<open>The result and the file, which is complete from here on; the handle is freed.\<close>

definition ff_mp4_uninit :: "FFMp4 option \<Rightarrow> int \<times> av_packet list" where
  "ff_mp4_uninit f = (case f of None \<Rightarrow> (0, []) | Some r \<Rightarrow> (1, written r))"

definition ff_mp4_write :: "FFMp4 option \<Rightarrow> u8 list \<Rightarrow> int \<Rightarrow> (int \<times> FFMp4) option" where
  "ff_mp4_write f data mediaType = do {
     r \<leftarrow> f;
     ty \<leftarrow> check_frame_type data;
     let started = frame_count r > 0 \<or> ty = I_FRAME;
     if ty = SPS_FRAME \<or> ty = PPS_FRAME then Some (0, r)
     else if started then do {
       step \<leftarrow> c_div 90000 (frameRate r);
       let p = \<lparr>av_data = data, pts = step * frame_count r, flags = (if ty = I_FRAME then 1 else 0), stream_index = mediaType\<rparr>;
       n \<leftarrow> c_int (frame_count r + 1);
       Some (1, r\<lparr>written := written r @ [p], frame_count := n\<rparr>) }
     else Some (1, r) }"

text \<open>The calls of a recording, one for each frame.\<close>

fun record_all :: "FFMp4 \<Rightarrow> u8 list list \<Rightarrow> FFMp4 option" where
  "record_all r [] = Some r"
| "record_all r (d # ds) = do { (_, r) \<leftarrow> ff_mp4_write (Some r) d 0; record_all r ds }"

section \<open>The platform decoder\<close>

text \<open>\<open>c_in\<close> and \<open>c_out\<close> are the results of the two \<open>dequeue\<close> calls; \<open>input_buffer\<close> gives the buffer behind
  an index, none where there is no such index.\<close>

record media_codec =
  c_in :: int
  c_out :: int
  input_buffer :: "u64 \<Rightarrow> u8 list option"
  new_format :: "int \<times> int \<times> int"

record NativeCodec =
  has_codec :: bool
  nc_width :: int
  nc_height :: int
  color_format :: int
  queued :: "(u64 \<times> u8 list) list"

text \<open>The first parameter of \<open>NativeCodec_Create\<close> is the height. The result is the format the codec is
  configured with (width, height, rate), and the handle.\<close>

definition NativeCodec_Create :: "int \<Rightarrow> int \<Rightarrow> bool \<Rightarrow> (int \<times> int \<times> int) \<times> NativeCodec" where
  "NativeCodec_Create height width ok =
     ((width, height, 20), \<lparr>has_codec = ok, nc_width = 0, nc_height = 0, color_format = 0, queued = []\<rparr>)"

text \<open>
  The two indices are converted to \<open>size_t\<close> before they are compared with zero, so that the branches for
  the negative results, among them a change of format, are never taken.
\<close>

definition NaticeDecodec_InputData :: "media_codec \<Rightarrow> NativeCodec option \<Rightarrow> u8 list \<Rightarrow> int \<Rightarrow> NativeCodec option option" where
  "NaticeDecodec_InputData mc nc data len =
     (case nc of None \<Rightarrow> Some None
      | Some c \<Rightarrow>
          if \<not> has_codec c then Some (Some c)
          else do {
            let input_index = (word_of_int (c_in mc) :: u64);
            c \<leftarrow> (if input_index \<ge> 0 then do {
                   b \<leftarrow> c_memcpy (input_buffer mc input_index) 0 data len;
                   Some (c\<lparr>queued := queued c @ [(input_index, take (nat len) b)]\<rparr>) }
                 else Some c);
            let output_index = (word_of_int (c_out mc) :: u64);
            if output_index \<ge> 0 then Some (Some c)
            else if c_out mc = -3 then Some (Some c)
            else if c_out mc = -2 then
              (case new_format mc of (w, h, f) \<Rightarrow> Some (Some (c\<lparr>nc_width := w, nc_height := h, color_format := f\<rparr>)))
            else Some (Some c) })"

definition NativeDecodec_Destroy :: "NativeCodec option \<Rightarrow> NativeCodec option" where
  "NativeDecodec_Destroy nc = None"

section \<open>What is recorded\<close>

text \<open>The reference: nothing before the first key frame, no parameter sets; the \<open>k\<close>-th frame from there on at
  \<open>k\<close> times the frame duration in units of a ninety-thousandth of a second.\<close>

definition no_params :: "u8 list list \<Rightarrow> u8 list list" where
  "no_params ds = filter (\<lambda>d. check_frame_type d \<notin> {Some SPS_FRAME, Some PPS_FRAME}) ds"

definition recordable :: "u8 list list \<Rightarrow> u8 list list" where
  "recordable ds = no_params (dropWhile (\<lambda>d. check_frame_type d \<noteq> Some I_FRAME) ds)"

definition mp4_packet :: "int \<Rightarrow> nat \<times> u8 list \<Rightarrow> av_packet" where
  "mp4_packet rate p = \<lparr>av_data = snd p, pts = 90000 div rate * int (fst p),
     flags = (if check_frame_type (snd p) = Some I_FRAME then 1 else 0), stream_index = 0\<rparr>"

lemma check_frame_type_Some: "5 \<le> length d \<Longrightarrow> \<exists>ty. check_frame_type d = Some ty"
  by (simp add: check_frame_type_def)

lemma step_Some: "0 < rate \<Longrightarrow> c_div 90000 rate = Some (90000 div rate)"
proof -
  assume r: "0 < rate"
  then have "90000 div rate \<le> 90000" using zdiv_mono2 [of 90000 1 rate] by simp
  moreover have "0 \<le> 90000 div rate" using r by (simp add: pos_imp_zdiv_nonneg_iff)
  ultimately show ?thesis using r by (simp add: c_div_def in_int_def)
qed

lemma ff_mp4_write_cases:
  assumes "0 < frameRate r" "check_frame_type d = Some ty" "frame_count r = int k" "k < 2 ^ 31 - 1"
  shows "ff_mp4_write (Some r) d 0 = Some
    (if ty = SPS_FRAME \<or> ty = PPS_FRAME then (0, r)
     else if 0 < k \<or> ty = I_FRAME
     then (1, r\<lparr>written := written r @ [mp4_packet (frameRate r) (k, d)], frame_count := int (Suc k)\<rparr>)
     else (1, r))"
  using assms step_Some [OF assms(1)] by (auto simp: ff_mp4_write_def mp4_packet_def in_int_def add.commute)

text \<open>Once a frame has been written, everything but parameter sets is.\<close>

lemma record_started:
  assumes "\<forall>d \<in> set ds. 5 \<le> length d" "0 < frameRate r" "frame_count r = int k" "0 < k" "k + length ds < 2 ^ 31"
  shows "\<exists>r'. record_all r ds = Some r' \<and>
    written r' = written r @ map (mp4_packet (frameRate r)) (enumerate k (no_params ds))"
  using assms
proof (induction ds arbitrary: r k)
  case (Cons d ds)
  obtain ty where ty: "check_frame_type d = Some ty" using check_frame_type_Some [of d] Cons.prems by auto
  note w = ff_mp4_write_cases [OF Cons.prems(2) ty Cons.prems(3)]
  show ?case
  proof (cases "ty = SPS_FRAME \<or> ty = PPS_FRAME")
    case True
    then show ?thesis
      using ty w Cons.IH [of r k] Cons.prems by (auto simp: no_params_def)
  next
    case False
    then show ?thesis
      using ty w Cons.prems
        Cons.IH [of "r\<lparr>written := written r @ [mp4_packet (frameRate r) (k, d)], frame_count := int (Suc k)\<rparr>" "Suc k"]
      by (simp add: no_params_def)
  qed
qed (simp add: no_params_def)

lemma record_fresh:
  assumes "\<forall>d \<in> set ds. 5 \<le> length d" "0 < frameRate r" "frame_count r = 0" "length ds < 2 ^ 31 - 1"
  shows "\<exists>r'. record_all r ds = Some r' \<and>
    written r' = written r @ map (mp4_packet (frameRate r)) (enumerate 0 (recordable ds))"
  using assms
proof (induction ds)
  case (Cons d ds)
  obtain ty where ty: "check_frame_type d = Some ty" using check_frame_type_Some [of d] Cons.prems by auto
  have w: "ff_mp4_write (Some r) d 0 = Some
    (if ty = SPS_FRAME \<or> ty = PPS_FRAME then (0, r)
     else if ty = I_FRAME then (1, r\<lparr>written := written r @ [mp4_packet (frameRate r) (0, d)], frame_count := 1\<rparr>)
     else (1, r))"
    using ff_mp4_write_cases [OF Cons.prems(2) ty, of 0] Cons.prems(3) by simp
  show ?case
  proof (cases "ty = I_FRAME")
    case True
    then show ?thesis
      using ty w Cons.prems
        record_started [of ds "r\<lparr>written := written r @ [mp4_packet (frameRate r) (0, d)], frame_count := 1\<rparr>" 1]
      by (simp add: recordable_def no_params_def)
  next
    case False
    then show ?thesis using ty w Cons by (auto simp: recordable_def)
  qed
qed (simp add: recordable_def no_params_def)

section \<open>Properties\<close>

text \<open>C31: what a recording contains. With a positive frame rate every call succeeds on frames of at least five
  bytes, nothing is written before the first key frame, parameter sets are never written, every other
  frame is, in order, the \<open>k\<close>-th at \<open>k\<close> times the frame duration and marked when it is a key frame; so the
  time stamps of a file increase strictly. With a frame rate of zero the first key frame divides by zero.\<close>

theorem mp4_recording:
  assumes "ff_mp4_init m sps_pps sps_pps_len rate = Some (Some r)" "\<forall>d \<in> set ds. 5 \<le> length d" "length ds < 2 ^ 31 - 1"
    "0 \<le> rate" "rate \<le> 90000"
  shows "if rate = 0 then (\<exists>d \<in> set ds. check_frame_type d = Some I_FRAME) \<longrightarrow> record_all r ds = None
    else \<exists>r'. record_all r ds = Some r' \<and>
      written r' = map (mp4_packet rate) (enumerate 0 (recordable ds)) \<and>
      sorted_wrt (<) (map pts (written r'))"
proof -
  have r: "frameRate r = rate" "frame_count r = 0" "written r = []"
    using assms(1) by (auto simp: ff_mp4_init_def split: if_splits)
  show ?thesis
  proof (cases "rate = 0")
    case True
    have "record_all r ds = None" if "\<exists>d \<in> set ds. check_frame_type d = Some I_FRAME"
      using that assms(2)
    proof (induction ds)
      case (Cons d ds)
      obtain ty where ty: "check_frame_type d = Some ty" using check_frame_type_Some [of d] Cons.prems by auto
      have "ff_mp4_write (Some r) d 0 = (if ty = I_FRAME then None else Some (if ty = SPS_FRAME \<or> ty = PPS_FRAME then (0, r) else (1, r)))"
        using r True ty by (auto simp: ff_mp4_write_def c_div_def)
      then show ?case using Cons ty by auto
    qed simp
    then show ?thesis using True by simp
  next
    case False
    then obtain r' where r': "record_all r ds = Some r'" "written r' = map (mp4_packet rate) (enumerate 0 (recordable ds))"
      using record_fresh [of ds r] assms r by auto
    have "1 \<le> 90000 div rate" using False assms(4,5) zdiv_mono2 [of 90000 rate 90000] by simp
    then have pos: "0 < 90000 div rate" by simp
    have "map pts (written r') = map (\<lambda>k. 90000 div rate * int k) [0..<length (recordable ds)]"
      unfolding r'(2) by (rule nth_equalityI) (simp_all add: mp4_packet_def nth_enumerate_eq)
    also have "sorted_wrt (<) \<dots>" using pos by (simp add: sorted_wrt_map sorted_wrt_upt)
    finally show ?thesis using False r' by simp
  qed
qed

theorem mp4_recording_witness:
  "let m = \<lparr>r_alloc = 0, ok_stream = True, nofile = False, r_open = 0, r_header = 0\<rparr>;
       p = [0, 0, 0, 1, 0x41]; i = [0, 0, 0, 1, 0x65]; sps = [0, 0, 0, 1, 0x67]
   in \<exists>r r'. ff_mp4_init m [1, 2] 2 30 = Some (Some r) \<and> record_all r [p, sps, i, p, sps, p] = Some r' \<and>
     map pts (written r') = [0, 3000, 6000] \<and> map flags (written r') = [1, 0, 0]"
proof -
  let ?m = "\<lparr>r_alloc = 0, ok_stream = True, nofile = False, r_open = 0, r_header = 0\<rparr>"
  let ?p = "[0, 0, 0, 1, 0x41] :: u8 list" and ?i = "[0, 0, 0, 1, 0x65] :: u8 list" and ?s = "[0, 0, 0, 1, 0x67] :: u8 list"
  define r where "r = \<lparr>extradata = [1, 2], isRunning = 1, frameRate = 30, frame_count = 0, written = []\<rparr>"
  have i: "ff_mp4_init ?m [1, 2] 2 30 = Some (Some r)" by (simp add: ff_mp4_init_def r_def numeral_2_eq_2)
  obtain r' where "record_all r [?p, ?s, ?i, ?p, ?s, ?p] = Some r'"
    "written r' = map (mp4_packet 30) (enumerate 0 (recordable [?p, ?s, ?i, ?p, ?s, ?p]))"
    using mp4_recording [OF i, of "[?p, ?s, ?i, ?p, ?s, ?p]"] by auto
  moreover have "map pts (map (mp4_packet 30) (enumerate 0 (recordable [?p, ?s, ?i, ?p, ?s, ?p]))) = [0, 3000, 6000]"
    "map flags (map (mp4_packet 30) (enumerate 0 (recordable [?p, ?s, ?i, ?p, ?s, ?p]))) = [1, 0, 0]"
    by code_simp+
  ultimately show ?thesis using i by (auto simp: Let_def)
qed

text \<open>The platform decoder's error results are not noticed. When no input buffer is available the frame is
  copied to the address behind the index \<open>2 ^ 64 - 1\<close>, which there is not; and no result of the output
  side, a change of format included, ever changes the size or colour format the handle reports.\<close>

theorem InputData_ignores_errors:
  assumes "has_codec c"
  shows "(c_in mc = -1 \<and> input_buffer mc (- 1) = None \<longrightarrow> NaticeDecodec_InputData mc (Some c) data len = None) \<and>
    (\<forall>c'. NaticeDecodec_InputData mc (Some c) data len = Some (Some c') \<longrightarrow>
      nc_width c' = nc_width c \<and> nc_height c' = nc_height c \<and> color_format c' = color_format c)"
  using assms by (auto simp: NaticeDecodec_InputData_def c_memcpy_def bind_Some_iff Let_def)

theorem InputData_ignores_errors_witness:
  "NaticeDecodec_InputData \<lparr>c_in = -1, c_out = -2, input_buffer = (\<lambda>i. if i < 4 then Some (replicate 8 0) else None),
     new_format = (640, 480, 21)\<rparr> (Some (snd (NativeCodec_Create 480 640 True))) [1, 2] 2 = None"
  using InputData_ignores_errors [of "snd (NativeCodec_Create 480 640 True)"
    "\<lparr>c_in = -1, c_out = -2, input_buffer = (\<lambda>i. if i < 4 then Some (replicate 8 0) else None), new_format = (640, 480, 21)\<rparr>"]
  by (simp add: NativeCodec_Create_def)

end
