(* ===== verification/Ir_Image.thy ===== *)
theory Ir_Image
  imports Ansync_Decoder
begin

text \<open>
  The image kernels of the camera HAL session (\<open>camera_vir/device/VirtualCameraDeviceSession.cpp\<close>):
  \<open>ir_limit_max\<close>, which subtracts the black level of an infrared picture and clamps it,
  \<open>yuyv_to_nv12\<close>, the conversion by bytes, and \<open>yuyvToNv12\<close>, its variant by 32-bit words. The
  vector instructions are modelled lane by lane, memory is little-endian, and an access outside a
  buffer has no result.
\<close>

section \<open>Writing a run of bytes\<close>

definition splice :: "nat \<Rightarrow> 'a list \<Rightarrow> 'a list \<Rightarrow> 'a list" where
  "splice d xs out = take d out @ xs @ drop (d + length xs) out"

lemma length_splice [simp]: "d + length xs \<le> length out \<Longrightarrow> length (splice d xs out) = length out"
  by (simp add: splice_def)

lemma splice_Nil [simp]: "splice d [] out = out"
  by (simp add: splice_def)

lemma splice_splice:
  assumes "d + length xs \<le> length out"
  shows "splice (d + length xs) ys (splice d xs out) = splice d (xs @ ys) out"
  using assms by (simp add: splice_def ac_simps)

lemma c_write_splice: "d < length out \<Longrightarrow> c_write out (int d) v = Some (splice d [v] out)"
  by (simp add: splice_def upd_conv_take_nth_drop)

lemma c_read_nat: "i < length xs \<Longrightarrow> c_read xs (int i) = Some (xs ! i)"
  by simp

lemmas at_nat = c_write_splice c_read_nat Option.bind.simps

section \<open>Infrared pictures\<close>

definition vqsub :: "u16 \<Rightarrow> u16 \<Rightarrow> u16" where
  "vqsub a b = (if a < b then 0 else a - b)"

definition ir_lane :: "u16 \<Rightarrow> u16" where
  "ir_lane x = min (vqsub x 64) 0xFF"

text \<open>The lanes of a vector loaded from memory, and their bytes.\<close>

fun lanes :: "u8 list \<Rightarrow> u16 list" where
  "lanes (a # b # r) = (ucast a OR push_bit 8 (ucast b)) # lanes r"
| "lanes _ = []"

definition lane_bytes :: "u16 \<Rightarrow> u8 list" where
  "lane_bytes w = [ucast w, ucast (drop_bit 8 w)]"

text \<open>One pass of the loop: 16 bytes, eight lanes, at offset \<open>off\<close> of both buffers.\<close>

definition ir_block :: "u8 list \<Rightarrow> nat \<Rightarrow> u8 list \<Rightarrow> u8 list option" where
  "ir_block src off dest =
     (if off + 16 \<le> length src \<and> off + 16 \<le> length dest
      then Some (splice off (concat (map (\<lambda>x. lane_bytes (ir_lane x)) (lanes (take 16 (drop off src))))) dest)
      else None)"

primrec ir_loop :: "nat \<Rightarrow> u8 list \<Rightarrow> nat \<Rightarrow> u8 list \<Rightarrow> u8 list option" where
  "ir_loop 0 src off dest = Some dest"
| "ir_loop (Suc n) src off dest = do {
     dest \<leftarrow> ir_block src off dest;
     ir_loop n src (off + 16) dest }"

definition ir_limit_max :: "u8 list \<Rightarrow> int \<Rightarrow> u8 list \<Rightarrow> u8 list option" where
  "ir_limit_max src n dest = do {
     n \<leftarrow> c_div n 8;
     ir_loop (nat n) src 0 dest }"

section \<open>YUYV to NV12 by bytes\<close>

text \<open>The luma loop: \<open>n\<close> passes, \<open>s\<close> and \<open>d\<close> the offsets read and written next.\<close>

primrec yuyv_luma :: "nat \<Rightarrow> u8 list \<Rightarrow> nat \<Rightarrow> nat \<Rightarrow> u8 list \<Rightarrow> u8 list option" where
  "yuyv_luma 0 src s d out = Some out"
| "yuyv_luma (Suc n) src s d out = do {
     v \<leftarrow> c_read src (int s);
     out \<leftarrow> c_write out (int d) v;
     yuyv_luma n src (s + 2) (d + 1) out }"

text \<open>The chroma loop of one row: \<open>k\<close> runs to \<open>hi\<close> in steps of four.\<close>

function yuyv_chroma_row :: "u8 list \<Rightarrow> nat \<Rightarrow> nat \<Rightarrow> nat \<Rightarrow> nat \<Rightarrow> u8 list \<Rightarrow> (nat \<times> u8 list) option" where
  "yuyv_chroma_row src start k hi d out =
     (if k < hi then do {
        u \<leftarrow> c_read src (int (start + k));
        out \<leftarrow> c_write out (int d) u;
        v \<leftarrow> c_read src (int (start + k + 2));
        out \<leftarrow> c_write out (int (d + 1)) v;
        yuyv_chroma_row src start (k + 4) hi (d + 2) out }
      else Some (d, out))"
  by auto
termination by (relation "measure (\<lambda>(_, _, k, hi, _, _). hi - k)") auto

declare yuyv_chroma_row.simps [simp del]

function yuyv_chroma :: "u8 list \<Rightarrow> nat \<Rightarrow> nat \<Rightarrow> nat \<Rightarrow> nat \<Rightarrow> nat \<Rightarrow> u8 list \<Rightarrow> u8 list option" where
  "yuyv_chroma src start w h j d out =
     (if j < h then do {
        (d, out) \<leftarrow> yuyv_chroma_row src start (j * w * 2 + 1) (w * 2 * (j + 1)) d out;
        yuyv_chroma src start w h (j + 2) d out }
      else Some out)"
  by auto
termination by (relation "measure (\<lambda>(_, _, _, h, j, _, _). h - j)") auto

declare yuyv_chroma.simps [simp del]

text \<open>The two loops over the frames. \<open>start\<close> is set after the frame, from the index of the frame just
  done, so that the second frame reads the first again.\<close>

primrec yuyv_lumas :: "nat \<Rightarrow> nat \<Rightarrow> nat \<Rightarrow> u8 list \<Rightarrow> nat \<Rightarrow> nat \<Rightarrow> u8 list \<Rightarrow> u8 list option" where
  "yuyv_lumas 0 i pix src start y out = Some out"
| "yuyv_lumas (Suc n) i pix src start y out = do {
     out \<leftarrow> yuyv_luma pix src start y out;
     yuyv_lumas n (i + 1) pix src (pix * 2 * i mod 2 ^ 32) (y + pix * 3 div 2) out }"

primrec yuyv_chromas :: "nat \<Rightarrow> nat \<Rightarrow> nat \<Rightarrow> nat \<Rightarrow> u8 list \<Rightarrow> nat \<Rightarrow> nat \<Rightarrow> u8 list \<Rightarrow> u8 list option" where
  "yuyv_chromas 0 i w h src start uv out = Some out"
| "yuyv_chromas (Suc n) i w h src start uv out = do {
     out \<leftarrow> yuyv_chroma src start w h 0 uv out;
     yuyv_chromas n (i + 1) w h src (w * h * 2 * i mod 2 ^ 32) (uv + w * h * 3 div 2) out }"

text \<open>\<open>width\<close> and \<open>height\<close> are not negative here; the products on \<open>int\<close> are checked.\<close>

definition yuyv_to_nv12 :: "u8 list \<Rightarrow> u8 list \<Rightarrow> nat \<Rightarrow> nat \<Rightarrow> u64 \<Rightarrow> u8 list option" where
  "yuyv_to_nv12 image_in image_out w h filesize = do {
     pix \<leftarrow> c_int (int w * int h);
     if pix = 0 then None
     else do {
       let cycleNum = (unat filesize div nat pix div 2) mod 2 ^ 32;
       _ \<leftarrow> (if cycleNum = 0 then Some 0 else c_int (pix * 3));
       out \<leftarrow> yuyv_lumas cycleNum 0 (nat pix) image_in 0 0 image_out;
       yuyv_chromas cycleNum 0 w h image_in 0 (nat pix) out } }"

section \<open>YUYV to NV12 by words\<close>

definition read32 :: "u8 list \<Rightarrow> nat \<Rightarrow> u32 option" where
  "read32 src k = (if k + 4 \<le> length src
     then Some (ucast (src ! k) OR push_bit 8 (ucast (src ! (k + 1))) OR push_bit 16 (ucast (src ! (k + 2))) OR
       push_bit 24 (ucast (src ! (k + 3)))) else None)"

definition bytes32 :: "u32 \<Rightarrow> u8 list" where
  "bytes32 w = [ucast w, ucast (drop_bit 8 w), ucast (drop_bit 16 w), ucast (drop_bit 24 w)]"

definition write32 :: "u8 list \<Rightarrow> nat \<Rightarrow> u32 \<Rightarrow> u8 list option" where
  "write32 out k w = (if k + 4 \<le> length out then Some (splice k (bytes32 w) out) else None)"

definition uv_word :: "u32 \<Rightarrow> u32 \<Rightarrow> u32" where
  "uv_word s0 s1 = (s1 AND 0xFF000000) OR push_bit 8 (s1 AND 0x0000FF00) OR
     drop_bit 16 (s0 AND 0xFF000000) OR drop_bit 8 (s0 AND 0x0000FF00)"

definition y_word :: "u32 \<Rightarrow> u32 \<Rightarrow> u32" where
  "y_word s0 s1 = push_bit 8 (s1 AND 0x00FF0000) OR push_bit 16 (s1 AND 0x000000FF) OR
     drop_bit 8 (s0 AND 0x00FF0000) OR (s0 AND 0x000000FF)"

text \<open>The offsets of \<open>srcint\<close>, \<open>dstint_y\<close> and \<open>dstint_uv\<close>, and the destination.\<close>

type_synonym word_state = "nat \<times> nat \<times> nat \<times> u8 list"

definition word_step :: "u8 list \<Rightarrow> bool \<Rightarrow> word_state \<Rightarrow> word_state option" where
  "word_step src even_row st =
     (case st of (s, y, uv, out) \<Rightarrow> do {
        s0 \<leftarrow> read32 src s;
        s1 \<leftarrow> read32 src (s + 4);
        (uv, out) \<leftarrow> (if even_row then do {
            out \<leftarrow> write32 out uv (uv_word s0 s1);
            Some (uv + 4, out) } else Some (uv, out));
        out \<leftarrow> write32 out y (y_word s0 s1);
        Some (s + 8, y + 4, uv, out) })"

primrec word_row :: "nat \<Rightarrow> u8 list \<Rightarrow> bool \<Rightarrow> word_state \<Rightarrow> word_state option" where
  "word_row 0 src even_row st = Some st"
| "word_row (Suc n) src even_row st = do {
     st \<leftarrow> word_step src even_row st;
     word_row n src even_row st }"

primrec word_rows :: "nat \<Rightarrow> nat \<Rightarrow> nat \<Rightarrow> u8 list \<Rightarrow> word_state \<Rightarrow> word_state option" where
  "word_rows 0 i w src st = Some st"
| "word_rows (Suc n) i w src st = do {
     st \<leftarrow> word_row (w div 4) src (i mod 2 = 0) st;
     word_rows n (i + 1) w src st }"

definition PIX_FMT_NV12 :: u32 where "PIX_FMT_NV12 = 0x3231564E"

text \<open>The \<open>__aarch64__\<close> branch; any other format or a change of size does nothing.\<close>

definition yuyvToNv12 :: "u32 \<Rightarrow> u8 list \<Rightarrow> u8 list \<Rightarrow> nat \<Rightarrow> nat \<Rightarrow> nat \<Rightarrow> nat \<Rightarrow> u8 list option" where
  "yuyvToNv12 fmt src dst src_w src_h dst_w dst_h = do {
     y_size \<leftarrow> c_int (int src_w * int src_h);
     if fmt = PIX_FMT_NV12 \<and> src_w = dst_w \<and> src_h = dst_h then do {
       (s, y, uv, out) \<leftarrow> word_rows src_h 0 src_w src (0, 0, nat y_size, dst);
       Some out }
     else Some dst }"


section \<open>What the byte loops write\<close>

lemma yuyv_luma_eq:
  assumes "s + 2 * n \<le> length src + 1" "d + n \<le> length out"
  shows "yuyv_luma n src s d out = Some (splice d (map (\<lambda>p. src ! (s + 2 * p)) [0..<n]) out)"
  using assms
proof (induction n arbitrary: s d out)
  case 0
  then show ?case by simp
next
  case (Suc n)
  have up: "[0..<Suc n] = 0 # map Suc [0..<n]"
    by (simp add: upt_conv_Cons map_Suc_upt)
  have "yuyv_luma (Suc n) src s d out = yuyv_luma n src (s + 2) (d + 1) (splice d [src ! s] out)"
    using Suc.prems by (simp add: at_nat del: c_read_Some c_write_Some)
  also have "\<dots> = Some (splice (d + 1) (map (\<lambda>p. src ! (s + 2 + 2 * p)) [0..<n]) (splice d [src ! s] out))"
    using Suc.prems by (intro Suc.IH) auto
  also have "\<dots> = Some (splice d (src ! s # map (\<lambda>p. src ! (s + 2 + 2 * p)) [0..<n]) out)"
    using splice_splice [of d "[src ! s]" out] Suc.prems by simp
  finally show ?case by (simp add: up comp_def del: upt_Suc yuyv_luma.simps)
qed

text \<open>A row of chroma samples: \<open>q\<close> pairs.\<close>

definition chroma_pairs :: "u8 list \<Rightarrow> nat \<Rightarrow> nat \<Rightarrow> u8 list" where
  "chroma_pairs src k q = map (\<lambda>i. src ! (k + 2 * i)) [0..<2 * q]"

lemma length_chroma_pairs [simp]: "length (chroma_pairs src k q) = 2 * q"
  by (simp add: chroma_pairs_def)

lemma chroma_pairs_Suc: "chroma_pairs src k (Suc q) = src ! k # src ! (k + 2) # chroma_pairs src (k + 4) q"
proof -
  have "[0..<2 * Suc q] = 0 # 1 # map (\<lambda>i. i + 2) [0..<2 * q]"
    by (rule nth_equalityI) (auto simp: nth_Cons nth_append split: nat.splits)
  then show ?thesis by (simp add: chroma_pairs_def comp_def add.assoc numeral_eq_Suc del: upt_Suc mult_Suc_right)
qed

lemma yuyv_chroma_row_step:
  assumes "k < hi" "start + k + 2 < length src" "d + 1 < length out"
  shows "yuyv_chroma_row src start k hi d out =
    yuyv_chroma_row src start (k + 4) hi (d + 2) (splice d [src ! (start + k), src ! (start + k + 2)] out)"
proof -
  let ?u = "src ! (start + k)" and ?v = "src ! (start + k + 2)"
  have "c_read src (int (start + k)) = Some ?u" "c_read src (int (start + k + 2)) = Some ?v"
    by (rule c_read_nat, use assms in simp)+
  moreover have "c_write out (int d) ?u = Some (splice d [?u] out)"
    using assms by (intro c_write_splice) simp
  moreover have "c_write (splice d [?u] out) (int (d + 1)) ?v = Some (splice d [?u, ?v] out)"
    using assms splice_splice [of d "[?u]" out "[?v]"]
    by (subst c_write_splice) (auto simp del: of_nat_add)
  ultimately show ?thesis
    by (subst yuyv_chroma_row.simps) (simp only: assms(1) if_True Option.bind.simps)
qed

lemma yuyv_chroma_row_eq:
  assumes "hi \<le> k + 4 * q" "k + 4 * q < hi + 4" "start + k + 4 * q \<le> length src + 1" "d + 2 * q \<le> length out"
  shows "yuyv_chroma_row src start k hi d out = Some (d + 2 * q, splice d (chroma_pairs src (start + k) q) out)"
  using assms
proof (induction q arbitrary: k d out)
  case 0
  then show ?case by (subst yuyv_chroma_row.simps) (simp add: chroma_pairs_def)
next
  case (Suc q)
  let ?uv = "[src ! (start + k), src ! (start + k + 2)]"
  have "yuyv_chroma_row src start k hi d out =
      yuyv_chroma_row src start (k + 4) hi (d + 2) (splice d ?uv out)"
    using Suc.prems by (intro yuyv_chroma_row_step) auto
  also have "\<dots> = Some (d + 2 + 2 * q, splice (d + 2) (chroma_pairs src (start + (k + 4)) q) (splice d ?uv out))"
    using Suc.prems by (intro Suc.IH) auto
  also have "splice (d + 2) (chroma_pairs src (start + (k + 4)) q) (splice d ?uv out) =
      splice d (chroma_pairs src (start + k) (Suc q)) out"
    using splice_splice [of d ?uv out] Suc.prems by (simp add: chroma_pairs_Suc ac_simps)
  finally show ?case by simp
qed


text \<open>The chroma plane of one frame.\<close>

definition chroma_plane :: "u8 list \<Rightarrow> nat \<Rightarrow> nat \<Rightarrow> nat \<Rightarrow> u8 list" where
  "chroma_plane src start w rows = concat (map (\<lambda>r. chroma_pairs src (start + (4 * w * r + 1)) (w div 2)) [0..<rows])"

lemma length_chroma_plane [simp]: "even w \<Longrightarrow> length (chroma_plane src start w rows) = rows * w"
  by (induction rows) (auto simp: chroma_plane_def)

lemma chroma_plane_Suc:
  "chroma_plane src start w (Suc rows) =
    chroma_pairs src (start + 1) (w div 2) @ chroma_plane src (start + 4 * w) w rows"
proof -
  have "[0..<Suc rows] = 0 # map Suc [0..<rows]"
    by (simp add: upt_conv_Cons map_Suc_upt)
  then show ?thesis by (simp add: chroma_plane_def comp_def algebra_simps del: upt_Suc)
qed

lemma yuyv_chroma_eq:
  assumes "even w" "0 < w" "j + 2 * rows = h \<or> j + 2 * rows = h + 1" "start + 2 * w * h \<le> length src" "d + rows * w \<le> length out"
  shows "yuyv_chroma src start w h j d out = Some (splice d (chroma_plane src (start + 2 * w * j) w rows) out)"
  using assms(3-)
proof (induction rows arbitrary: j d out)
  case 0
  then show ?case by (subst yuyv_chroma.simps) (auto simp: chroma_plane_def)
next
  case (Suc rows)
  have j: "j < h" using Suc.prems by auto
  obtain m where w: "w = 2 * m" using assms(1) by blast
  let ?k = "j * w * 2 + 1" and ?hi = "w * 2 * (j + 1)"
  have "w * (2 * (j + 1)) \<le> w * (2 * h)" using j by (intro mult_left_mono) auto
  then have len: "start + ?hi \<le> length src" using Suc.prems(2) by (simp add: algebra_simps)
  have row: "yuyv_chroma_row src start ?k ?hi d out = Some (d + 2 * m, splice d (chroma_pairs src (start + ?k) m) out)"
  proof (rule yuyv_chroma_row_eq)
    show "?hi \<le> ?k + 4 * m" "?k + 4 * m < ?hi + 4" by (auto simp: w algebra_simps)
    show "start + ?k + 4 * m \<le> length src + 1" using len by (simp add: w algebra_simps)
    show "d + 2 * m \<le> length out" using Suc.prems by (simp add: w)
  qed
  have "yuyv_chroma src start w h j d out =
      yuyv_chroma src start w h (j + 2) (d + 2 * m) (splice d (chroma_pairs src (start + ?k) m) out)"
    by (subst yuyv_chroma.simps) (simp add: j row del: One_nat_def)
  also have "\<dots> = Some (splice (d + 2 * m) (chroma_plane src (start + 2 * w * (j + 2)) w rows)
      (splice d (chroma_pairs src (start + ?k) m) out))"
    using Suc.prems by (intro Suc.IH) (auto simp: w)
  also have "\<dots> = Some (splice d (chroma_pairs src (start + ?k) m @ chroma_plane src (start + 2 * w * (j + 2)) w rows) out)"
    using splice_splice [of d "chroma_pairs src (start + ?k) m" out] Suc.prems by (simp add: w)
  also have "chroma_pairs src (start + ?k) m @ chroma_plane src (start + 2 * w * (j + 2)) w rows =
      chroma_plane src (start + 2 * w * j) w (Suc rows)"
    by (simp add: chroma_plane_Suc w algebra_simps)
  finally show ?case .
qed

lemma nth_splice:
  "d + length xs \<le> length out \<Longrightarrow> k < length out \<Longrightarrow>
    splice d xs out ! k = (if d \<le> k \<and> k < d + length xs then xs ! (k - d) else out ! k)"
  by (auto simp: splice_def nth_append)

text \<open>Both loops over the frames have the same form.\<close>

primrec frames :: "(nat \<Rightarrow> nat \<Rightarrow> u8 list \<Rightarrow> u8 list option) \<Rightarrow> nat \<Rightarrow> nat \<Rightarrow> nat \<Rightarrow> nat \<Rightarrow> nat \<Rightarrow> u8 list \<Rightarrow> u8 list option" where
  "frames step 0 i pix start y out = Some out"
| "frames step (Suc n) i pix start y out = do {
     out \<leftarrow> step start y out;
     frames step n (i + 1) pix (pix * 2 * i mod 2 ^ 32) (y + pix * 3 div 2) out }"

lemma yuyv_lumas_frames: "yuyv_lumas n i pix src start y out = frames (yuyv_luma pix src) n i pix start y out"
  by (induction n arbitrary: i start y out) auto

lemma yuyv_chromas_frames:
  "yuyv_chromas n i w h src start y out = frames (\<lambda>start. yuyv_chroma src start w h 0) n i (w * h) start y out"
  by (induction n arbitrary: i start y out) auto

definition frame_start :: "nat \<Rightarrow> nat \<Rightarrow> nat \<Rightarrow> nat \<Rightarrow> nat" where
  "frame_start start i pix f = (if f = 0 then start else pix * 2 * (i + f - 1))"


lemma frames_ok:
  assumes step: "\<And>st y out. st + 2 * pix \<le> N \<Longrightarrow> y + L \<le> length out \<Longrightarrow> step st y out = Some (splice y (g st) out)"
    and g: "\<And>st. length (g st) = L" and L: "L \<le> F" and F: "F = pix * 3 div 2" and N: "N < 2 ^ 32"
    and "start + 2 * pix \<le> N" "pix * 2 * (i + n) \<le> N" "n = 0 \<or> y + (n - 1) * F + L \<le> length out"
  shows "\<exists>out'. frames step n i pix start y out = Some out' \<and> length out' = length out \<and>
    (\<forall>f < n. take L (drop (y + f * F) out') = g (frame_start start i pix f)) \<and>
    (\<forall>k < length out. (\<forall>f < n. k < y + f * F \<or> y + f * F + L \<le> k) \<longrightarrow> out' ! k = out ! k)"
  using assms(6-)
proof (induction n arbitrary: i start y out)
  case 0
  then show ?case by simp
next
  case (Suc n)
  let ?out = "splice y (g start) out" and ?st = "pix * 2 * i"
  have room: "y + n * F + L \<le> length out" using Suc.prems by simp
  then have here: "y + L \<le> length out" by simp
  have st: "?st + 2 * pix \<le> N" using Suc.prems(2) by (simp add: algebra_simps)
  then have "?st < 2 ^ 32" using N by linarith
  then have mod: "?st mod 2 ^ 32 = ?st" by simp
  have "\<exists>out'. frames step n (i + 1) pix ?st (y + F) ?out = Some out' \<and> length out' = length ?out \<and>
    (\<forall>f < n. take L (drop (y + F + f * F) out') = g (frame_start ?st (i + 1) pix f)) \<and>
    (\<forall>k < length ?out. (\<forall>f < n. k < y + F + f * F \<or> y + F + f * F + L \<le> k) \<longrightarrow> out' ! k = ?out ! k)"
  proof (rule Suc.IH)
    show "?st + 2 * pix \<le> N" by (rule st)
    show "pix * 2 * (i + 1 + n) \<le> N" using Suc.prems(2) by (simp add: algebra_simps)
    show "n = 0 \<or> y + F + (n - 1) * F + L \<le> length ?out"
      using room here by (cases n) (auto simp: g algebra_simps)
  qed
  then obtain out' where run: "frames step n (i + 1) pix ?st (y + F) ?out = Some out'" and len: "length out' = length out"
    and segs: "\<And>f. f < n \<Longrightarrow> take L (drop (y + F + f * F) out') = g (frame_start ?st (i + 1) pix f)"
    and keep: "\<And>k. k < length out \<Longrightarrow> (\<forall>f < n. k < y + F + f * F \<or> y + F + f * F + L \<le> k) \<Longrightarrow> out' ! k = ?out ! k"
    using here by (auto simp: g)
  have "take L (drop y out') = g start"
  proof (rule nth_equalityI)
    show "length (take L (drop y out')) = length (g start)" using here by (simp add: g len)
  next
    fix p assume "p < length (take L (drop y out'))"
    then have p: "p < L" "y + p < length out" by (auto simp: len)
    then have "out' ! (y + p) = ?out ! (y + p)" using L by (intro keep) auto
    then show "take L (drop y out') ! p = g start ! p" using p here by (simp add: nth_splice g len)
  qed
  moreover have "frame_start ?st (i + 1) pix f = frame_start start i pix (Suc f)" for f
    by (simp add: frame_start_def)
  ultimately have all: "take L (drop (y + f * F) out') = g (frame_start start i pix f)" if "f < Suc n" for f
    using that segs [of "f - 1"] by (cases f) (auto simp: frame_start_def algebra_simps)
  have "out' ! k = out ! k" if "k < length out" "\<forall>f < Suc n. k < y + f * F \<or> y + f * F + L \<le> k" for k
  proof -
    have "\<forall>f < n. k < y + F + f * F \<or> y + F + f * F + L \<le> k"
    proof (intro allI impI)
      fix f assume "f < n"
      then show "k < y + F + f * F \<or> y + F + f * F + L \<le> k"
        using that(2) [rule_format, of "Suc f"] by (simp add: add.assoc)
    qed
    then have "out' ! k = ?out ! k" using that(1) by (rule keep [rotated])
    moreover have "k < y \<or> y + L \<le> k" using that(2) by (auto dest: spec [where x = 0])
    ultimately show ?thesis using that(1) here by (auto simp: nth_splice g)
  qed
  moreover have "frames step (Suc n) i pix start y out = Some out'"
    using step [OF Suc.prems(1) here] run by (simp only: frames.simps Option.bind.simps mod F)
  ultimately show ?case using len all by blast
qed


section \<open>The conversion computes NV12\<close>

text \<open>The reference: byte \<open>i\<close> of the NV12 picture of the YUYV picture at offset \<open>start\<close>. A pixel takes
  two bytes there, luma first; the chroma of the even rows is kept.\<close>

definition nv12_byte :: "u8 list \<Rightarrow> nat \<Rightarrow> nat \<Rightarrow> nat \<Rightarrow> nat \<Rightarrow> u8" where
  "nv12_byte src start w h i =
     (if i < w * h then src ! (start + 2 * i)
      else src ! (start + 4 * w * ((i - w * h) div w) + 2 * ((i - w * h) mod w) + 1))"

definition nv12_picture :: "u8 list \<Rightarrow> nat \<Rightarrow> nat \<Rightarrow> nat \<Rightarrow> u8 list" where
  "nv12_picture src start w h = map (nv12_byte src start w h) [0..<w * h + w * h div 2]"

lemma nth_chroma_plane:
  assumes "even w" "0 < w" "c < rows * w"
  shows "chroma_plane src start w rows ! c = src ! (start + 4 * w * (c div w) + 2 * (c mod w) + 1)"
  using assms(3)
proof (induction rows arbitrary: start c)
  case 0
  then show ?case by simp
next
  case (Suc rows)
  have two: "2 * (w div 2) = w" using assms(1) by simp
  show ?case
  proof (cases "c < w")
    case True
    then show ?thesis using two by (simp add: chroma_plane_Suc nth_append chroma_pairs_def)
  next
    case False
    then have "c - w < rows * w" using Suc.prems by simp
    moreover have "c div w = Suc ((c - w) div w)" "c mod w = (c - w) mod w"
      using False assms(2) by (auto simp: le_div_geq le_mod_geq)
    ultimately show ?thesis using False two Suc.IH [of "c - w" "start + 4 * w"]
      by (simp add: chroma_plane_Suc nth_append algebra_simps)
  qed
qed

lemma nv12_planes:
  assumes "even w" "0 < w" "even h"
  shows "nv12_picture src start w h = map (\<lambda>p. src ! (start + 2 * p)) [0..<w * h] @ chroma_plane src start w (h div 2)"
proof (rule nth_equalityI)
  have half: "h div 2 * w = w * h div 2" using assms by (auto elim!: evenE)
  show "length (nv12_picture src start w h) =
      length (map (\<lambda>p. src ! (start + 2 * p)) [0..<w * h] @ chroma_plane src start w (h div 2))"
    using assms by (simp add: nv12_picture_def half)
  fix i assume "i < length (nv12_picture src start w h)"
  then have i: "i < w * h + w * h div 2" by (simp add: nv12_picture_def)
  show "nv12_picture src start w h ! i =
      (map (\<lambda>p. src ! (start + 2 * p)) [0..<w * h] @ chroma_plane src start w (h div 2)) ! i"
  proof (cases "i < w * h")
    case True
    then show ?thesis by (simp add: nv12_picture_def nth_append nv12_byte_def)
  next
    case False
    then have "i - w * h < h div 2 * w" using i by (simp add: half)
    then show ?thesis using False i assms by (simp add: nv12_picture_def nth_append nv12_byte_def nth_chroma_plane)
  qed
qed

lemma take_drop_append:
  "take a (drop d xs) = ys \<Longrightarrow> take b (drop (d + a) xs) = zs \<Longrightarrow> a \<le> length ys \<Longrightarrow> take (a + b) (drop d xs) = ys @ zs"
  by (simp add: take_add add.commute)

lemma yuyv_frames:
  assumes even: "even w" "even h" and pos: "0 < w" "0 < h" and size: "w * h * 3 < 2 ^ 31" "length src < 2 ^ 32"
    and fsz: "unat filesize = 2 * (w * h) * n + rest" "rest < 2 * (w * h)" "2 * (w * h) * n \<le> length src"
    and out: "length out = n * (w * h * 3 div 2)"
  shows "\<exists>out'. yuyv_to_nv12 src out w h filesize = Some out' \<and> length out' = length out \<and>
    (\<forall>f < n. take (w * h * 3 div 2) (drop (f * (w * h * 3 div 2)) out') = nv12_picture src (2 * (w * h) * (f - 1)) w h)"
proof -
  have "int (w * h * 3) < int (2 ^ 31)" using size(1) by (simp only: of_nat_less_iff)
  moreover have "0 \<le> int w * int h" by simp
  ultimately have pix: "int w * int h * 3 < 2147483648" "- 2147483648 \<le> int w * int h" "- 2147483648 \<le> int w * int h * 3"
    by (simp, linarith, linarith)
  show ?thesis
proof (cases n)
  case 0
  then have "unat filesize div (w * h) div 2 = 0" using fsz(1,2) by (simp add: div_mult2_eq [symmetric] mult.commute)
  then show ?thesis using pos size(1) pix by (simp add: yuyv_to_nv12_def c_int_def in_int_def 0 nat_mult_distrib)
next
  case (Suc m)
  define F where "F = w * h * 3 div 2"
  have half: "h div 2 * w = w * h div 2" using even by (auto elim!: evenE)
  have F: "F = w * h + h div 2 * w" using even by (auto simp: F_def elim!: evenE)
  have cyc: "unat filesize div (w * h) div 2 mod 2 ^ 32 = n"
  proof -
    have "unat filesize div (w * h) div 2 = n"
      using fsz(1,2) pos by (simp add: div_mult2_eq [symmetric] mult.commute)
    moreover have "1 * n \<le> 2 * (w * h) * n" using pos by (intro mult_le_mono1) simp
    then have "n < 2 ^ 32" using fsz(3) size(2) by linarith
    ultimately show ?thesis by simp
  qed
  have one: "2 * (w * h) \<le> length src" using fsz(3) Suc by simp
  let ?luma = "\<lambda>st. map (\<lambda>p. src ! (st + 2 * p)) [0..<w * h]" and ?chroma = "\<lambda>st. chroma_plane src st w (h div 2)"
  have starts: "frame_start 0 0 (w * h) f = 2 * (w * h) * (f - 1)" for f
    by (cases f) (auto simp: frame_start_def)
  have lumas: "\<exists>out'. frames (yuyv_luma (w * h) src) n 0 (w * h) 0 0 out = Some out' \<and> length out' = length out \<and>
    (\<forall>f < n. take (w * h) (drop (0 + f * F) out') = ?luma (frame_start 0 0 (w * h) f)) \<and>
    (\<forall>k < length out. (\<forall>f < n. k < 0 + f * F \<or> 0 + f * F + w * h \<le> k) \<longrightarrow> out' ! k = out ! k)"
  proof (rule frames_ok [where N = "length src" and F = F])
    show "w * h \<le> F" "F = w * h * 3 div 2" by (auto simp: F F_def [symmetric])
    show "n = 0 \<or> 0 + (n - 1) * F + w * h \<le> length out" using out by (simp add: Suc F_def [symmetric] F)
  qed (use one fsz size in \<open>auto simp: yuyv_luma_eq ac_simps\<close>)
  then obtain out1 where run1: "yuyv_lumas n 0 (w * h) src 0 0 out = Some out1" and len1: "length out1 = length out"
    and seg1: "\<And>f. f < n \<Longrightarrow> take (w * h) (drop (f * F) out1) = ?luma (2 * (w * h) * (f - 1))"
    by (auto simp: yuyv_lumas_frames starts)
  have "\<exists>out'. frames (\<lambda>start. yuyv_chroma src start w h 0) n 0 (w * h) 0 (w * h) out1 = Some out' \<and> length out' = length out1 \<and>
    (\<forall>f < n. take (h div 2 * w) (drop (w * h + f * F) out') = ?chroma (frame_start 0 0 (w * h) f)) \<and>
    (\<forall>k < length out1. (\<forall>f < n. k < w * h + f * F \<or> w * h + f * F + h div 2 * w \<le> k) \<longrightarrow> out' ! k = out1 ! k)"
  proof (rule frames_ok [where N = "length src" and F = F])
    fix st y :: nat and out :: "u8 list" assume "st + 2 * (w * h) \<le> length src" "y + h div 2 * w \<le> length out"
    then show "yuyv_chroma src st w h 0 y out = Some (splice y (?chroma st) out)"
      using yuyv_chroma_eq [of w 0 "h div 2" h st src y out] even pos by (simp add: ac_simps)
  qed (use one fsz size even out in \<open>auto simp: F F_def [symmetric] Suc len1 ac_simps\<close>)
  then obtain out2 where run2: "yuyv_chromas n 0 w h src 0 (w * h) out1 = Some out2" and len2: "length out2 = length out"
    and seg2: "\<And>f. f < n \<Longrightarrow> take (h div 2 * w) (drop (w * h + f * F) out2) = ?chroma (2 * (w * h) * (f - 1))"
    and keep: "\<And>k. k < length out \<Longrightarrow> (\<forall>f < n. k < w * h + f * F \<or> w * h + f * F + h div 2 * w \<le> k) \<Longrightarrow> out2 ! k = out1 ! k"
    by (auto simp: yuyv_chromas_frames starts len1)
  have "take F (drop (f * F) out2) = nv12_picture src (2 * (w * h) * (f - 1)) w h" if f: "f < n" for f
  proof -
    have room: "f * F + F \<le> length out"
      using mult_le_mono1 [of "Suc f" n F] f out by (simp add: F_def [symmetric])
    have "take (w * h) (drop (f * F) out2) = take (w * h) (drop (f * F) out1)"
    proof (rule nth_equalityI)
      fix p assume "p < length (take (w * h) (drop (f * F) out2))"
      then have p: "p < w * h" "f * F + p < length out" by (auto simp: len2)
      have "f * F + p < w * h + g * F \<or> w * h + g * F + h div 2 * w \<le> f * F + p" if "g < n" for g
      proof (cases "f \<le> g")
        case True
        then have "f * F \<le> g * F" by simp
        then show ?thesis using p by linarith
      next
        case False
        then have "Suc g * F \<le> f * F" by (intro mult_le_mono1) simp
        then show ?thesis by (simp add: F)
      qed
      then show "take (w * h) (drop (f * F) out2) ! p = take (w * h) (drop (f * F) out1) ! p"
        using p keep [of "f * F + p"] by (simp add: len1 len2)
    qed (simp add: len1 len2)
    then have "take (w * h + h div 2 * w) (drop (f * F) out2) =
        ?luma (2 * (w * h) * (f - 1)) @ ?chroma (2 * (w * h) * (f - 1))"
      using f seg1 seg2 by (intro take_drop_append) (auto simp: add.commute)
    then show ?thesis using even pos by (simp add: F nv12_planes)
  qed
  then show ?thesis
    using pos pix cyc run1 run2 len2 Suc
    by (simp add: yuyv_to_nv12_def c_int_def in_int_def nat_mult_distrib F_def)
qed
qed


section \<open>The word routine equals the byte routine\<close>

lemma byte_masks:
  "(0x000000FF :: u32) = mask 8" "(0x0000FF00 :: u32) = push_bit 8 (mask 8)"
  "(0x00FF0000 :: u32) = push_bit 16 (mask 8)" "(0xFF000000 :: u32) = push_bit 24 (mask 8)"
  by (simp_all add: mask_eq_exp_minus_1)

definition word_of_bytes :: "u8 \<Rightarrow> u8 \<Rightarrow> u8 \<Rightarrow> u8 \<Rightarrow> u32" where
  "word_of_bytes a b c d = ucast a OR push_bit 8 (ucast b) OR push_bit 16 (ucast c) OR push_bit 24 (ucast d)"

lemma no_high_bits: "\<not> bit (a :: u8) (8 + n)" "\<not> bit (a :: u8) (16 + n)" "\<not> bit (a :: u8) (24 + n)"
  by (auto dest: bit_imp_le_length)

lemma bytes_uv_word:
  "bytes32 (uv_word (word_of_bytes a b c d) (word_of_bytes e f g h)) = [b, d, f, h]"
  unfolding bytes32_def uv_word_def word_of_bytes_def byte_masks
  by (auto intro!: bit_word_eqI simp: bit_simps no_high_bits)

lemma bytes_y_word:
  "bytes32 (y_word (word_of_bytes a b c d) (word_of_bytes e f g h)) = [a, c, e, g]"
  unfolding bytes32_def y_word_def word_of_bytes_def byte_masks
  by (auto intro!: bit_word_eqI simp: bit_simps no_high_bits)


lemma read32_bytes:
  "k + 4 \<le> length src \<Longrightarrow>
    read32 src k = Some (word_of_bytes (src ! k) (src ! (k + 1)) (src ! (k + 2)) (src ! (k + 3)))"
  by (simp add: read32_def word_of_bytes_def)

text \<open>The destination after \<open>ys\<close> has been written at the front and \<open>uvs\<close> behind the luma plane.\<close>

definition planes_out :: "nat \<Rightarrow> u8 list \<Rightarrow> u8 list \<Rightarrow> u8 list \<Rightarrow> u8 list" where
  "planes_out pix out ys uvs = splice 0 ys (splice pix uvs out)"

lemma splice_commute:
  assumes "d + length xs \<le> e" "e + length ys \<le> length out"
  shows "splice d xs (splice e ys out) = splice e ys (splice d xs out)"
  using assms by (intro nth_equalityI) (auto simp: nth_splice)

lemma planes_out_y:
  assumes "length ys + length new \<le> pix" "pix + length uvs \<le> length out"
  shows "splice (length ys) new (planes_out pix out ys uvs) = planes_out pix out (ys @ new) uvs"
  using assms splice_splice [of 0 ys "splice pix uvs out" new] by (simp add: planes_out_def)

lemma planes_out_uv:
  assumes "length ys \<le> pix" "pix + length uvs + length new \<le> length out"
  shows "splice (pix + length uvs) new (planes_out pix out ys uvs) = planes_out pix out ys (uvs @ new)"
  using assms splice_splice [of pix uvs out new] splice_commute [of 0 ys "pix + length uvs" new "splice pix uvs out"]
  by (simp add: planes_out_def)

lemma length_planes_out [simp]:
  "length ys \<le> length out \<Longrightarrow> pix + length uvs \<le> length out \<Longrightarrow> length (planes_out pix out ys uvs) = length out"
  by (simp add: planes_out_def)

lemma length_bytes32 [simp]: "length (bytes32 w) = 4"
  by (simp add: bytes32_def)

text \<open>The samples of four pixels at \<open>s\<close>, every second byte.\<close>

definition every_second :: "u8 list \<Rightarrow> nat \<Rightarrow> nat \<Rightarrow> u8 list" where
  "every_second src s n = map (\<lambda>p. src ! (s + 2 * p)) [0..<n]"

lemma length_every_second [simp]: "length (every_second src s n) = n"
  by (simp add: every_second_def)

lemma every_second_add: "every_second src s (a + b) = every_second src s a @ every_second src (s + 2 * a) b"
  unfolding every_second_def by (rule nth_equalityI) (auto simp: nth_append algebra_simps)

lemma every_second_4: "every_second src s 4 = [src ! s, src ! (s + 2), src ! (s + 4), src ! (s + 6)]"
  by (simp add: every_second_def upt_rec)

lemma word_step_eq:
  assumes "s + 8 \<le> length src" "length ys + 4 \<le> pix" "pix + length uvs + (if ev then 4 else 0) \<le> length out"
  shows "word_step src ev (s, length ys, pix + length uvs, planes_out pix out ys uvs) =
    Some (s + 8, length ys + 4, pix + length uvs + (if ev then 4 else 0),
      planes_out pix out (ys @ every_second src s 4) (uvs @ (if ev then every_second src (s + 1) 4 else [])))"
proof -
  let ?s0 = "word_of_bytes (src ! s) (src ! (s + 1)) (src ! (s + 2)) (src ! (s + 3))"
  let ?s1 = "word_of_bytes (src ! (s + 4)) (src ! (s + 4 + 1)) (src ! (s + 4 + 2)) (src ! (s + 4 + 3))"
  have "read32 src s = Some ?s0" "read32 src (s + 4) = Some ?s1"
    using assms by (auto simp only: intro!: read32_bytes)
  moreover have "bytes32 (y_word ?s0 ?s1) = every_second src s 4" "bytes32 (uv_word ?s0 ?s1) = every_second src (s + 1) 4"
    unfolding bytes_y_word bytes_uv_word every_second_4 by (simp_all add: numeral_eq_Suc)
  ultimately obtain s0 s1 where "read32 src s = Some s0" "read32 src (s + 4) = Some s1"
    "bytes32 (y_word s0 s1) = every_second src s 4" "bytes32 (uv_word s0 s1) = every_second src (s + 1) 4" by blast
  then show ?thesis using assms
    by (cases ev) (simp_all add: word_step_def write32_def planes_out_uv planes_out_y)
qed

lemma word_row_eq:
  assumes "s + 8 * m \<le> length src" "length ys + 4 * m \<le> pix" "pix + length uvs + (if ev then 4 * m else 0) \<le> length out"
  shows "word_row m src ev (s, length ys, pix + length uvs, planes_out pix out ys uvs) =
    Some (s + 8 * m, length ys + 4 * m, pix + length uvs + (if ev then 4 * m else 0),
      planes_out pix out (ys @ every_second src s (4 * m)) (uvs @ (if ev then every_second src (s + 1) (4 * m) else [])))"
  using assms
proof (induction m arbitrary: s ys uvs)
  case 0
  then show ?case by (simp add: every_second_def)
next
  case (Suc m)
  let ?ys = "ys @ every_second src s 4" and ?uvs = "uvs @ (if ev then every_second src (s + 1) 4 else [])"
  have "word_row m src ev (s + 8, length ?ys, pix + length ?uvs, planes_out pix out ?ys ?uvs) =
    Some (s + 8 + 8 * m, length ?ys + 4 * m, pix + length ?uvs + (if ev then 4 * m else 0),
      planes_out pix out (?ys @ every_second src (s + 8) (4 * m))
        (?uvs @ (if ev then every_second src (s + 8 + 1) (4 * m) else [])))"
    using Suc.prems by (intro Suc.IH) auto
  then show ?case
    using Suc.prems word_step_eq [of s src ys pix uvs ev out] every_second_add [of src s 4 "4 * m"]
      every_second_add [of src "s + 1" 4 "4 * m"]
    by (cases ev) (simp_all add: ac_simps)
qed

lemma chroma_pairs_every_second: "chroma_pairs src k q = every_second src k (2 * q)"
  by (simp add: chroma_pairs_def every_second_def)

lemma word_rows_eq:
  assumes "w = 4 * m" "even i" "s + 4 * w * k \<le> length src" "length ys + 2 * w * k \<le> pix" "pix + length uvs + w * k \<le> length out"
  shows "word_rows (2 * k) i w src (s, length ys, pix + length uvs, planes_out pix out ys uvs) =
    Some (s + 4 * w * k, length ys + 2 * w * k, pix + length uvs + w * k,
      planes_out pix out (ys @ every_second src s (2 * w * k)) (uvs @ chroma_plane src s w k))"
  using assms(2-)
proof (induction k arbitrary: i s ys uvs)
  case 0
  then show ?case by (simp add: every_second_def chroma_plane_def)
next
  case (Suc k)
  let ?y1 = "ys @ every_second src s w" and ?u1 = "uvs @ every_second src (s + 1) w"
  let ?y2 = "?y1 @ every_second src (s + 2 * w) w"
  have p: "s + 4 * w + 4 * w * k \<le> length src" "length ys + 2 * w + 2 * w * k \<le> pix" "pix + length uvs + w + w * k \<le> length out"
    using Suc.prems by (auto simp: algebra_simps)
  have even_row: "word_row m src True (s, length ys, pix + length uvs, planes_out pix out ys uvs) =
      Some (s + 2 * w, length ?y1, pix + length ?u1, planes_out pix out ?y1 ?u1)"
    using p word_row_eq [of s m src ys pix uvs True out] by (simp add: assms(1) mult.assoc)
  have odd_row: "word_row m src False (s + 2 * w, length ?y1, pix + length ?u1, planes_out pix out ?y1 ?u1) =
      Some (s + 4 * w, length ?y2, pix + length ?u1, planes_out pix out ?y2 ?u1)"
    using p word_row_eq [of "s + 2 * w" m src ?y1 pix ?u1 False out] by (simp add: assms(1) mult.assoc)
  have rest: "word_rows (2 * k) (i + 2) w src (s + 4 * w, length ?y2, pix + length ?u1, planes_out pix out ?y2 ?u1) =
    Some (s + 4 * w + 4 * w * k, length ?y2 + 2 * w * k, pix + length ?u1 + w * k,
      planes_out pix out (?y2 @ every_second src (s + 4 * w) (2 * w * k)) (?u1 @ chroma_plane src (s + 4 * w) w k))"
    using p Suc.prems(1) by (intro Suc.IH) auto
  have par: "(i mod 2 = 0) = True" "((i + 1) mod 2 = 0) = False" and m: "w div 4 = m"
    using Suc.prems(1) assms(1) by presburger+
  have "2 * Suc k = Suc (Suc (2 * k))" by simp
  then have "word_rows (2 * Suc k) i w src (s, length ys, pix + length uvs, planes_out pix out ys uvs) =
      word_rows (2 * k) (i + 2) w src (s + 4 * w, length ?y2, pix + length ?u1, planes_out pix out ?y2 ?u1)"
    by (simp only: word_rows.simps m par even_row odd_row Option.bind.simps) simp
  moreover have "every_second src s (2 * w * Suc k) =
      every_second src s w @ every_second src (s + 2 * w) w @ every_second src (s + 4 * w) (2 * w * k)"
    using every_second_add [of src s w "w + 2 * w * k"] every_second_add [of src "s + 2 * w" w "2 * w * k"]
    by (simp add: algebra_simps)
  ultimately show ?case using rest
    by (simp add: chroma_plane_Suc chroma_pairs_every_second assms(1) algebra_simps)
qed


lemma word_routine:
  assumes "w = 4 * m" "h = 2 * k" "w * h < 2 ^ 31" "2 * (w * h) \<le> length src" "w * h + w * k \<le> length out"
  shows "yuyvToNv12 PIX_FMT_NV12 src out w h w h = Some (splice 0 (every_second src 0 (w * h) @ chroma_plane src 0 w k) out)"
proof -
  have rows: "word_rows (2 * k) 0 w src (0, length ([] :: u8 list), w * h + length ([] :: u8 list), planes_out (w * h) out [] []) =
    Some (0 + 4 * w * k, length ([] :: u8 list) + 2 * w * k, w * h + length ([] :: u8 list) + w * k,
      planes_out (w * h) out ([] @ every_second src 0 (2 * w * k)) ([] @ chroma_plane src 0 w k))"
    using assms by (intro word_rows_eq) auto
  have "int (w * h) < int (2 ^ 31)" using assms(3) by (simp only: of_nat_less_iff)
  moreover have "0 \<le> int w * int h" by simp
  ultimately have "int w * int h < 2147483648" "- 2147483648 \<le> int w * int h" by (simp, linarith)
  then have size: "c_int (int w * int h) = Some (int (w * h))"
    by (intro c_int_Some [THEN trans]) (auto simp: in_int_def)
  have "splice 0 (every_second src 0 (w * h)) (splice (w * h) (chroma_plane src 0 w k) out) =
      splice (w * h) (chroma_plane src 0 w k) (splice 0 (every_second src 0 (w * h)) out)"
    using assms by (intro splice_commute) (auto simp: mult.commute)
  also have "\<dots> = splice 0 (every_second src 0 (w * h) @ chroma_plane src 0 w k) out"
    using splice_splice [of 0 "every_second src 0 (w * h)" out] assms(5) by simp
  finally show ?thesis
    using rows size assms(2) by (simp add: yuyvToNv12_def planes_out_def mult.commute mult.left_commute nat_mult_distrib)
qed

lemma byte_routine:
  assumes "w = 4 * m" "h = 2 * k" "w * h * 3 < 2 ^ 31" "2 * (w * h) \<le> length src" "w * h + w * k \<le> length out"
    and "unat filesize = 2 * (w * h)" "0 < w" "0 < h"
  shows "yuyv_to_nv12 src out w h filesize = Some (splice 0 (every_second src 0 (w * h) @ chroma_plane src 0 w k) out)"
proof -
  have room: "w * h \<le> length out" using assms(5) by linarith
  have cyc: "unat filesize div (w * h) div 2 mod 2 ^ 32 = 1" using assms by simp
  have "int (w * h * 3) < int (2 ^ 31)" using assms(3) by (simp only: of_nat_less_iff)
  moreover have "0 \<le> int w * int h" by simp
  ultimately have "int w * int h * 3 < 2147483648" "- 2147483648 \<le> int w * int h" "- 2147483648 \<le> int w * int h * 3"
    by (simp, linarith, linarith)
  moreover have "yuyv_luma (w * h) src 0 0 out = Some (splice 0 (every_second src 0 (w * h)) out)"
    using yuyv_luma_eq [of 0 "w * h" src 0 out] assms(4) room by (simp add: every_second_def)
  moreover have "yuyv_chroma src 0 w h 0 (w * h) (splice 0 (every_second src 0 (w * h)) out) =
      Some (splice (w * h) (chroma_plane src 0 w k) (splice 0 (every_second src 0 (w * h)) out))"
    using assms yuyv_chroma_eq [of w 0 k h 0 src "w * h" "splice 0 (every_second src 0 (w * h)) out"]
    by (simp add: mult.commute mult.left_commute)
  moreover have "splice (w * h) (chroma_plane src 0 w k) (splice 0 (every_second src 0 (w * h)) out) =
      splice 0 (every_second src 0 (w * h) @ chroma_plane src 0 w k) out"
    using splice_splice [of 0 "every_second src 0 (w * h)" out] room by simp
  ultimately show ?thesis using cyc assms(7,8)
    by (simp add: yuyv_to_nv12_def c_int_def in_int_def nat_mult_distrib)
qed

section \<open>What the infrared filter writes\<close>

definition sample16 :: "u8 list \<Rightarrow> nat \<Rightarrow> u16" where
  "sample16 src k = ucast (src ! (2 * k)) OR push_bit 8 (ucast (src ! (2 * k + 1)))"

lemma lanes_append: "even (length xs) \<Longrightarrow> lanes (xs @ ys) = lanes xs @ lanes ys"
  by (induction xs rule: lanes.induct) auto

lemma lanes_samples: "lanes xs = map (sample16 xs) [0..<length xs div 2]"
proof (induction xs rule: lanes.induct)
  case (1 a b r)
  have "[0..<Suc (length r div 2)] = 0 # map Suc [0..<length r div 2]"
    by (simp add: upt_conv_Cons map_Suc_upt)
  then show ?case by (simp add: 1 sample16_def comp_def del: upt_Suc)
qed (auto simp: sample16_def)

definition ir_bytes :: "u8 list \<Rightarrow> u8 list" where
  "ir_bytes xs = concat (map (\<lambda>x. lane_bytes (ir_lane x)) (lanes xs))"

lemma length_ir_bytes [simp]: "even (length xs) \<Longrightarrow> length (ir_bytes xs) = length xs"
  by (induction xs rule: lanes.induct) (auto simp: ir_bytes_def lane_bytes_def)

lemma ir_loop_eq:
  assumes "off + 16 * n \<le> length src" "off + 16 * n \<le> length dest"
  shows "ir_loop n src off dest = Some (splice off (ir_bytes (take (16 * n) (drop off src))) dest)"
  using assms
proof (induction n arbitrary: off dest)
  case 0
  then show ?case by (simp add: ir_bytes_def)
next
  case (Suc n)
  let ?a = "take 16 (drop off src)" and ?b = "take (16 * n) (drop (off + 16) src)"
  have split: "take (16 * Suc n) (drop off src) = ?a @ ?b"
    using take_add [of 16 "16 * n" "drop off src"] by (simp add: add.commute)
  have "ir_loop (Suc n) src off dest = ir_loop n src (off + 16) (splice off (ir_bytes ?a) dest)"
    using Suc.prems by (simp add: ir_block_def ir_bytes_def)
  also have "\<dots> = Some (splice (off + 16) (ir_bytes ?b) (splice off (ir_bytes ?a) dest))"
    using Suc.prems by (intro Suc.IH) auto
  also have "\<dots> = Some (splice off (ir_bytes ?a @ ir_bytes ?b) dest)"
    using splice_splice [of off "ir_bytes ?a" dest] Suc.prems by simp
  also have "ir_bytes ?a @ ir_bytes ?b = ir_bytes (?a @ ?b)"
    using Suc.prems by (simp add: ir_bytes_def lanes_append)
  finally show ?case by (simp only: split)
qed

text \<open>The filter handles the samples in blocks of eight: each of them loses 64, stopping at zero, and is
  limited to 255; the samples after the last full block are not written.\<close>

theorem ir_limit_max_samples:
  assumes "0 \<le> n" "n < 2 ^ 31" "16 * (nat n div 8) \<le> length src" "length src \<le> length dest"
  shows "ir_limit_max src n dest =
      Some (splice 0 (concat (map (\<lambda>k. lane_bytes (ir_lane (sample16 src k))) [0..<8 * (nat n div 8)])) dest) \<and>
    unat (ir_lane x) = min (unat x - 64) 255"
proof
  let ?m = "nat n div 8"
  have "c_div n 8 = Some (n div 8)" using assms(1,2)
    by (cases "n = 0") (auto simp: c_div_def c_int_def in_int_def)
  moreover have "nat (n div 8) = ?m" using assms(1) by (simp add: nat_div_distrib)
  moreover have "lanes (take (16 * ?m) src) = map (sample16 src) [0..<8 * ?m]"
    using assms(3) by (auto simp: lanes_samples sample16_def)
  ultimately show "ir_limit_max src n dest =
      Some (splice 0 (concat (map (\<lambda>k. lane_bytes (ir_lane (sample16 src k))) [0..<8 * ?m])) dest)"
    using assms(3,4) ir_loop_eq [of 0 ?m src dest] by (simp add: ir_limit_max_def ir_bytes_def comp_def)
  show "unat (ir_lane x) = min (unat x - 64) 255"
    by (auto simp: ir_lane_def vqsub_def word_less_nat_alt word_le_nat_alt min_def unat_sub split: if_splits)
qed

section \<open>Properties\<close>

text \<open>C13: The conversion of a YUYV picture by 32-bit words, which keeps two output pointers and shifts
  bytes into place, writes exactly what the conversion by bytes writes, for every width that is a
  multiple of four and every even height.\<close>

theorem word_conversion_equals_bytes:
  assumes "4 dvd w" "even h" "0 < w" "0 < h" "w * h * 3 < 2 ^ 31" "2 * (w * h) \<le> length src" "w * h * 3 div 2 \<le> length out"
    "unat filesize = 2 * (w * h)"
  shows "yuyvToNv12 PIX_FMT_NV12 src out w h w h = yuyv_to_nv12 src out w h filesize \<and>
    yuyv_to_nv12 src out w h filesize = Some (splice 0 (nv12_picture src 0 w h) out)"
proof -
  obtain m k where w: "w = 4 * m" and h: "h = 2 * k" using assms(1,2) by (auto elim!: dvdE)
  have "w * h * 3 div 2 = w * h + w * k" by (simp add: w h)
  then have room: "w * h + w * k \<le> length out" using assms(7) by simp
  have "nv12_picture src 0 w h = every_second src 0 (w * h) @ chroma_plane src 0 w k"
    using nv12_planes [of w h src 0] assms(1-4) by (simp add: w h every_second_def)
  then show ?thesis
    using word_routine [OF w h _ assms(6) room] byte_routine [OF w h assms(5,6) room assms(8,3,4)] assms(5) by simp
qed

theorem word_conversion_equals_bytes_witness:
  "yuyvToNv12 PIX_FMT_NV12 (map of_nat [0..<16]) (replicate 12 0) 4 2 4 2 =
     yuyv_to_nv12 (map of_nat [0..<16]) (replicate 12 0) 4 2 16 \<and>
   yuyv_to_nv12 (map of_nat [0..<16]) (replicate 12 0) 4 2 16 = Some (splice 0 (nv12_picture (map of_nat [0..<16]) 0 4 2) (replicate 12 0))"
  by (rule word_conversion_equals_bytes) auto

text \<open>A buffer of \<open>n\<close> frames is converted within its bounds, but frame \<open>f\<close> of the result is the
  picture of frame \<open>f - 1\<close> of the input (of the first one for \<open>f = 0\<close>): the input pointer is
  advanced from the index of the frame just done, so that the first frame appears twice and the last
  one never.\<close>

theorem frames_lag_by_one:
  assumes "even w" "even h" "0 < w" "0 < h" "w * h * 3 < 2 ^ 31" "length src < 2 ^ 32"
    "unat filesize = 2 * (w * h) * n + rest" "rest < 2 * (w * h)" "2 * (w * h) * n \<le> length src"
    "length out = n * (w * h * 3 div 2)"
  shows "\<exists>out'. yuyv_to_nv12 src out w h filesize = Some out' \<and> length out' = length out \<and>
    (\<forall>f < n. take (w * h * 3 div 2) (drop (f * (w * h * 3 div 2)) out') = nv12_picture src (2 * (w * h) * (f - 1)) w h)"
  by (rule yuyv_frames [OF assms])

theorem frames_lag_by_one_witness:
  "\<exists>out'. yuyv_to_nv12 (map of_nat [0..<16]) (replicate 12 0) 2 2 16 = Some out' \<and> length out' = length (replicate 12 (0 :: u8)) \<and>
    (\<forall>f < 2. take (2 * 2 * 3 div 2) (drop (f * (2 * 2 * 3 div 2)) out') =
      nv12_picture (map of_nat [0..<16]) (2 * (2 * 2) * (f - 1)) 2 2)"
  by (rule frames_lag_by_one [where n = 2 and rest = 0]) auto

end
