(* ===== verification/Buffer_Cache.thy ===== *)
theory Buffer_Cache
  imports VC_Prelude "HOL-Library.AList" "HOL-Library.Multiset"
begin

text \<open>
  The buffers that circulate between the camera service and the camera HAL
  (\<open>importBufferImpl\<close> of \<open>camera_vir/device/VirtualCameraUtils.cpp\<close>; \<open>importRequestLockedImpl\<close>,
  \<open>cleanupBuffersLocked\<close> and \<open>updateBufferCaches\<close> of \<open>VirtualCameraDeviceSession.cpp\<close>). A handle is
  imported when it is first seen with a stream and an id, kept in \<open>mCirculatingBuffers\<close>, and freed
  when the framework drops it or the stream goes away. The importer is a parameter; the handles it
  has imported and freed are recorded.
\<close>

section \<open>The cache\<close>

datatype status = OK | ILLEGAL_ARGUMENT | INTERNAL_ERROR | CAMERA_IN_USE

type_synonym handle = nat
type_synonym stream_id = int

type_synonym CirculatingBuffers = "(u64 \<times> handle) list"

record cache =
  mCirculatingBuffers :: "(stream_id \<times> CirculatingBuffers) list"
  imported :: "handle list"
  freed :: "handle list"

text \<open>Where a request's \<open>bufPtr\<close> points: the shared empty buffer, or an element of the cache.\<close>

datatype buf_ptr = EmptyBuffer | Slot stream_id u64

definition BUFFER_ID_NO_BUFFER :: u64 where "BUFFER_ID_NO_BUFFER = 0"

definition cbs_of :: "cache \<Rightarrow> stream_id \<Rightarrow> CirculatingBuffers" where
  "cbs_of c sid = (case map_of (mCirculatingBuffers c) sid of None \<Rightarrow> [] | Some cbs \<Rightarrow> cbs)"

definition set_cbs :: "stream_id \<Rightarrow> CirculatingBuffers \<Rightarrow> cache \<Rightarrow> cache" where
  "set_cbs sid cbs c = c\<lparr>mCirculatingBuffers := AList.update sid cbs (mCirculatingBuffers c)\<rparr>"

text \<open>\<open>imp\<close> is what importing a handle yields; \<open>circulatingBuffers[streamId]\<close> creates the stream's entry.\<close>

definition importBufferImpl ::
  "(handle \<Rightarrow> handle option) \<Rightarrow> stream_id \<Rightarrow> u64 \<Rightarrow> handle option \<Rightarrow> bool \<Rightarrow> cache \<Rightarrow> status \<times> buf_ptr option \<times> cache" where
  "importBufferImpl imp sid bufId buf allowEmptyBuf c =
     (if buf = None \<and> bufId = BUFFER_ID_NO_BUFFER
      then (if allowEmptyBuf then (OK, Some EmptyBuffer, c) else (ILLEGAL_ARGUMENT, None, c))
      else
        let cbs = cbs_of c sid;
            c = set_cbs sid cbs c
        in case map_of cbs bufId of
             Some h \<Rightarrow> (OK, Some (Slot sid bufId), c)
           | None \<Rightarrow> (case buf of None \<Rightarrow> (ILLEGAL_ARGUMENT, None, c)
               | Some b \<Rightarrow> (case imp b of None \<Rightarrow> (INTERNAL_ERROR, None, c)
                   | Some h \<Rightarrow> (OK, Some (Slot sid bufId),
                       (set_cbs sid (AList.update bufId h cbs) c)\<lparr>imported := imported c @ [h]\<rparr>))))"

text \<open>\<open>at\<close> throws when the stream has no entry.\<close>

definition cleanupBuffersLocked :: "stream_id \<Rightarrow> cache \<Rightarrow> cache option" where
  "cleanupBuffersLocked sid c =
     (case map_of (mCirculatingBuffers c) sid of None \<Rightarrow> None
      | Some cbs \<Rightarrow> Some (c\<lparr>mCirculatingBuffers := AList.delete sid (mCirculatingBuffers c),
          freed := freed c @ map snd cbs\<rparr>))"

fun updateBufferCaches :: "(stream_id \<times> u64) list \<Rightarrow> cache \<Rightarrow> cache" where
  "updateBufferCaches [] c = c"
| "updateBufferCaches ((sid, bufId) # rest) c =
     updateBufferCaches rest
       (case map_of (mCirculatingBuffers c) sid of None \<Rightarrow> c
        | Some cbs \<Rightarrow> (case map_of cbs bufId of None \<Rightarrow> c
            | Some h \<Rightarrow> (set_cbs sid (AList.delete bufId cbs) c)\<lparr>freed := freed c @ [h]\<rparr>))"

section \<open>Importing a request\<close>

type_synonym request_buffer = "stream_id \<times> u64 \<times> handle option"

fun import_buffers ::
  "(handle \<Rightarrow> handle option) \<Rightarrow> bool \<Rightarrow> request_buffer list \<Rightarrow> cache \<Rightarrow> status \<times> buf_ptr list \<times> cache" where
  "import_buffers imp allowEmpty [] c = (OK, [], c)"
| "import_buffers imp allowEmpty ((sid, bufId, buf) # rest) c =
     (case importBufferImpl imp sid bufId buf allowEmpty c of
        (st, Some p, c) \<Rightarrow>
          (case import_buffers imp allowEmpty rest c of (st, ps, c) \<Rightarrow> (st, p # ps, c))
      | (st, None, c) \<Rightarrow> (st, [], c))"

text \<open>The acquire fences. \<open>impf\<close> gives the descriptor of a fence, \<open>None\<close> for an invalid one; when the
  \<open>i\<close>-th is invalid the \<open>i\<close> descriptors before it are closed. The last component are those closed.\<close>

fun import_fences :: "('f \<Rightarrow> int option) \<Rightarrow> 'f list \<Rightarrow> int list \<Rightarrow> status \<times> int list \<times> int list" where
  "import_fences impf [] done_fds = (OK, done_fds, [])"
| "import_fences impf (f # fs) done_fds =
     (case impf f of None \<Rightarrow> (INTERNAL_ERROR, done_fds, done_fds)
      | Some fd \<Rightarrow> import_fences impf fs (done_fds @ [fd]))"

definition importRequestLockedImpl ::
  "(handle \<Rightarrow> handle option) \<Rightarrow> ('f \<Rightarrow> int option) \<Rightarrow> bool \<Rightarrow> (request_buffer \<times> 'f) list \<Rightarrow> cache \<Rightarrow>
    status \<times> buf_ptr list \<times> int list \<times> int list \<times> cache" where
  "importRequestLockedImpl imp impf allowEmpty bufs c =
     (case import_buffers imp allowEmpty (map fst bufs) c of
        (OK, ps, c) \<Rightarrow> (case import_fences impf (map snd bufs) [] of (st, fds, closed) \<Rightarrow> (st, ps, fds, closed, c))
      | (st, ps, c) \<Rightarrow> (st, ps, [], [], c))"

section \<open>What the cache holds\<close>

definition cache_ok :: "cache \<Rightarrow> bool" where
  "cache_ok c \<longleftrightarrow> distinct (map fst (mCirculatingBuffers c)) \<and>
     (\<forall>(sid, cbs) \<in> set (mCirculatingBuffers c). distinct (map fst cbs))"

definition cached :: "cache \<Rightarrow> handle list" where
  "cached c = concat (map (\<lambda>(sid, cbs). map snd cbs) (mCirculatingBuffers c))"

definition lookup :: "cache \<Rightarrow> stream_id \<Rightarrow> u64 \<Rightarrow> handle option" where
  "lookup c sid bufId = map_of (cbs_of c sid) bufId"

definition balanced :: "cache \<Rightarrow> bool" where
  "balanced c \<longleftrightarrow> cache_ok c \<and> mset (imported c) = mset (cached c) + mset (freed c)"

definition handles_in :: "(stream_id \<times> CirculatingBuffers) list \<Rightarrow> handle multiset" where
  "handles_in xs = mset (concat (map (\<lambda>(sid, cbs). map snd cbs) xs))"

lemma handles_in_simps [simp]:
  "handles_in [] = {#}" "handles_in ((sid, cbs) # xs) = mset (map snd cbs) + handles_in xs"
  by (auto simp: handles_in_def)

lemma mset_cached: "mset (cached c) = handles_in (mCirculatingBuffers c)"
  by (simp add: cached_def handles_in_def)

lemma handles_in_update:
  assumes "distinct (map fst xs)"
  shows "handles_in (AList.update sid cbs xs) + (case map_of xs sid of None \<Rightarrow> {#} | Some old \<Rightarrow> mset (map snd old)) =
    handles_in xs + mset (map snd cbs)"
  using assms
proof (induction xs)
  case (Cons p xs)
  obtain k old where "p = (k, old)" by (cases p)
  with Cons show ?case by (auto simp: add.assoc add.left_commute)
qed simp

lemma map_of_not_key: "k \<notin> fst ` set xs \<Longrightarrow> map_of xs k = None"
  by (simp add: map_of_eq_None_iff)

lemma handles_in_delete:
  assumes "distinct (map fst xs)" "map_of xs sid = Some cbs"
  shows "handles_in (AList.delete sid xs) + mset (map snd cbs) = handles_in xs"
  using assms
proof (induction xs)
  case (Cons p xs)
  obtain k old where p: "p = (k, old)" by (cases p)
  show ?case
  proof (cases "k = sid")
    case True
    then have "sid \<notin> fst ` set xs" using Cons.prems(1) p by auto
    then show ?thesis using Cons.prems(2) True p by (simp add: delete_id add.commute)
  next
    case False
    then show ?thesis using Cons p by (auto simp: add.assoc)
  qed
qed simp

lemma values_update:
  assumes "distinct (map fst cbs)" "map_of cbs b = None"
  shows "mset (map snd (AList.update b h cbs)) = mset (map snd cbs) + {#h#}"
  using assms by (induction cbs) (auto split: if_splits)

lemma values_delete:
  assumes "distinct (map fst cbs)" "map_of cbs b = Some h"
  shows "mset (map snd (AList.delete b cbs)) + {#h#} = mset (map snd cbs)"
  using assms
proof (induction cbs)
  case (Cons p cbs)
  obtain k old where p: "p = (k, old)" by (cases p)
  show ?case
  proof (cases "k = b")
    case True
    then have "b \<notin> fst ` set cbs" using Cons.prems(1) p by auto
    then show ?thesis using Cons.prems(2) True p by (simp add: delete_id)
  qed (use Cons p in auto)
qed simp

lemma set_cbs_ok:
  assumes "cache_ok c" "distinct (map fst cbs)"
  shows "cache_ok (set_cbs sid cbs c)"
proof -
  have "set (AList.update sid cbs xs) \<subseteq> insert (sid, cbs) (set xs)" for xs
    by (induction xs) auto
  with assms show ?thesis
    by (fastforce simp: cache_ok_def set_cbs_def distinct_update)
qed

lemma cbs_of_distinct: "cache_ok c \<Longrightarrow> distinct (map fst (cbs_of c sid))"
  by (auto simp: cache_ok_def cbs_of_def dest: map_of_SomeD split: option.split)

lemma cached_set_cbs:
  "cache_ok c \<Longrightarrow> mset (cached (set_cbs sid cbs c)) + mset (map snd (cbs_of c sid)) = mset (cached c) + mset (map snd cbs)"
  using handles_in_update [of "mCirculatingBuffers c" sid cbs]
  by (cases "map_of (mCirculatingBuffers c) sid") (simp_all add: mset_cached set_cbs_def cbs_of_def cache_ok_def)

lemma cbs_of_set_cbs [simp]: "cbs_of (set_cbs sid cbs c) sid' = (if sid' = sid then cbs else cbs_of c sid')"
  by (simp add: cbs_of_def set_cbs_def update_conv)

lemma set_cbs_fields [simp]: "imported (set_cbs sid cbs c) = imported c" "freed (set_cbs sid cbs c) = freed c"
  by (simp_all add: set_cbs_def)

lemma cached_fields [simp]: "cached (c\<lparr>imported := x\<rparr>) = cached c" "cached (c\<lparr>freed := y\<rparr>) = cached c"
  "cache_ok (c\<lparr>imported := x\<rparr>) = cache_ok c" "cache_ok (c\<lparr>freed := y\<rparr>) = cache_ok c"
  "cbs_of (c\<lparr>imported := x\<rparr>) = cbs_of c" "cbs_of (c\<lparr>freed := y\<rparr>) = cbs_of c"
  by (simp_all add: cached_def cache_ok_def cbs_of_def fun_eq_iff)

lemma set_cbs_same: "cache_ok c \<Longrightarrow> mset (cached (set_cbs sid (cbs_of c sid) c)) = mset (cached c)"
  using cached_set_cbs [of c sid "cbs_of c sid"] by simp


section \<open>Every handle is freed once\<close>

text \<open>What the importer knows: importing appends at most one handle, and only for an id not cached.\<close>

lemma importBufferImpl_balanced:
  assumes "balanced c" "importBufferImpl imp sid b buf allow c = (st, p, c')"
  shows "balanced c'"
proof -
  note ok = assms(1) [unfolded balanced_def]
  have dist: "distinct (map fst (cbs_of c sid))" using ok by (simp add: cbs_of_distinct)
  have same: "balanced (set_cbs sid (cbs_of c sid) c)"
    using ok dist by (simp add: balanced_def set_cbs_ok set_cbs_same)
  have new: "balanced ((set_cbs sid (AList.update b h (cbs_of c sid)) (set_cbs sid (cbs_of c sid) c))\<lparr>imported := imported c @ [h]\<rparr>)"
    if "map_of (cbs_of c sid) b = None" for h
    using same dist values_update [OF dist that]
      cached_set_cbs [of "set_cbs sid (cbs_of c sid) c" sid "AList.update b h (cbs_of c sid)"]
    by (auto simp: balanced_def set_cbs_ok distinct_update)
  show ?thesis using assms same new
    by (auto simp: importBufferImpl_def Let_def split: if_splits option.splits)
qed

lemma cleanupBuffersLocked_balanced:
  "balanced c \<Longrightarrow> cleanupBuffersLocked sid c = Some c' \<Longrightarrow> balanced c'"
  using handles_in_delete [of "mCirculatingBuffers c" sid]
  by (auto simp: balanced_def cleanupBuffersLocked_def cache_ok_def mset_cached distinct_delete
      AList.delete_eq distinct_map_filter split: option.splits)

lemma updateBufferCaches_balanced: "balanced c \<Longrightarrow> balanced (updateBufferCaches cs c)"
proof (induction cs c rule: updateBufferCaches.induct)
  case (2 sid b rest c)
  let ?d = "case map_of (mCirculatingBuffers c) sid of None \<Rightarrow> c
        | Some cbs \<Rightarrow> (case map_of cbs b of None \<Rightarrow> c
            | Some h \<Rightarrow> (set_cbs sid (AList.delete b cbs) c)\<lparr>freed := freed c @ [h]\<rparr>)"
  have "balanced ?d"
  proof (cases "\<exists>cbs h. map_of (mCirculatingBuffers c) sid = Some cbs \<and> map_of cbs b = Some h")
    case True
    then obtain cbs h where c: "map_of (mCirculatingBuffers c) sid = Some cbs" "map_of cbs b = Some h" by blast
    have cbs: "cbs_of c sid = cbs" using c by (simp add: cbs_of_def)
    have dist: "distinct (map fst cbs)" using 2(2) cbs cbs_of_distinct [of c sid] by (simp add: balanced_def)
    let ?new = "set_cbs sid (AList.delete b cbs) c"
    have "mset (cached ?new) + (mset (map snd (AList.delete b cbs)) + {#h#}) = mset (cached c) + mset (map snd (AList.delete b cbs))"
      using cached_set_cbs [of c sid "AList.delete b cbs"] 2(2) unfolding values_delete [OF dist c(2)] cbs
      by (simp add: balanced_def)
    then have new: "mset (cached c) = mset (cached ?new) + {#h#}" by (simp add: ac_simps)
    have "mset (imported c) = mset (cached ?new) + mset (freed c @ [h])"
      using 2(2) unfolding balanced_def new by simp
    then show ?thesis using 2(2) c dist by (simp add: balanced_def set_cbs_ok distinct_delete)
  qed (use 2(2) in \<open>auto split: option.splits\<close>)
  then show ?case using 2(1) by simp
qed simp

datatype cache_op = Import stream_id u64 "handle option" | Drop "(stream_id \<times> u64) list" | Cleanup stream_id

fun cache_run :: "(handle \<Rightarrow> handle option) \<Rightarrow> cache_op list \<Rightarrow> cache \<Rightarrow> cache option" where
  "cache_run imp [] c = Some c"
| "cache_run imp (Import sid b buf # ops) c = cache_run imp ops (snd (snd (importBufferImpl imp sid b buf False c)))"
| "cache_run imp (Drop cs # ops) c = cache_run imp ops (updateBufferCaches cs c)"
| "cache_run imp (Cleanup sid # ops) c = do { c \<leftarrow> cleanupBuffersLocked sid c; cache_run imp ops c }"

definition empty_cache :: cache where
  "empty_cache = \<lparr>mCirculatingBuffers = [], imported = [], freed = []\<rparr>"

lemma cache_run_balanced: "balanced c \<Longrightarrow> cache_run imp ops c = Some c' \<Longrightarrow> balanced c'"
proof (induction imp ops c rule: cache_run.induct)
  case (2 imp sid b buf ops c)
  then show ?case using importBufferImpl_balanced [of c imp sid b buf False]
    by (cases "importBufferImpl imp sid b buf False c") auto
qed (auto simp: updateBufferCaches_balanced cleanupBuffersLocked_balanced bind_Some_iff)

lemma empty_cache_balanced: "balanced empty_cache"
  by (simp add: balanced_def empty_cache_def cached_def cache_ok_def)

lemma import_cached:
  assumes "lookup c sid b = Some h"
  shows "importBufferImpl imp sid b buf allow c =
    (if buf = None \<and> b = BUFFER_ID_NO_BUFFER then importBufferImpl imp sid b buf allow c
     else (OK, Some (Slot sid b), set_cbs sid (cbs_of c sid) c))"
  using assms by (auto simp: importBufferImpl_def lookup_def Let_def)

lemma import_lookup:
  assumes "importBufferImpl imp sid b buf allow c = (OK, Some (Slot sid b), c')"
  shows "\<exists>h. lookup c' sid b = Some h \<and> (lookup c sid b = Some h \<and> imported c' = imported c \<or>
    lookup c sid b = None \<and> imported c' = imported c @ [h] \<and> (\<exists>x. buf = Some x \<and> imp x = Some h)) \<and>
    (\<forall>s i. (s, i) \<noteq> (sid, b) \<longrightarrow> lookup c' s i = lookup c s i)"
  using assms by (auto simp: importBufferImpl_def lookup_def Let_def update_conv split: if_splits option.splits)

section \<open>Fences\<close>

lemma import_fences_ok:
  "import_fences impf fs acc = (st, fds, closed) \<Longrightarrow>
    (if \<forall>f \<in> set fs. impf f \<noteq> None then st = OK \<and> closed = [] \<and> fds = acc @ map (\<lambda>f. the (impf f)) fs
     else st = INTERNAL_ERROR \<and> closed = fds \<and> (\<exists>n < length fs. impf (fs ! n) = None \<and>
       fds = acc @ map (\<lambda>f. the (impf f)) (take n fs)))"
proof (induction impf fs acc rule: import_fences.induct)
  case (2 impf f fs acc)
  show ?case
  proof (cases "impf f")
    case None
    then show ?thesis using 2(2) by (auto intro!: exI [of _ 0])
  next
    case (Some fd)
    then have "import_fences impf fs (acc @ [fd]) = (st, fds, closed)" using 2(2) by simp
    from 2(1) [OF Some this] Some show ?thesis
      by (auto split: if_splits)
  qed
qed simp

section \<open>Properties\<close>

text \<open>C17: Whatever sequence of requests, removals and stream clean-ups the framework makes, each handle
  the HAL has imported is either in the cache or has been freed, once; in particular nothing is freed
  twice, and when the cache is empty everything has been freed. A buffer already cached is not
  imported again.\<close>

theorem buffers_freed_once:
  assumes "cache_run imp ops empty_cache = Some c"
  shows "mset (imported c) = mset (cached c) + mset (freed c) \<and>
    (mCirculatingBuffers c = [] \<longrightarrow> mset (freed c) = mset (imported c)) \<and>
    (lookup c sid b = Some h \<and> b \<noteq> BUFFER_ID_NO_BUFFER \<longrightarrow>
      (\<exists>c'. importBufferImpl imp sid b buf allow c = (OK, Some (Slot sid b), c') \<and> imported c' = imported c \<and>
        lookup c' = lookup c))"
proof -
  have bal: "balanced c" using cache_run_balanced [OF empty_cache_balanced assms] .
  have "importBufferImpl imp sid b buf allow c = (OK, Some (Slot sid b), set_cbs sid (cbs_of c sid) c)"
    if "lookup c sid b = Some h" "b \<noteq> BUFFER_ID_NO_BUFFER"
    using import_cached [OF that(1), of imp buf allow] that(2) by simp
  moreover have "lookup (set_cbs sid (cbs_of c sid) c) = lookup c"
    by (auto simp: lookup_def fun_eq_iff)
  ultimately show ?thesis using bal by (auto simp: balanced_def cached_def)
qed

theorem buffers_freed_once_witness:
  "\<exists>c. cache_run Some [Import 0 7 (Some 70), Import 0 8 (Some 80), Import 0 7 None, Drop [(0, 8), (5, 1)], Cleanup 0] empty_cache = Some c \<and>
     mset (imported c) = mset (cached c) + mset (freed c) \<and> mset (freed c) = {#70, 80#}"
proof -
  let ?ops = "[Import 0 7 (Some 70), Import 0 8 (Some 80), Import 0 7 None, Drop [(0, 8), (5, 1)], Cleanup 0]"
  let ?c = "\<lparr>mCirculatingBuffers = [], imported = [70, 80], freed = [80, 70]\<rparr>"
  have run: "cache_run Some ?ops empty_cache = Some ?c"
    by (simp add: importBufferImpl_def cleanupBuffersLocked_def empty_cache_def cbs_of_def set_cbs_def
        BUFFER_ID_NO_BUFFER_def)
  show ?thesis using run buffers_freed_once [OF run] by auto
qed

end
