(* ===== verification/V4l2_Stream.thy ===== *)
theory V4l2_Stream
  imports VC_Prelude Complex_Main
begin

text \<open>
  Starting and stopping the capture stream of the camera HAL (\<open>v4l2StreamOffLocked\<close>,
  \<open>configureV4l2StreamLocked\<close> of \<open>camera_vir/device/VirtualCameraDeviceSession.cpp\<close>), with the
  formats of \<open>VirtualCameraUtils_3.4.h\<close>. The kernel driver is known by the results of its ioctls.
  Frame rates are compared as the quotients of their 32-bit parts; the comparisons of the code are
  with small integers, which both rounding and the exact quotient respect.
\<close>

section \<open>Formats and frame rates\<close>

record FrameRate =
  durationNumerator :: u32
  durationDenominator :: u32

record SupportedV4L2Format =
  fmt_width :: u32
  fmt_height :: u32
  fourcc :: u32
  frameRates :: "FrameRate list"

text \<open>With a numerator of 0 the source divides to infinity, HOL to 0. The only rate the program makes is 1/30
  (\<open>candidate\<close> of \<open>Camera_Device\<close>), so that case does not arise.\<close>

definition getDouble :: "FrameRate \<Rightarrow> rat" where
  "getDouble fr = of_nat (unat (durationDenominator fr)) / of_nat (unat (durationNumerator fr))"

text \<open>The rate used when the caller asks for none: a fold over the rates keeping the largest rate seen
  and the smallest one that is at least 30.\<close>

definition pick_fps :: "FrameRate list \<Rightarrow> rat \<Rightarrow> rat" where
  "pick_fps rates requestFps =
     (if requestFps \<noteq> 0 then requestFps
      else
        let (maxFps, fps) = foldl (\<lambda>(maxFps, fps) fr.
              let f = getDouble fr in
              (if maxFps < f then f else maxFps, if 30 \<le> f \<and> f < fps then f else fps)) (- 1, 1000) rates
        in if fps = 1000 then maxFps else fps)"

section \<open>The stream\<close>

record v4l2 =
  mV4l2Streaming :: bool
  mV4l2StreamingFmt :: SupportedV4L2Format
  mV4l2StreamingFps :: rat
  mV4L2BufferCount :: nat
  mMaxV4L2BufferSize :: u32
  mNumDequeuedV4l2Buffers :: nat

text \<open>What the driver answers. The attempts of a repeated ioctl are numbered.\<close>

record driver =
  d_streamoff :: bool
  d_free_bufs :: bool
  d_s_fmt :: "nat \<Rightarrow> bool"
  d_fmt :: "u32 \<times> u32 \<times> u32"
  d_sizeimage :: u32
  d_reqbufs :: "nat option"
  d_querybuf :: "nat \<Rightarrow> bool"
  d_qbuf :: "nat \<Rightarrow> bool"
  d_streamon :: "nat \<Rightarrow> bool"
  d_swallow :: "nat \<Rightarrow> bool"

text \<open>The return codes: zero, the \<open>-1\<close> of pending buffers, \<open>-errno\<close> and \<open>NO_MEMORY\<close>.\<close>

datatype code = OK_0 | MINUS_1 | ERRNO | NO_MEMORY

definition v4l2StreamOffLocked :: "driver \<Rightarrow> bool \<Rightarrow> v4l2 \<Rightarrow> code \<times> v4l2" where
  "v4l2StreamOffLocked d subdev v =
     (if \<not> mV4l2Streaming v then (OK_0, v)
      else if mNumDequeuedV4l2Buffers v \<noteq> 0 then (MINUS_1, v)
      else
        let v = v\<lparr>mV4L2BufferCount := 0\<rparr> in
        if \<not> subdev \<and> \<not> d_streamoff d then (ERRNO, v)
        else if \<not> subdev \<and> \<not> d_free_bufs d then (ERRNO, v)
        else (OK_0, v\<lparr>mV4l2Streaming := False\<rparr>))"

definition MAX_RETRY :: nat where "MAX_RETRY = 15"

text \<open>The repeated ioctl: one attempt, then attempts until one succeeds or \<open>numAttempt\<close>, counted from
  zero, equals \<open>MAX_RETRY\<close>.\<close>

function retry_loop :: "(nat \<Rightarrow> bool) \<Rightarrow> nat \<Rightarrow> bool \<Rightarrow> bool" where
  "retry_loop att numAttempt ret =
     (if ret then True
      else
        let ret = att (Suc numAttempt) in
        if numAttempt \<ge> MAX_RETRY then ret else retry_loop att (numAttempt + 1) ret)"
  by auto
termination by (relation "measure (\<lambda>(_, n, _). MAX_RETRY - n)") auto

declare retry_loop.simps [simp del]

definition retry :: "(nat \<Rightarrow> bool) \<Rightarrow> bool" where
  "retry att = retry_loop att 0 (att 0)"

definition kBadFramesAfterStreamOn :: nat where "kBadFramesAfterStreamOn = 4"

text \<open>The part for a device of its own. \<open>numVideo\<close> and \<open>numStill\<close> are \<open>mCfg.numVideoBuffers\<close> and
  \<open>mCfg.numStillBuffers\<close>; the format is passed by reference and returned with the size the driver set.\<close>

definition configure_capture ::
  "driver \<Rightarrow> u32 \<Rightarrow> u32 \<Rightarrow> rat \<Rightarrow> SupportedV4L2Format \<Rightarrow> v4l2 \<Rightarrow> code \<times> SupportedV4L2Format \<times> v4l2" where
  "configure_capture d numVideo numStill requestFps fmt v =
     (if \<not> retry (d_s_fmt d) then (ERRNO, fmt, v)
      else
        let (w, h, fc) = d_fmt d;
            fmt = (if fmt_width fmt \<noteq> w \<or> fmt_height fmt \<noteq> h \<or> fourcc fmt \<noteq> fc
                   then fmt\<lparr>fmt_width := w, fmt_height := h\<rparr> else fmt);
            v = v\<lparr>mMaxV4L2BufferSize := d_sizeimage d\<rparr>;
            fps = pick_fps (frameRates fmt) requestFps;
            v = v\<lparr>mV4l2StreamingFps := fps\<rparr>;
            v4lBufferCount = unat (if 30 \<le> fps then numVideo else numStill)
        in case d_reqbufs d of None \<Rightarrow> (ERRNO, fmt, v)
           | Some count \<Rightarrow>
               if count < v4lBufferCount then (NO_MEMORY, fmt, v)
               else
                 let v = v\<lparr>mV4L2BufferCount := count\<rparr> in
                 if \<not> (\<forall>i < count. d_querybuf d i \<and> d_qbuf d i) then (ERRNO, fmt, v)
                 else if \<not> retry (d_streamon d) then (ERRNO, fmt, v)
                 else if \<not> (\<forall>i < kBadFramesAfterStreamOn. d_swallow d i) then (ERRNO, fmt, v)
                 else (OK_0, fmt, v))"

definition configureV4l2StreamLocked ::
  "driver \<Rightarrow> bool \<Rightarrow> u32 \<Rightarrow> u32 \<Rightarrow> rat \<Rightarrow> SupportedV4L2Format \<Rightarrow> v4l2 \<Rightarrow> code \<times> SupportedV4L2Format \<times> v4l2" where
  "configureV4l2StreamLocked d subdev numVideo numStill requestFps fmt v =
     (case v4l2StreamOffLocked d subdev v of (ret, v) \<Rightarrow>
        if ret \<noteq> OK_0 then (ret, fmt, v)
        else
          case (if subdev then (OK_0, fmt, v) else configure_capture d numVideo numStill requestFps fmt v) of (ret, fmt, v) \<Rightarrow>
            if ret \<noteq> OK_0 then (ret, fmt, v)
            else
              let v = (if subdev then v\<lparr>mV4l2StreamingFps := 15, mV4L2BufferCount := 1\<rparr> else v)
              in (OK_0, fmt, v\<lparr>mV4l2StreamingFmt := fmt, mV4l2Streaming := True\<rparr>))"

section \<open>Retries\<close>

lemma retry_loop_iff:
  "n \<le> MAX_RETRY \<Longrightarrow> retry_loop att n (att n) = (\<exists>i. n \<le> i \<and> i \<le> MAX_RETRY + 1 \<and> att i)"
proof (induction "MAX_RETRY - n" arbitrary: n)
  case 0
  then show ?case
    by (subst retry_loop.simps) (auto simp: Let_def le_Suc_eq intro: exI [of _ "Suc MAX_RETRY"])
next
  case (Suc k)
  then have "retry_loop att (Suc n) (att (Suc n)) = (\<exists>i. Suc n \<le> i \<and> i \<le> MAX_RETRY + 1 \<and> att i)"
    by (intro Suc.hyps) auto
  moreover have "(\<exists>i. n \<le> i \<and> i \<le> MAX_RETRY + 1 \<and> att i) = (att n \<or> (\<exists>i. Suc n \<le> i \<and> i \<le> MAX_RETRY + 1 \<and> att i))"
    using Suc.prems by (metis Suc_le_eq le_SucI le_eq_less_or_eq Suc_eq_plus1)
  ultimately show ?case using Suc by (subst retry_loop.simps) (auto simp: Let_def)
qed

text \<open>A repeated ioctl succeeds exactly when one of its first 17 attempts does.\<close>

lemma retry_iff: "retry att = (\<exists>i \<le> 16. att i)"
  using retry_loop_iff [of 0 att] by (simp add: retry_def MAX_RETRY_def)

section \<open>The frame rate\<close>

definition fps_step :: "rat \<times> rat \<Rightarrow> FrameRate \<Rightarrow> rat \<times> rat" where
  "fps_step = (\<lambda>(maxFps, fps) fr. let f = getDouble fr in
     (if maxFps < f then f else maxFps, if 30 \<le> f \<and> f < fps then f else fps))"

lemma pick_fold:
  assumes "foldl fps_step (m0, f0) rates = (m, f)"
  shows "m \<in> insert m0 (getDouble ` set rates) \<and> (\<forall>x \<in> insert m0 (getDouble ` set rates). x \<le> m) \<and>
    f \<in> insert f0 {x \<in> getDouble ` set rates. 30 \<le> x} \<and> (\<forall>x \<in> insert f0 {x \<in> getDouble ` set rates. 30 \<le> x}. f \<le> x)"
  using assms
proof (induction rates arbitrary: m0 f0)
  case (Cons fr rates)
  let ?x = "getDouble fr"
  let ?m = "if m0 < ?x then ?x else m0" and ?f = "if 30 \<le> ?x \<and> ?x < f0 then ?x else f0"
  have "foldl fps_step (?m, ?f) rates = (m, f)" using Cons.prems by (simp add: fps_step_def Let_def)
  from Cons.IH [OF this] have m: "m \<in> insert ?m (getDouble ` set rates)" "\<forall>x \<in> insert ?m (getDouble ` set rates). x \<le> m"
    and f: "f \<in> insert ?f {x \<in> getDouble ` set rates. 30 \<le> x}"
      "\<forall>x \<in> insert ?f {x \<in> getDouble ` set rates. 30 \<le> x}. f \<le> x" by blast+
  have "m \<in> insert m0 (getDouble ` set (fr # rates))" "\<forall>x \<in> insert m0 (getDouble ` set (fr # rates)). x \<le> m"
    using m by (auto split: if_splits)
  moreover have "f \<in> insert f0 {x \<in> getDouble ` set (fr # rates). 30 \<le> x}"
    "\<forall>x \<in> insert f0 {x \<in> getDouble ` set (fr # rates). 30 \<le> x}. f \<le> x"
    using f by (auto split: if_splits)
  ultimately show ?case by blast
qed simp

text \<open>Without a request the stream runs at the slowest rate that is at least 30, or at the fastest one.\<close>

lemma pick_fps_slowest:
  assumes "rates \<noteq> []" "\<forall>fr \<in> set rates. 0 \<le> getDouble fr \<and> getDouble fr < 1000"
  shows "pick_fps rates 0 = (let fast = {x \<in> getDouble ` set rates. 30 \<le> x} in
    if fast = {} then Max (getDouble ` set rates) else Min fast)"
proof -
  let ?fast = "{x \<in> getDouble ` set rates. 30 \<le> x}"
  obtain m f where mf: "foldl fps_step (- 1, 1000) rates = (m, f)" by fastforce
  note r = pick_fold [OF mf]
  have pick: "pick_fps rates 0 = (if f = 1000 then m else f)"
    using mf by (simp add: pick_fps_def fps_step_def)
  show ?thesis
  proof (cases "?fast = {}")
    case True
    obtain fr where fr: "fr \<in> set rates" using assms(1) by (cases rates) auto
    then have "0 \<le> getDouble fr" "getDouble fr \<le> m" using assms(2) r by auto
    then have "m \<noteq> - 1" by linarith
    then have "Max (getDouble ` set rates) = m" using r by (intro Max_eqI) auto
    moreover have "f = 1000" using r unfolding True by simp
    ultimately show ?thesis using pick True by (simp add: Let_def)
  next
    case False
    then obtain x where x: "x \<in> ?fast" by blast
    then have "x < 1000" "f \<le> x" using assms(2) r by auto
    then have "f \<noteq> 1000" by linarith
    then have "Min ?fast = f" using r by (intro Min_eqI) auto
    then show ?thesis using pick \<open>f \<noteq> 1000\<close> unfolding Let_def if_not_P [OF False] by simp
  qed
qed


section \<open>Starting the stream\<close>

definition drv_accepts :: "driver \<Rightarrow> u32 \<Rightarrow> u32 \<Rightarrow> rat \<Rightarrow> SupportedV4L2Format \<Rightarrow> bool" where
  "drv_accepts d numVideo numStill fps fmt \<longleftrightarrow>
     (\<exists>i \<le> 16. d_s_fmt d i) \<and> (\<exists>i \<le> 16. d_streamon d i) \<and> (\<forall>i < 4. d_swallow d i) \<and>
     (\<exists>count. d_reqbufs d = Some count \<and> unat (if 30 \<le> pick_fps (frameRates fmt) fps then numVideo else numStill) \<le> count \<and>
       (\<forall>i < count. d_querybuf d i \<and> d_qbuf d i))"

text \<open>The format the stream runs with: that of the request with the size the driver chose.\<close>

definition driver_format :: "driver \<Rightarrow> SupportedV4L2Format \<Rightarrow> SupportedV4L2Format" where
  "driver_format d fmt = fmt\<lparr>fmt_width := fst (d_fmt d), fmt_height := fst (snd (d_fmt d))\<rparr>"

lemma frameRates_resized: "frameRates (if b then fmt\<lparr>fmt_width := w, fmt_height := h\<rparr> else fmt) = frameRates fmt"
  by simp

lemma configure_capture_iff:
  "fst (configure_capture d nv ns fps fmt v) = OK_0 \<longleftrightarrow> drv_accepts d nv ns fps fmt"
proof -
  obtain w h fc where f: "d_fmt d = (w, h, fc)" by (metis prod_cases3)
  show ?thesis
  proof (cases "d_reqbufs d")
    case None
    then show ?thesis by (simp add: configure_capture_def drv_accepts_def f Let_def)
  next
    case (Some count)
    let ?n = "unat (if 30 \<le> pick_fps (frameRates fmt) fps then nv else ns)"
    have "fst (configure_capture d nv ns fps fmt v) = OK_0 \<longleftrightarrow> retry (d_s_fmt d) \<and> \<not> count < ?n \<and>
        (\<forall>i < count. d_querybuf d i \<and> d_qbuf d i) \<and> retry (d_streamon d) \<and> (\<forall>i < kBadFramesAfterStreamOn. d_swallow d i)"
      unfolding configure_capture_def Let_def f Some prod.case option.case frameRates_resized
      by simp
    moreover have "drv_accepts d nv ns fps fmt \<longleftrightarrow> retry (d_s_fmt d) \<and> \<not> count < ?n \<and>
        (\<forall>i < count. d_querybuf d i \<and> d_qbuf d i) \<and> retry (d_streamon d) \<and> (\<forall>i < kBadFramesAfterStreamOn. d_swallow d i)"
      unfolding drv_accepts_def retry_iff kBadFramesAfterStreamOn_def Some not_less option.inject simp_thms
      by (simp only: simp_thms conj_ac)
    ultimately show ?thesis by (simp only:)
  qed
qed

lemma configure_capture_OK:
  "configure_capture d nv ns fps fmt v = (OK_0, fmt', v') \<Longrightarrow>
    fmt' = driver_format d fmt \<and> d_reqbufs d = Some (mV4L2BufferCount v') \<and>
    unat (if 30 \<le> mV4l2StreamingFps v' then nv else ns) \<le> mV4L2BufferCount v' \<and>
    mV4l2StreamingFps v' = pick_fps (frameRates fmt) fps \<and> mNumDequeuedV4l2Buffers v' = mNumDequeuedV4l2Buffers v \<and>
    mMaxV4L2BufferSize v' = d_sizeimage d"
  by (cases fmt) (auto simp: configure_capture_def driver_format_def Let_def split: prod.splits option.splits if_splits)

lemma configure_capture_keeps:
  "mV4l2Streaming (snd (snd (configure_capture d nv ns fps fmt v))) = mV4l2Streaming v"
  "mNumDequeuedV4l2Buffers (snd (snd (configure_capture d nv ns fps fmt v))) = mNumDequeuedV4l2Buffers v"
  by (auto simp: configure_capture_def Let_def split: prod.splits option.splits)

lemma streamoff_keeps: "mNumDequeuedV4l2Buffers (snd (v4l2StreamOffLocked d sub v)) = mNumDequeuedV4l2Buffers v"
  by (simp add: v4l2StreamOffLocked_def Let_def)

lemma streamoff_OK: "fst (v4l2StreamOffLocked d sub v) = OK_0 \<Longrightarrow> \<not> mV4l2Streaming (snd (v4l2StreamOffLocked d sub v))"
  by (auto simp: v4l2StreamOffLocked_def Let_def split: if_splits)

text \<open>C26: Configuring the capture stream. While buffers are out it refuses and changes nothing. Otherwise
  it succeeds exactly when the old stream stops and, for a device of its own, one of 17 attempts to
  set the format and to start succeeds, the driver grants enough buffers and the first four frames can
  be drained; then the stream runs with the size and at least the number of buffers chosen. When it
  fails after the old stream has stopped, no stream is running.\<close>

theorem configure_v4l2_effect:
  assumes "configureV4l2StreamLocked d sub nv ns fps fmt v = (ret, fmt', v')"
    and busy: "b \<longleftrightarrow> mV4l2Streaming v \<and> mNumDequeuedV4l2Buffers v \<noteq> 0"
    and stops: "stops \<longleftrightarrow> \<not> mV4l2Streaming v \<or> sub \<or> d_streamoff d \<and> d_free_bufs d"
  shows "(b \<longrightarrow> ret = MINUS_1 \<and> fmt' = fmt \<and> v' = v) \<and>
    (ret = OK_0 \<longleftrightarrow> \<not> b \<and> stops \<and> (sub \<or> drv_accepts d nv ns fps fmt)) \<and>
    (ret = OK_0 \<longrightarrow> mV4l2Streaming v' \<and> mV4l2StreamingFmt v' = fmt' \<and>
      (if sub then mV4L2BufferCount v' = 1 \<and> fmt' = fmt
       else fmt' = driver_format d fmt \<and> unat (if 30 \<le> mV4l2StreamingFps v' then nv else ns) \<le> mV4L2BufferCount v')) \<and>
    (ret \<noteq> OK_0 \<and> \<not> b \<longrightarrow> mV4l2Streaming v' = (\<not> stops)) \<and>
    mNumDequeuedV4l2Buffers v' = mNumDequeuedV4l2Buffers v"
proof -
  obtain r1 v1 where off: "v4l2StreamOffLocked d sub v = (r1, v1)" by fastforce
  have r1: "r1 = (if b then MINUS_1 else if stops then OK_0 else ERRNO)" "b \<Longrightarrow> v1 = v"
    "\<not> b \<Longrightarrow> mV4l2Streaming v1 = (\<not> stops)" "mNumDequeuedV4l2Buffers v1 = mNumDequeuedV4l2Buffers v"
    using off by (auto simp: v4l2StreamOffLocked_def busy stops Let_def split: if_splits)
  obtain r2 f2 v2 where cap: "configure_capture d nv ns fps fmt v1 = (r2, f2, v2)" by (metis prod_cases3)
  have r2: "r2 = OK_0 \<longleftrightarrow> drv_accepts d nv ns fps fmt" "mV4l2Streaming v2 = mV4l2Streaming v1"
    "mNumDequeuedV4l2Buffers v2 = mNumDequeuedV4l2Buffers v1"
    using configure_capture_iff [of d nv ns fps fmt v1] configure_capture_keeps [of d nv ns fps fmt v1] cap by auto
  note ok = configure_capture_OK [of d nv ns fps fmt v1 f2 v2]
  show ?thesis
  proof (cases "r1 = OK_0")
    case False
    then show ?thesis using assms(1) off r1 by (auto simp: configureV4l2StreamLocked_def split: if_splits)
  next
    case True
    then have nb: "\<not> b" "stops" "mV4l2Streaming v1 = False" using r1 by (auto split: if_splits)
    show ?thesis
    proof (cases sub)
      case True
      then show ?thesis using assms(1) off \<open>r1 = OK_0\<close> nb r1(4)
        by (auto simp: configureV4l2StreamLocked_def Let_def)
    next
      case False
      then show ?thesis using assms(1) off \<open>r1 = OK_0\<close> nb r1(4) cap r2 ok
        by (auto simp: configureV4l2StreamLocked_def Let_def split: if_splits)
    qed
  qed
qed

definition demo_driver :: driver where
  "demo_driver = \<lparr>d_streamoff = True, d_free_bufs = True, d_s_fmt = (\<lambda>i. i = 3), d_fmt = (1280, 800, 0x30314752),
     d_sizeimage = 2048000, d_reqbufs = Some 4, d_querybuf = (\<lambda>_. True), d_qbuf = (\<lambda>_. True), d_streamon = (\<lambda>_. True),
     d_swallow = (\<lambda>_. True)\<rparr>"

definition demo_format :: SupportedV4L2Format where
  "demo_format = \<lparr>fmt_width = 1280, fmt_height = 720, fourcc = 0x30314752,
     frameRates = [\<lparr>durationNumerator = 1, durationDenominator = 30\<rparr>]\<rparr>"

definition demo_v4l2 :: v4l2 where
  "demo_v4l2 = \<lparr>mV4l2Streaming = False, mV4l2StreamingFmt = demo_format, mV4l2StreamingFps = 0, mV4L2BufferCount = 0,
     mMaxV4L2BufferSize = 0, mNumDequeuedV4l2Buffers = 0\<rparr>"

theorem configure_v4l2_effect_witness:
  "\<exists>fmt' v'. configureV4l2StreamLocked demo_driver False 4 2 0 demo_format demo_v4l2 = (OK_0, fmt', v') \<and>
     mV4l2Streaming v' \<and> fmt' = driver_format demo_driver demo_format \<and> mNumDequeuedV4l2Buffers v' = 0"
proof -
  obtain ret fmt' v' where run: "configureV4l2StreamLocked demo_driver False 4 2 0 demo_format demo_v4l2 = (ret, fmt', v')"
    by (metis prod_cases3)
  have "drv_accepts demo_driver 4 2 0 demo_format"
    by (auto simp: drv_accepts_def demo_driver_def)
  then show ?thesis
    using configure_v4l2_effect [OF run refl refl] run by (auto simp: demo_v4l2_def)
qed

end
