(* ===== verification/Float32.thy ===== *)
theory Float32
  imports VC_Prelude Complex_Main "HOL-Library.Log_Nat"
begin

text \<open>
  The single-precision arithmetic the camera HAL does on picture sizes (\<open>float\<close> in
  \<open>camera_vir/device/VirtualCameraUtils.cpp\<close> and \<open>VirtualCameraDeviceSession.cpp\<close>): rounding to 24 bits,
  half to even, quotients of unsigned integers, comparison. Rounding is monotone, symmetric, and exact on
  small integers.
\<close>

section \<open>Values and rounding\<close>

text \<open>A single-precision value as the code meets it: a quotient of 32-bit numbers, rounded to 24 bits,
  half to even. Such quotients are neither denormal nor too large.\<close>

datatype f32 = Fin rat | PInf | NaN

definition round_even :: "rat \<Rightarrow> int" where
  "round_even x =
     (let f = \<lfloor>x\<rfloor>; r = x - of_int f
      in if r < 1 / 2 then f else if 1 / 2 < r then f + 1 else if even f then f else f + 1)"

definition exponent :: "rat \<Rightarrow> int" where
  "exponent x =
     (case quotient_of x of (n, d) \<Rightarrow>
        let e = int (nat (bitlen n)) - int (nat (bitlen d))
        in if (if 0 \<le> e then 2 ^ nat e \<le> x else 1 \<le> x * 2 ^ nat (- e)) then e else e - 1)"

definition f32_round :: "rat \<Rightarrow> rat" where
  "f32_round x =
     (if x = 0 then 0
      else
        let e = 23 - exponent \<bar>x\<bar>;
            m = (if 0 \<le> e then of_int (round_even (\<bar>x\<bar> * 2 ^ nat e)) / 2 ^ nat e
                 else of_int (round_even (\<bar>x\<bar> / 2 ^ nat (- e))) * 2 ^ nat (- e))
        in if x < 0 then - m else m)"

definition f32_div :: "rat \<Rightarrow> rat \<Rightarrow> f32" where
  "f32_div a b = (if b = 0 then (if a = 0 then NaN else PInf) else Fin (f32_round (a / b)))"

definition f32_of_u32 :: "u32 \<Rightarrow> rat" where
  "f32_of_u32 w = f32_round (of_int (uint w))"


section \<open>Comparison\<close>

fun f32_less :: "f32 \<Rightarrow> f32 \<Rightarrow> bool" where
  "f32_less (Fin a) (Fin b) = (a < b)"
| "f32_less (Fin a) PInf = True"
| "f32_less _ _ = False"

section \<open>Rounding to an integer\<close>

lemma round_even_between: "\<lfloor>x\<rfloor> \<le> round_even x" "round_even x \<le> \<lfloor>x\<rfloor> + 1"
  by (auto simp: round_even_def Let_def)

lemma round_even_of_int [simp]: "round_even (of_int n) = n"
  by (simp add: round_even_def Let_def)

lemma round_even_mono: "x \<le> y \<Longrightarrow> round_even x \<le> round_even y"
proof -
  assume le: "x \<le> y"
  then have "\<lfloor>x\<rfloor> \<le> \<lfloor>y\<rfloor>" by (rule floor_mono)
  then consider "\<lfloor>x\<rfloor> < \<lfloor>y\<rfloor>" | "\<lfloor>x\<rfloor> = \<lfloor>y\<rfloor>" by linarith
  then show ?thesis
  proof cases
    case 1
    then show ?thesis using round_even_between(2) [of x] round_even_between(1) [of y] by linarith
  next
    case 2
    then show ?thesis using le by (auto simp: round_even_def Let_def)
  qed
qed

section \<open>The binade of a number\<close>

lemma two_powi: "(2 :: rat) powi i = (if 0 \<le> i then 2 ^ nat i else 1 / 2 ^ nat (- i))"
  unfolding power_int_def inverse_eq_divide power_divide power_one by (rule refl)

lemma powi_less: "(2 :: rat) powi a < 2 powi b \<longleftrightarrow> a < b"
  using power_int_strict_increasing [of a b "2 :: rat"] power_int_increasing [of b a "2 :: rat"] by (cases "a < b") auto

lemma bitlen_pos:
  assumes n: "0 < n"
  shows "(2 :: rat) powi (int (nat (bitlen n)) - 1) \<le> of_int n" "(of_int n :: rat) < 2 powi int (nat (bitlen n))"
proof -
  have b: "2 ^ nat (bitlen n - 1) \<le> n" "n < 2 ^ nat (bitlen n)" using bitlen_bounds [OF n] by auto
  have pos: "0 < bitlen n" using n bitlen_nonneg [of n] by (metis bitlen_eq_zero_iff less_le not_le)
  have "of_int (2 ^ nat (bitlen n - 1)) \<le> (of_int n :: rat)" "(of_int n :: rat) < of_int (2 ^ nat (bitlen n))"
    using b by (simp_all only: of_int_le_iff of_int_less_iff)
  then show "(2 :: rat) powi (int (nat (bitlen n)) - 1) \<le> of_int n" "(of_int n :: rat) < 2 powi int (nat (bitlen n))"
    using pos by (simp_all add: two_powi)
qed

lemma exponent_bounds:
  assumes "0 < x"
  shows "2 powi exponent x \<le> x" "x < 2 powi (exponent x + 1)"
proof -
  obtain n d where q: "quotient_of x = (n, d)" by (cases "quotient_of x")
  then have d: "0 < d" and x: "x = of_int n / of_int d" using quotient_of_denom_pos quotient_of_div by blast+
  then have n: "0 < n" using assms by (simp add: zero_less_divide_iff)
  define i j where "i = int (nat (bitlen n))" and "j = int (nat (bitlen d))"
  have bn: "2 powi (i - 1) \<le> (of_int n :: rat)" "of_int n < (2 powi i :: rat)"
    and bd: "2 powi (j - 1) \<le> (of_int d :: rat)" "of_int d < (2 powi j :: rat)"
    unfolding i_def j_def by (rule bitlen_pos n d)+
  have pw: "(2 :: rat) powi (a + b) = 2 powi a * 2 powi b" for a b by (rule power_int_add) simp
  have pos: "0 < (2 :: rat) powi a" for a by simp
  have dq: "(0 :: rat) < of_int d" using d by simp
  have hi: "x < 2 powi (i - j + 1)"
  proof -
    have "of_int n < (2 powi (i - j + 1) :: rat) * 2 powi (j - 1)" using bn(2) unfolding pw [symmetric] by simp
    also have "\<dots> \<le> 2 powi (i - j + 1) * of_int d" using bd(1) by (intro mult_left_mono) simp_all
    finally show ?thesis using dq by (simp add: x divide_less_eq)
  qed
  have lo: "2 powi (i - j - 1) < x"
  proof -
    have "(2 powi (i - j - 1) :: rat) * of_int d < 2 powi (i - j - 1) * 2 powi j" using bd(2) by (intro mult_strict_left_mono) simp_all
    also have "\<dots> \<le> of_int n" using bn(1) unfolding pw [symmetric] by simp
    finally show ?thesis using dq by (simp add: x less_divide_eq)
  qed
  have test: "(if 0 \<le> e then 2 ^ nat e \<le> x else 1 \<le> x * 2 ^ nat (- e)) = (2 powi e \<le> x)" for e
    by (simp add: two_powi divide_le_eq)
  have ex: "exponent x = (if 2 powi (i - j) \<le> x then i - j else i - j - 1)"
    unfolding exponent_def q prod.case Let_def i_def [symmetric] j_def [symmetric] test by (rule refl)
  show "2 powi exponent x \<le> x" "x < 2 powi (exponent x + 1)"
    using hi lo by (auto simp: ex)
qed

lemma exponent_unique:
  assumes "0 < x" "2 powi k \<le> x" "x < 2 powi (k + 1)"
  shows "exponent x = k"
proof -
  have "(2 :: rat) powi k < 2 powi (exponent x + 1)" "(2 :: rat) powi exponent x < 2 powi (k + 1)"
    using exponent_bounds [OF assms(1)] assms(2,3) by linarith+
  then show ?thesis unfolding powi_less by linarith
qed

section \<open>Rounding to single precision\<close>

lemma f32_round_pos:
  assumes "0 < x"
  shows "f32_round x = of_int (round_even (x * 2 powi (23 - exponent x))) * 2 powi (exponent x - 23)"
  using assms by (auto simp: f32_round_def Let_def two_powi)

lemma f32_round_0 [simp]: "f32_round 0 = 0"
  by (simp add: f32_round_def)

lemma f32_round_minus: "f32_round (- x) = - f32_round x"
  by (simp add: f32_round_def Let_def)

lemma mantissa_bounds:
  assumes "0 < x"
  shows "2 ^ 23 \<le> round_even (x * 2 powi (23 - exponent x))" "round_even (x * 2 powi (23 - exponent x)) \<le> 2 ^ 24"
proof -
  have pw: "(2 :: rat) powi (a + b) = 2 powi a * 2 powi b" for a b by (rule power_int_add) simp
  have "2 powi exponent x * 2 powi (23 - exponent x) \<le> x * 2 powi (23 - exponent x)"
    using exponent_bounds(1) [OF assms] by (intro mult_right_mono) simp_all
  then have "of_int (2 ^ 23) \<le> x * 2 powi (23 - exponent x)" unfolding pw [symmetric] by (simp add: two_powi)
  then show "2 ^ 23 \<le> round_even (x * 2 powi (23 - exponent x))" using round_even_mono round_even_of_int by metis
  have "x * 2 powi (23 - exponent x) \<le> 2 powi (exponent x + 1) * 2 powi (23 - exponent x)"
    using exponent_bounds(2) [OF assms] by (intro mult_right_mono) simp_all
  then have "x * 2 powi (23 - exponent x) \<le> of_int (2 ^ 24)" unfolding pw [symmetric] by (simp add: two_powi)
  then show "round_even (x * 2 powi (23 - exponent x)) \<le> 2 ^ 24" using round_even_mono round_even_of_int by metis
qed

lemma f32_round_binade:
  assumes "0 < x"
  shows "2 powi exponent x \<le> f32_round x" "f32_round x \<le> 2 powi (exponent x + 1)"
proof -
  have pw: "(2 :: rat) powi (a + b) = 2 powi a * 2 powi b" for a b by (rule power_int_add) simp
  have m: "(of_int (2 ^ 23) :: rat) \<le> of_int (round_even (x * 2 powi (23 - exponent x)))"
    "(of_int (round_even (x * 2 powi (23 - exponent x))) :: rat) \<le> of_int (2 ^ 24)"
    using mantissa_bounds [OF assms] by (simp_all only: of_int_le_iff)
  have "2 powi exponent x = (of_int (2 ^ 23) :: rat) * 2 powi (exponent x - 23)"
    using pw [of 23 "exponent x - 23"] by (simp add: two_powi [of 23])
  also have "\<dots> \<le> f32_round x" unfolding f32_round_pos [OF assms] using m(1) by (intro mult_right_mono) simp_all
  finally show "2 powi exponent x \<le> f32_round x" .
  have "f32_round x \<le> of_int (2 ^ 24) * 2 powi (exponent x - 23)"
    unfolding f32_round_pos [OF assms] using m(2) by (intro mult_right_mono) simp_all
  also have "\<dots> = 2 powi (exponent x + 1)"
    using pw [of 24 "exponent x - 23"] by (simp add: two_powi [of 24] add.commute)
  finally show "f32_round x \<le> 2 powi (exponent x + 1)" .
qed

lemma f32_round_pos_mono:
  assumes "0 < x" "x \<le> y"
  shows "f32_round x \<le> f32_round y"
proof -
  have y: "0 < y" using assms by linarith
  have "(2 :: rat) powi exponent x < 2 powi (exponent y + 1)"
    using exponent_bounds(1) [OF assms(1)] exponent_bounds(2) [OF y] assms(2) by linarith
  then consider "exponent x = exponent y" | "exponent x + 1 \<le> exponent y" unfolding powi_less by linarith
  then show ?thesis
  proof cases
    case 1
    have "round_even (x * 2 powi (23 - exponent y)) \<le> round_even (y * 2 powi (23 - exponent y))"
      using assms(2) by (intro round_even_mono mult_right_mono) simp_all
    then show ?thesis unfolding f32_round_pos [OF assms(1)] f32_round_pos [OF y] 1
      by (intro mult_right_mono) simp_all
  next
    case 2
    then have "(2 :: rat) powi (exponent x + 1) \<le> 2 powi exponent y" by (simp add: power_int_increasing)
    then show ?thesis using f32_round_binade(2) [OF assms(1)] f32_round_binade(1) [OF y] by linarith
  qed
qed

lemma f32_round_pos_pos: "0 < x \<Longrightarrow> 0 < f32_round x"
  using f32_round_binade(1) [of x] by (metis less_le_trans zero_less_numeral zero_less_power_int)

lemma f32_round_mono: "x \<le> y \<Longrightarrow> f32_round x \<le> f32_round y"
proof -
  assume le: "x \<le> y"
  have neg: "f32_round z = - f32_round (- z)" for z using f32_round_minus [of "- z"] by simp
  consider "0 < x" | "x = 0" | "x < 0" "y < 0" | "x < 0" "0 \<le> y" by linarith
  then show ?thesis
  proof cases
    case 2
    then show ?thesis using le f32_round_pos_pos [of y] by (cases "y = 0") auto
  next
    case 3
    then show ?thesis using f32_round_pos_mono [of "- y" "- x"] le by (simp add: neg [of x] neg [of y])
  next
    case 4
    then show ?thesis using f32_round_pos_pos [of "- x"] f32_round_pos_pos [of y] by (cases "y = 0") (auto simp: neg [of x])
  qed (use le f32_round_pos_mono in blast)
qed

lemma f32_round_abs: "\<bar>f32_round x\<bar> = f32_round \<bar>x\<bar>"
  using f32_round_mono [of 0 x] f32_round_mono [of x 0] by (cases "0 \<le> x") (auto simp: f32_round_minus abs_if)

lemma f32_round_of_int:
  assumes "0 \<le> n" "n < 2 ^ 24"
  shows "f32_round (of_int n) = of_int n"
proof (cases "n = 0")
  case False
  define x where "x = (of_int n :: rat)"
  have x: "0 < x" "x < 2 powi 24" using assms False by (auto simp: x_def two_powi)
  have "(2 :: rat) powi exponent x < 2 powi 24" using exponent_bounds(1) [OF x(1)] x(2) by linarith
  then have "exponent x \<le> 23" unfolding powi_less by simp
  then have "x * 2 powi (23 - exponent x) = of_int (n * 2 ^ nat (23 - exponent x))" by (simp add: two_powi x_def)
  then have r: "of_int (round_even (x * 2 powi (23 - exponent x))) = x * 2 powi (23 - exponent x)"
    by (simp only: round_even_of_int)
  have "(2 :: rat) powi (23 - exponent x) * 2 powi (exponent x - 23) = 1"
    using power_int_add [of "2 :: rat" "23 - exponent x" "exponent x - 23"] by simp
  then show ?thesis unfolding x_def [symmetric] f32_round_pos [OF x(1)] r by (simp only: mult.assoc mult_1_right)
qed simp

lemma f32_of_u32_exact: "unat w < 2 ^ 24 \<Longrightarrow> f32_of_u32 w = of_nat (unat w)"
proof -
  assume "unat w < 2 ^ 24"
  then have "int (unat w) < int (2 ^ 24)" by (simp only: of_nat_less_iff)
  then have "uint w < 2 ^ 24" by simp
  then have "f32_round (of_int (uint w)) = of_int (uint w)" by (intro f32_round_of_int) simp
  then show ?thesis unfolding f32_of_u32_def uint_nat of_int_of_nat_eq .
qed

end
