(* ===== verification/Frame_Layout.thy ===== *)
theory Frame_Layout
  imports Float32
begin

text \<open>
  Pictures and their planes in the camera HAL (\<open>camera_vir/device/VirtualCameraUtils.cpp\<close>): mapping
  a capture buffer, the planar intermediate frame and its cropped layouts, the choice of the crop
  rectangle, the recognition of a layout, and the row tables handed to libjpeg. Pointers are offsets
  into the frame's data; 32-bit unsigned arithmetic wraps.
\<close>

section \<open>Aspect ratios\<close>

definition ASPECT_RATIO :: "u32 \<Rightarrow> u32 \<Rightarrow> f32" where
  "ASPECT_RATIO w h = f32_div (f32_of_u32 w) (f32_of_u32 h)"

fun isAspectRatioClose :: "f32 \<Rightarrow> f32 \<Rightarrow> bool" where
  "isAspectRatioClose (Fin a) (Fin b) = (\<bar>f32_round (a - b)\<bar> < f32_round (25 / 1000))"
| "isAspectRatioClose _ _ = False"

section \<open>Capture buffers\<close>

text \<open>A V4L2 buffer and its mapping; \<open>maps\<close> and \<open>unmaps\<close> count the system calls that succeeded.\<close>

record V4L2Frame =
  mMapped :: bool
  maps :: nat
  unmaps :: nat

definition v4l2_map :: "bool \<Rightarrow> V4L2Frame \<Rightarrow> int \<times> V4L2Frame" where
  "v4l2_map mmap_ok f =
     (if mMapped f then (0, f)
      else if \<not> mmap_ok then (- 22, f)
      else (0, f\<lparr>mMapped := True, maps := maps f + 1\<rparr>))"

definition v4l2_unmap :: "bool \<Rightarrow> V4L2Frame \<Rightarrow> int \<times> V4L2Frame" where
  "v4l2_unmap munmap_ok f =
     (if mMapped f then (if munmap_ok then (0, f\<lparr>mMapped := False, unmaps := unmaps f + 1\<rparr>) else (- 22, f))
      else (0, f))"

section \<open>Planar frames\<close>

record YCbCrLayout =
  l_y :: int
  l_cb :: int
  l_cr :: int
  yStride :: u32
  cStride :: u32
  chromaStep :: nat

record AllocatedFrame =
  af_width :: u32
  af_height :: u32
  af_size :: nat

record Rect =
  left :: int
  top :: int
  rwidth :: int
  rheight :: int

definition frame_bytes :: "u32 \<Rightarrow> u32 \<Rightarrow> u32" where
  "frame_bytes w h = w * h * 3 div 2"

text \<open>\<open>allocate\<close> resizes the vector and, for a caller that wants it, fills in the layout.\<close>

definition allocate :: "AllocatedFrame \<Rightarrow> int \<times> YCbCrLayout option \<times> AllocatedFrame" where
  "allocate f =
     (let w = af_width f; h = af_height f in
      if odd (unat w) \<or> odd (unat h) then (- 22, None, f)
      else
        let cb = int (unat (w * h)) in
        (0, Some \<lparr>l_y = 0, l_cb = cb, l_cr = cb + int (unat (w * h div 4)), yStride = w, cStride = w div 2, chromaStep = 1\<rparr>,
         f\<lparr>af_size := unat (frame_bytes w h)\<rparr>))"

text \<open>\<open>mWidth * rect.top\<close> is computed in 32 bits unsigned, the comparisons on \<open>int\<close>.\<close>

definition getCroppedLayout :: "AllocatedFrame \<Rightarrow> Rect \<Rightarrow> (int \<times> YCbCrLayout option) option" where
  "getCroppedLayout f r = do {
     right \<leftarrow> c_int (left r + rwidth r);
     bottom \<leftarrow> c_int (top r + rheight r);
     let w = af_width f;
     if to_int w < right \<or> to_int (af_height f) < bottom \<or> odd (left r) \<or> odd (top r) \<or> odd (rwidth r) \<or> odd (rheight r)
     then Some (- 1, None)
     else
       let y = int (unat (w * word_of_int (top r))) + left r;
           cb = int (unat (w * af_height f));
           cr = cb + int (unat (w * af_height f div 4));
           off = int (unat (w * word_of_int (top r) div 4)) + sgn (left r) * (\<bar>left r\<bar> div 2)
       in Some (0, Some \<lparr>l_y = y, l_cb = cb + off, l_cr = cr + off, yStride = w, cStride = w div 2, chromaStep = 1\<rparr>) }"

definition getLayout :: "AllocatedFrame \<Rightarrow> (int \<times> YCbCrLayout option) option" where
  "getLayout f = getCroppedLayout f \<lparr>left = 0, top = 0, rwidth = to_int (af_width f), rheight = to_int (af_height f)\<rparr>"

section \<open>Choosing the crop\<close>

datatype CroppingType = HORIZONTAL | VERTICAL

type_synonym Size = "u32 \<times> u32"

text \<open>The multiplication is on 64 bits and does not wrap; a zero divisor is undefined. \<open>& ~0x1\<close> clears the
  lowest bit.\<close>

definition even_down :: "nat \<Rightarrow> nat" where
  "even_down n = 2 * (n div 2)"

definition getCropRect :: "CroppingType \<Rightarrow> Size \<Rightarrow> Size \<Rightarrow> (int \<times> Rect option) option" where
  "getCropRect ct inSize outSize =
     (let (inW, inH) = inSize; (outW, outH) = outSize in
      if isAspectRatioClose (ASPECT_RATIO inW inH) (ASPECT_RATIO outW outH)
      then Some (0, Some \<lparr>left = 0, top = 0, rwidth = to_int inW, rheight = to_int inH\<rparr>)
      else if ct = VERTICAL
      then (if outW = 0 then None
            else
              let scaledOutH = unat outH * unat inW div unat outW in
              if unat inH < scaledOutH then Some (- 1, None)
              else
                let scaledOutH = even_down scaledOutH in
                Some (0, Some \<lparr>left = 0, top = to_int (of_nat (even_down ((unat inH - scaledOutH) div 2))),
                  rwidth = to_int inW, rheight = to_int (of_nat scaledOutH)\<rparr>))
      else (if outH = 0 then None
            else
              let scaledOutW = unat outW * unat inH div unat outH in
              if unat inW < scaledOutW then Some (- 1, None)
              else
                let scaledOutW = even_down scaledOutW in
                Some (0, Some \<lparr>left = to_int (of_nat (even_down ((unat inW - scaledOutW) div 2))), top = 0,
                  rwidth = to_int (of_nat scaledOutW), rheight = to_int inH\<rparr>)))"

section \<open>Cropping and scaling\<close>

text \<open>What \<open>cropAndScaleLocked\<close> does: hand out a layout of the input, or scale into a buffer of the
  requested size. \<open>scale_ok\<close> is the result of libyuv's \<open>I420Scale\<close>.\<close>

datatype scaled = InputLayout YCbCrLayout | ScaledInto Size YCbCrLayout

record pool =
  mScaledYu12Frames :: "(Size \<times> AllocatedFrame) list"
  mIntermediateBuffers :: "(Size \<times> AllocatedFrame) list"

definition cropAndScaleLocked ::
  "CroppingType \<Rightarrow> int \<Rightarrow> AllocatedFrame \<Rightarrow> Size \<Rightarrow> pool \<Rightarrow> (int \<times> scaled option \<times> pool) option" where
  "cropAndScaleLocked ct scale_ret inp outSz p =
     (let inSz = (af_width inp, af_height inp) in
      if inSz = outSz then do {
        (ret, l) \<leftarrow> getLayout inp;
        Some (ret, map_option InputLayout l, p) }
      else do {
        (ret, rect) \<leftarrow> getCropRect ct inSz outSz;
        case rect of None \<Rightarrow> Some (ret, None, p)
        | Some r \<Rightarrow> do {
            (ret, l) \<leftarrow> getCroppedLayout inp r;
            case l of None \<Rightarrow> Some (ret, None, p)
            | Some cropped \<Rightarrow>
                if ct = VERTICAL \<and> fst inSz = fst outSz \<or> ct = HORIZONTAL \<and> snd inSz = snd outSz
                then Some (0, Some (InputLayout cropped), p)
                else
                  case (case map_of (mScaledYu12Frames p) outSz of Some b \<Rightarrow> Some b
                        | None \<Rightarrow> map_of (mIntermediateBuffers p) outSz) of
                    None \<Rightarrow> Some (- 1, None, p)
                  | Some buf \<Rightarrow> do {
                      (ret, l) \<leftarrow> getLayout buf;
                      case l of None \<Rightarrow> Some (ret, None, p)
                      | Some out \<Rightarrow>
                          if scale_ret \<noteq> 0 then Some (scale_ret, None, p)
                          else Some (0, Some (ScaledInto outSz out),
                            (if map_of (mScaledYu12Frames p) outSz = None
                             then p\<lparr>mScaledYu12Frames := (outSz, buf) # mScaledYu12Frames p\<rparr> else p)) } } })"

section \<open>Recognising a layout\<close>

datatype yuv_format = NV21 | NV12 | YVU420 | YUV420 | FLEX_YUV_GENERIC

definition getFourCcFromLayout :: "YCbCrLayout \<Rightarrow> yuv_format" where
  "getFourCcFromLayout l =
     (if \<bar>l_cb l - l_cr l\<bar> = 1 \<and> chromaStep l = 2 then (if l_cr l < l_cb l then NV21 else NV12)
      else if chromaStep l = 1 then (if l_cr l < l_cb l then YVU420 else YUV420)
      else FLEX_YUV_GENERIC)"

text \<open>The conversion chosen for a format, and the chroma pointer the semi-planar ones write to.\<close>

datatype yuv_call = I420ToNV21 int | I420ToNV12 int | I420Copy int int

definition formatConvert :: "(yuv_call \<Rightarrow> int) \<Rightarrow> YCbCrLayout \<Rightarrow> yuv_format \<Rightarrow> int \<times> yuv_call option" where
  "formatConvert ret out fmt =
     (case fmt of
        NV21 \<Rightarrow> let c = I420ToNV21 (l_cr out) in (ret c, Some c)
      | NV12 \<Rightarrow> let c = I420ToNV12 (l_cb out) in (ret c, Some c)
      | YVU420 \<Rightarrow> let c = I420Copy (l_cb out) (l_cr out) in (ret c, Some c)
      | YUV420 \<Rightarrow> let c = I420Copy (l_cb out) (l_cr out) in (ret c, Some c)
      | FLEX_YUV_GENERIC \<Rightarrow> (- 1, None))"

section \<open>Rows for libjpeg\<close>

text \<open>The tables \<open>yLines\<close> and \<open>cbLines\<close> as offsets from the start of their plane: the picture is padded
  to full macroblock rows of 16 by repeating its last line. \<open>inSz.height - 1\<close> wraps for zero.\<close>

definition paddedHeight :: "u32 \<Rightarrow> nat" where
  "paddedHeight h = 16 * ((unat h + 15) div 16)"

definition yLines :: "u32 \<Rightarrow> u32 \<Rightarrow> nat list" where
  "yLines h stride = map (\<lambda>i. unat (of_nat (min i (unat (h - 1))) * stride)) [0..<paddedHeight h]"

definition cLines :: "u32 \<Rightarrow> u32 \<Rightarrow> nat list" where
  "cLines h stride = map (\<lambda>i. unat (of_nat (min i (unat ((h - 1) div 2))) * stride)) [0..<paddedHeight h div 2]"

text \<open>The batches: libjpeg takes 16 rows each time and advances \<open>next_scanline\<close> by them, until the height
  is reached; a short batch is an error. \<open>takes\<close> says whether it takes batch \<open>nl\<close>.\<close>

function jpeg_batches :: "(nat \<Rightarrow> bool) \<Rightarrow> u32 \<Rightarrow> nat \<Rightarrow> int \<times> (nat list \<times> nat list) list" where
  "jpeg_batches takes h nl =
     (if nl < unat h then
        let b = ([nl..<nl + 16], [nl div 2..<nl div 2 + 8]) in
        if takes nl then (case jpeg_batches takes h (nl + 16) of (r, bs) \<Rightarrow> (r, b # bs)) else (- 1, [b])
      else (0, []))"
  by auto
termination by (relation "measure (\<lambda>(_, h, nl). unat h - nl)") auto

declare jpeg_batches.simps [simp del]

text \<open>The largest thumbnail of the static metadata; areas are compared in 32 bits.\<close>

definition getMaxThumbnailResolution :: "Size list \<Rightarrow> Size" where
  "getMaxThumbnailResolution sizes =
     foldl (\<lambda>(w, h) (w', h'). if w * h < w' * h' then (w', h') else (w, h)) (0, 0) sizes"


section \<open>The crop lies in the frame\<close>

lemma u32_mult: "unat a * unat b < 2 ^ 32 \<Longrightarrow> unat ((a :: u32) * b) = unat a * unat b"
  by (rule unat_mult_lem [THEN iffD1]) simp

lemma unat_u32: "n < 2 ^ 32 \<Longrightarrow> unat (of_nat n :: u32) = n"
  by (simp add: unsigned_of_nat take_bit_nat_eq_self)

lemma even_down_even [simp]: "even (even_down n)"
  by (simp add: even_down_def)

lemma even_down_bounds: "even_down n \<le> n" "n < even_down n + 2"
  by (auto simp: even_down_def)

lemma even_down_id: "even n \<Longrightarrow> even_down n = n"
  by (auto simp: even_down_def)

definition rect_in :: "Rect \<Rightarrow> nat \<Rightarrow> nat \<Rightarrow> bool" where
  "rect_in r w h \<longleftrightarrow> 0 \<le> left r \<and> 0 \<le> top r \<and> 0 \<le> rwidth r \<and> 0 \<le> rheight r \<and>
     left r + rwidth r \<le> int w \<and> top r + rheight r \<le> int h \<and>
     even (left r) \<and> even (top r) \<and> even (rwidth r) \<and> even (rheight r)"

lemma to_int_nat: "n < 2 ^ 31 \<Longrightarrow> to_int (of_nat n) = int n"
  by (rule to_int_of_nat)

lemma centred:
  assumes "s \<le> n" "even s" "n < 2 ^ 31"
  shows "to_int (of_nat (even_down ((n - s) div 2))) = int (even_down ((n - s) div 2))"
    "even_down ((n - s) div 2) + s \<le> n" "\<bar>2 * int (even_down ((n - s) div 2)) + int s - int n\<bar> < 4"
proof -
  have b: "even_down ((n - s) div 2) \<le> (n - s) div 2" "(n - s) div 2 < even_down ((n - s) div 2) + 2"
    by (rule even_down_bounds)+
  then show "to_int (of_nat (even_down ((n - s) div 2))) = int (even_down ((n - s) div 2))"
    using assms by (intro to_int_of_nat) linarith
  show "even_down ((n - s) div 2) + s \<le> n" using b assms by linarith
  show "\<bar>2 * int (even_down ((n - s) div 2)) + int s - int n\<bar> < 4" using b assms by linarith
qed

text \<open>The side that is cut: the size of the crop along it is the rounded-down quotient.\<close>

lemma getCropRect_cases:
  assumes run: "getCropRect ct (of_nat W, of_nat H) (outW, outH) = Some (ret, r)" and bounds: "W < 2 ^ 31" "H < 2 ^ 31"
  shows "if isAspectRatioClose (ASPECT_RATIO (of_nat W) (of_nat H)) (ASPECT_RATIO outW outH)
    then ret = 0 \<and> r = Some \<lparr>left = 0, top = 0, rwidth = int W, rheight = int H\<rparr>
    else case ct of
      VERTICAL \<Rightarrow> (let s = unat outH * W div unat outW in
        if H < s then ret = - 1 \<and> r = None
        else ret = 0 \<and> (\<exists>t. r = Some \<lparr>left = 0, top = int t, rwidth = int W, rheight = int (even_down s)\<rparr> \<and>
          even t \<and> t + even_down s \<le> H \<and> \<bar>2 * int t + int (even_down s) - int H\<bar> < 4))
    | HORIZONTAL \<Rightarrow> (let s = unat outW * H div unat outH in
        if W < s then ret = - 1 \<and> r = None
        else ret = 0 \<and> (\<exists>t. r = Some \<lparr>left = int t, top = 0, rwidth = int (even_down s), rheight = int H\<rparr> \<and>
          even t \<and> t + even_down s \<le> W \<and> \<bar>2 * int t + int (even_down s) - int W\<bar> < 4))"
proof -
  let ?close = "isAspectRatioClose (ASPECT_RATIO (of_nat W) (of_nat H)) (ASPECT_RATIO outW outH)"
  have ints: "to_int (of_nat W) = int W" "to_int (of_nat H) = int H" "unat (of_nat W :: u32) = W" "unat (of_nat H :: u32) = H"
    using bounds by (simp_all add: to_int_of_nat unat_u32)
  have down: "to_int (of_nat (even_down s)) = int (even_down s)" "even_down s \<le> n" if "\<not> n < s" "n < 2 ^ 31" for s n
    using that even_down_bounds(1) [of s] by (auto intro: to_int_of_nat)
  show ?thesis
  proof (cases ?close)
    case True
    then show ?thesis using run by (simp add: getCropRect_def ints)
  next
    case not_close: False
    show ?thesis
    proof (cases ct)
      case VERTICAL
      define s where "s = unat outH * W div unat outW"
      have "(if H < s then Some (- 1, None)
          else Some (0, Some \<lparr>left = 0, top = to_int (of_nat (even_down ((H - even_down s) div 2))), rwidth = int W,
            rheight = to_int (of_nat (even_down s))\<rparr>)) = Some (ret, r)"
        using run not_close VERTICAL by (simp add: getCropRect_def ints Let_def s_def split: if_splits)
      then show ?thesis using not_close VERTICAL down [of H s] bounds centred [of "even_down s" H]
        unfolding s_def [symmetric] by (auto simp: Let_def simp flip: s_def split: if_splits)
    next
      case HORIZONTAL
      define s where "s = unat outW * H div unat outH"
      have "(if W < s then Some (- 1, None)
          else Some (0, Some \<lparr>left = to_int (of_nat (even_down ((W - even_down s) div 2))), top = 0,
            rwidth = to_int (of_nat (even_down s)), rheight = int H\<rparr>)) = Some (ret, r)"
        using run not_close HORIZONTAL by (simp add: getCropRect_def ints Let_def s_def split: if_splits)
      then show ?thesis using not_close HORIZONTAL down [of W s] bounds centred [of "even_down s" W]
        unfolding s_def [symmetric] by (auto simp: Let_def simp flip: s_def split: if_splits)
    qed
  qed
qed

lemma getCropRect_in:
  assumes "getCropRect ct (of_nat W, of_nat H) out = Some (ret, Some r)" "W < 2 ^ 31" "H < 2 ^ 31" "even W" "even H"
  shows "rect_in r W H"
proof -
  obtain outW outH where "out = (outW, outH)" by (cases out)
  then show ?thesis
    using getCropRect_cases [of ct W H outW outH ret "Some r"] assms
    by (cases ct) (auto simp: rect_in_def Let_def split: if_splits)
qed

text \<open>Where the samples of pixel \<open>(x, y)\<close> of a frame of width \<open>w\<close> and height \<open>h\<close> are.\<close>

definition y_at :: "nat \<Rightarrow> nat \<Rightarrow> nat \<Rightarrow> nat" where
  "y_at w x y = w * y + x"

definition c_at :: "nat \<Rightarrow> nat \<Rightarrow> nat \<Rightarrow> nat" where
  "c_at w x y = w div 2 * (y div 2) + x div 2"

definition shows_crop :: "YCbCrLayout \<Rightarrow> Rect \<Rightarrow> nat \<Rightarrow> nat \<Rightarrow> bool" where
  "shows_crop l r w h \<longleftrightarrow>
     (\<forall>i < nat (rwidth r). \<forall>j < nat (rheight r).
        let x = nat (left r) + i; y = nat (top r) + j in
        l_y l + int (unat (yStride l) * j + i) = int (y_at w x y) \<and> y_at w x y < w * h \<and>
        l_cb l + int (unat (cStride l) * (j div 2) + i div 2) = int (w * h + c_at w x y) \<and>
        l_cr l + int (unat (cStride l) * (j div 2) + i div 2) = int (w * h + w * h div 4 + c_at w x y) \<and>
        c_at w x y < w * h div 4)"


lemma at_in_plane: "x < w \<Longrightarrow> y < (h :: nat) \<Longrightarrow> w * y + x < w * h"
proof -
  assume "x < w" "y < h"
  then have "w * y + x < w * y + w" "w * Suc y \<le> w * h" by (auto intro: mult_le_mono2 simp del: mult_Suc_right)
  then show ?thesis by simp
qed

lemma crop_shown:
  assumes r: "r = \<lparr>left = int (2 * a), top = int (2 * b), rwidth = int (2 * c), rheight = int (2 * d)\<rparr>"
    and fits: "a + c \<le> m" "b + d \<le> n" and size: "2 * m * (2 * n) * 3 < 2 ^ 32" "2 * m < 2 ^ 31" "2 * n < 2 ^ 31"
    and f: "af_width f = of_nat (2 * m)" "af_height f = of_nat (2 * n)"
  shows "\<exists>l. getCroppedLayout f r = Some (0, Some l) \<and> shows_crop l r (2 * m) (2 * n)"
proof -
  have area: "2 * m * (2 * n) < 2 ^ 32" using size(1) by linarith
  have "2 * m * (2 * b) \<le> 2 * m * (2 * n)" using fits by (intro mult_le_mono2) simp
  then have row: "2 * m * (2 * b) < 2 ^ 32" using area by linarith
  have w: "unat (of_nat (2 * m) :: u32) = 2 * m" "unat (of_nat (2 * n) :: u32) = 2 * n"
    using size by (intro unat_u32; simp)+
  have ints: "to_int (of_nat (2 * m)) = int (2 * m)" "to_int (of_nat (2 * n)) = int (2 * n)"
    using size by (intro to_int_of_nat; simp)+
  have prods: "unat (of_nat (2 * m) * of_nat (2 * n) :: u32) = 2 * m * (2 * n)"
    "unat (of_nat (2 * m) * word_of_int (int (2 * b)) :: u32) = 2 * m * (2 * b)"
    unfolding of_int_of_nat_eq of_nat_mult [symmetric] using area row by (intro unat_u32; simp)+
  have quarters: "unat (of_nat (2 * m) * of_nat (2 * n) div 4 :: u32) = m * n"
    "unat (of_nat (2 * m) * word_of_int (int (2 * b)) div 4 :: u32) = m * b"
    unfolding unat_div prods by simp_all
  let ?l = "\<lparr>l_y = int (2 * m * (2 * b)) + int (2 * a), l_cb = int (2 * m * (2 * n)) + (int (m * b) + int a),
      l_cr = int (2 * m * (2 * n)) + int (m * n) + (int (m * b) + int a), yStride = of_nat (2 * m),
      cStride = of_nat (2 * m) div 2, chromaStep = 1\<rparr>"
  have "2 * a + 2 * c < 2 ^ 31" "2 * b + 2 * d < 2 ^ 31" using fits size by linarith+
  then have sums: "c_int (int (2 * a) + int (2 * c)) = Some (int (2 * a + 2 * c))"
    "c_int (int (2 * b) + int (2 * d)) = Some (int (2 * b + 2 * d))"
    by (auto simp: c_int_def in_int_def)
  have left: "sgn (int (2 * a)) * (\<bar>int (2 * a)\<bar> div 2) = int a"
    by (cases "a = 0") auto
  have "getCroppedLayout f r = Some (0, Some ?l)"
    using fits unfolding getCroppedLayout_def r f Rect.select_convs sums Option.bind.simps Let_def prods quarters ints left
    by (simp add: not_less)
  moreover have "shows_crop ?l r (2 * m) (2 * n)"
    unfolding shows_crop_def Let_def
  proof (intro allI impI)
    fix i j assume "i < nat (rwidth r)" "j < nat (rheight r)"
    then have ij: "i < 2 * c" "j < 2 * d" by (auto simp: r)
    have half: "unat (of_nat (2 * m) div 2 :: u32) = m" unfolding unat_div w by simp
    have x: "2 * a + i < 2 * m" and y: "2 * b + j < 2 * n" using ij fits by linarith+
    have cy: "b + j div 2 < n" and cx: "a + i div 2 < m" using ij fits by linarith+
    have "y_at (2 * m) (2 * a + i) (2 * b + j) < 2 * m * (2 * n)"
      using at_in_plane [OF x y] by (simp only: y_at_def)
    moreover have c: "c_at (2 * m) (2 * a + i) (2 * b + j) = m * (b + j div 2) + (a + i div 2)"
      by (simp add: c_at_def)
    moreover have "m * (b + j div 2) + (a + i div 2) < m * n"
      using at_in_plane [OF cx cy] .
    moreover have "2 * m * (2 * n) div 4 = m * n" by simp
    ultimately show "l_y ?l + int (unat (yStride ?l) * j + i) = int (y_at (2 * m) (nat (left r) + i) (nat (top r) + j)) \<and>
        y_at (2 * m) (nat (left r) + i) (nat (top r) + j) < 2 * m * (2 * n) \<and>
        l_cb ?l + int (unat (cStride ?l) * (j div 2) + i div 2) =
          int (2 * m * (2 * n) + c_at (2 * m) (nat (left r) + i) (nat (top r) + j)) \<and>
        l_cr ?l + int (unat (cStride ?l) * (j div 2) + i div 2) =
          int (2 * m * (2 * n) + 2 * m * (2 * n) div 4 + c_at (2 * m) (nat (left r) + i) (nat (top r) + j)) \<and>
        c_at (2 * m) (nat (left r) + i) (nat (top r) + j) < 2 * m * (2 * n) div 4"
      unfolding YCbCrLayout.select_convs w half r Rect.select_convs nat_int
      by (simp add: y_at_def algebra_simps)
  qed
  ultimately show ?thesis by blast
qed

lemma rect_in_halves:
  assumes "rect_in r W H" "even W" "even H"
  obtains a b c d m n where "r = \<lparr>left = int (2 * a), top = int (2 * b), rwidth = int (2 * c), rheight = int (2 * d)\<rparr>"
    "a + c \<le> m" "b + d \<le> n" "W = 2 * m" "H = 2 * n"
proof -
  have ev: "\<exists>k. x = int (2 * k)" if "even x" "0 \<le> x" for x :: int
    using that by (auto elim!: evenE intro!: exI [of _ "nat (x div 2)"])
  obtain a b c d where "left r = int (2 * a)" "top r = int (2 * b)" "rwidth r = int (2 * c)" "rheight r = int (2 * d)"
    using ev assms(1) unfolding rect_in_def by metis
  moreover obtain m n where "W = 2 * m" "H = 2 * n" using assms(2,3) by (auto elim!: evenE)
  ultimately show ?thesis using assms(1) by (intro that [of a b c d m n]) (auto simp: rect_in_def)
qed

lemma crop_shows:
  assumes frame: "af_width f = of_nat W" "af_height f = of_nat H" "even W" "even H"
    and size: "W * H * 3 < 2 ^ 32" "W < 2 ^ 31" "H < 2 ^ 31"
    and crop: "getCropRect ct (of_nat W, of_nat H) out = Some (ret, Some r)"
  shows "\<exists>l. getCroppedLayout f r = Some (0, Some l) \<and> shows_crop l r W H"
proof -
  have "rect_in r W H" using crop size frame by (intro getCropRect_in)
  then obtain a b c d m n where h: "r = \<lparr>left = int (2 * a), top = int (2 * b), rwidth = int (2 * c), rheight = int (2 * d)\<rparr>"
    "a + c \<le> m" "b + d \<le> n" "W = 2 * m" "H = 2 * n"
    using rect_in_halves frame(3,4) by metis
  show ?thesis
    unfolding h(4,5) using crop_shown [OF h(1-3)] size frame(1,2) unfolding h(4,5) by blast
qed

text \<open>C8: The crop stays in the picture and the layout shows it. For a planar frame of even width and
  height (any size whose data fits a 32-bit size), whatever output size and cropping direction are asked
  for: when \<open>getCropRect\<close> succeeds, \<open>getCroppedLayout\<close> accepts its rectangle, and reading pixel
  \<open>(i, j)\<close> of the layout, in each of the three planes, gives exactly the sample of pixel
  \<open>(left + i, top + j)\<close> of the frame, inside that plane.\<close>

theorem crop_in_frame:
  assumes frame: "af_width f = of_nat W" "af_height f = of_nat H" "even W" "even H"
    and size: "W * H * 3 < 2 ^ 32" "W < 2 ^ 31" "H < 2 ^ 31"
    and crop: "getCropRect ct (of_nat W, of_nat H) out = Some (ret, Some r)"
  shows "\<exists>l. getCroppedLayout f r = Some (0, Some l) \<and> shows_crop l r W H"
  using assms by (rule crop_shows)

lemma ratio_4_3: "\<not> isAspectRatioClose (ASPECT_RATIO 640 480) (ASPECT_RATIO 1280 720)"
  by code_simp

theorem crop_in_frame_witness:
  "\<exists>l. getCroppedLayout \<lparr>af_width = 640, af_height = 480, af_size = 460800\<rparr> \<lparr>left = 0, top = 60, rwidth = 640, rheight = 360\<rparr> =
      Some (0, Some l) \<and> shows_crop l \<lparr>left = 0, top = 60, rwidth = 640, rheight = 360\<rparr> 640 480"
proof (rule crop_in_frame)
  show "getCropRect VERTICAL (of_nat 640, of_nat 480) (1280, 720) =
      Some (0, Some \<lparr>left = 0, top = 60, rwidth = 640, rheight = 360\<rparr>)"
    using ratio_4_3 by (simp add: getCropRect_def even_down_def to_int_small)
qed simp_all

text \<open>The comparison with the requested size accepts nearby aspect ratios, and then the whole input
  picture is the crop.\<close>

lemma close_crop:
  assumes "isAspectRatioClose (ASPECT_RATIO w h) (ASPECT_RATIO w' h')"
  shows "getCropRect ct (w, h) (w', h') = Some (0, Some \<lparr>left = 0, top = 0, rwidth = to_int w, rheight = to_int h\<rparr>)"
  using assms by (simp add: getCropRect_def)

text \<open>A flaw of the code. A size that has the width of the input and nearly its aspect ratio, but more
  rows, takes the branch "no scale needed": \<open>cropAndScaleLocked\<close> reports success and hands out the
  layout of the input, which has fewer rows than the caller converts. Its last row starts behind the luma
  plane.\<close>

theorem close_ratio_overreads:
  assumes frame: "af_width f = of_nat W" "af_height f = of_nat H" "even W" "even H" "0 < W"
    and size: "W * H * 3 < 2 ^ 32" "W < 2 ^ 31" "H < 2 ^ 31"
    and close: "isAspectRatioClose (ASPECT_RATIO (of_nat W) (of_nat H)) (ASPECT_RATIO (of_nat W) outH)"
    and more: "H < unat outH"
  shows "\<exists>l. cropAndScaleLocked VERTICAL scale_ret f (of_nat W, outH) p = Some (0, Some (InputLayout l), p) \<and>
    int (W * H) \<le> l_y l + int (unat (yStride l) * (unat outH - 1))"
proof -
  define r where "r = \<lparr>left = 0, top = 0, rwidth = int W, rheight = int H\<rparr>"
  have crop: "getCropRect VERTICAL (of_nat W, of_nat H) (of_nat W, outH) = Some (0, Some r)"
    using close_crop [OF close] size by (simp add: r_def to_int_of_nat)
  obtain l where l: "getCroppedLayout f r = Some (0, Some l)"
    using crop_shows [of f W H VERTICAL "(of_nat W, outH)" 0 r] assms crop by blast
  then have "l_y l = 0" "yStride l = of_nat W"
    unfolding getCroppedLayout_def r_def using frame(1) by (auto simp: Let_def bind_eq_Some_conv split: if_splits)
  moreover have "unat (of_nat W :: u32) = W" using size by (intro unat_u32) simp
  moreover have "W * H \<le> W * (unat outH - 1)" using more by (intro mult_le_mono2) simp
  moreover have "outH \<noteq> of_nat H" using more size unat_u32 [of H] by auto
  ultimately have "int (W * H) \<le> l_y l + int (unat (yStride l) * (unat outH - 1))"
    by (simp only: add_0 zle_int)
  moreover have "cropAndScaleLocked VERTICAL scale_ret f (of_nat W, outH) p = Some (0, Some (InputLayout l), p)"
    using \<open>outH \<noteq> of_nat H\<close> crop l frame(1,2) by (simp add: cropAndScaleLocked_def)
  ultimately show ?thesis by blast
qed

theorem close_ratio_overreads_witness:
  "\<exists>l. cropAndScaleLocked VERTICAL 0 \<lparr>af_width = of_nat 1280, af_height = of_nat 800, af_size = 1536000\<rparr> (of_nat 1280, 804)
      \<lparr>mScaledYu12Frames = [], mIntermediateBuffers = []\<rparr> =
      Some (0, Some (InputLayout l), \<lparr>mScaledYu12Frames = [], mIntermediateBuffers = []\<rparr>) \<and>
    int (1280 * 800) \<le> l_y l + int (unat (yStride l) * (unat (804 :: u32) - 1))"
proof (rule close_ratio_overreads)
  have "isAspectRatioClose (ASPECT_RATIO 1280 800) (ASPECT_RATIO 1280 804)"
    by code_simp
  then show "isAspectRatioClose (ASPECT_RATIO (of_nat 1280) (of_nat 800)) (ASPECT_RATIO (of_nat 1280) 804)"
    by simp
qed simp_all

section \<open>The rows handed to libjpeg\<close>

lemma upt_append_at: "i \<le> j \<Longrightarrow> j \<le> k \<Longrightarrow> [i..<k] = [i..<j] @ [j..<k]"
  by (metis le_add_diff_inverse upt_add_eq_append)

lemma jpeg_batches_all:
  assumes "\<forall>n. takes n"
  shows "nl \<le> paddedHeight h \<Longrightarrow> 16 dvd nl \<Longrightarrow> \<exists>bs. jpeg_batches takes h nl = (0, bs) \<and>
    concat (map fst bs) = [nl..<paddedHeight h] \<and> concat (map snd bs) = [nl div 2..<paddedHeight h div 2]"
proof (induction "paddedHeight h - nl" arbitrary: nl rule: less_induct)
  case less
  obtain k where k: "nl = 16 * k" using less.prems(2) by blast
  show ?case
  proof (cases "nl < unat h")
    case True
    then have "k < (unat h + 15) div 16" unfolding k by linarith
    then have le: "nl + 16 \<le> paddedHeight h" by (simp add: paddedHeight_def k)
    then obtain bs where bs: "jpeg_batches takes h (nl + 16) = (0, bs)"
      "concat (map fst bs) = [nl + 16..<paddedHeight h]" "concat (map snd bs) = [(nl + 16) div 2..<paddedHeight h div 2]"
      using less.hyps [of "nl + 16"] by (fastforce simp: k)
    have halves: "nl div 2 = 8 * k" "(nl + 16) div 2 = 8 * k + 8" "nl div 2 + 8 = 8 * k + 8" by (simp_all add: k)
    have "8 * k + 8 \<le> paddedHeight h div 2" using le k by linarith
    then have rest: "[nl..<nl + 16] @ [nl + 16..<paddedHeight h] = [nl..<paddedHeight h]"
      "[nl div 2..<nl div 2 + 8] @ [(nl + 16) div 2..<paddedHeight h div 2] = [nl div 2..<paddedHeight h div 2]"
      unfolding halves using le by (simp_all only: le_add1 upt_append_at [symmetric])
    have "jpeg_batches takes h nl = (0, ([nl..<nl + 16], [nl div 2..<nl div 2 + 8]) # bs)"
      using True bs(1) assms by (subst jpeg_batches.simps) (simp only: if_True Let_def prod.case)
    then show ?thesis using bs(2,3) rest
      by (intro exI [of _ "([nl..<nl + 16], [nl div 2..<nl div 2 + 8]) # bs"]) (simp only: list.map concat.simps fst_conv snd_conv simp_thms)
  next
    case False
    then have "paddedHeight h = nl" using less.prems k unfolding paddedHeight_def by simp
    then show ?thesis using False by (subst jpeg_batches.simps) simp
  qed
qed

lemma row_fits: "r < n \<Longrightarrow> r * w + w \<le> w * (n :: nat)"
  by (metis Suc_leI add.commute mult.commute mult_Suc_right mult_le_mono2)

lemma row_offset:
  assumes "r < n" "w * n < 2 ^ 32"
  shows "unat (of_nat r * of_nat w :: u32) = r * w"
proof -
  have "r * w + w < 2 ^ 32" using row_fits [OF assms(1), of w] assms(2) by linarith
  then show ?thesis unfolding of_nat_mult [symmetric] by (intro unat_u32) simp
qed

text \<open>C28: The rows handed to libjpeg lie in the planes. For a picture of even, non-zero height whose data
  fits, and a compressor that takes each batch: all batches are written, they hand over each row of the
  padded picture once and in order, row \<open>i\<close> is row \<open>min i (H - 1)\<close> of the luma plane (\<open>min i (H / 2 - 1)\<close> of
  the chroma planes), and the whole row is in the plane.\<close>

theorem jpeg_rows_in_planes:
  assumes takes: "\<forall>n. takes n" and even: "even W" "even H" "0 < H" and size: "W * H < 2 ^ 32" "H < 2 ^ 32"
  shows "\<exists>bs. jpeg_batches takes (of_nat H) 0 = (0, bs) \<and>
    concat (map fst bs) = [0..<length (yLines (of_nat H) (of_nat W))] \<and>
    concat (map snd bs) = [0..<length (cLines (of_nat H) (of_nat (W div 2)))] \<and>
    (\<forall>i < length (yLines (of_nat H) (of_nat W)).
       yLines (of_nat H) (of_nat W) ! i = min i (H - 1) * W \<and> yLines (of_nat H) (of_nat W) ! i + W \<le> W * H) \<and>
    (\<forall>i < length (cLines (of_nat H) (of_nat (W div 2))).
       cLines (of_nat H) (of_nat (W div 2)) ! i = min i (H div 2 - 1) * (W div 2) \<and>
       cLines (of_nat H) (of_nat (W div 2)) ! i + W div 2 \<le> W * H div 4)"
proof -
  obtain m n where mn: "W = 2 * m" "H = 2 * n" using even(1,2) by (auto elim!: evenE)
  have h: "unat (of_nat H :: u32) = H" using size by (intro unat_u32)
  have h1: "unat (of_nat H - 1 :: u32) = H - 1" "unat ((of_nat H - 1) div 2 :: u32) = H div 2 - 1"
  proof -
    have e: "(of_nat H - 1 :: u32) = of_nat (H - 1)" using even by (simp add: of_nat_diff)
    show "unat (of_nat H - 1 :: u32) = H - 1" unfolding e using size by (intro unat_u32) simp
    then show "unat ((of_nat H - 1) div 2 :: u32) = H div 2 - 1"
      unfolding unat_div using mn even by simp
  qed
  have y: "min i (H - 1) < H" "min i (H div 2 - 1) < H div 2" for i using even mn by auto
  have half: "W div 2 * (H div 2) < 2 ^ 32" "W div 2 * (H div 2) = W * H div 4"
  proof -
    show "W div 2 * (H div 2) = W * H div 4" by (simp add: mn)
    then show "W div 2 * (H div 2) < 2 ^ 32" using size by linarith
  qed
  obtain bs where "jpeg_batches takes (of_nat H) 0 = (0, bs)"
    "concat (map fst bs) = [0..<paddedHeight (of_nat H)]" "concat (map snd bs) = [0..<paddedHeight (of_nat H) div 2]"
    using jpeg_batches_all [OF takes, of 0 "of_nat H"] by auto
  then show ?thesis
    using row_offset [OF y(1) size(1)] row_offset [OF y(2) half(1)] row_fits [OF y(1), of _ W] row_fits [OF y(2), of _ "W div 2"] half(2)
    by (intro exI [of _ bs]) (simp add: yLines_def cLines_def h1 del: of_nat_mult)
qed

theorem jpeg_rows_in_planes_witness:
  "\<exists>bs. jpeg_batches (\<lambda>_. True) (of_nat 360) 0 = (0, bs) \<and>
    concat (map fst bs) = [0..<length (yLines (of_nat 360) (of_nat 640))] \<and>
    concat (map snd bs) = [0..<length (cLines (of_nat 360) (of_nat (640 div 2)))] \<and>
    (\<forall>i < length (yLines (of_nat 360) (of_nat 640)).
       yLines (of_nat 360) (of_nat 640) ! i = min i (360 - 1) * 640 \<and> yLines (of_nat 360) (of_nat 640) ! i + 640 \<le> 640 * 360) \<and>
    (\<forall>i < length (cLines (of_nat 360) (of_nat (640 div 2))).
       cLines (of_nat 360) (of_nat (640 div 2)) ! i = min i (360 div 2 - 1) * (640 div 2) \<and>
       cLines (of_nat 360) (of_nat (640 div 2)) ! i + 640 div 2 \<le> 640 * 360 div 4)"
  by (rule jpeg_rows_in_planes) simp_all

end
