(* ===== verification/Hal_Session.thy ===== *)
theory Hal_Session
  imports Buffer_Cache V4l2_Stream Frame_Layout
begin

text \<open>
  The session of the camera HAL (\<open>camera_vir/device/VirtualCameraDeviceSession.cpp\<close>): its state, the
  check of a stream combination, the choice of the capture format, the intermediate buffers, and
  \<open>configureStreams\<close>. The state also has what the two worker threads own; their operations are in the
  theories \<open>Capture_Request\<close> and \<open>Capture_Pipeline\<close>.
\<close>

section \<open>Streams and formats\<close>

datatype PixelFormat = BLOB | YCBCR_420_888 | IMPLEMENTATION_DEFINED | YV12 | YCRCB_420_SP | Y16 | RAW10 | RAW12 | RAW16
  | OtherFormat u32

text \<open>The two facts the code asks of a data space are kept as booleans: whether it is \<open>V0_JFIF\<close>, and whether
  it has the \<open>DEPTH\<close> bit.\<close>

record Stream =
  st_id :: int
  st_width :: u32
  st_height :: u32
  st_format :: PixelFormat
  st_usage :: u64
  ds_jfif :: bool
  ds_depth :: bool
  st_output :: bool
  st_rotation_0 :: bool

definition v4l2_fourcc :: "string \<Rightarrow> u32" where
  "v4l2_fourcc s = foldr (\<lambda>c w. of_nat (of_char c) OR push_bit 8 w) s 0"

definition PIX_MJPEG :: u32 where "PIX_MJPEG = v4l2_fourcc ''MJPG''"
definition PIX_Z16 :: u32 where "PIX_Z16 = v4l2_fourcc ''Z16 ''"
definition PIX_YUYV :: u32 where "PIX_YUYV = v4l2_fourcc ''YUYV''"
definition PIX_SRGGB10 :: u32 where "PIX_SRGGB10 = v4l2_fourcc ''RG10''"
definition PIX_SGRBG12 :: u32 where "PIX_SGRBG12 = v4l2_fourcc ''BA12''"
definition PIX_SGRBG16 :: u32 where "PIX_SGRBG16 = v4l2_fourcc ''GR16''"
definition PIX_NV12 :: u32 where "PIX_NV12 = v4l2_fourcc ''NV12''"

definition isSupported :: "bool \<Rightarrow> SupportedV4L2Format list \<Rightarrow> Stream \<Rightarrow> bool" where
  "isSupported depthEnabled fmts s =
     (if \<not> st_output s then False
      else if \<not> st_rotation_0 s then False
      else if (case st_format s of
                 BLOB \<Rightarrow> \<not> ds_jfif s
               | Y16 \<Rightarrow> \<not> depthEnabled \<or> \<not> ds_depth s
               | OtherFormat _ \<Rightarrow> True
               | _ \<Rightarrow> False)
      then False
      else (\<exists>f \<in> set fmts. st_width s = fmt_width f \<and> st_height s = fmt_height f))"

definition kMaxProcessedStream :: nat where "kMaxProcessedStream = 3"
definition kMaxStallStream :: nat where "kMaxStallStream = 1"

definition isStreamCombinationSupported ::
  "bool \<Rightarrow> SupportedV4L2Format list \<Rightarrow> bool \<Rightarrow> Stream list \<Rightarrow> status" where
  "isStreamCombinationSupported depthEnabled fmts normal_mode ss =
     (if \<not> normal_mode then ILLEGAL_ARGUMENT
      else if ss = [] then ILLEGAL_ARGUMENT
      else if \<not> list_all (isSupported depthEnabled fmts) ss then ILLEGAL_ARGUMENT
      else if length (filter (\<lambda>s. st_format s \<noteq> BLOB) ss) > kMaxProcessedStream then ILLEGAL_ARGUMENT
      else if length (filter (\<lambda>s. st_format s = BLOB) ss) > kMaxStallStream then ILLEGAL_ARGUMENT
      else OK)"

section \<open>The capture format\<close>

definition kMaxAspectRatio :: f32 where "kMaxAspectRatio = Fin ((2 ^ 24 - 1) * 2 ^ 104)"
definition kMinAspectRatio :: f32 where "kMinAspectRatio = Fin 1"

definition stream_ratio :: "Stream \<Rightarrow> f32" where "stream_ratio s = ASPECT_RATIO (st_width s) (st_height s)"
definition fmt_ratio :: "SupportedV4L2Format \<Rightarrow> f32" where "fmt_ratio f = ASPECT_RATIO (fmt_width f) (fmt_height f)"

definition better_ratio :: "CroppingType \<Rightarrow> f32 \<Rightarrow> f32 \<Rightarrow> bool" where
  "better_ratio ct a desired \<longleftrightarrow> ct = VERTICAL \<and> f32_less a desired \<or> ct = HORIZONTAL \<and> f32_less desired a"

definition stream_dim :: "CroppingType \<Rightarrow> Stream \<Rightarrow> u32" where
  "stream_dim ct s = (if ct = VERTICAL then st_width s else st_height s)"

definition fmt_dim :: "CroppingType \<Rightarrow> SupportedV4L2Format \<Rightarrow> u32" where
  "fmt_dim ct f = (if ct = VERTICAL then fmt_width f else fmt_height f)"

text \<open>The loop over the streams, for the desired aspect ratio and the largest uncropped dimension.\<close>

definition desired :: "CroppingType \<Rightarrow> Stream list \<Rightarrow> f32 \<times> u32" where
  "desired ct ss =
     foldl (\<lambda>(ar, maxDim) s.
        (if better_ratio ct (stream_ratio s) ar then stream_ratio s else ar,
         if maxDim < stream_dim ct s then stream_dim ct s else maxDim))
       (if ct = VERTICAL then kMaxAspectRatio else kMinAspectRatio, 0) ss"

text \<open>The first loop keeps the last close format, and stops at one in a preferred encoding; the second takes the
  first wide enough one on the right side of the ratio.\<close>

fun find_close :: "CroppingType \<Rightarrow> f32 \<Rightarrow> u32 \<Rightarrow> SupportedV4L2Format list \<Rightarrow> SupportedV4L2Format option \<Rightarrow> SupportedV4L2Format option" where
  "find_close ct ar maxDim [] acc = acc"
| "find_close ct ar maxDim (f # fs) acc =
     (if maxDim \<le> fmt_dim ct f \<and> isAspectRatioClose (fmt_ratio f) ar
      then (if fourcc f = PIX_MJPEG \<or> fourcc f = PIX_SRGGB10 then Some f else find_close ct ar maxDim fs (Some f))
      else find_close ct ar maxDim fs acc)"

text \<open>A format of width zero counts as none found.\<close>

definition nonzero_width :: "SupportedV4L2Format option \<Rightarrow> SupportedV4L2Format option" where
  "nonzero_width x = (case x of Some f \<Rightarrow> if fmt_width f = 0 then None else Some f | None \<Rightarrow> None)"

definition selectFormat :: "CroppingType \<Rightarrow> SupportedV4L2Format list \<Rightarrow> Stream list \<Rightarrow> SupportedV4L2Format option" where
  "selectFormat ct fmts ss =
     (let (ar, maxDim) = desired ct ss in
      case nonzero_width (find_close ct ar maxDim fmts None) of
        Some f \<Rightarrow> Some f
      | None \<Rightarrow> nonzero_width (List.find (\<lambda>f. maxDim \<le> fmt_dim ct f \<and> better_ratio ct (fmt_ratio f) ar) fmts))"

section \<open>Intermediate buffers\<close>

record out_buffers =
  mYu12Frame :: "AllocatedFrame option"
  mYu12ThumbFrame :: "AllocatedFrame option"
  ob_pool :: pool
  ob_mBlobBufferSize :: u32

definition new_frame :: "Size \<Rightarrow> int \<times> AllocatedFrame" where
  "new_frame sz = (case allocate \<lparr>af_width = fst sz, af_height = snd sz, af_size = 0\<rparr> of (ret, _, f) \<Rightarrow> (ret, f))"

text \<open>The frame is replaced when there is none or its size differs; the new frame stays when its allocation fails.\<close>

definition renew_frame :: "Size \<Rightarrow> AllocatedFrame option \<Rightarrow> int \<times> AllocatedFrame option" where
  "renew_frame sz cur =
     (if (case cur of None \<Rightarrow> True | Some f \<Rightarrow> (af_width f, af_height f) \<noteq> sz)
      then (case new_frame sz of (ret, f) \<Rightarrow> (ret, Some f))
      else (0, cur))"

fun add_scaled :: "Size \<Rightarrow> Size list \<Rightarrow> (Size \<times> AllocatedFrame) list \<Rightarrow> int \<times> (Size \<times> AllocatedFrame) list" where
  "add_scaled v4lSize [] m = (0, m)"
| "add_scaled v4lSize (sz # rest) m =
     (if sz = v4lSize \<or> map_of m sz \<noteq> None then add_scaled v4lSize rest m
      else (case new_frame sz of (ret, f) \<Rightarrow>
        if ret \<noteq> 0 then (ret, m) else add_scaled v4lSize rest ((sz, f) # m)))"

definition allocateIntermediateBuffers ::
  "Size \<Rightarrow> Size \<Rightarrow> Size list \<Rightarrow> u32 \<Rightarrow> out_buffers \<Rightarrow> status \<times> out_buffers" where
  "allocateIntermediateBuffers v4lSize thumbSize sizes blob ob =
     (if mScaledYu12Frames (ob_pool ob) \<noteq> [] then (INTERNAL_ERROR, ob)
      else case renew_frame v4lSize (mYu12Frame ob) of (ret, f) \<Rightarrow>
        let ob = ob\<lparr>mYu12Frame := f\<rparr> in
        if ret \<noteq> 0 then (INTERNAL_ERROR, ob)
        else case renew_frame thumbSize (mYu12ThumbFrame ob) of (ret, f) \<Rightarrow>
          let ob = ob\<lparr>mYu12ThumbFrame := f\<rparr> in
          if ret \<noteq> 0 then (INTERNAL_ERROR, ob)
          else case add_scaled v4lSize sizes (mIntermediateBuffers (ob_pool ob)) of (ret, m) \<Rightarrow>
            if ret \<noteq> 0 then (INTERNAL_ERROR, ob\<lparr>ob_pool := (ob_pool ob)\<lparr>mIntermediateBuffers := m\<rparr>\<rparr>)
            else (OK, ob\<lparr>ob_pool := (ob_pool ob)\<lparr>mIntermediateBuffers := filter (\<lambda>(sz, _). sz \<in> set sizes) m\<rparr>,
              ob_mBlobBufferSize := blob\<rparr>))"

section \<open>The session\<close>

text \<open>What is constant in a session: the kind of device, the cropping direction, the formats and the settings
  of the static metadata.\<close>

record config =
  subDevice :: bool
  mainDevice :: bool
  mCroppingType :: CroppingType
  mSupportedFormats :: "SupportedV4L2Format list"
  depthEnabled :: bool
  numVideoBuffers :: u32
  numStillBuffers :: u32
  thumbSizes :: "Size list"
  camera_usage :: u64

record HalStreamBuffer =
  hb_streamId :: int
  hb_bufferId :: u64
  hb_width :: u32
  hb_height :: u32
  hb_format :: PixelFormat
  bufPtr :: buf_ptr
  acquireFence :: int
  fenceTimeout :: bool

record HalRequest =
  frameNumber :: u32
  mBufferIndex :: nat
  mFourcc :: u32
  shutterTs :: int
  buffers :: "HalStreamBuffer list"

datatype ErrorCode = ERROR_DEVICE | ERROR_REQUEST | ERROR_BUFFER

text \<open>What reaches the framework: notifications, and results with the status and fence of each buffer.\<close>

datatype message = Shutter u32 int | ErrorMsg u32 int ErrorCode | Result u32 "(int \<times> u64 \<times> bool \<times> int) list"

text \<open>\<open>driver_queue\<close> are the buffers the kernel owns. The last three fields record what no data of the code
  does: requests that were dropped, answered requests whose buffer the kernel refused, and results that were
  not delivered.\<close>

record session =
  mInitFail :: bool
  mClosed :: bool
  mFirstRequest :: bool
  fps_setting :: "int list"
  hv :: v4l2
  driver_queue :: "nat list"
  hcache :: cache
  mStreamMap :: "(int \<times> Stream) list"
  mInflightFrames :: "u32 set"
  hob :: out_buffers
  convertList :: "HalRequest list"
  outputList :: "HalRequest list"
  flushing :: "HalRequest list"
  converting :: "HalRequest option"
  processing :: "HalRequest option"
  mProcessingRequest :: bool
  output_running :: bool
  convert_running :: bool
  closing :: bool
  sent :: "message list"
  lost :: "HalRequest list"
  unreturned :: "HalRequest list"
  undelivered :: "u32 list"

definition initStatus :: "session \<Rightarrow> status" where
  "initStatus s = (if mInitFail s \<or> mClosed s then INTERNAL_ERROR else OK)"

section \<open>configureStreams\<close>

definition add_stream :: "Stream \<Rightarrow> session \<Rightarrow> session" where
  "add_stream st s =
     (if map_of (mStreamMap s) (st_id st) = None
      then s\<lparr>mStreamMap := (st_id st, st) # mStreamMap s,
        hcache := (if map_of (mCirculatingBuffers (hcache s)) (st_id st) = None
                   then set_cbs (st_id st) [] (hcache s) else hcache s)\<rparr>
      else s)"

definition add_streams :: "Stream list \<Rightarrow> session \<Rightarrow> session" where
  "add_streams ss s = foldl (\<lambda>s st. add_stream st s) s ss"

text \<open>The streams that are no longer configured: their buffers are freed, their entries erased.\<close>

fun remove_streams :: "int list \<Rightarrow> (int \<times> Stream) list \<Rightarrow> cache \<Rightarrow> ((int \<times> Stream) list \<times> cache) option" where
  "remove_streams ids [] c = Some ([], c)"
| "remove_streams ids ((i, st) # m) c =
     (if i \<in> set ids
      then do { (m, c) \<leftarrow> remove_streams ids m c; Some ((i, st) # m, c) }
      else do { c \<leftarrow> cleanupBuffersLocked i c; remove_streams ids m c })"

text \<open>The driver's queue once \<open>configureV4l2StreamLocked\<close> has returned \<open>ret\<close>: all buffers after a success,
  unchanged when nothing was stopped.\<close>

definition queue_after :: "driver \<Rightarrow> bool \<Rightarrow> code \<Rightarrow> v4l2 \<Rightarrow> nat list \<Rightarrow> nat list" where
  "queue_after d subdev ret v q =
     (if subdev then q
      else if ret = OK_0 then [0..<mV4L2BufferCount v]
      else if ret = MINUS_1 \<or> mV4l2Streaming v \<and> \<not> d_streamoff d then q
      else [])"

text \<open>One stream of the answer: id, format, usage, number of buffers. The usage is also stored.\<close>

definition set_usage :: "u64 \<Rightarrow> Stream \<Rightarrow> (int \<times> Stream) list \<Rightarrow> (int \<times> Stream) list" where
  "set_usage usage st m =
     map (\<lambda>(i, x). (i, if i = st_id st
        then x\<lparr>st_usage := usage, st_format := (if st_format st = IMPLEMENTATION_DEFINED then st_format st else st_format x)\<rparr>
        else x)) m"

definition known_format :: "PixelFormat \<Rightarrow> bool" where
  "known_format f = (case f of OtherFormat _ \<Rightarrow> False | _ \<Rightarrow> True)"

fun hal_streams :: "config \<Rightarrow> nat \<Rightarrow> Stream list \<Rightarrow> (int \<times> Stream) list \<Rightarrow>
    status \<times> (int \<times> PixelFormat \<times> u64 \<times> nat) list \<times> (int \<times> Stream) list" where
  "hal_streams cfg maxBuffers [] m = (OK, [], m)"
| "hal_streams cfg maxBuffers (st # rest) m =
     (let usage = st_usage st OR camera_usage cfg;
          m = set_usage usage st m
      in if \<not> known_format (st_format st) then (ILLEGAL_ARGUMENT, [], m)
         else (case hal_streams cfg maxBuffers rest m of
           (r, out, m) \<Rightarrow> (r, (st_id st, st_format st, usage, maxBuffers) # out, m)))"

definition configureStreams ::
  "config \<Rightarrow> driver \<Rightarrow> bool \<Rightarrow> Stream list \<Rightarrow> u32 \<Rightarrow> session \<Rightarrow>
    (status \<times> (int \<times> PixelFormat \<times> u64 \<times> nat) list \<times> session) option" where
  "configureStreams cfg d normal_mode ss blob s =
     (let st = isStreamCombinationSupported (depthEnabled cfg) (mSupportedFormats cfg) normal_mode ss in
      if st \<noteq> OK then Some (st, [], s)
      else if initStatus s \<noteq> OK then Some (initStatus s, [], s)
      else if mInflightFrames s \<noteq> {} then Some (INTERNAL_ERROR, [], s)
      else
        let s = add_streams ss s in
        case remove_streams (map st_id ss) (mStreamMap s) (hcache s) of None \<Rightarrow> None
        | Some (m, c) \<Rightarrow>
            let s = s\<lparr>mStreamMap := m, hcache := c\<rparr> in
            case selectFormat (mCroppingType cfg) (mSupportedFormats cfg) ss of
              None \<Rightarrow> Some (ILLEGAL_ARGUMENT, [], s)
            | Some fmt \<Rightarrow>
                case configureV4l2StreamLocked d (subDevice cfg) (numVideoBuffers cfg) (numStillBuffers cfg) 0 fmt (hv s) of
                  (ret, fmt, v) \<Rightarrow>
                    let s = s\<lparr>hv := v, driver_queue := queue_after d (subDevice cfg) ret v (driver_queue s)\<rparr> in
                    if ret \<noteq> OK_0 then Some (INTERNAL_ERROR, [], s)
                    else
                      let thumb = getMaxThumbnailResolution (thumbSizes cfg) in
                      if fst thumb * snd thumb = 0 then Some (INTERNAL_ERROR, [], s)
                      else
                        case allocateIntermediateBuffers (fmt_width fmt, fmt_height fmt) thumb
                               (map (\<lambda>st. (st_width st, st_height st)) ss) blob (hob s) of
                          (st, ob) \<Rightarrow>
                            let s = s\<lparr>hob := ob\<rparr> in
                            if st \<noteq> OK then Some (st, [], s)
                            else
                              case hal_streams cfg (mV4L2BufferCount v) ss (mStreamMap s) of
                                (st, out, m) \<Rightarrow>
                                  let s = s\<lparr>mStreamMap := m\<rparr> in
                                  if st \<noteq> OK then Some (st, out, s)
                                  else Some (OK, out, s\<lparr>mFirstRequest := True\<rparr>))"

text \<open>The \<open>3.4\<close> entry: the size of the last JPEG stream, and an early refusal of a second one.\<close>

definition configureStreams_3_4 ::
  "config \<Rightarrow> driver \<Rightarrow> bool \<Rightarrow> (Stream \<times> u32) list \<Rightarrow> session \<Rightarrow>
    (status \<times> (int \<times> PixelFormat \<times> u64 \<times> nat) list \<times> session) option" where
  "configureStreams_3_4 cfg d normal_mode ss s =
     (let (blob, stalls) = foldl (\<lambda>(blob, n) (st, size). if st_format st = BLOB then (size, n + 1) else (blob, n)) (0, 0 :: nat) ss in
      if stalls > kMaxStallStream then Some (ILLEGAL_ARGUMENT, [], s)
      else configureStreams cfg d normal_mode (map fst ss) blob s)"

section \<open>The buffers are ready\<close>

definition frame_ok :: "Size \<Rightarrow> AllocatedFrame \<Rightarrow> bool" where
  "frame_ok sz f \<longleftrightarrow> (af_width f, af_height f) = sz \<and> even (unat (fst sz)) \<and> even (unat (snd sz)) \<and>
     af_size f = unat (frame_bytes (fst sz) (snd sz))"

definition pool_ok :: "out_buffers \<Rightarrow> bool" where
  "pool_ok ob \<longleftrightarrow> (\<forall>(sz, f) \<in> set (mIntermediateBuffers (ob_pool ob)). frame_ok sz f) \<and>
     (\<forall>f. mYu12Frame ob = Some f \<longrightarrow> frame_ok (af_width f, af_height f) f) \<and>
     (\<forall>f. mYu12ThumbFrame ob = Some f \<longrightarrow> frame_ok (af_width f, af_height f) f)"

lemma new_frame_ok: "new_frame sz = (0, f) \<Longrightarrow> frame_ok sz f"
  by (cases sz) (auto simp: new_frame_def allocate_def frame_ok_def Let_def split: if_splits)

lemma renew_frame_ok:
  assumes "renew_frame sz cur = (0, f)" "\<And>g. cur = Some g \<Longrightarrow> frame_ok (af_width g, af_height g) g"
  shows "\<exists>g. f = Some g \<and> frame_ok sz g"
  using assms new_frame_ok [of sz] by (auto simp: renew_frame_def split: if_splits option.splits prod.splits)

lemma add_scaled_ok:
  assumes "add_scaled v4lSize sizes m = (0, m')" "\<forall>(sz, f) \<in> set m. frame_ok sz f"
  shows "(\<forall>(sz, f) \<in> set m'. frame_ok sz f) \<and> (\<forall>sz \<in> set sizes. sz \<noteq> v4lSize \<longrightarrow> map_of m' sz \<noteq> None) \<and>
    (\<forall>sz. map_of m sz \<noteq> None \<longrightarrow> map_of m' sz \<noteq> None)"
  using assms
proof (induction v4lSize sizes m rule: add_scaled.induct)
  case (2 v4lSize sz rest m)
  show ?case
  proof (cases "sz = v4lSize \<or> map_of m sz \<noteq> None")
    case True
    then show ?thesis using 2 by (fastforce split: if_splits)
  next
    case False
    obtain ret f where nf: "new_frame sz = (ret, f)" by (cases "new_frame sz")
    then have "ret = 0" using 2(3) False by (simp split: if_splits)
    then show ?thesis using 2(2) [OF False nf [symmetric]] 2(3,4) nf False new_frame_ok [of sz f]
      by (cases sz) (auto split: if_splits)
  qed
qed auto

lemma map_of_filter_key: "P k \<Longrightarrow> map_of (filter (\<lambda>(x, _). P x) m) k = map_of m k"
  by (induction m) auto

lemma buffers_ready:
  assumes ok: "pool_ok ob" and run: "allocateIntermediateBuffers v4lSize thumbSize sizes blob ob = (OK, ob')"
  shows "(\<exists>f. mYu12Frame ob' = Some f \<and> frame_ok v4lSize f) \<and> (\<exists>f. mYu12ThumbFrame ob' = Some f \<and> frame_ok thumbSize f) \<and>
    (\<forall>sz \<in> set sizes. sz \<noteq> v4lSize \<longrightarrow> (\<exists>f. map_of (mIntermediateBuffers (ob_pool ob')) sz = Some f \<and> frame_ok sz f)) \<and>
    (\<forall>sz f. map_of (mIntermediateBuffers (ob_pool ob')) sz = Some f \<longrightarrow> sz \<in> set sizes) \<and>
    mScaledYu12Frames (ob_pool ob') = [] \<and> pool_ok ob'"
proof -
  obtain r1 f1 where f1: "renew_frame v4lSize (mYu12Frame ob) = (r1, f1)" by fastforce
  obtain r2 f2 where f2: "renew_frame thumbSize (mYu12ThumbFrame ob) = (r2, f2)" by fastforce
  obtain r3 m where m: "add_scaled v4lSize sizes (mIntermediateBuffers (ob_pool ob)) = (r3, m)" by fastforce
  have zero: "mScaledYu12Frames (ob_pool ob) = []" "r1 = 0" "r2 = 0" "r3 = 0"
    and ob': "ob' = ob\<lparr>mYu12Frame := f1, mYu12ThumbFrame := f2,
      ob_pool := (ob_pool ob)\<lparr>mIntermediateBuffers := filter (\<lambda>(sz, _). sz \<in> set sizes) m\<rparr>, ob_mBlobBufferSize := blob\<rparr>"
    using run by (auto simp: allocateIntermediateBuffers_def Let_def f1 f2 m split: if_splits)
  obtain g1 g2 where g: "f1 = Some g1" "frame_ok v4lSize g1" "f2 = Some g2" "frame_ok thumbSize g2"
    using renew_frame_ok [OF f1 [unfolded zero]] renew_frame_ok [OF f2 [unfolded zero]] ok by (auto simp: pool_ok_def)
  have frames: "\<forall>(sz, f) \<in> set m. frame_ok sz f" "\<forall>sz \<in> set sizes. sz \<noteq> v4lSize \<longrightarrow> map_of m sz \<noteq> None"
    using add_scaled_ok [OF m [unfolded zero]] ok by (auto simp: pool_ok_def)
  have lookup: "\<exists>f. map_of (filter (\<lambda>(sz, _). sz \<in> set sizes) m) sz = Some f \<and> frame_ok sz f"
    if "sz \<in> set sizes" "sz \<noteq> v4lSize" for sz
    using frames that map_of_SomeD [of m sz] by (fastforce simp: map_of_filter_key)
  have self: "frame_ok (af_width g1, af_height g1) g1" "frame_ok (af_width g2, af_height g2) g2"
    using g by (auto simp: frame_ok_def)
  show ?thesis
    using g self lookup frames(1) zero(1) by (auto simp: ob' pool_ok_def dest: map_of_SomeD)
qed

text \<open>The intermediate buffers are ready for the configured streams. When the buffers held so far are
  allocated and \<open>allocateIntermediateBuffers\<close> succeeds, there is a planar frame of the capture size and a
  thumbnail frame of the requested size, each stream of another size has a buffer of exactly its size, all of
  them are allocated in full, and buffers of sizes no longer configured are gone.\<close>

theorem intermediate_buffers_ready:
  assumes ok: "pool_ok ob" and run: "allocateIntermediateBuffers v4lSize thumbSize sizes blob ob = (OK, ob')"
  shows "(\<exists>f. mYu12Frame ob' = Some f \<and> frame_ok v4lSize f) \<and> (\<exists>f. mYu12ThumbFrame ob' = Some f \<and> frame_ok thumbSize f) \<and>
    (\<forall>sz \<in> set sizes. sz \<noteq> v4lSize \<longrightarrow> (\<exists>f. map_of (mIntermediateBuffers (ob_pool ob')) sz = Some f \<and> frame_ok sz f)) \<and>
    (\<forall>sz f. map_of (mIntermediateBuffers (ob_pool ob')) sz = Some f \<longrightarrow> sz \<in> set sizes) \<and>
    mScaledYu12Frames (ob_pool ob') = [] \<and> pool_ok ob'"
  using assms by (rule buffers_ready)

theorem intermediate_buffers_ready_witness:
  "\<exists>ob'. allocateIntermediateBuffers (1280, 800) (320, 240) [(1280, 800), (640, 480)] 0
      \<lparr>mYu12Frame = None, mYu12ThumbFrame = None, ob_pool = \<lparr>mScaledYu12Frames = [], mIntermediateBuffers = []\<rparr>,
       ob_mBlobBufferSize = 0\<rparr> = (OK, ob') \<and> pool_ok ob' \<and>
    (\<exists>f. map_of (mIntermediateBuffers (ob_pool ob')) (640, 480) = Some f \<and> frame_ok (640, 480) f)"
proof -
  define ob :: out_buffers where "ob = \<lparr>mYu12Frame = None, mYu12ThumbFrame = None,
    ob_pool = \<lparr>mScaledYu12Frames = [], mIntermediateBuffers = []\<rparr>, ob_mBlobBufferSize = 0\<rparr>"
  obtain ob' where run: "allocateIntermediateBuffers (1280, 800) (320, 240) [(1280, 800), (640, 480)] 0 ob = (OK, ob')"
    by (simp add: ob_def allocateIntermediateBuffers_def renew_frame_def new_frame_def allocate_def Let_def)
  have "pool_ok ob" by (simp add: ob_def pool_ok_def)
  then show ?thesis using intermediate_buffers_ready [OF _ run] run unfolding ob_def [symmetric] by auto
qed

text \<open>A failed allocation is forgotten. A capture size with an odd side is refused at the first attempt; the
  frame that could not be allocated stays, and the second attempt with the same sizes reports success with no
  memory behind the frame.\<close>

theorem failed_allocation_sticks:
  assumes "odd (unat w) \<or> odd (unat h)" "mYu12Frame ob = None" "mYu12ThumbFrame ob = None"
    and "mScaledYu12Frames (ob_pool ob) = []"
    and "even (unat tw)" "even (unat th)"
  shows "\<exists>ob' ob'' f. allocateIntermediateBuffers (w, h) (tw, th) [(w, h)] blob ob = (INTERNAL_ERROR, ob') \<and>
    allocateIntermediateBuffers (w, h) (tw, th) [(w, h)] blob ob' = (OK, ob'') \<and>
    mYu12Frame ob'' = Some f \<and> af_size f = 0"
  using assms by (auto simp: allocateIntermediateBuffers_def renew_frame_def new_frame_def allocate_def Let_def)

end
