(* ===== verification/Stream_Config.thy ===== *)
theory Stream_Config
  imports Hal_Session
begin

text \<open>
  What \<open>configureStreams\<close> (\<open>camera_vir/device/VirtualCameraDeviceSession.cpp\<close>) achieves: the capture format it
  picks is one from which each configured stream can be cropped and scaled, and the intermediate buffers
  needed for that are there; and what it does not: an id that is configured again keeps its old size.
\<close>

section \<open>Ratios of small sizes\<close>

definition small_size :: "u32 \<Rightarrow> u32 \<Rightarrow> bool" where
  "small_size w h \<longleftrightarrow> 0 < unat w \<and> 0 < unat h \<and> unat w < 2 ^ 24 \<and> unat h < 2 ^ 24 \<and> even (unat w) \<and> even (unat h) \<and>
     unat w * unat h * 3 < 2 ^ 32"

lemma ratio_small:
  assumes "small_size w h"
  shows "ASPECT_RATIO w h = Fin (f32_round (of_nat (unat w) / of_nat (unat h)))"
proof -
  have "(of_nat (unat h) :: rat) \<noteq> 0" using assms unfolding small_size_def of_nat_eq_0_iff by simp
  then show ?thesis using assms unfolding ASPECT_RATIO_def f32_div_def
    by (simp only: small_size_def f32_of_u32_exact if_False)
qed

lemma ratio_less_cross:
  assumes "0 < h" "0 < h'" "of_nat w / of_nat h < (of_nat w' / of_nat h' :: rat)"
  shows "w * h' < w' * (h :: nat)"
proof -
  have "of_nat w * of_nat h' < (of_nat w' * of_nat h :: rat)"
    using assms by (simp add: divide_less_eq less_divide_eq mult.commute split: if_splits)
  then show ?thesis unfolding of_nat_mult [symmetric] of_nat_less_iff .
qed

lemma cross_div: "0 < w' \<Longrightarrow> w * h' < w' * h \<Longrightarrow> h' * w div w' \<le> (h :: nat)"
  by (metis div_le_mono less_imp_le mult.commute nonzero_mult_div_cancel_left not_less_zero)

lemma crop_vertical_ok:
  assumes inp: "small_size w h" and out: "small_size w' h'"
    and ratio: "isAspectRatioClose (ASPECT_RATIO w h) (ASPECT_RATIO w' h') \<or> f32_less (ASPECT_RATIO w h) (ASPECT_RATIO w' h')"
  shows "\<exists>r. getCropRect VERTICAL (w, h) (w', h') = Some (0, Some r)"
proof (cases "isAspectRatioClose (ASPECT_RATIO w h) (ASPECT_RATIO w' h')")
  case True
  then show ?thesis by (simp add: close_crop)
next
  case False
  define a b :: rat where "a = of_nat (unat w) / of_nat (unat h)" and "b = of_nat (unat w') / of_nat (unat h')"
  have pos: "0 < unat h" "0 < unat w'" "0 < unat h'" using inp out by (auto simp: small_size_def)
  have "f32_round a < f32_round b"
    using ratio False by (simp add: ratio_small [OF inp] ratio_small [OF out] a_def b_def)
  then have "a < b" using f32_round_mono [of b a] by linarith
  then have "unat w * unat h' < unat w' * unat h"
    using ratio_less_cross pos unfolding a_def b_def by blast
  then have "unat h' * unat w div unat w' \<le> unat h" using pos cross_div by blast
  moreover have "w' \<noteq> 0" using pos(2) by auto
  ultimately show ?thesis using False by (simp add: getCropRect_def Let_def not_less)
qed

section \<open>The desired ratio and the selected format\<close>

lemma desired_vertical:
  assumes "\<And>s. s \<in> set ss \<Longrightarrow> \<exists>x. stream_ratio s = Fin x" and run: "desired VERTICAL ss = (ar, maxDim)"
  shows "\<exists>x. ar = Fin x \<and> (\<forall>s \<in> set ss. \<forall>y. stream_ratio s = Fin y \<longrightarrow> x \<le> y)"
    "\<forall>s \<in> set ss. st_width s \<le> maxDim"
proof -
  let ?step = "\<lambda>(ar, maxDim) s. (if better_ratio VERTICAL (stream_ratio s) ar then stream_ratio s else ar,
      if maxDim < stream_dim VERTICAL s then stream_dim VERTICAL s else maxDim)"
  have fold: "\<exists>x' d'. foldl ?step (Fin x, d) ss = (Fin x', d') \<and> x' \<le> x \<and> d \<le> d' \<and>
      (\<forall>s \<in> set ss. (\<forall>y. stream_ratio s = Fin y \<longrightarrow> x' \<le> y) \<and> st_width s \<le> d')"
    if "\<And>s. s \<in> set ss \<Longrightarrow> \<exists>x. stream_ratio s = Fin x" for ss x d
    using that
  proof (induction ss arbitrary: x d)
    case (Cons s ss)
    obtain y where y: "stream_ratio s = Fin y" using Cons.prems by auto
    define x1 d1 where "x1 = (if y < x then y else x)" and "d1 = (if d < st_width s then st_width s else d)"
    have "?step (Fin x, d) s = (Fin x1, d1)"
      by (simp add: y x1_def d1_def better_ratio_def stream_dim_def)
    moreover obtain x' d' where rec: "foldl ?step (Fin x1, d1) ss = (Fin x', d')" "x' \<le> x1" "d1 \<le> d'"
      "\<forall>s \<in> set ss. (\<forall>y. stream_ratio s = Fin y \<longrightarrow> x' \<le> y) \<and> st_width s \<le> d'"
      using Cons.IH [of x1 d1] Cons.prems by auto
    moreover have "x1 \<le> x" "x1 \<le> y" "d \<le> d1" "st_width s \<le> d1" by (auto simp: x1_def d1_def)
    ultimately show ?case using y by (intro exI [of _ x'] exI [of _ d']) auto
  qed simp
  obtain x' d' where "foldl ?step (kMaxAspectRatio, 0) ss = (Fin x', d')"
    "\<forall>s \<in> set ss. (\<forall>y. stream_ratio s = Fin y \<longrightarrow> x' \<le> y) \<and> st_width s \<le> d'"
    using fold [of ss _ 0] assms(1) unfolding kMaxAspectRatio_def by blast
  then show "\<exists>x. ar = Fin x \<and> (\<forall>s \<in> set ss. \<forall>y. stream_ratio s = Fin y \<longrightarrow> x \<le> y)" "\<forall>s \<in> set ss. st_width s \<le> maxDim"
    using run by (auto simp: desired_def)
qed

lemma find_close_sound:
  "find_close ct ar maxDim fs acc = Some f \<Longrightarrow>
    acc = Some f \<or> f \<in> set fs \<and> maxDim \<le> fmt_dim ct f \<and> isAspectRatioClose (fmt_ratio f) ar"
  by (induction ct ar maxDim fs acc rule: find_close.induct) (auto split: if_splits)

lemma nonzero_width_eq: "nonzero_width x = Some f \<longleftrightarrow> x = Some f \<and> fmt_width f \<noteq> 0"
  by (auto simp: nonzero_width_def split: option.splits if_splits)

lemma selectFormat_sound:
  assumes "selectFormat ct fmts ss = Some f" "desired ct ss = (ar, maxDim)"
  shows "f \<in> set fmts \<and> maxDim \<le> fmt_dim ct f \<and> (isAspectRatioClose (fmt_ratio f) ar \<or> better_ratio ct (fmt_ratio f) ar)"
  using assms find_close_sound [of ct ar maxDim fmts None f]
  by (auto simp: selectFormat_def nonzero_width_eq find_Some_iff split: option.splits)

text \<open>From the picked format every stream can be cropped: its ratio is at least the desired one.\<close>

lemma selected_ratio:
  assumes sel: "selectFormat VERTICAL fmts ss = Some f" and s: "s \<in> set ss"
    and fs: "\<And>f. f \<in> set fmts \<Longrightarrow> small_size (fmt_width f) (fmt_height f)"
    and small: "\<And>s. s \<in> set ss \<Longrightarrow> small_size (st_width s) (st_height s)"
  shows "f \<in> set fmts" "st_width s \<le> fmt_width f" "isAspectRatioClose (fmt_ratio f) (stream_ratio s) \<or> f32_less (fmt_ratio f) (stream_ratio s)"
proof -
  obtain ar maxDim where d: "desired VERTICAL ss = (ar, maxDim)" by fastforce
  have fin: "\<exists>x. stream_ratio s = Fin x" if "s \<in> set ss" for s
    using ratio_small small [OF that] by (simp add: stream_ratio_def)
  obtain x where x: "ar = Fin x" "\<forall>s \<in> set ss. \<forall>y. stream_ratio s = Fin y \<longrightarrow> x \<le> y" "\<forall>s \<in> set ss. st_width s \<le> maxDim"
    using desired_vertical [OF fin d] by blast
  have f: "f \<in> set fmts" "maxDim \<le> fmt_width f" "isAspectRatioClose (fmt_ratio f) ar \<or> f32_less (fmt_ratio f) ar"
    using selectFormat_sound [OF sel d] by (auto simp: fmt_dim_def better_ratio_def)
  obtain y where y: "stream_ratio s = Fin y" using fin s by blast
  obtain a where a: "fmt_ratio f = Fin a" using ratio_small fs f(1) by (auto simp: fmt_ratio_def)
  have le: "x \<le> y" using x(2) s y by blast
  show "isAspectRatioClose (fmt_ratio f) (stream_ratio s) \<or> f32_less (fmt_ratio f) (stream_ratio s)"
  proof (rule ccontr)
    assume "\<not> ?thesis"
    then have no: "f32_round (25 / 1000) \<le> f32_round \<bar>a - y\<bar>" "y \<le> a" by (auto simp: a y f32_round_abs)
    have "\<bar>a - y\<bar> \<le> \<bar>a - x\<bar>" using le no(2) by simp
    then have "f32_round (25 / 1000) \<le> f32_round \<bar>a - x\<bar>" using f32_round_mono no(1) by fastforce
    then show False using f(3) le no(2) by (simp add: a x(1) f32_round_abs)
  qed
  show "f \<in> set fmts" "st_width s \<le> fmt_width f" using f x(3) s by auto
qed

section \<open>Scaling into the prepared buffers\<close>

lemma frame_nats:
  assumes "small_size w h"
  shows "w = of_nat (unat w)" "h = of_nat (unat h)" "even (unat w)" "even (unat h)" "unat w * unat h * 3 < 2 ^ 32"
    "unat w < 2 ^ 31" "unat h < 2 ^ 31"
  using assms by (auto simp: small_size_def)

lemma cropped_ok:
  assumes small: "small_size (af_width f) (af_height f)" and crop: "getCropRect ct (af_width f, af_height f) out = Some (ret, Some r)"
  shows "\<exists>l. getCroppedLayout f r = Some (0, Some l)"
proof -
  note n = frame_nats [OF small]
  show ?thesis using crop_shows [OF n(1-7), of ct out ret r] crop n(1,2) by auto
qed

lemma layout_ok:
  assumes small: "small_size (af_width f) (af_height f)"
  shows "\<exists>l. getLayout f = Some (0, Some l)"
proof -
  have pos: "0 < unat (af_width f)" "0 < unat (af_height f)" using small by (auto simp: small_size_def)
  have "f32_round 0 < f32_round (25 / 1000)" using f32_round_pos_pos [of "25 / 1000"] by simp
  then have "isAspectRatioClose (ASPECT_RATIO (af_width f) (af_height f)) (ASPECT_RATIO (af_width f) (af_height f))"
    by (simp add: ratio_small [OF small])
  then show ?thesis unfolding getLayout_def using cropped_ok [OF small] close_crop by blast
qed

lemma cropAndScale_ok:
  assumes small: "small_size (af_width f) (af_height f)"
    and crop: "\<exists>r. getCropRect ct (af_width f, af_height f) sz = Some (0, Some r)"
    and buf: "sz = (af_width f, af_height f) \<or>
      (\<exists>b. map_of (mIntermediateBuffers p) sz = Some b \<and> (af_width b, af_height b) = sz)" "small_size (fst sz) (snd sz)"
    and p: "mScaledYu12Frames p = []"
  shows "\<exists>out p'. cropAndScaleLocked ct 0 f sz p = Some (0, Some out, p')"
proof (cases "sz = (af_width f, af_height f)")
  case True
  then show ?thesis using layout_ok [OF small] by (auto simp: cropAndScaleLocked_def)
next
  case False
  obtain r where r: "getCropRect ct (af_width f, af_height f) sz = Some (0, Some r)" using crop by blast
  obtain l where l: "getCroppedLayout f r = Some (0, Some l)" using cropped_ok [OF small r] by blast
  obtain b where b: "map_of (mIntermediateBuffers p) sz = Some b" "(af_width b, af_height b) = sz" using buf(1) False by blast
  then obtain lb where "getLayout b = Some (0, Some lb)" using layout_ok [of b] buf(2) by auto
  then show ?thesis using r l b(1) p False by (auto simp: cropAndScaleLocked_def)
qed

lemma add_stream_simps [simp]: "hob (add_stream st s) = hob s" "hv (add_stream st s) = hv s"
  by (simp_all add: add_stream_def)

lemma add_streams_simps [simp]: "hob (add_streams ss s) = hob s" "hv (add_streams ss s) = hv s"
  by (induction ss arbitrary: s) (auto simp: add_streams_def)

lemma configureV4l2_dims:
  assumes "configureV4l2StreamLocked d subdev nv ns fps fmt v = (OK_0, fmt', v')"
    and "subdev \<or> (fst (d_fmt d) = fmt_width fmt \<and> fst (snd (d_fmt d)) = fmt_height fmt)"
  shows "fmt_width fmt' = fmt_width fmt" "fmt_height fmt' = fmt_height fmt"
  using assms by (auto simp: configureV4l2StreamLocked_def configure_capture_def Let_def split: prod.splits if_splits option.splits)

lemma configureStreams_OK:
  assumes "configureStreams cfg d nm ss blob s = Some (OK, out, s')"
  obtains fmt fmt' v ob where "selectFormat (mCroppingType cfg) (mSupportedFormats cfg) ss = Some fmt"
    "configureV4l2StreamLocked d (subDevice cfg) (numVideoBuffers cfg) (numStillBuffers cfg) 0 fmt (hv s) = (OK_0, fmt', v)"
    "allocateIntermediateBuffers (fmt_width fmt', fmt_height fmt') (getMaxThumbnailResolution (thumbSizes cfg))
      (map (\<lambda>st. (st_width st, st_height st)) ss) blob (hob s) = (OK, ob)"
    "hob s' = ob" "isStreamCombinationSupported (depthEnabled cfg) (mSupportedFormats cfg) nm ss = OK"
  using assms unfolding configureStreams_def Let_def
  by (auto split: if_splits option.splits prod.splits intro: that)

lemma supported_sizes:
  assumes "isStreamCombinationSupported depth fmts nm ss = OK" "s \<in> set ss"
  shows "\<exists>f \<in> set fmts. st_width s = fmt_width f \<and> st_height s = fmt_height f"
  using assms by (auto simp: isStreamCombinationSupported_def isSupported_def list_all_iff split: if_splits)

text \<open>C3: A configured session can serve its streams. Take a camera that crops vertically, whose formats have even
  sizes below \<open>2^24\<close>, with a driver that grants the size it is asked for. After \<open>configureStreams\<close> has succeeded,
  for each stream, the planar frame of the capture size is there, and cropping it to the stream's shape and scaling it
  to the stream's size succeeds: the crop fits in the frame, and a buffer of the stream's size has been
  allocated. Single-precision rounding of the ratios does not spoil it.\<close>

theorem configured_streams_served:
  assumes run: "configureStreams cfg d nm ss blob s = Some (OK, out, s')" and st: "st \<in> set ss"
    and cfg: "mCroppingType cfg = VERTICAL" "\<And>f. f \<in> set (mSupportedFormats cfg) \<Longrightarrow> small_size (fmt_width f) (fmt_height f)"
    and sel: "selectFormat VERTICAL (mSupportedFormats cfg) ss = Some fmt"
    and driver: "subDevice cfg \<or> (fst (d_fmt d) = fmt_width fmt \<and> fst (snd (d_fmt d)) = fmt_height fmt)"
    and ok: "pool_ok (hob s)"
  shows "\<exists>f res p. mYu12Frame (hob s') = Some f \<and> frame_ok (fmt_width fmt, fmt_height fmt) f \<and>
    cropAndScaleLocked VERTICAL 0 f (st_width st, st_height st) (ob_pool (hob s')) = Some (0, Some res, p)"
proof -
  obtain fmt' v ob where conf: "configureV4l2StreamLocked d (subDevice cfg) (numVideoBuffers cfg) (numStillBuffers cfg) 0 fmt (hv s) = (OK_0, fmt', v)"
    and alloc: "allocateIntermediateBuffers (fmt_width fmt', fmt_height fmt') (getMaxThumbnailResolution (thumbSizes cfg))
      (map (\<lambda>st. (st_width st, st_height st)) ss) blob (hob s) = (OK, ob)"
    and ob: "hob s' = ob" and supp: "isStreamCombinationSupported (depthEnabled cfg) (mSupportedFormats cfg) nm ss = OK"
    by (rule configureStreams_OK [OF run, unfolded cfg(1)]) (simp add: sel)
  have dims: "fmt_width fmt' = fmt_width fmt" "fmt_height fmt' = fmt_height fmt" using configureV4l2_dims [OF conf driver] .
  have small: "small_size (st_width s) (st_height s)" if "s \<in> set ss" for s
    using supported_sizes [OF supp that] cfg(2) by auto
  note ratio = selected_ratio [OF sel _ cfg(2) small]
  have fs: "small_size (fmt_width fmt) (fmt_height fmt)" using cfg(2) ratio(1) [OF st] .
  have ready: "\<forall>sz \<in> set (map (\<lambda>st. (st_width st, st_height st)) ss). sz \<noteq> (fmt_width fmt', fmt_height fmt') \<longrightarrow>
      (\<exists>f. map_of (mIntermediateBuffers (ob_pool ob)) sz = Some f \<and> frame_ok sz f)" "mScaledYu12Frames (ob_pool ob) = []"
    using buffers_ready [OF ok alloc] by blast+
  obtain f where f: "mYu12Frame ob = Some f" "frame_ok (fmt_width fmt, fmt_height fmt) f"
    using buffers_ready [OF ok alloc] dims by auto
  then have size: "af_width f = fmt_width fmt" "af_height f = fmt_height fmt" by (auto simp: frame_ok_def)
  have buf: "(st_width st, st_height st) = (af_width f, af_height f) \<or> (\<exists>b. map_of (mIntermediateBuffers (ob_pool ob)) (st_width st, st_height st) = Some b \<and>
      (af_width b, af_height b) = (st_width st, st_height st))"
    using ready st by (auto simp: frame_ok_def dims size)
  have "\<exists>r. getCropRect VERTICAL (fmt_width fmt, fmt_height fmt) (st_width st, st_height st) = Some (0, Some r)"
    using crop_vertical_ok [OF fs small [OF st]] ratio(3) [OF st] by (simp add: fmt_ratio_def stream_ratio_def)
  then have "\<exists>res p'. cropAndScaleLocked VERTICAL 0 f (st_width st, st_height st) (ob_pool ob) = Some (0, Some res, p')"
    using cropAndScale_ok [of f VERTICAL "(st_width st, st_height st)" "ob_pool ob"] fs small [OF st] buf
      ready(2) by (simp add: size)
  then show ?thesis using f ob by blast
qed

section \<open>An example configuration\<close>

definition example_fmt :: "u32 \<Rightarrow> u32 \<Rightarrow> SupportedV4L2Format" where
  "example_fmt w h = \<lparr>fmt_width = w, fmt_height = h, fourcc = PIX_SRGGB10, frameRates = []\<rparr>"

definition example_cfg :: config where
  "example_cfg = \<lparr>subDevice = True, mainDevice = False, mCroppingType = VERTICAL,
     mSupportedFormats = [example_fmt 640 400, example_fmt 1280 800], depthEnabled = False,
     numVideoBuffers = 4, numStillBuffers = 2, thumbSizes = [(0, 0), (320, 240)], camera_usage = 0\<rparr>"

definition example_stream :: "int \<Rightarrow> u32 \<Rightarrow> u32 \<Rightarrow> Stream" where
  "example_stream i w h = \<lparr>st_id = i, st_width = w, st_height = h, st_format = YCBCR_420_888, st_usage = 0,
     ds_jfif = False, ds_depth = False, st_output = True, st_rotation_0 = True\<rparr>"

definition example_driver :: driver where
  "example_driver = \<lparr>d_streamoff = True, d_free_bufs = True, d_s_fmt = \<lambda>_. True, d_fmt = (1280, 800, PIX_SRGGB10),
     d_sizeimage = 2048000, d_reqbufs = Some 4, d_querybuf = \<lambda>_. True, d_qbuf = \<lambda>_. True, d_streamon = \<lambda>_. True,
     d_swallow = \<lambda>_. True\<rparr>"

definition new_session :: session where
  "new_session = \<lparr>mInitFail = False, mClosed = False, mFirstRequest = False, fps_setting = [],
     hv = \<lparr>mV4l2Streaming = False, mV4l2StreamingFmt = example_fmt 0 0, mV4l2StreamingFps = 0, mV4L2BufferCount = 0,
       mMaxV4L2BufferSize = 0, mNumDequeuedV4l2Buffers = 0\<rparr>,
     driver_queue = [], hcache = \<lparr>mCirculatingBuffers = [], imported = [], freed = []\<rparr>, mStreamMap = [], mInflightFrames = {},
     hob = \<lparr>mYu12Frame = None, mYu12ThumbFrame = None, ob_pool = \<lparr>mScaledYu12Frames = [], mIntermediateBuffers = []\<rparr>,
       ob_mBlobBufferSize = 0\<rparr>,
     convertList = [], outputList = [], flushing = [], converting = None, processing = None, mProcessingRequest = False,
     output_running = True, convert_running = True, closing = False, sent = [], lost = [], unreturned = [], undelivered = []\<rparr>"

lemma ratio_8_5:
  "ASPECT_RATIO 640 400 = Fin (13421773 / 8388608)" "ASPECT_RATIO 1280 800 = Fin (13421773 / 8388608)"
  "0 < f32_round (1 / 40)"
proof -
  show "ASPECT_RATIO 640 400 = Fin (13421773 / 8388608)" "ASPECT_RATIO 1280 800 = Fin (13421773 / 8388608)"
    by code_simp+
  show "0 < f32_round (1 / 40)" by (rule f32_round_pos_pos) simp
qed

lemma example_selected:
  "selectFormat VERTICAL (mSupportedFormats example_cfg) [example_stream 0 640 400, example_stream 1 1280 800] =
    Some (example_fmt 1280 800)"
  by (simp add: selectFormat_def desired_def kMaxAspectRatio_def example_cfg_def example_fmt_def example_stream_def
    stream_ratio_def fmt_ratio_def better_ratio_def stream_dim_def fmt_dim_def ratio_8_5 nonzero_width_def)

lemma example_run:
  "\<exists>out s'. configureStreams example_cfg example_driver True [example_stream 0 640 400, example_stream 1 1280 800] 0 new_session =
    Some (OK, out, s')"
  using example_selected
  by (simp add: configureStreams_def isStreamCombinationSupported_def isSupported_def kMaxProcessedStream_def kMaxStallStream_def
    initStatus_def new_session_def add_streams_def add_stream_def set_cbs_def configureV4l2StreamLocked_def v4l2StreamOffLocked_def
    getMaxThumbnailResolution_def allocateIntermediateBuffers_def renew_frame_def new_frame_def allocate_def example_cfg_def
    example_fmt_def example_stream_def queue_after_def known_format_def Let_def)

theorem configured_streams_served_witness:
  "\<exists>out s'. configureStreams example_cfg example_driver True [example_stream 0 640 400, example_stream 1 1280 800] 0 new_session =
      Some (OK, out, s') \<and>
    (\<exists>f res p. mYu12Frame (hob s') = Some f \<and> frame_ok (1280, 800) f \<and>
      cropAndScaleLocked VERTICAL 0 f (640, 400) (ob_pool (hob s')) = Some (0, Some res, p))"
proof -
  obtain out s' where run: "configureStreams example_cfg example_driver True [example_stream 0 640 400, example_stream 1 1280 800] 0 new_session =
      Some (OK, out, s')" using example_run by blast
  have "small_size (fmt_width f) (fmt_height f)" if "f \<in> set (mSupportedFormats example_cfg)" for f
    using that by (auto simp: example_cfg_def example_fmt_def small_size_def)
  then show ?thesis
    using configured_streams_served [OF run, of "example_stream 0 640 400" "example_fmt 1280 800"] run example_selected
    by (simp add: example_cfg_def example_stream_def example_fmt_def new_session_def pool_ok_def)
qed

section \<open>A stream id used again\<close>

lemma add_streams_old:
  "map_of (mStreamMap s) i = Some st \<Longrightarrow> map_of (mStreamMap (add_streams ss s)) i = Some st"
proof (induction ss arbitrary: s)
  case (Cons x ss)
  have "map_of (mStreamMap (add_stream x s)) i = Some st" using Cons.prems by (auto simp: add_stream_def)
  then show ?case using Cons.IH by (simp add: add_streams_def)
qed (simp add: add_streams_def)

lemma remove_streams_old:
  "remove_streams ids m c = Some (m', c') \<Longrightarrow> i \<in> set ids \<Longrightarrow> map_of m' i = map_of m i"
  by (induction ids m c arbitrary: m' c' rule: remove_streams.induct) (auto simp: bind_eq_Some_conv split: if_splits)

definition same_size :: "Stream option \<Rightarrow> Stream \<Rightarrow> bool" where
  "same_size x st \<longleftrightarrow> (\<exists>y. x = Some y \<and> st_width y = st_width st \<and> st_height y = st_height st)"

lemma set_usage_size: "same_size (map_of m i) st \<Longrightarrow> same_size (map_of (set_usage u x m) i) st"
  unfolding set_usage_def by (induction m) (auto simp: same_size_def)

lemma hal_streams_size:
  "hal_streams cfg n ss m = (r, out, m') \<Longrightarrow> same_size (map_of m i) st \<Longrightarrow> same_size (map_of m' i) st"
  by (induction cfg n ss m arbitrary: out rule: hal_streams.induct)
    (auto simp: Let_def set_usage_size split: if_splits prod.splits)

text \<open>A flaw of the code. When the framework configures a stream id it has used before with another size,
  \<open>configureStreams\<close> reports success for the new size, while the session goes on with the old one: requests for
  that id produce pictures of the old size in buffers of the new one.\<close>

theorem same_id_keeps_size:
  assumes run: "configureStreams cfg d nm ss blob s = Some (OK, out, s')"
    and old: "map_of (mStreamMap s) i = Some st" and again: "i \<in> st_id ` set ss"
  shows "\<exists>st'. map_of (mStreamMap s') i = Some st' \<and> st_width st' = st_width st \<and> st_height st' = st_height st"
proof -
  obtain m c where rem: "remove_streams (map st_id ss) (mStreamMap (add_streams ss s)) (hcache (add_streams ss s)) = Some (m, c)"
    using run unfolding configureStreams_def Let_def by (auto split: if_splits option.splits)
  have m: "same_size (map_of m i) st"
    using remove_streams_old [OF rem, of i] add_streams_old [OF old] again by (auto simp: same_size_def)
  obtain n where "hal_streams cfg n ss m = (OK, out, mStreamMap s')"
    using run rem unfolding configureStreams_def Let_def by (auto split: if_splits option.splits prod.splits)
  then have "same_size (map_of (mStreamMap s') i) st" using hal_streams_size m by blast
  then show ?thesis by (simp add: same_size_def)
qed

theorem same_id_keeps_size_witness:
  "\<exists>out s' st'. configureStreams example_cfg example_driver True [example_stream 0 640 400, example_stream 1 1280 800] 0
      (new_session\<lparr>mStreamMap := [(0, example_stream 0 1280 800)]\<rparr>) = Some (OK, out, s') \<and>
    map_of (mStreamMap s') 0 = Some st' \<and> st_width st' = 1280 \<and> st_height st' = 800"
proof -
  obtain out s' where run: "configureStreams example_cfg example_driver True [example_stream 0 640 400, example_stream 1 1280 800] 0
      (new_session\<lparr>mStreamMap := [(0, example_stream 0 1280 800)]\<rparr>) = Some (OK, out, s')"
    using example_selected
    by (simp add: configureStreams_def isStreamCombinationSupported_def isSupported_def kMaxProcessedStream_def kMaxStallStream_def
      initStatus_def new_session_def add_streams_def add_stream_def set_cbs_def configureV4l2StreamLocked_def v4l2StreamOffLocked_def
      getMaxThumbnailResolution_def allocateIntermediateBuffers_def renew_frame_def new_frame_def allocate_def example_cfg_def
      example_fmt_def example_stream_def queue_after_def known_format_def Let_def)
  then show ?thesis
    using same_id_keeps_size [OF run, of 0 "example_stream 0 1280 800"] by (auto simp: example_stream_def)
qed

end
