(* ===== verification/Capture_Request.thy ===== *)
theory Capture_Request
  imports Stream_Config
begin

text \<open>
  One capture request of the camera HAL (\<open>processOneCaptureRequest\<close>, \<open>processCaptureRequest\<close>,
  \<open>dequeueV4l2FrameLocked\<close>, \<open>enqueueV4l2Frame\<close>, \<open>processCaptureResult\<close>, \<open>processCaptureRequestError\<close> of
  \<open>camera_vir/device/VirtualCameraDeviceSession.cpp\<close>). The answers of the driver, the importer and the waits are
  arguments. A wait that succeeds lets the worker threads run; as they touch nothing the handler has read
  before it, such a run is the run of the same request after their steps.
\<close>

section \<open>Capture buffers\<close>

text \<open>What \<open>VIDIOC_DQBUF\<close> fills in.\<close>

record dq =
  dq_index :: nat
  dq_bytesused :: u32
  dq_monotonic :: bool
  dq_timestamp :: int

text \<open>The driver's side of one dequeue: whether a needed wait ends before its time limit, the first buffer, whether it can be
  given back, the second buffer, and the clock. A device with its own stream of depth pictures drops the first buffer
  when its index is even and copies it for the other device.\<close>

record dq_env =
  e_wait :: bool
  e_first :: "dq option"
  e_requeue :: bool
  e_second :: "dq option"
  e_now :: int

definition take_buffer :: "nat \<Rightarrow> session \<Rightarrow> session" where
  "take_buffer i s = s\<lparr>driver_queue := removeAll i (driver_queue s)\<rparr>"

definition give_buffer :: "nat \<Rightarrow> session \<Rightarrow> session" where
  "give_buffer i s = s\<lparr>driver_queue := driver_queue s @ [i]\<rparr>"

definition dequeue_main :: "config \<Rightarrow> dq_env \<Rightarrow> session \<Rightarrow> dq option \<times> session" where
  "dequeue_main cfg e s =
     (case e_first e of None \<Rightarrow> (None, s)
      | Some b \<Rightarrow>
          let s = take_buffer (dq_index b) s in
          if mainDevice cfg \<and> even (dq_index b)
          then (if \<not> e_requeue e then (None, s)
                else
                  let s = give_buffer (dq_index b) s in
                  case e_second e of None \<Rightarrow> (None, s)
                  | Some b \<Rightarrow> (Some b, take_buffer (dq_index b) s))
          else (Some b, s))"

definition count_dequeued :: "int \<Rightarrow> session \<Rightarrow> session" where
  "count_dequeued k s = s\<lparr>hv := (hv s)\<lparr>mNumDequeuedV4l2Buffers := nat (int (mNumDequeuedV4l2Buffers (hv s)) + k)\<rparr>\<rparr>"

text \<open>The second device reads no buffer of its own: it waits for the other one's picture and uses index zero.\<close>

definition dequeueV4l2FrameLocked :: "config \<Rightarrow> dq_env \<Rightarrow> session \<Rightarrow> (nat \<times> int) option \<times> session" where
  "dequeueV4l2FrameLocked cfg e s =
     (if mNumDequeuedV4l2Buffers (hv s) = mV4L2BufferCount (hv s) \<and> \<not> e_wait e then (None, s)
      else
        case (if subDevice cfg then (Some \<lparr>dq_index = 0, dq_bytesused = 0, dq_monotonic = False, dq_timestamp = 0\<rparr>, s)
              else dequeue_main cfg e s) of
          (None, s) \<Rightarrow> (None, s)
        | (Some b, s) \<Rightarrow>
            if mV4L2BufferCount (hv s) \<le> dq_index b then (None, s)
            else if mMaxV4L2BufferSize (hv s) < dq_bytesused b then (None, s)
            else (Some (dq_index b, if dq_monotonic b then dq_timestamp b else e_now e), count_dequeued 1 s))"

text \<open>\<open>qbuf\<close> is whether \<open>VIDIOC_QBUF\<close> succeeds. The count is unsigned; that it is positive here is an invariant.\<close>

definition enqueueV4l2Frame :: "config \<Rightarrow> bool \<Rightarrow> HalRequest \<Rightarrow> session \<Rightarrow> session" where
  "enqueueV4l2Frame cfg qbuf r s =
     (if subDevice cfg then count_dequeued (- 1) s
      else if \<not> qbuf then s\<lparr>unreturned := unreturned s @ [r]\<rparr>
      else count_dequeued (- 1) (give_buffer (mBufferIndex r) s))"

section \<open>Answers\<close>

definition send :: "message list \<Rightarrow> session \<Rightarrow> session" where
  "send ms s = s\<lparr>sent := sent s @ ms\<rparr>"

text \<open>\<open>deliver\<close> is false when the lock of the callback is not had within a second: the result is dropped then.\<close>

definition invokeProcessCaptureResultCallback :: "bool \<Rightarrow> u32 \<Rightarrow> (int \<times> u64 \<times> bool \<times> int) list \<Rightarrow> session \<Rightarrow> session" where
  "invokeProcessCaptureResultCallback deliver n bufs s =
     (if deliver then send [Result n bufs] s else s\<lparr>undelivered := undelivered s @ [n]\<rparr>)"

definition release_fence :: "HalStreamBuffer \<Rightarrow> int" where
  "release_fence b = (if 0 \<le> acquireFence b then acquireFence b else - 1)"

definition erase_inflight :: "u32 \<Rightarrow> session \<Rightarrow> session" where
  "erase_inflight n s = s\<lparr>mInflightFrames := mInflightFrames s - {n}\<rparr>"

definition processCaptureRequestError :: "config \<Rightarrow> bool \<Rightarrow> bool \<Rightarrow> HalRequest \<Rightarrow> session \<Rightarrow> session" where
  "processCaptureRequestError cfg qbuf deliver r s =
     (let s = enqueueV4l2Frame cfg qbuf r s;
          s = send [Shutter (frameNumber r) (shutterTs r), ErrorMsg (frameNumber r) (- 1) ERROR_REQUEST] s;
          s = erase_inflight (frameNumber r) s
      in invokeProcessCaptureResultCallback deliver (frameNumber r)
           (map (\<lambda>b. (hb_streamId b, hb_bufferId b, False, release_fence b)) (buffers r)) s)"

definition processCaptureResult :: "config \<Rightarrow> bool \<Rightarrow> bool \<Rightarrow> HalRequest \<Rightarrow> session \<Rightarrow> session" where
  "processCaptureResult cfg qbuf deliver r s =
     (let s = enqueueV4l2Frame cfg qbuf r s;
          s = send [Shutter (frameNumber r) (shutterTs r)] s;
          s = send (map (\<lambda>b. ErrorMsg (frameNumber r) (hb_streamId b) ERROR_BUFFER) (filter fenceTimeout (buffers r))) s;
          s = erase_inflight (frameNumber r) s
      in invokeProcessCaptureResultCallback deliver (frameNumber r)
           (map (\<lambda>b. (hb_streamId b, hb_bufferId b, \<not> fenceTimeout b, release_fence b)) (buffers r)) s)"

section \<open>Requests\<close>

text \<open>The settings of a request: unreadable, absent, or present with their frame rate range.\<close>

datatype settings = Corrupt | NoSettings | Settings "int list"

record CaptureRequest =
  cr_frameNumber :: u32
  cr_settings :: settings
  cr_input :: int
  cr_outputs :: "(request_buffer \<times> int option) list"

text \<open>The environment of one request.\<close>

record req_env =
  r_dq :: dq_env
  r_driver :: driver
  r_import :: "handle \<Rightarrow> handle option"

text \<open>The rate the request asks for, replaced by the closest one when none is within one frame per second.\<close>

definition target_fps :: "FrameRate list \<Rightarrow> rat \<Rightarrow> rat" where
  "target_fps rates fps =
     (if \<exists>fr \<in> set rates. \<bar>fps - getDouble fr\<bar> < 1 then fps
      else fst (foldl (\<lambda>(closest, err) fr.
             if \<bar>fps - getDouble fr\<bar> < err then (getDouble fr, \<bar>fps - getDouble fr\<bar>) else (closest, err)) (0, 1000) rates))"

text \<open>Changing the rate: only when the pipeline is idle; the result of the reconfiguration is not looked at. The
  streaming format is passed by reference and keeps what the driver made of it, also after a failure.\<close>

definition change_fps :: "config \<Rightarrow> driver \<Rightarrow> session \<Rightarrow> session option" where
  "change_fps cfg d s =
     (case fps_setting s of
        [lo, hi] \<Rightarrow>
          let fps = target_fps (frameRates (mV4l2StreamingFmt (hv s))) (of_int hi) in
          if fps = mV4l2StreamingFps (hv s) then Some s
          else if mNumDequeuedV4l2Buffers (hv s) \<noteq> 0 then None
          else (case configureV4l2StreamLocked d (subDevice cfg) (numVideoBuffers cfg) (numStillBuffers cfg) fps
                       (mV4l2StreamingFmt (hv s)) (hv s) of
                  (ret, fmt, v) \<Rightarrow> Some (s\<lparr>hv := v\<lparr>mV4l2StreamingFmt := fmt\<rparr>, driver_queue := queue_after d (subDevice cfg) ret v (driver_queue s)\<rparr>))
      | _ \<Rightarrow> Some s)"

text \<open>An unknown stream id gets an entry of a value-initialised stream.\<close>

definition no_stream :: Stream where
  "no_stream = \<lparr>st_id = 0, st_width = 0, st_height = 0, st_format = OtherFormat 0, st_usage = 0, ds_jfif = False,
     ds_depth = False, st_output = True, st_rotation_0 = True\<rparr>"

fun hal_buffers :: "((request_buffer \<times> int option) \<times> buf_ptr \<times> int) list \<Rightarrow> (int \<times> Stream) list \<Rightarrow>
    HalStreamBuffer list \<times> (int \<times> Stream) list" where
  "hal_buffers [] m = ([], m)"
| "hal_buffers ((((sid, bid, _), _), p, fd) # rest) m =
     (let m = (if map_of m sid = None then (sid, no_stream) # m else m);
          st = the (map_of m sid);
          b = \<lparr>hb_streamId = sid, hb_bufferId = bid, hb_width = st_width st, hb_height = st_height st,
            hb_format = st_format st, bufPtr = p, acquireFence = fd, fenceTimeout = False\<rparr>
      in case hal_buffers rest m of (bs, m) \<Rightarrow> (b # bs, m))"

definition processOneCaptureRequest :: "config \<Rightarrow> req_env \<Rightarrow> CaptureRequest \<Rightarrow> session \<Rightarrow> status \<times> session" where
  "processOneCaptureRequest cfg e q s =
     (if initStatus s \<noteq> OK then (initStatus s, s)
      else if cr_input q \<noteq> - 1 then (ILLEGAL_ARGUMENT, s)
      else if \<not> mV4l2Streaming (hv s) then (INTERNAL_ERROR, s)
      else
        let s = (case cr_settings q of Settings r \<Rightarrow> s\<lparr>fps_setting := r\<rparr> | _ \<Rightarrow> s) in
        if cr_settings q = Corrupt then (ILLEGAL_ARGUMENT, s)
        else if mFirstRequest s \<and> cr_settings q = NoSettings then (ILLEGAL_ARGUMENT, s)
        else if cr_outputs q = [] then (ILLEGAL_ARGUMENT, s)
        else
          case change_fps cfg (r_driver e) s of None \<Rightarrow> (INTERNAL_ERROR, s)
          | Some s \<Rightarrow>
              case importRequestLockedImpl (r_import e) (\<lambda>f. f) False (cr_outputs q) (hcache s) of
                (st, ps, fds, _, c) \<Rightarrow>
                  let s = s\<lparr>hcache := c\<rparr> in
                  if st \<noteq> OK then (st, s)
                  else
                    case dequeueV4l2FrameLocked cfg (r_dq e) s of
                      (None, s) \<Rightarrow> (INTERNAL_ERROR, s)
                    | (Some (idx, ts), s) \<Rightarrow>
                        case hal_buffers (zip (cr_outputs q) (zip ps fds)) (mStreamMap s) of (bs, m) \<Rightarrow>
                          let r = \<lparr>frameNumber = cr_frameNumber q, mBufferIndex = idx,
                                mFourcc = fourcc (mV4l2StreamingFmt (hv s)), shutterTs = ts, buffers = bs\<rparr>
                          in (OK, s\<lparr>mStreamMap := m, mInflightFrames := insert (frameNumber r) (mInflightFrames s),
                               convertList := convertList s @ [r], mFirstRequest := False\<rparr>))"

text \<open>The requests of a call are processed until one fails; the caller learns how many were not refused.\<close>

fun process_requests :: "config \<Rightarrow> (CaptureRequest \<times> req_env) list \<Rightarrow> nat \<Rightarrow> session \<Rightarrow> status \<times> nat \<times> session" where
  "process_requests cfg [] n s = (OK, n, s)"
| "process_requests cfg ((q, e) # rest) n s =
     (case processOneCaptureRequest cfg e q s of (st, s) \<Rightarrow>
        if st \<noteq> OK then (st, n, s) else process_requests cfg rest (n + 1) s)"

definition processCaptureRequest ::
  "config \<Rightarrow> (CaptureRequest \<times> req_env) list \<Rightarrow> (stream_id \<times> u64) list \<Rightarrow> session \<Rightarrow> status \<times> nat \<times> session" where
  "processCaptureRequest cfg reqs cachesToRemove s =
     process_requests cfg reqs 0 (s\<lparr>hcache := updateBufferCaches cachesToRemove (hcache s)\<rparr>)"

end
