(* ===== verification/Capture_Pipeline.thy ===== *)
theory Capture_Pipeline
  imports Capture_Request
begin

text \<open>
  The worker threads of the camera HAL session (\<open>FormatConvertThread\<close>, \<open>OutputThread\<close> of
  \<open>camera_vir/device/VirtualCameraDeviceSession.cpp\<close>) and the operations that meet them: \<open>flush\<close> and
  \<open>close\<close>. A session is a transition system: requests, configurations, flushes and the close come from the
  framework, one at a time, and the two threads run between them. What the threads do to pixels is an
  argument (the conversions have theories of their own); what they do to the request is modelled.
\<close>

section \<open>FormatConvertThread\<close>

definition supported_fourcc :: "u32 \<Rightarrow> bool" where
  "supported_fourcc f \<longleftrightarrow> f \<in> {PIX_MJPEG, PIX_Z16, PIX_YUYV, PIX_SRGGB10, PIX_SGRBG12, PIX_SGRBG16, PIX_NV12}"

definition convert_take :: "session \<Rightarrow> session option" where
  "convert_take s =
     (case convertList s of [] \<Rightarrow> None
      | r # rs \<Rightarrow> if convert_running s \<and> converting s = None
                  then Some (s\<lparr>convertList := rs, converting := Some r\<rparr>) else None)"

text \<open>A request in an unsupported format is dropped: nothing answers it.\<close>

definition convert_done :: "session \<Rightarrow> session option" where
  "convert_done s =
     (case converting s of None \<Rightarrow> None
      | Some r \<Rightarrow> Some (if supported_fourcc (mFourcc r) then s\<lparr>converting := None, outputList := outputList s @ [r]\<rparr>
                       else s\<lparr>converting := None, lost := lost s @ [r]\<rparr>))"

section \<open>OutputThread\<close>

definition output_take :: "session \<Rightarrow> session option" where
  "output_take s =
     (case outputList s of [] \<Rightarrow> None
      | r # rs \<Rightarrow> if output_running s \<and> processing s = None
                  then Some (s\<lparr>outputList := rs, processing := Some r, mProcessingRequest := True\<rparr>) else None)"

text \<open>What happens to one buffer: whether the fence is signalled in time, whether the JPEG, and the crop and the
  conversion, succeed, the fence of the unlock, and the descriptor of the buffer.\<close>

record buf_env =
  b_sync :: bool
  b_jpeg :: bool
  b_convert :: bool
  b_rel_fence :: int
  b_share_fd :: int

datatype 'a fill_outcome = Completed 'a | DeviceFail | RequestFail 'a | Einval

definition wait_fence :: "buf_env \<Rightarrow> HalStreamBuffer \<Rightarrow> HalStreamBuffer" where
  "wait_fence e b =
     (if bufPtr b = EmptyBuffer then b\<lparr>fenceTimeout := True\<rparr>
      else if 0 \<le> acquireFence b
      then (if b_sync e then b\<lparr>acquireFence := - 1\<rparr> else b\<lparr>fenceTimeout := True\<rparr>)
      else b)"

definition unlock :: "buf_env \<Rightarrow> HalStreamBuffer \<Rightarrow> HalStreamBuffer" where
  "unlock e b = (if 0 \<le> b_rel_fence e then b\<lparr>acquireFence := b_rel_fence e\<rparr> else b)"

text \<open>\<open>share\<close> is whether the request carries a shared descriptor (\<open>mShareFd > 0\<close>). The outcome of a failed request
  holds the buffers as the loop left them: the fences waited for are closed, those of the unlocks are in place.\<close>

definition convert_out :: "buf_env \<Rightarrow> HalStreamBuffer \<Rightarrow> HalStreamBuffer fill_outcome" where
  "convert_out e b = (if b_convert e then Completed (unlock e b) else DeviceFail)"

definition fill_ycbcr :: "buf_env \<Rightarrow> bool \<Rightarrow> u32 \<Rightarrow> HalStreamBuffer \<Rightarrow> HalStreamBuffer fill_outcome" where
  "fill_ycbcr e share fc b =
     (if fc = PIX_YUYV then convert_out e b
      else if fc = PIX_NV12 then (if b_share_fd e = - 1 then Einval else Completed b)
      else if fc = PIX_SRGGB10 then Completed b
      else if \<not> share then RequestFail b
      else if b_share_fd e = - 1 then Einval
      else Completed b)"

definition fill_buffer :: "buf_env \<Rightarrow> bool \<Rightarrow> u32 \<Rightarrow> HalStreamBuffer \<Rightarrow> HalStreamBuffer fill_outcome" where
  "fill_buffer e share fc b =
     (let b = wait_fence e b in
      if fenceTimeout b then Completed b
      else case hb_format b of
        BLOB \<Rightarrow> if b_jpeg e then Completed (unlock e b) else DeviceFail
      | Y16 \<Rightarrow> Completed (unlock e b)
      | RAW10 \<Rightarrow> Completed b
      | RAW12 \<Rightarrow> Completed b
      | RAW16 \<Rightarrow> Completed b
      | YV12 \<Rightarrow> convert_out e b
      | OtherFormat _ \<Rightarrow> DeviceFail
      | _ \<Rightarrow> fill_ycbcr e share fc b)"

fun fill_buffers :: "(HalStreamBuffer \<Rightarrow> buf_env) \<Rightarrow> bool \<Rightarrow> u32 \<Rightarrow> HalStreamBuffer list \<Rightarrow> HalStreamBuffer list fill_outcome" where
  "fill_buffers e share fc [] = Completed []"
| "fill_buffers e share fc (b # bs) =
     (case fill_buffer (e b) share fc b of
        Completed b \<Rightarrow> (case fill_buffers e share fc bs of Completed bs \<Rightarrow> Completed (b # bs) | RequestFail bs \<Rightarrow> RequestFail (b # bs)
          | DeviceFail \<Rightarrow> DeviceFail | Einval \<Rightarrow> Einval)
      | RequestFail b \<Rightarrow> RequestFail (b # bs) | DeviceFail \<Rightarrow> DeviceFail | Einval \<Rightarrow> Einval)"

text \<open>The body of the loop up to its exits. \<open>pre\<close> is whether the conversion to a planar frame succeeds; its result
  is looked at for two of the formats.\<close>

definition process_request :: "bool \<Rightarrow> bool \<Rightarrow> (HalStreamBuffer \<Rightarrow> buf_env) \<Rightarrow> HalRequest \<Rightarrow> HalStreamBuffer list fill_outcome" where
  "process_request pre share e r =
     (if \<not> supported_fourcc (mFourcc r) then DeviceFail
      else if (\<exists>b \<in> set (buffers r). hb_format b = BLOB \<or> hb_format b = YV12) \<and>
        (mFourcc r = PIX_NV12 \<or> mFourcc r = PIX_YUYV) \<and> \<not> pre then RequestFail (buffers r)
      else fill_buffers e share (mFourcc r) (buffers r))"

definition signalRequestDone :: "session \<Rightarrow> session" where
  "signalRequestDone s = s\<lparr>mProcessingRequest := False\<rparr>"

definition clear_scaled :: "session \<Rightarrow> session" where
  "clear_scaled s = s\<lparr>hob := (hob s)\<lparr>ob_pool := (ob_pool (hob s))\<lparr>mScaledYu12Frames := []\<rparr>\<rparr>\<rparr>"

text \<open>The exits. After a device error the loop returns false and the thread ends; \<open>return -EINVAL\<close> is true.\<close>

definition output_finish :: "config \<Rightarrow> bool \<Rightarrow> bool \<Rightarrow> HalStreamBuffer list fill_outcome \<Rightarrow> session \<Rightarrow> session option" where
  "output_finish cfg qbuf deliver out s =
     (case processing s of None \<Rightarrow> None
      | Some r \<Rightarrow>
          let s = s\<lparr>processing := None\<rparr> in
          Some (case out of
            DeviceFail \<Rightarrow>
              (signalRequestDone (send [ErrorMsg (frameNumber r) (- 1) ERROR_DEVICE] s))\<lparr>output_running := False, lost := lost s @ [r]\<rparr>
          | RequestFail bs \<Rightarrow> signalRequestDone (processCaptureRequestError cfg qbuf deliver (r\<lparr>buffers := bs\<rparr>) s)
          | Einval \<Rightarrow> s\<lparr>lost := lost s @ [r]\<rparr>
          | Completed bs \<Rightarrow> signalRequestDone (processCaptureResult cfg qbuf deliver (r\<lparr>buffers := bs\<rparr>) (clear_scaled s))))"

section \<open>flush and close\<close>

text \<open>A flush takes the list, waits for a bounded time, and answers each request with an error.\<close>

definition flush_take :: "session \<Rightarrow> session" where
  "flush_take s = s\<lparr>flushing := flushing s @ outputList s, outputList := []\<rparr>"

definition flush_answer :: "config \<Rightarrow> bool \<Rightarrow> bool \<Rightarrow> session \<Rightarrow> session option" where
  "flush_answer cfg qbuf deliver s =
     (case flushing s of [] \<Rightarrow> None
      | r # rs \<Rightarrow> Some (processCaptureRequestError cfg qbuf deliver r (s\<lparr>flushing := rs\<rparr>)))"

text \<open>The close: flush, stop the output thread once its current turn is over, stop the convert thread likewise, then free
  the buffers and stop the stream. The stops are those of \<open>requestExit\<close> and \<open>join\<close>.\<close>

definition close_begin :: "session \<Rightarrow> session" where
  "close_begin s = (flush_take s)\<lparr>closing := True\<rparr>"

fun cleanup_all :: "int list \<Rightarrow> cache \<Rightarrow> cache option" where
  "cleanup_all [] c = Some c"
| "cleanup_all (i # is) c = do { c \<leftarrow> cleanupBuffersLocked i c; cleanup_all is c }"

definition close_end :: "config \<Rightarrow> driver \<Rightarrow> session \<Rightarrow> session option" where
  "close_end cfg d s = do {
     c \<leftarrow> cleanup_all (map fst (mStreamMap s)) (hcache s);
     Some (case v4l2StreamOffLocked d (subDevice cfg) (hv s) of (_, v) \<Rightarrow>
       s\<lparr>hcache := c, hv := v, driver_queue := (if mV4l2Streaming v then driver_queue s else []), mClosed := True\<rparr>) }"

section \<open>The transition system\<close>

definition in_flight :: "session \<Rightarrow> HalRequest list" where
  "in_flight s = flushing s @ (case processing s of None \<Rightarrow> [] | Some r \<Rightarrow> [r]) @ outputList s @
     (case converting s of None \<Rightarrow> [] | Some r \<Rightarrow> [r]) @ convertList s"

definition result_of :: "message \<Rightarrow> u32 list" where
  "result_of m = (case m of Result n _ \<Rightarrow> [n] | _ \<Rightarrow> [])"

text \<open>The frames whose result was handed to the callback, or would have been.\<close>

definition answered :: "session \<Rightarrow> u32 list" where
  "answered s = concat (map result_of (sent s)) @ undelivered s"

definition frames_used :: "session \<Rightarrow> u32 list" where
  "frames_used s = answered s @ map frameNumber (in_flight s @ lost s)"

text \<open>The driver hands out buffers it was given; the framework never repeats a frame number; the interface lock is free.\<close>

definition honest :: "config \<Rightarrow> dq_env \<Rightarrow> nat list \<Rightarrow> bool" where
  "honest cfg e q \<longleftrightarrow> (\<forall>b. e_first e = Some b \<longrightarrow> dq_index b \<in> set q \<and>
     (\<forall>b2. e_second e = Some b2 \<longrightarrow> dq_index b2 \<in> set q))"

definition idle_interface :: "session \<Rightarrow> bool" where
  "idle_interface s \<longleftrightarrow> flushing s = [] \<and> (closing s \<longrightarrow> mClosed s)"

inductive worker :: "config \<Rightarrow> session \<Rightarrow> session \<Rightarrow> bool" for cfg where
  w_take: "convert_take s = Some s' \<Longrightarrow> worker cfg s s'"
| w_convert: "convert_done s = Some s' \<Longrightarrow> worker cfg s s'"
| w_output: "output_take s = Some s' \<Longrightarrow> worker cfg s s'"
| w_finish: "processing s = Some r \<Longrightarrow> output_finish cfg qbuf deliver (process_request pre share e r) s = Some s' \<Longrightarrow> worker cfg s s'"

inductive step :: "config \<Rightarrow> session \<Rightarrow> session \<Rightarrow> bool" for cfg where
  request: "idle_interface s \<Longrightarrow> cr_frameNumber q \<notin> set (frames_used s) \<Longrightarrow> 
    processOneCaptureRequest cfg e q s = (st, s') \<Longrightarrow>
    (\<And>s1. change_fps cfg (r_driver e) (case cr_settings q of Settings r \<Rightarrow> s\<lparr>fps_setting := r\<rparr> | _ \<Rightarrow> s) = Some s1 \<Longrightarrow>
      honest cfg (r_dq e) (driver_queue s1)) \<Longrightarrow>
    step cfg s s'"
| caches: "idle_interface s \<Longrightarrow> step cfg s (s\<lparr>hcache := updateBufferCaches cs (hcache s)\<rparr>)"
| configure: "idle_interface s \<Longrightarrow> configureStreams cfg d nm ss blob s = Some (st, out, s') \<Longrightarrow> step cfg s s'"
| work: "worker cfg s s' \<Longrightarrow> step cfg s s'"
| flush: "idle_interface s \<Longrightarrow> initStatus s = OK \<Longrightarrow> step cfg s (flush_take s)"
| answer: "flush_answer cfg qbuf deliver s = Some s' \<Longrightarrow> step cfg s s'"
| close: "idle_interface s \<Longrightarrow> \<not> mClosed s \<Longrightarrow> step cfg s (close_begin s)"
| stop_output: "closing s \<Longrightarrow> flushing s = [] \<Longrightarrow> processing s = None \<Longrightarrow> step cfg s (s\<lparr>output_running := False\<rparr>)"
| stop_convert: "closing s \<Longrightarrow> \<not> output_running s \<Longrightarrow> flushing s = [] \<Longrightarrow> converting s = None \<Longrightarrow>
    step cfg s (s\<lparr>convert_running := False\<rparr>)"
| close_end: "closing s \<Longrightarrow> \<not> output_running s \<Longrightarrow> \<not> convert_running s \<Longrightarrow> \<not> mClosed s \<Longrightarrow> close_end cfg d s = Some s' \<Longrightarrow>
    step cfg s s'"

definition steps :: "config \<Rightarrow> session \<Rightarrow> session \<Rightarrow> bool" where
  "steps cfg = (step cfg)\<^sup>*\<^sup>*"

text \<open>A session starts with its threads running and nothing configured.\<close>

definition initial :: "session \<Rightarrow> bool" where
  "initial s \<longleftrightarrow> in_flight s = [] \<and> lost s = [] \<and> unreturned s = [] \<and> undelivered s = [] \<and> sent s = [] \<and> mInflightFrames s = {} \<and>
     mNumDequeuedV4l2Buffers (hv s) = 0 \<and> \<not> mV4l2Streaming (hv s) \<and> driver_queue s = [] \<and> \<not> closing s \<and> output_running s \<and> convert_running s"

section \<open>Where the requests are\<close>

definition once :: "'a multiset \<Rightarrow> bool" where
  "once M \<longleftrightarrow> (\<forall>x. count M x \<le> 1)"

lemma once_add [simp]: "once (add_mset x M) \<longleftrightarrow> x \<notin># M \<and> once M"
proof
  assume "once (add_mset x M)"
  then have c: "count (add_mset x M) y \<le> 1" for y by (simp only: once_def)
  have "count M x = 0" using c [of x] by simp
  moreover have "count M y \<le> 1" for y using c [of y] by (simp split: if_splits)
  ultimately show "x \<notin># M \<and> once M" by (simp add: once_def not_in_iff)
next
  assume "x \<notin># M \<and> once M"
  then show "once (add_mset x M)" by (auto simp: once_def not_in_iff)
qed

lemma once_empty [simp]: "once {#}"
  by (simp add: once_def)

lemma once_subset: "once M \<Longrightarrow> N \<subseteq># M \<Longrightarrow> once N"
  by (meson mset_subset_eq_count once_def order_trans)

text \<open>The invariant, with requests \<open>ex\<close> that a thread has in its hands.\<close>

definition pinv :: "config \<Rightarrow> HalRequest list \<Rightarrow> session \<Rightarrow> bool" where
  "pinv cfg ex s \<longleftrightarrow>
     once (mset (answered s) + image_mset frameNumber (mset ex + mset (in_flight s) + mset (lost s))) \<and>
     mInflightFrames s = frameNumber ` (set ex \<union> set (in_flight s) \<union> set (lost s)) \<and>
     mNumDequeuedV4l2Buffers (hv s) = length ex + length (in_flight s) + length (lost s) + length (unreturned s) \<and>
     (\<not> subDevice cfg \<longrightarrow>
        once (mset (driver_queue s) + image_mset mBufferIndex (mset ex + mset (in_flight s) + mset (lost s) + mset (unreturned s)))) \<and>
     (\<not> mV4l2Streaming (hv s) \<longrightarrow> mNumDequeuedV4l2Buffers (hv s) = 0 \<and> (\<not> subDevice cfg \<longrightarrow> driver_queue s = []))"

lemma pinv_cong:
  assumes "pinv cfg ex s" "mset ex + mset (in_flight s) = mset ex' + mset (in_flight s')" "answered s' = answered s"
    and "lost s' = lost s" "unreturned s' = unreturned s" "mInflightFrames s' = mInflightFrames s" "hv s' = hv s"
    and "driver_queue s' = driver_queue s"
  shows "pinv cfg ex' s'"
proof -
  have sets: "set ex' \<union> set (in_flight s') = set ex \<union> set (in_flight s)"
    using assms(2) by (metis set_mset_mset set_mset_union)
  have lens: "length ex' + length (in_flight s') = length ex + length (in_flight s)"
    using assms(2) by (metis size_mset size_union)
  show ?thesis using assms(1) unfolding pinv_def assms(3-8) assms(2) [symmetric] sets lens .
qed

lemma count_dequeued_simps [simp]:
  "in_flight (count_dequeued k s) = in_flight s" "lost (count_dequeued k s) = lost s" "answered (count_dequeued k s) = answered s"
  "unreturned (count_dequeued k s) = unreturned s" "mInflightFrames (count_dequeued k s) = mInflightFrames s"
  "driver_queue (count_dequeued k s) = driver_queue s" "mV4l2Streaming (hv (count_dequeued k s)) = mV4l2Streaming (hv s)"
  "mNumDequeuedV4l2Buffers (hv (count_dequeued k s)) = nat (int (mNumDequeuedV4l2Buffers (hv s)) + k)"
  by (simp_all add: count_dequeued_def in_flight_def answered_def)

lemma send_simps [simp]:
  "in_flight (send ms s) = in_flight s" "lost (send ms s) = lost s" "unreturned (send ms s) = unreturned s"
  "answered (send ms s) = concat (map result_of (sent s)) @ concat (map result_of ms) @ undelivered s"
  "mInflightFrames (send ms s) = mInflightFrames s" "driver_queue (send ms s) = driver_queue s" "hv (send ms s) = hv s"
  by (simp_all add: send_def in_flight_def answered_def)

lemma result_of_simps [simp]: "result_of (Shutter n t) = []" "result_of (ErrorMsg n i c) = []" "result_of (Result n bs) = [n]"
  by (simp_all add: result_of_def)

text \<open>One step of the bookkeeping: answering, losing, or queueing the request in hand.\<close>

lemma pinv_enqueue:
  assumes "pinv cfg [r] s" and r': "frameNumber r' = frameNumber r" "mBufferIndex r' = mBufferIndex r"
  shows "once (mset (answered s) + image_mset frameNumber (add_mset r (mset (in_flight s) + mset (lost s))))"
    "mInflightFrames s - {frameNumber r} = frameNumber ` (set (in_flight s) \<union> set (lost s))"
    "mNumDequeuedV4l2Buffers (hv (enqueueV4l2Frame cfg q r' s)) =
       length (in_flight s) + length (lost s) + length (unreturned (enqueueV4l2Frame cfg q r' s))"
    "\<not> subDevice cfg \<Longrightarrow> once (mset (driver_queue (enqueueV4l2Frame cfg q r' s)) +
       image_mset mBufferIndex (mset (in_flight s) + mset (lost s) + mset (unreturned (enqueueV4l2Frame cfg q r' s))))"
    "mV4l2Streaming (hv s)" "mV4l2Streaming (hv (enqueueV4l2Frame cfg q r' s))"
proof -
  have inv: "once (mset (answered s) + image_mset frameNumber (add_mset r (mset (in_flight s) + mset (lost s))))"
    "mInflightFrames s = frameNumber ` ({r} \<union> set (in_flight s) \<union> set (lost s))"
    "mNumDequeuedV4l2Buffers (hv s) = Suc (length (in_flight s) + length (lost s) + length (unreturned s))"
    "\<not> subDevice cfg \<Longrightarrow> once (mset (driver_queue s) +
       image_mset mBufferIndex (add_mset r (mset (in_flight s) + mset (lost s) + mset (unreturned s))))"
    "mV4l2Streaming (hv s)"
    using assms(1) by (auto simp: pinv_def)
  show "once (mset (answered s) + image_mset frameNumber (add_mset r (mset (in_flight s) + mset (lost s))))"
    "mV4l2Streaming (hv s)" by (fact inv)+
  show "mInflightFrames s - {frameNumber r} = frameNumber ` (set (in_flight s) \<union> set (lost s))"
    using inv(1,2) by (auto, (metis imageI)+)
  show "mNumDequeuedV4l2Buffers (hv (enqueueV4l2Frame cfg q r' s)) =
      length (in_flight s) + length (lost s) + length (unreturned (enqueueV4l2Frame cfg q r' s))"
    using inv(3) by (auto simp: enqueueV4l2Frame_def give_buffer_def)
  show "mV4l2Streaming (hv (enqueueV4l2Frame cfg q r' s))"
    using inv(5) by (auto simp: enqueueV4l2Frame_def give_buffer_def)
  show "once (mset (driver_queue (enqueueV4l2Frame cfg q r' s)) +
      image_mset mBufferIndex (mset (in_flight s) + mset (lost s) + mset (unreturned (enqueueV4l2Frame cfg q r' s))))"
    if "\<not> subDevice cfg"
    using inv(4) [OF that] that r'(2) by (auto simp: enqueueV4l2Frame_def give_buffer_def)
qed

lemma enqueue_simps [simp]:
  "in_flight (enqueueV4l2Frame cfg q r s) = in_flight s" "lost (enqueueV4l2Frame cfg q r s) = lost s"
  "answered (enqueueV4l2Frame cfg q r s) = answered s" "mInflightFrames (enqueueV4l2Frame cfg q r s) = mInflightFrames s"
  "sent (enqueueV4l2Frame cfg q r s) = sent s" "undelivered (enqueueV4l2Frame cfg q r s) = undelivered s"
  by (simp_all add: enqueueV4l2Frame_def give_buffer_def in_flight_def answered_def count_dequeued_def)

lemma finish_answer:
  assumes "pinv cfg [r] s" and r': "frameNumber r' = frameNumber r" "mBufferIndex r' = mBufferIndex r"
    and ms: "concat (map result_of ms) = []"
    and s': "s' = invokeProcessCaptureResultCallback deliver (frameNumber r) bufs
      (erase_inflight (frameNumber r) (send ms (enqueueV4l2Frame cfg q r' s)))"
  shows "pinv cfg [] s'" "set (answered s') = insert (frameNumber r) (set (answered s))" "in_flight s' = in_flight s"
proof -
  note e = pinv_enqueue [OF assms(1) r']
  have fields: "in_flight s' = in_flight s" "lost s' = lost s" "unreturned s' = unreturned (enqueueV4l2Frame cfg q r' s)"
    "mInflightFrames s' = mInflightFrames s - {frameNumber r}" "driver_queue s' = driver_queue (enqueueV4l2Frame cfg q r' s)"
    "hv s' = hv (enqueueV4l2Frame cfg q r' s)"
    by (simp_all add: s' invokeProcessCaptureResultCallback_def erase_inflight_def send_def in_flight_def enqueueV4l2Frame_def
        give_buffer_def count_dequeued_def)
  have ans: "mset (answered s') = add_mset (frameNumber r) (mset (answered s))"
    using ms by (simp add: s' invokeProcessCaptureResultCallback_def erase_inflight_def send_def answered_def)
  show "in_flight s' = in_flight s" by (fact fields)
  show "set (answered s') = insert (frameNumber r) (set (answered s))"
    using ans by (metis set_mset_add_mset_insert set_mset_mset)
  show "pinv cfg [] s'"
    unfolding pinv_def using e by (simp add: fields ans)
qed

section \<open>The invariant is kept\<close>

lemmas state_defs = in_flight_def answered_def

lemma pinv_other:
  assumes "pinv cfg ex s" "in_flight s' = in_flight s" "answered s' = answered s" "lost s' = lost s" "unreturned s' = unreturned s"
    "mInflightFrames s' = mInflightFrames s" "hv s' = hv s" "driver_queue s' = driver_queue s"
  shows "pinv cfg ex s'"
  using assms by (intro pinv_cong [OF assms(1)]) auto

lemma pinv_lose:
  assumes "pinv cfg [r] s" "in_flight s' = in_flight s" "answered s' = answered s" "lost s' = lost s @ [r]" "unreturned s' = unreturned s"
    "mInflightFrames s' = mInflightFrames s" "hv s' = hv s" "driver_queue s' = driver_queue s"
  shows "pinv cfg [] s'"
  using assms(1) by (auto simp: pinv_def assms(2-) ac_simps)

lemma worker_pinv:
  assumes "worker cfg s s'" "pinv cfg [] s"
  shows "pinv cfg [] s'"
  using assms(1)
proof cases
  case w_take
  then show ?thesis
    by (intro pinv_cong [OF assms(2)]) (auto simp: convert_take_def state_defs split: list.splits if_splits)
next
  case w_convert
  then obtain r where r: "converting s = Some r" by (auto simp: convert_done_def split: option.splits)
  have hand: "pinv cfg [r] (s\<lparr>converting := None\<rparr>)"
    by (rule pinv_cong [OF assms(2)]) (auto simp: state_defs r)
  show ?thesis
  proof (cases "supported_fourcc (mFourcc r)")
    case True
    then show ?thesis using w_convert r by (intro pinv_cong [OF assms(2)]) (auto simp: convert_done_def state_defs)
  next
    case False
    then show ?thesis using w_convert r by (intro pinv_lose [OF hand]) (auto simp: convert_done_def state_defs)
  qed
next
  case w_output
  then show ?thesis
    by (intro pinv_cong [OF assms(2)]) (auto simp: output_take_def state_defs split: list.splits if_splits)
next
  case (w_finish r qbuf deliver pre share e)
  define t where "t = s\<lparr>processing := None\<rparr>"
  have hand: "pinv cfg [r] t"
    unfolding t_def by (rule pinv_cong [OF assms(2)]) (auto simp: state_defs w_finish(1))
  have scaled: "pinv cfg [r] (clear_scaled t)"
    by (rule pinv_other [OF hand]) (simp_all add: clear_scaled_def state_defs)
  have s': "s' = (case process_request pre share e r of
      DeviceFail \<Rightarrow> (signalRequestDone (send [ErrorMsg (frameNumber r) (- 1) ERROR_DEVICE] t))\<lparr>output_running := False, lost := lost t @ [r]\<rparr>
    | RequestFail bs \<Rightarrow> signalRequestDone (processCaptureRequestError cfg qbuf deliver (r\<lparr>buffers := bs\<rparr>) t)
    | Einval \<Rightarrow> t\<lparr>lost := lost t @ [r]\<rparr>
    | Completed bs \<Rightarrow> signalRequestDone (processCaptureResult cfg qbuf deliver (r\<lparr>buffers := bs\<rparr>) (clear_scaled t)))"
    using w_finish(2) unfolding output_finish_def w_finish(1) option.case Let_def t_def by (simp only: option.inject)
  have done_ok: "pinv cfg [] (signalRequestDone u)" if "pinv cfg [] u" for u
    by (rule pinv_other [OF that]) (simp_all add: signalRequestDone_def state_defs)
  show ?thesis
  proof (cases "process_request pre share e r")
    case (Completed bs)
    have "pinv cfg [] (processCaptureResult cfg qbuf deliver (r\<lparr>buffers := bs\<rparr>) (clear_scaled t))"
      by (rule finish_answer(1) [OF scaled, of "r\<lparr>buffers := bs\<rparr>" "Shutter (frameNumber r) (shutterTs r) #
          map (\<lambda>b. ErrorMsg (frameNumber r) (hb_streamId b) ERROR_BUFFER) (filter fenceTimeout bs)"])
        (simp_all add: processCaptureResult_def Let_def send_def concat_eq_Nil_conv)
    then show ?thesis using Completed by (simp add: s' done_ok)
  next
    case (RequestFail bs)
    have "pinv cfg [] (processCaptureRequestError cfg qbuf deliver (r\<lparr>buffers := bs\<rparr>) t)"
      by (rule finish_answer(1) [OF hand, of "r\<lparr>buffers := bs\<rparr>" "[Shutter (frameNumber r) (shutterTs r), ErrorMsg (frameNumber r) (- 1) ERROR_REQUEST]"])
        (simp_all add: processCaptureRequestError_def Let_def)
    then show ?thesis using RequestFail by (simp add: s' done_ok)
  next
    case DeviceFail
    then show ?thesis by (intro pinv_lose [OF hand]) (simp_all add: s' signalRequestDone_def send_def state_defs)
  next
    case Einval
    then show ?thesis by (intro pinv_lose [OF hand]) (simp_all add: s' state_defs)
  qed
qed

lemma configure_dequeued:
  assumes "configureV4l2StreamLocked d sub nv ns fps fmt v = (ret, fmt', v')"
  shows "mNumDequeuedV4l2Buffers v' = mNumDequeuedV4l2Buffers v"
    "ret = MINUS_1 \<Longrightarrow> v' = v" "ret \<noteq> MINUS_1 \<Longrightarrow> mV4l2Streaming v \<Longrightarrow> mNumDequeuedV4l2Buffers v = 0"
    "sub \<Longrightarrow> mV4l2Streaming v \<Longrightarrow> mV4l2Streaming v'" "ret = OK_0 \<Longrightarrow> mV4l2Streaming v'"
  using assms
  by (auto simp: configureV4l2StreamLocked_def configure_capture_def v4l2StreamOffLocked_def Let_def
      split: prod.splits if_splits option.splits)

lemma once_mset: "once (mset xs) \<longleftrightarrow> distinct xs"
  by (induction xs) auto

lemma once_upt: "once (mset [0..<n])"
  by (simp only: once_mset distinct_upt)

lemma pinv_configure:
  assumes inv: "pinv cfg [] s" and run: "configureV4l2StreamLocked d (subDevice cfg) nv ns fps fmt (hv s) = (ret, fmt', v)"
  shows "pinv cfg [] (s\<lparr>hv := v, driver_queue := queue_after d (subDevice cfg) ret v (driver_queue s)\<rparr>)"
proof (cases "ret = MINUS_1")
  case True
  then show ?thesis using configure_dequeued(2) [OF run] by (intro pinv_other [OF inv]) (auto simp: queue_after_def state_defs)
next
  case False
  define s' where "s' = s\<lparr>hv := v, driver_queue := queue_after d (subDevice cfg) ret v (driver_queue s)\<rparr>"
  have fields: "in_flight s' = in_flight s" "answered s' = answered s" "lost s' = lost s" "unreturned s' = unreturned s"
    "mInflightFrames s' = mInflightFrames s" "hv s' = v" "driver_queue s' = queue_after d (subDevice cfg) ret v (driver_queue s)"
    by (simp_all add: s'_def state_defs)
  have zero: "mNumDequeuedV4l2Buffers (hv s) = 0" using configure_dequeued(3) [OF run False] inv by (auto simp: pinv_def)
  then have empty: "in_flight s = []" "lost s = []" "unreturned s = []" using inv by (auto simp: pinv_def)
  have v: "mNumDequeuedV4l2Buffers v = 0" using configure_dequeued(1) [OF run] zero by simp
  have queue: "once (mset (driver_queue s'))" if "\<not> subDevice cfg"
    using that inv once_upt unfolding fields by (simp add: queue_after_def pinv_def empty)
  have "driver_queue s' = []" if "\<not> mV4l2Streaming v" "\<not> subDevice cfg"
    using that configure_dequeued(5) [OF run] False unfolding fields by (auto simp: queue_after_def)
  then show ?thesis
    using inv queue v unfolding s'_def [symmetric] pinv_def fields empty by simp
qed

definition reconfigured :: "config \<Rightarrow> session \<Rightarrow> session \<Rightarrow> bool" where
  "reconfigured cfg s s' \<longleftrightarrow> (\<exists>d fps ret fmt v.
     configureV4l2StreamLocked d (subDevice cfg) (numVideoBuffers cfg) (numStillBuffers cfg) fps (mV4l2StreamingFmt (hv s)) (hv s) = (ret, fmt, v) \<and>
     s' = s\<lparr>hv := v\<lparr>mV4l2StreamingFmt := fmt\<rparr>, driver_queue := queue_after d (subDevice cfg) ret v (driver_queue s)\<rparr>)"

lemma change_fps_cases:
  assumes "change_fps cfg d s = Some s'"
  shows "s' = s \<or> reconfigured cfg s s'"
proof (cases "\<exists>lo hi. fps_setting s = [lo, hi]")
  case True
  then obtain lo hi where f: "fps_setting s = [lo, hi]" by blast
  obtain ret fmt v where c: "configureV4l2StreamLocked d (subDevice cfg) (numVideoBuffers cfg) (numStillBuffers cfg)
      (target_fps (frameRates (mV4l2StreamingFmt (hv s))) (of_int hi)) (mV4l2StreamingFmt (hv s)) (hv s) = (ret, fmt, v)"
    using prod_cases3 by blast
  have "s' = s \<or> s' = s\<lparr>hv := v\<lparr>mV4l2StreamingFmt := fmt\<rparr>, driver_queue := queue_after d (subDevice cfg) ret v (driver_queue s)\<rparr>"
    using assms unfolding change_fps_def f Let_def list.case c prod.case by (simp split: if_splits)
  then show ?thesis using c unfolding reconfigured_def by blast
next
  case False
  then have "change_fps cfg d s = Some s" by (auto simp: change_fps_def split: list.splits)
  then show ?thesis using assms by simp
qed

lemma pinv_fmt:
  assumes "pinv cfg ex s"
  shows "pinv cfg ex (s\<lparr>hv := (hv s)\<lparr>mV4l2StreamingFmt := f\<rparr>\<rparr>)"
proof -
  define s1 where "s1 = s\<lparr>hv := (hv s)\<lparr>mV4l2StreamingFmt := f\<rparr>\<rparr>"
  have fields: "in_flight s1 = in_flight s" "answered s1 = answered s" "lost s1 = lost s" "unreturned s1 = unreturned s"
    "mInflightFrames s1 = mInflightFrames s" "driver_queue s1 = driver_queue s"
    "mV4l2Streaming (hv s1) = mV4l2Streaming (hv s)" "mNumDequeuedV4l2Buffers (hv s1) = mNumDequeuedV4l2Buffers (hv s)"
    by (simp_all add: s1_def state_defs)
  show ?thesis using assms unfolding s1_def [symmetric] pinv_def fields .
qed

lemma change_fps_pinv:
  assumes inv: "pinv cfg [] s" and run: "change_fps cfg d s = Some s'"
  shows "pinv cfg [] s'" "subDevice cfg \<Longrightarrow> mV4l2Streaming (hv s) \<Longrightarrow> mV4l2Streaming (hv s')"
    "in_flight s' = in_flight s" "lost s' = lost s" "answered s' = answered s" "flushing s' = flushing s" "sent s' = sent s"
    "convertList s' = convertList s" "outputList s' = outputList s"
proof -
  have "pinv cfg [] s' \<and> (subDevice cfg \<longrightarrow> mV4l2Streaming (hv s) \<longrightarrow> mV4l2Streaming (hv s')) \<and>
      in_flight s' = in_flight s \<and> lost s' = lost s \<and> answered s' = answered s \<and> flushing s' = flushing s \<and> sent s' = sent s \<and>
      convertList s' = convertList s \<and> outputList s' = outputList s"
    using change_fps_cases [OF run]
  proof
    assume "reconfigured cfg s s'"
    then obtain d fps ret fmt v where c: "configureV4l2StreamLocked d (subDevice cfg) (numVideoBuffers cfg) (numStillBuffers cfg) fps
        (mV4l2StreamingFmt (hv s)) (hv s) = (ret, fmt, v)"
      and s': "s' = s\<lparr>hv := v\<lparr>mV4l2StreamingFmt := fmt\<rparr>, driver_queue := queue_after d (subDevice cfg) ret v (driver_queue s)\<rparr>"
      unfolding reconfigured_def by blast
    define s1 where "s1 = s\<lparr>hv := v, driver_queue := queue_after d (subDevice cfg) ret v (driver_queue s)\<rparr>"
    have "s' = s1\<lparr>hv := (hv s1)\<lparr>mV4l2StreamingFmt := fmt\<rparr>\<rparr>" by (simp add: s' s1_def)
    then have "pinv cfg [] s'" using pinv_fmt [OF pinv_configure [OF inv c]] by (simp only: s1_def)
    then show ?thesis using configure_dequeued(4) [OF c] by (simp add: s' state_defs)
  qed (use inv in simp)
  then show "pinv cfg [] s'" "subDevice cfg \<Longrightarrow> mV4l2Streaming (hv s) \<Longrightarrow> mV4l2Streaming (hv s')"
    "in_flight s' = in_flight s" "lost s' = lost s" "answered s' = answered s" "flushing s' = flushing s" "sent s' = sent s"
    "convertList s' = convertList s" "outputList s' = outputList s"
    by blast+
qed

section \<open>Requests keep it\<close>

lemma hcache_simps [simp]:
  "in_flight (s\<lparr>hcache := c\<rparr>) = in_flight s" "answered (s\<lparr>hcache := c\<rparr>) = answered s"
  by (simp_all add: state_defs)

lemma set_queue_simps [simp]:
  "in_flight (s\<lparr>hv := v\<rparr>) = in_flight s" "answered (s\<lparr>hv := v\<rparr>) = answered s"
  "in_flight (s\<lparr>driver_queue := q\<rparr>) = in_flight s" "answered (s\<lparr>driver_queue := q\<rparr>) = answered s"
  by (simp_all add: state_defs)

lemma pinv_queue:
  assumes "pinv cfg ex s" "mset q \<subseteq># mset (driver_queue s)"
  shows "pinv cfg ex (s\<lparr>driver_queue := q\<rparr>)"
proof -
  let ?held = "image_mset mBufferIndex (mset ex + mset (in_flight s) + mset (lost s) + mset (unreturned s))"
  have "mset q + ?held \<subseteq># mset (driver_queue s) + ?held" using assms(2) by simp
  then have "once (mset q + ?held)" if "\<not> subDevice cfg"
    using assms(1) that once_subset unfolding pinv_def by blast
  moreover have "q = []" if "driver_queue s = []" using assms(2) that by simp
  ultimately show ?thesis using assms(1) unfolding pinv_def set_queue_simps by auto
qed

lemma removeAll_mset: "once (mset q) \<Longrightarrow> i \<in> set q \<Longrightarrow> add_mset i (mset (removeAll i q)) = mset q"
  by (simp add: once_mset distinct_remove1_removeAll [symmetric])

lemma removeAll_less: "once (mset q) \<Longrightarrow> i \<in> set q \<Longrightarrow> mset (removeAll i q) \<subseteq># mset q"
  by (metis removeAll_mset add_mset_add_single mset_subset_eq_add_left)

lemma dequeue_main_queue:
  assumes run: "dequeue_main cfg e s = (res, s')" and honest: "honest cfg e (driver_queue s)" and one: "once (mset (driver_queue s))"
  shows "\<exists>q. s' = s\<lparr>driver_queue := q\<rparr> \<and> mset q \<subseteq># mset (driver_queue s) \<and>
    (\<forall>b. res = Some b \<longrightarrow> add_mset (dq_index b) (mset q) \<subseteq># mset (driver_queue s))"
proof (cases "e_first e")
  case None
  then show ?thesis using run by (intro exI [of _ "driver_queue s"]) (auto simp: dequeue_main_def)
next
  case (Some b)
  let ?q = "removeAll (dq_index b) (driver_queue s)"
  have b: "dq_index b \<in> set (driver_queue s)" using honest Some by (auto simp: honest_def)
  note sub = removeAll_mset [OF one b] removeAll_less [OF one b]
  have rot: "mset (?q @ [dq_index b]) = mset (driver_queue s)" using sub(1) by (simp)
  show ?thesis
  proof (cases "mainDevice cfg \<and> even (dq_index b)")
    case False
    then show ?thesis using run sub Some by (intro exI [of _ ?q]) (auto simp: dequeue_main_def Let_def take_buffer_def)
  next
    case drop: True
    show ?thesis
    proof (cases "e_requeue e")
      case False
      then show ?thesis using run sub Some drop by (intro exI [of _ ?q]) (auto simp: dequeue_main_def Let_def take_buffer_def)
    next
      case requeue: True
      show ?thesis
      proof (cases "e_second e")
        case None
        then show ?thesis using run rot Some drop requeue
          by (intro exI [of _ "?q @ [dq_index b]"]) (auto simp: dequeue_main_def Let_def take_buffer_def give_buffer_def)
      next
        case second: (Some b2)
        let ?q2 = "removeAll (dq_index b2) (?q @ [dq_index b])"
        have "dq_index b2 \<in> set (driver_queue s)" using honest Some second by (auto simp: honest_def)
        then have "dq_index b2 \<in> set (?q @ [dq_index b])" using rot by (metis set_mset_mset)
        then have "add_mset (dq_index b2) (mset ?q2) = mset (driver_queue s)" "mset ?q2 \<subseteq># mset (driver_queue s)"
          using removeAll_mset [of "?q @ [dq_index b]"] removeAll_less [of "?q @ [dq_index b]"] one unfolding rot by blast+
        then show ?thesis using run Some drop requeue second
          by (intro exI [of _ ?q2]) (auto simp: dequeue_main_def Let_def take_buffer_def give_buffer_def)
      qed
    qed
  qed
qed

lemma dequeue_queue:
  assumes run: "dequeueV4l2FrameLocked cfg e s = (res, s')" and inv: "pinv cfg [] s"
    and honest: "\<not> subDevice cfg \<Longrightarrow> honest cfg e (driver_queue s)" and sub: "subDevice cfg \<Longrightarrow> mV4l2Streaming (hv s)"
  shows "\<exists>q. s' = (if res = None then s\<lparr>driver_queue := q\<rparr> else count_dequeued 1 (s\<lparr>driver_queue := q\<rparr>)) \<and>
    mset q \<subseteq># mset (driver_queue s) \<and>
    (\<forall>i t. res = Some (i, t) \<longrightarrow> mV4l2Streaming (hv s) \<and> (\<not> subDevice cfg \<longrightarrow> add_mset i (mset q) \<subseteq># mset (driver_queue s)))"
proof (cases "mNumDequeuedV4l2Buffers (hv s) = mV4L2BufferCount (hv s) \<and> \<not> e_wait e")
  case True
  then show ?thesis using run by (intro exI [of _ "driver_queue s"]) (simp add: dequeueV4l2FrameLocked_def)
next
  case go: False
  obtain b s1 where src: "(if subDevice cfg then (Some \<lparr>dq_index = 0, dq_bytesused = 0, dq_monotonic = False, dq_timestamp = 0\<rparr>, s)
      else dequeue_main cfg e s) = (b, s1)" by fastforce
  obtain q where q: "s1 = s\<lparr>driver_queue := q\<rparr>" "mset q \<subseteq># mset (driver_queue s)"
    "\<not> subDevice cfg \<Longrightarrow> \<forall>x. b = Some x \<longrightarrow> add_mset (dq_index x) (mset q) \<subseteq># mset (driver_queue s)"
  proof (cases "subDevice cfg")
    case True
    then show ?thesis using src by (intro that [of "driver_queue s"]) auto
  next
    case False
    have "once (mset (driver_queue s))"
      using inv False by (auto simp: pinv_def intro: once_subset)
    then show ?thesis using dequeue_main_queue [of cfg e s b s1] src False honest by (auto intro: that)
  qed
  have live: "mV4l2Streaming (hv s)" if "b = Some x" for x
  proof (cases "subDevice cfg")
    case False
    then have "driver_queue s \<noteq> []" using q(3) that by (cases "driver_queue s") auto
    then show ?thesis using inv False by (auto simp: pinv_def)
  qed (rule sub)
  show ?thesis
  proof (cases b)
    case None
    then show ?thesis using run go src q by (intro exI [of _ q]) (simp add: dequeueV4l2FrameLocked_def)
  next
    case (Some x)
    then show ?thesis using run go src q live [OF Some] unfolding dequeueV4l2FrameLocked_def
      by (intro exI [of _ q]) (auto split: if_splits)
  qed
qed

lemma hand_in:
  assumes inv: "pinv cfg [] s" and fresh: "frameNumber r \<notin> set (frames_used s)" and q: "mset q \<subseteq># mset (driver_queue s)"
    and live: "mV4l2Streaming (hv s)" and own: "\<not> subDevice cfg \<Longrightarrow> add_mset (mBufferIndex r) (mset q) \<subseteq># mset (driver_queue s)"
    and s': "in_flight s' = in_flight s @ [r]" "lost s' = lost s" "unreturned s' = unreturned s" "answered s' = answered s"
      "mInflightFrames s' = insert (frameNumber r) (mInflightFrames s)" "driver_queue s' = q" "mV4l2Streaming (hv s') = mV4l2Streaming (hv s)"
      "mNumDequeuedV4l2Buffers (hv s') = Suc (mNumDequeuedV4l2Buffers (hv s))"
  shows "pinv cfg [] s'"
proof -
  let ?held = "image_mset mBufferIndex (mset (in_flight s) + mset (lost s) + mset (unreturned s))"
  have "once (mset (driver_queue s) + ?held)" if "\<not> subDevice cfg" using inv that by (simp add: pinv_def)
  then have "once (add_mset (mBufferIndex r) (mset q) + ?held)" if "\<not> subDevice cfg"
    using once_subset subset_mset.add_right_mono [OF own] that by blast
  moreover have "frameNumber r \<notin># mset (answered s) + image_mset frameNumber (mset (in_flight s) + mset (lost s))"
    using fresh by (auto simp: frames_used_def)
  ultimately show ?thesis using inv live unfolding pinv_def s' by (auto simp: ac_simps)
qed

lemma request_pinv:
  assumes run: "processOneCaptureRequest cfg e q s = (st, s')" and inv: "pinv cfg [] s"
    and fresh: "cr_frameNumber q \<notin> set (frames_used s)"
    and honest: "\<And>s1. change_fps cfg (r_driver e) (case cr_settings q of Settings r \<Rightarrow> s\<lparr>fps_setting := r\<rparr> | _ \<Rightarrow> s) = Some s1 \<Longrightarrow>
      honest cfg (r_dq e) (driver_queue s1)"
  shows "pinv cfg [] s'" "lost s' = lost s" "answered s' = answered s" "sent s' = sent s" "flushing s' = flushing s"
    "st \<noteq> OK \<Longrightarrow> in_flight s' = in_flight s"
proof -
  define s0 where "s0 = (case cr_settings q of Settings r \<Rightarrow> s\<lparr>fps_setting := r\<rparr> | _ \<Rightarrow> s)"
  have s0: "pinv cfg [] s0" "in_flight s0 = in_flight s" "lost s0 = lost s" "answered s0 = answered s" "sent s0 = sent s"
    "flushing s0 = flushing s" "hv s0 = hv s" "mV4l2Streaming (hv s0) = mV4l2Streaming (hv s)"
    by (rule pinv_other [OF inv]; simp add: s0_def state_defs split: settings.split)
      (simp_all add: s0_def state_defs split: settings.split)
  have "pinv cfg [] s' \<and> lost s' = lost s \<and> answered s' = answered s \<and> sent s' = sent s \<and> flushing s' = flushing s \<and>
    (st \<noteq> OK \<longrightarrow> in_flight s' = in_flight s)"
  proof (cases "s' = s \<or> s' = s0")
    case True
    then show ?thesis using s0 inv by auto
  next
    case far: False
    have guards: "initStatus s = OK" "cr_input q = - 1" "mV4l2Streaming (hv s)" "cr_settings q \<noteq> Corrupt"
      "\<not> (mFirstRequest s0 \<and> cr_settings q = NoSettings)" "cr_outputs q \<noteq> []"
      using run far unfolding processOneCaptureRequest_def s0_def [symmetric] Let_def by (auto split: if_splits)
    obtain s1 where s1: "change_fps cfg (r_driver e) s0 = Some s1"
      using run far guards unfolding processOneCaptureRequest_def s0_def [symmetric] Let_def by (auto split: option.splits)
    note c = change_fps_pinv [OF s0(1) s1]
    obtain st2 ps fds cl c2 where imp: "importRequestLockedImpl (r_import e) (\<lambda>f. f) False (cr_outputs q) (hcache s1) = (st2, ps, fds, cl, c2)"
      using prod_cases5 by blast
    define s2 where "s2 = s1\<lparr>hcache := c2\<rparr>"
    have s2: "pinv cfg [] s2" "in_flight s2 = in_flight s" "lost s2 = lost s" "answered s2 = answered s" "sent s2 = sent s"
      "flushing s2 = flushing s" "hv s2 = hv s1" "driver_queue s2 = driver_queue s1"
      using c s0 by (auto simp: s2_def intro: pinv_other [OF c(1)])
    show ?thesis
    proof (cases "st2 = OK")
      case False
      then have "s' = s2" "st = st2" using run guards s1 imp unfolding processOneCaptureRequest_def s0_def [symmetric] Let_def by (auto simp: s2_def)
      then show ?thesis using s2 by simp
    next
      case True
      obtain res s3 where dq: "dequeueV4l2FrameLocked cfg (r_dq e) s2 = (res, s3)" by fastforce
      have "honest cfg (r_dq e) (driver_queue s2)" using honest s1 by (simp add: s0_def s2)
      moreover have "mV4l2Streaming (hv s2)" if "subDevice cfg" using c(2) that guards(3) s0 s2 by simp
      ultimately obtain qu where qu: "s3 = (if res = None then s2\<lparr>driver_queue := qu\<rparr> else count_dequeued 1 (s2\<lparr>driver_queue := qu\<rparr>))"
        "mset qu \<subseteq># mset (driver_queue s2)" "\<And>i t. res = Some (i, t) \<Longrightarrow> mV4l2Streaming (hv s2) \<and>
          (\<not> subDevice cfg \<longrightarrow> add_mset i (mset qu) \<subseteq># mset (driver_queue s2))"
        using dequeue_queue [OF dq s2(1)] by blast
      show ?thesis
      proof (cases res)
        case None
        then have "s' = s2\<lparr>driver_queue := qu\<rparr>" "st = INTERNAL_ERROR"
          using run guards s1 imp True dq qu(1) unfolding processOneCaptureRequest_def s0_def [symmetric] Let_def
          by (auto simp: s2_def)
        then show ?thesis using pinv_queue [OF s2(1) qu(2)] s2 by simp
      next
        case (Some it)
        obtain i t where it: "it = (i, t)" by (cases it)
        obtain bs m where hb: "hal_buffers (zip (cr_outputs q) (zip ps fds)) (mStreamMap s3) = (bs, m)" by fastforce
        define r where "r = \<lparr>frameNumber = cr_frameNumber q, mBufferIndex = i, mFourcc = fourcc (mV4l2StreamingFmt (hv s3)),
          shutterTs = t, buffers = bs\<rparr>"
        have s': "s' = s3\<lparr>mStreamMap := m, mInflightFrames := insert (frameNumber r) (mInflightFrames s3),
            convertList := convertList s3 @ [r], mFirstRequest := False\<rparr>" "st = OK"
          using run guards s1 imp True dq Some it hb unfolding processOneCaptureRequest_def s0_def [symmetric] Let_def
          by (auto simp: s2_def r_def)
        have s3: "s3 = count_dequeued 1 (s2\<lparr>driver_queue := qu\<rparr>)" using qu(1) Some by simp
        have f: "in_flight s' = in_flight s2 @ [r]" "lost s' = lost s2" "unreturned s' = unreturned s2" "answered s' = answered s2"
          "mInflightFrames s' = insert (frameNumber r) (mInflightFrames s2)" "driver_queue s' = qu"
          "mV4l2Streaming (hv s') = mV4l2Streaming (hv s2)" "mNumDequeuedV4l2Buffers (hv s') = Suc (mNumDequeuedV4l2Buffers (hv s2))"
          "sent s' = sent s2" "flushing s' = flushing s2"
          by (simp_all add: s' s3 count_dequeued_def state_defs)
        have "frameNumber r \<notin> set (frames_used s2)" using fresh s2 by (simp add: r_def frames_used_def)
        then have "pinv cfg [] s'"
          using hand_in [OF s2(1) _ qu(2) _ _ f(1-8)] qu(3) Some it by (simp add: r_def)
        then show ?thesis using f s2 s'(2) by simp
      qed
    qed
  qed
  then show "pinv cfg [] s'" "lost s' = lost s" "answered s' = answered s" "sent s' = sent s" "flushing s' = flushing s"
    "st \<noteq> OK \<Longrightarrow> in_flight s' = in_flight s" by blast+
qed

lemma add_streams_fields:
  "in_flight (add_streams ss s) = in_flight s" "answered (add_streams ss s) = answered s" "lost (add_streams ss s) = lost s"
  "unreturned (add_streams ss s) = unreturned s" "mInflightFrames (add_streams ss s) = mInflightFrames s"
  "driver_queue (add_streams ss s) = driver_queue s" "sent (add_streams ss s) = sent s" "flushing (add_streams ss s) = flushing s"
  by (induction ss arbitrary: s) (simp_all add: add_streams_def add_stream_def state_defs)

lemma configure_fields:
  assumes "configureStreams cfg d nm ss blob s = Some (st, out, s')"
  shows "(in_flight s' = in_flight s \<and> answered s' = answered s \<and> lost s' = lost s \<and> unreturned s' = unreturned s \<and>
      mInflightFrames s' = mInflightFrames s \<and> sent s' = sent s \<and> flushing s' = flushing s) \<and>
    (hv s' = hv s \<and> driver_queue s' = driver_queue s \<or>
     (\<exists>fmt ret fmt' v. configureV4l2StreamLocked d (subDevice cfg) (numVideoBuffers cfg) (numStillBuffers cfg) 0 fmt (hv s) = (ret, fmt', v) \<and>
       hv s' = v \<and> driver_queue s' = queue_after d (subDevice cfg) ret v (driver_queue s)))"
proof (cases "s' = s")
  case False
  then have guards: "isStreamCombinationSupported (depthEnabled cfg) (mSupportedFormats cfg) nm ss = OK" "initStatus s = OK" "mInflightFrames s = {}"
    using assms unfolding configureStreams_def Let_def by (auto split: if_splits)
  define s1 where "s1 = add_streams ss s"
  obtain m c where rem: "remove_streams (map st_id ss) (mStreamMap s1) (hcache s1) = Some (m, c)"
    using assms guards unfolding configureStreams_def Let_def by (auto simp: s1_def split: option.splits)
  define s2 where "s2 = s1\<lparr>mStreamMap := m, hcache := c\<rparr>"
  have s2: "in_flight s2 = in_flight s" "answered s2 = answered s" "lost s2 = lost s" "unreturned s2 = unreturned s" "sent s2 = sent s"
    "mInflightFrames s2 = mInflightFrames s" "driver_queue s2 = driver_queue s" "hv s2 = hv s" "flushing s2 = flushing s"
    using add_streams_fields [of ss s] by (simp_all add: s2_def s1_def state_defs)
  show ?thesis
  proof (cases "selectFormat (mCroppingType cfg) (mSupportedFormats cfg) ss")
    case None
    then have "s' = s2" using assms guards rem unfolding configureStreams_def Let_def by (simp add: s1_def s2_def)
    then show ?thesis using s2 by simp
  next
    case (Some fmt)
    obtain ret fmt' v where conf: "configureV4l2StreamLocked d (subDevice cfg) (numVideoBuffers cfg) (numStillBuffers cfg) 0 fmt (hv s) = (ret, fmt', v)"
      using prod_cases3 by blast
    define s3 where "s3 = s2\<lparr>hv := v, driver_queue := queue_after d (subDevice cfg) ret v (driver_queue s)\<rparr>"
    have "\<exists>ob m2 b. s' = s3 \<or> s' = s3\<lparr>hob := ob\<rparr> \<or> s' = s3\<lparr>hob := ob, mStreamMap := m2\<rparr> \<or> s' = s3\<lparr>hob := ob, mStreamMap := m2, mFirstRequest := b\<rparr>"
      using assms guards rem Some conf add_streams_fields(6) [of ss s]
      unfolding configureStreams_def Let_def by (auto simp: s1_def s2_def s3_def split: if_splits prod.splits)
    then have "in_flight s' = in_flight s3 \<and> answered s' = answered s3 \<and> lost s' = lost s3 \<and> unreturned s' = unreturned s3 \<and>
        mInflightFrames s' = mInflightFrames s3 \<and> sent s' = sent s3 \<and> flushing s' = flushing s3 \<and> hv s' = hv s3 \<and> driver_queue s' = driver_queue s3"
      by (auto simp: state_defs)
    moreover have "in_flight s3 = in_flight s2" "answered s3 = answered s2" "hv s3 = v" "lost s3 = lost s2" "unreturned s3 = unreturned s2"
      "mInflightFrames s3 = mInflightFrames s2" "sent s3 = sent s2" "flushing s3 = flushing s2"
      "driver_queue s3 = queue_after d (subDevice cfg) ret v (driver_queue s)" by (simp_all add: s3_def state_defs)
    ultimately have "in_flight s' = in_flight s \<and> answered s' = answered s \<and> lost s' = lost s \<and> unreturned s' = unreturned s \<and>
        mInflightFrames s' = mInflightFrames s \<and> sent s' = sent s \<and> flushing s' = flushing s \<and> hv s' = v \<and>
        driver_queue s' = queue_after d (subDevice cfg) ret v (driver_queue s)" using s2 by simp
    then show ?thesis using conf by blast
  qed
qed (use assms in simp)

lemma configure_pinv:
  assumes run: "configureStreams cfg d nm ss blob s = Some (st, out, s')" and inv: "pinv cfg [] s"
  shows "pinv cfg [] s'" "lost s' = lost s" "answered s' = answered s" "sent s' = sent s" "flushing s' = flushing s" "in_flight s' = in_flight s"
proof -
  note f = configure_fields [OF run]
  from f consider "hv s' = hv s" "driver_queue s' = driver_queue s"
    | fmt ret fmt' v where "configureV4l2StreamLocked d (subDevice cfg) (numVideoBuffers cfg) (numStillBuffers cfg) 0 fmt (hv s) = (ret, fmt', v)"
      "hv s' = v" "driver_queue s' = queue_after d (subDevice cfg) ret v (driver_queue s)" by blast
  then show "pinv cfg [] s'"
  proof cases
    case 1
    then show ?thesis using f by (intro pinv_other [OF inv]) auto
  next
    case 2
    show ?thesis by (rule pinv_other [OF pinv_configure [OF inv 2(1)]]) (use f 2 in simp_all)
  qed
  show "lost s' = lost s" "answered s' = answered s" "sent s' = sent s" "flushing s' = flushing s" "in_flight s' = in_flight s" using f by blast+
qed

lemma flush_take_fields:
  "mset (in_flight (flush_take s)) = mset (in_flight s)" "answered (flush_take s) = answered s"
  by (simp_all add: flush_take_def state_defs)

lemma flush_answer_cases:
  assumes "flush_answer cfg qbuf deliver s = Some s'" "pinv cfg [] s"
  obtains r where "flushing s = r # flushing s'" "pinv cfg [] s'" "set (answered s') = insert (frameNumber r) (set (answered s))"
    "lost s' = lost s"
proof -
  obtain r rs where f: "flushing s = r # rs" using assms(1) by (auto simp: flush_answer_def split: list.splits)
  have hand: "pinv cfg [r] (s\<lparr>flushing := rs\<rparr>)"
    by (rule pinv_cong [OF assms(2)]) (auto simp: state_defs f)
  have s': "s' = invokeProcessCaptureResultCallback deliver (frameNumber r) (map (\<lambda>b. (hb_streamId b, hb_bufferId b, False, release_fence b)) (buffers r))
      (erase_inflight (frameNumber r) (send [Shutter (frameNumber r) (shutterTs r), ErrorMsg (frameNumber r) (- 1) ERROR_REQUEST]
        (enqueueV4l2Frame cfg qbuf r (s\<lparr>flushing := rs\<rparr>))))"
    using assms(1) by (simp add: flush_answer_def f processCaptureRequestError_def Let_def)
  have "flushing s' = rs" "lost s' = lost s"
    by (simp_all add: s' invokeProcessCaptureResultCallback_def erase_inflight_def send_def enqueueV4l2Frame_def give_buffer_def count_dequeued_def)
  moreover note finish_answer [OF hand refl refl _ s']
  moreover have "answered (s\<lparr>flushing := rs\<rparr>) = answered s" by (simp add: answered_def)
  ultimately show ?thesis by (intro that) (simp_all add: f)
qed

lemma close_end_pinv:
  assumes "close_end cfg d s = Some s'" "pinv cfg [] s"
  shows "pinv cfg [] s'" "lost s' = lost s" "answered s' = answered s" "in_flight s' = in_flight s" "sent s' = sent s"
proof -
  obtain r v where rv: "v4l2StreamOffLocked d (subDevice cfg) (hv s) = (r, v)" by fastforce
  then obtain c where c: "v4l2StreamOffLocked d (subDevice cfg) (hv s) = (r, v)"
    "s' = s\<lparr>hcache := c, hv := v, driver_queue := (if mV4l2Streaming v then driver_queue s else []), mClosed := True\<rparr>"
    using assms(1) rv by (auto simp: close_end_def bind_eq_Some_conv)
  have v: "mNumDequeuedV4l2Buffers v = mNumDequeuedV4l2Buffers (hv s)" "\<not> mV4l2Streaming v \<Longrightarrow> mNumDequeuedV4l2Buffers (hv s) = 0 \<or> \<not> mV4l2Streaming (hv s)"
    "\<not> mV4l2Streaming (hv s) \<Longrightarrow> v = hv s"
    using c(1) by (auto simp: v4l2StreamOffLocked_def Let_def split: if_splits)
  show f: "lost s' = lost s" "answered s' = answered s" "in_flight s' = in_flight s" "sent s' = sent s"
    by (simp_all add: c(2) state_defs)
  show "pinv cfg [] s'"
  proof (cases "mV4l2Streaming v")
    case True
    then show ?thesis using assms(2) v(1,3) unfolding pinv_def f by (auto simp: c(2))
  next
    case False
    then have "mNumDequeuedV4l2Buffers (hv s) = 0" using v(2) assms(2) by (auto simp: pinv_def)
    moreover from this have "in_flight s = []" "lost s = []" "unreturned s = []" using assms(2) by (auto simp: pinv_def)
    ultimately show ?thesis using assms(2) v(1) False unfolding pinv_def f by (auto simp: c(2))
  qed
qed

lemma step_pinv:
  assumes "step cfg s s'" "pinv cfg [] s"
  shows "pinv cfg [] s'"
  using assms(1)
proof cases
  case (request q e st)
  show ?thesis by (rule request_pinv(1) [OF request(3) assms(2) request(2,4)])
next
  case (configure d nm ss blob st out)
  then show ?thesis using configure_pinv(1) assms(2) by blast
next
  case work
  then show ?thesis using worker_pinv assms(2) by blast
next
  case flush
  then show ?thesis using flush_take_fields by (intro pinv_cong [OF assms(2)]) (auto simp: flush_take_def)
next
  case (answer qbuf deliver)
  then show ?thesis using flush_answer_cases assms(2) by metis
next
  case close
  then show ?thesis by (intro pinv_cong [OF assms(2)]) (auto simp: close_begin_def flush_take_def state_defs)
next
  case (close_end d)
  then show ?thesis using close_end_pinv(1) assms(2) by blast
qed (auto intro!: pinv_other [OF assms(2)] simp: state_defs)

lemma initial_pinv: "initial s \<Longrightarrow> pinv cfg [] s"
  by (simp add: initial_def pinv_def answered_def)

lemma steps_pinv: "steps cfg s s' \<Longrightarrow> pinv cfg [] s \<Longrightarrow> pinv cfg [] s'"
  unfolding steps_def by (induction rule: rtranclp_induct) (auto intro: step_pinv)

end
