(* ===== verification/Capture_Safety.thy ===== *)
theory Capture_Safety
  imports Capture_Pipeline
begin

text \<open>
  What the capture pipeline of the camera HAL guarantees, and where it fails. In all interleavings of the
  framework's calls with the two worker threads each accepted request is answered at most once and is
  accounted for; while the workers run, the pipeline drains. Requests the workers drop
  block every later configuration, and a close strands what the convert thread still has.
\<close>

section \<open>Accounting\<close>

lemma once_append: "once (mset xs + image_mset f (mset ys)) \<longleftrightarrow> distinct (xs @ map f ys)"
  by (simp only: once_mset [symmetric] mset_append mset_map)

text \<open>C2: Every accepted request is accounted for. Whatever the framework does and however the worker threads
  are scheduled: a frame is answered at most once, and no frame is both answered and still in the pipeline (or
  dropped); \<open>mInflightFrames\<close> holds exactly the frames in the pipeline and the dropped ones; and
  \<open>mNumDequeuedV4l2Buffers\<close> counts one capture buffer for each of them, plus one for each buffer the driver
  refused to take back.\<close>

theorem requests_accounted:
  assumes "initial s" "steps cfg s s'"
  shows "distinct (frames_used s') \<and>
    mInflightFrames s' = frameNumber ` set (in_flight s' @ lost s') \<and>
    mNumDequeuedV4l2Buffers (hv s') = length (in_flight s') + length (lost s') + length (unreturned s')"
proof -
  have "pinv cfg [] s'" using steps_pinv [OF assms(2) initial_pinv [OF assms(1)]] .
  then show ?thesis
    using once_append [of "answered s'" frameNumber "in_flight s' @ lost s'"]
    by (auto simp: pinv_def frames_used_def image_Un ac_simps)
qed

text \<open>C21: A capture buffer is in one place. On a device with a stream of its own, in all reachable states, no
  buffer index is at the same time in the driver's queue and with a request, or with two requests: a worker never
  reads a buffer the driver may write.\<close>

theorem buffers_exclusive:
  assumes "initial s" "steps cfg s s'" "\<not> subDevice cfg"
  shows "distinct (driver_queue s' @ map mBufferIndex (in_flight s' @ lost s' @ unreturned s'))"
proof -
  have "pinv cfg [] s'" using steps_pinv [OF assms(2) initial_pinv [OF assms(1)]] .
  then show ?thesis
    using assms(3) once_append [of "driver_queue s'" mBufferIndex "in_flight s' @ lost s' @ unreturned s'"]
    by (simp add: pinv_def ac_simps)
qed

section \<open>Dropped requests\<close>

lemma worker_lost: "worker cfg s s' \<Longrightarrow> set (lost s) \<subseteq> set (lost s')"
proof (induction rule: worker.induct)
  case (w_finish s r qbuf deliver pre share e s')
  then show ?case
    by (auto simp: output_finish_def Let_def signalRequestDone_def send_def processCaptureResult_def processCaptureRequestError_def
        invokeProcessCaptureResultCallback_def erase_inflight_def clear_scaled_def enqueueV4l2Frame_def give_buffer_def
        count_dequeued_def split: fill_outcome.splits if_splits)
qed (auto simp: convert_take_def convert_done_def output_take_def split: list.splits option.splits if_splits)

lemma step_lost:
  assumes "step cfg s s'" "pinv cfg [] s"
  shows "set (lost s) \<subseteq> set (lost s')"
  using assms(1)
proof cases
  case (request q e st)
  then show ?thesis using request_pinv(2) [OF request(3) assms(2) request(2,4)] by simp
next
  case (configure d nm ss blob st out)
  show ?thesis using configure_pinv(2) [OF configure(2) assms(2)] by simp
next
  case work
  then show ?thesis by (rule worker_lost)
next
  case (answer qbuf deliver)
  then show ?thesis using flush_answer_cases assms(2) by (metis order_refl)
next
  case (close_end d)
  then show ?thesis using close_end_pinv(2) assms(2) by (metis order_refl)
qed (auto simp: flush_take_def close_begin_def)

lemma steps_lost:
  assumes "steps cfg s s'" "pinv cfg [] s"
  shows "set (lost s) \<subseteq> set (lost s')"
  using assms(1) unfolding steps_def
proof (induction rule: rtranclp_induct)
  case (step y z)
  have "pinv cfg [] y" using steps_pinv step(1) assms(2) by (auto simp: steps_def)
  then show ?case using step_lost step by blast
qed simp

text \<open>A flaw of the code. A request that a worker dropped (a capture format the converter does not know, a device
  error, a buffer without a shared descriptor) stays in \<open>mInflightFrames\<close> for ever, and so no later
  \<open>configureStreams\<close> of a supported combination succeeds: it is refused and changes nothing, however long the
  framework waits or flushes.\<close>

theorem dropped_request_blocks_configuration:
  assumes "initial s0" "steps cfg s0 s" "r \<in> set (lost s)" "steps cfg s s'"
    and "isStreamCombinationSupported (depthEnabled cfg) (mSupportedFormats cfg) nm ss = OK"
  shows "configureStreams cfg d nm ss blob s' = Some (INTERNAL_ERROR, [], s')"
proof -
  have inv: "pinv cfg [] s" using steps_pinv [OF assms(2) initial_pinv [OF assms(1)]] .
  have "r \<in> set (lost s')" using steps_lost [OF assms(4) inv] assms(3) by blast
  moreover have "pinv cfg [] s'" by (rule steps_pinv [OF assms(4) inv])
  ultimately have "mInflightFrames s' \<noteq> {}" by (auto simp: pinv_def)
  then show ?thesis using assms(5) by (auto simp: configureStreams_def initStatus_def)
qed

section \<open>Draining\<close>

definition weight :: "session \<Rightarrow> nat" where
  "weight s = 4 * length (convertList s) + (if converting s = None then 0 else 3) + 2 * length (outputList s) +
     (if processing s = None then 0 else 1)"

definition same_lists :: "session \<Rightarrow> session \<Rightarrow> bool" where
  "same_lists s' s \<longleftrightarrow> convertList s' = convertList s \<and> converting s' = converting s \<and> outputList s' = outputList s \<and>
     processing s' = processing s \<and> flushing s' = flushing s \<and> convert_running s' = convert_running s"

lemma answer_lists:
  "same_lists (processCaptureRequestError cfg q d r s) s" "same_lists (processCaptureResult cfg q d r s) s"
  "same_lists (signalRequestDone s) s" "same_lists (clear_scaled s) s"
  "output_running (processCaptureRequestError cfg q d r s) = output_running s"
  "output_running (processCaptureResult cfg q d r s) = output_running s"
  by (simp_all add: same_lists_def processCaptureResult_def processCaptureRequestError_def Let_def send_def signalRequestDone_def
      invokeProcessCaptureResultCallback_def erase_inflight_def clear_scaled_def enqueueV4l2Frame_def give_buffer_def count_dequeued_def)

lemma finish_lists:
  assumes "output_finish cfg q d out s = Some s'"
  shows "same_lists s' (s\<lparr>processing := None\<rparr>)" "processing s \<noteq> None"
  using assms answer_lists
  by (auto simp: output_finish_def Let_def same_lists_def signalRequestDone_def send_def clear_scaled_def split: option.splits fill_outcome.splits)

lemma worker_weight: "worker cfg s s' \<Longrightarrow> weight s' < weight s"
proof (induction rule: worker.induct)
  case (w_finish s r qbuf deliver pre share e s')
  then show ?case using finish_lists [OF w_finish(2)] by (auto simp: weight_def same_lists_def)
qed (auto simp: weight_def convert_take_def convert_done_def output_take_def split: list.splits option.splits if_splits)

lemma worker_keeps: "worker cfg s s' \<Longrightarrow> flushing s' = flushing s \<and> convert_running s' = convert_running s"
proof (induction rule: worker.induct)
  case (w_finish s r qbuf deliver pre share e s')
  then show ?case using finish_lists [OF w_finish(2)] by (auto simp: same_lists_def)
qed (auto simp: convert_take_def convert_done_def output_take_def split: list.splits option.splits if_splits)

lemma frames_moved:
  assumes "mset (in_flight s) + mset (lost s) = mset (in_flight s') + mset (lost s')" "answered s' = answered s"
  shows "set (frames_used s') = set (frames_used s)"
proof -
  have "set (in_flight s @ lost s) = set (in_flight s' @ lost s')"
    using assms(1) by (metis mset_append set_mset_mset)
  then show ?thesis using assms(2) unfolding frames_used_def set_append set_map by simp
qed

lemma worker_frames:
  assumes "worker cfg s s'" "pinv cfg [] s"
  shows "set (frames_used s') = set (frames_used s)"
  using assms(1)
proof cases
  case (w_finish r qbuf deliver pre share e)
  define t where "t = s\<lparr>processing := None\<rparr>"
  have hand: "pinv cfg [r] t"
    unfolding t_def by (rule pinv_cong [OF assms(2)]) (auto simp: state_defs w_finish(1))
  have scaled: "pinv cfg [r] (clear_scaled t)"
    by (rule pinv_other [OF hand]) (simp_all add: clear_scaled_def state_defs)
  have s: "set (frames_used s) = insert (frameNumber r) (set (frames_used t))"
    by (auto simp: frames_used_def state_defs t_def w_finish(1))
  have one: "set (frames_used u) = insert (frameNumber r) (set (frames_used v))"
    if "set (answered u) = insert (frameNumber r) (set (answered v))" "in_flight u = in_flight v" "lost u = lost v" for u v
    using that by (auto simp: frames_used_def)
  have lose: "set (frames_used u) = insert (frameNumber r) (set (frames_used t))"
    if "in_flight u = in_flight t" "lost u = lost t @ [r]" "answered u = answered t" for u
    using that by (auto simp: frames_used_def)
  have done_frames: "frames_used (signalRequestDone u) = frames_used u" "frames_used (clear_scaled u) = frames_used u" for u
    by (simp_all add: frames_used_def state_defs signalRequestDone_def clear_scaled_def)
  have lost: "lost (processCaptureRequestError cfg qbuf deliver x u) = lost u" "lost (processCaptureResult cfg qbuf deliver x u) = lost u" for x u
    by (simp_all add: processCaptureResult_def processCaptureRequestError_def Let_def send_def invokeProcessCaptureResultCallback_def
        erase_inflight_def enqueueV4l2Frame_def give_buffer_def count_dequeued_def)
  have s': "s' = (case process_request pre share e r of
      DeviceFail \<Rightarrow> (signalRequestDone (send [ErrorMsg (frameNumber r) (- 1) ERROR_DEVICE] t))\<lparr>output_running := False, lost := lost t @ [r]\<rparr>
    | RequestFail bs \<Rightarrow> signalRequestDone (processCaptureRequestError cfg qbuf deliver (r\<lparr>buffers := bs\<rparr>) t)
    | Einval \<Rightarrow> t\<lparr>lost := lost t @ [r]\<rparr>
    | Completed bs \<Rightarrow> signalRequestDone (processCaptureResult cfg qbuf deliver (r\<lparr>buffers := bs\<rparr>) (clear_scaled t)))"
    using w_finish(2) unfolding output_finish_def w_finish(1) option.case Let_def t_def by (simp only: option.inject)
  show ?thesis
  proof (cases "process_request pre share e r")
    case (Completed bs)
    define u where "u = processCaptureResult cfg qbuf deliver (r\<lparr>buffers := bs\<rparr>) (clear_scaled t)"
    have u: "u = invokeProcessCaptureResultCallback deliver (frameNumber r)
        (map (\<lambda>b. (hb_streamId b, hb_bufferId b, \<not> fenceTimeout b, release_fence b)) bs)
        (erase_inflight (frameNumber r) (send (Shutter (frameNumber r) (shutterTs r) #
          map (\<lambda>b. ErrorMsg (frameNumber r) (hb_streamId b) ERROR_BUFFER) (filter fenceTimeout bs))
          (enqueueV4l2Frame cfg qbuf (r\<lparr>buffers := bs\<rparr>) (clear_scaled t))))"
      by (simp add: u_def processCaptureResult_def Let_def send_def)
    have "set (frames_used u) = insert (frameNumber r) (set (frames_used (clear_scaled t)))"
      using finish_answer(2,3) [OF scaled _ _ _ u] lost(2) by (intro one) (simp_all add: u_def concat_eq_Nil_conv)
    then show ?thesis using Completed by (simp add: s' s done_frames u_def)
  next
    case (RequestFail bs)
    define u where "u = processCaptureRequestError cfg qbuf deliver (r\<lparr>buffers := bs\<rparr>) t"
    have u: "u = invokeProcessCaptureResultCallback deliver (frameNumber r)
        (map (\<lambda>b. (hb_streamId b, hb_bufferId b, False, release_fence b)) bs)
        (erase_inflight (frameNumber r) (send [Shutter (frameNumber r) (shutterTs r), ErrorMsg (frameNumber r) (- 1) ERROR_REQUEST]
          (enqueueV4l2Frame cfg qbuf (r\<lparr>buffers := bs\<rparr>) t)))"
      by (simp add: u_def processCaptureRequestError_def Let_def)
    have "set (frames_used u) = insert (frameNumber r) (set (frames_used t))"
      using finish_answer(2,3) [OF hand _ _ _ u] lost(1) by (intro one) (simp_all add: u_def)
    then show ?thesis using RequestFail by (simp add: s' s done_frames u_def)
  next
    case DeviceFail
    then show ?thesis unfolding s by (intro lose) (simp_all add: s' signalRequestDone_def send_def state_defs)
  next
    case Einval
    then show ?thesis unfolding s by (intro lose) (simp_all add: s' state_defs)
  qed
qed (rule frames_moved; auto simp: convert_take_def convert_done_def output_take_def state_defs split: list.splits option.splits if_splits)+

text \<open>What can be left when the workers can do nothing: what a flush has taken, and the list of a thread that has ended.\<close>

lemma stuck_rest:
  assumes "\<And>s'. \<not> worker cfg s s'"
  shows "in_flight s = flushing s @ (if output_running s then [] else outputList s) @ (if convert_running s then [] else convertList s)"
proof -
  have "processing s = None"
  proof (rule ccontr)
    assume "processing s \<noteq> None"
    then obtain r where r: "processing s = Some r" by blast
    then obtain s' where "output_finish cfg True True (process_request True True (\<lambda>_. undefined) r) s = Some s'"
      by (auto simp: output_finish_def Let_def)
    then show False using assms w_finish [OF r] by blast
  qed
  moreover have "converting s = None"
  proof (rule ccontr)
    assume "converting s \<noteq> None"
    then obtain s' where "convert_done s = Some s'" by (auto simp: convert_done_def)
    then show False using assms w_convert by blast
  qed
  moreover have "convert_running s \<Longrightarrow> convertList s = []"
    using assms w_take [of s] \<open>converting s = None\<close> by (cases "convertList s") (auto simp: convert_take_def)
  moreover have "output_running s \<Longrightarrow> outputList s = []"
    using assms w_output [of s] \<open>processing s = None\<close> by (cases "outputList s") (auto simp: output_take_def)
  ultimately show ?thesis by (simp add: in_flight_def)
qed

text \<open>The output thread ends by itself only when it reports a device error.\<close>

definition device_error :: "message list \<Rightarrow> bool" where
  "device_error ms \<longleftrightarrow> (\<exists>n. ErrorMsg n (- 1) ERROR_DEVICE \<in> set ms)"

lemma device_error_append: "device_error (xs @ ys) \<longleftrightarrow> device_error xs \<or> device_error ys"
  by (auto simp: device_error_def)

lemma answer_sent:
  "\<exists>ms. sent (processCaptureRequestError cfg q d r s) = sent s @ ms \<and> \<not> device_error ms"
  "\<exists>ms. sent (processCaptureResult cfg q d r s) = sent s @ ms \<and> \<not> device_error ms"
  by (auto simp: processCaptureResult_def processCaptureRequestError_def Let_def send_def device_error_def
      invokeProcessCaptureResultCallback_def erase_inflight_def enqueueV4l2Frame_def give_buffer_def count_dequeued_def)

lemma worker_running:
  assumes "worker cfg s s'"
  shows "\<exists>ms. sent s' = sent s @ ms \<and> (output_running s' \<longleftrightarrow> output_running s \<and> \<not> device_error ms)"
  using assms
proof cases
  case (w_finish r qbuf deliver pre share e)
  define t where "t = s\<lparr>processing := None\<rparr>"
  have t: "sent t = sent s" "output_running t = output_running s" by (simp_all add: t_def)
  have u: "sent (signalRequestDone u) = sent u" "output_running (signalRequestDone u) = output_running u"
    "sent (clear_scaled u) = sent u" "output_running (clear_scaled u) = output_running u" for u
    by (simp_all add: signalRequestDone_def clear_scaled_def)
  show ?thesis
  proof (cases "process_request pre share e r")
    case DeviceFail
    then show ?thesis using w_finish t u
      by (intro exI [of _ "[ErrorMsg (frameNumber r) (- 1) ERROR_DEVICE]"])
        (auto simp: output_finish_def Let_def t_def [symmetric] send_def device_error_def)
  next
    case (RequestFail bs)
    then show ?thesis using w_finish t u answer_sent(1) [of cfg qbuf deliver "r\<lparr>buffers := bs\<rparr>" t] answer_lists(5)
      by (auto simp: output_finish_def Let_def t_def [symmetric])
  next
    case (Completed bs)
    then show ?thesis using w_finish t u answer_sent(2) [of cfg qbuf deliver "r\<lparr>buffers := bs\<rparr>" "clear_scaled t"] answer_lists(6)
      by (auto simp: output_finish_def Let_def t_def [symmetric])
  next
    case Einval
    then show ?thesis using w_finish t
      by (intro exI [of _ "[]"]) (auto simp: output_finish_def Let_def t_def [symmetric] device_error_def)
  qed
qed (auto simp: convert_take_def convert_done_def output_take_def device_error_def split: list.splits option.splits if_splits)

lemma workers_running:
  assumes "(worker cfg)\<^sup>*\<^sup>* s s'"
  shows "\<exists>ms. sent s' = sent s @ ms \<and> (output_running s' \<longleftrightarrow> output_running s \<and> \<not> device_error ms)"
  using assms
proof (induction rule: rtranclp_induct)
  case base
  then show ?case by (simp add: device_error_def)
next
  case (step y z)
  from step(3) obtain ms where "sent y = sent s @ ms" "output_running y \<longleftrightarrow> output_running s \<and> \<not> device_error ms" by blast
  moreover from worker_running [OF step(2)] obtain ns where "sent z = sent y @ ns" "output_running z \<longleftrightarrow> output_running y \<and> \<not> device_error ns"
    by blast
  ultimately show ?case by (intro exI [of _ "ms @ ns"]) (auto simp: device_error_append)
qed

text \<open>C5: How the pipeline drains. The workers cannot go on for ever by themselves: each of their steps lowers a measure.
  When none of their steps is possible any more, in whatever order they were taken, the requests left are exactly those
  that a flush has taken (the flush answers them), those in the list of an output thread that has ended, and those in the list
  of a convert thread that has ended; so nothing is left when both threads still run and no flush is under way. Each request
  that was in the pipeline has been answered, or was dropped on the way, or is among those left. And the output
  thread ends in such a run exactly when it sends a device error.\<close>

theorem workers_drain:
  assumes "initial s0" "steps cfg s0 s" "(worker cfg)\<^sup>*\<^sup>* s s'" "\<And>s2. \<not> worker cfg s' s2"
  shows "wfp (\<lambda>x y. worker cfg y x) \<and>
    in_flight s' = flushing s @ (if output_running s' then [] else outputList s') @ (if convert_running s then [] else convertList s') \<and>
    (\<forall>r \<in> set (in_flight s). frameNumber r \<in> set (answered s') \<or> frameNumber r \<in> frameNumber ` set (lost s') \<or>
       frameNumber r \<in> frameNumber ` set (in_flight s')) \<and>
    (\<exists>ms. sent s' = sent s @ ms \<and> (output_running s' \<longleftrightarrow> output_running s \<and> \<not> device_error ms))"
proof -
  have inv: "pinv cfg [] s" using steps_pinv [OF assms(2) initial_pinv [OF assms(1)]] .
  have run: "set (frames_used s') = set (frames_used s) \<and> flushing s' = flushing s \<and> convert_running s' = convert_running s \<and> pinv cfg [] s'"
    using assms(3)
  proof (induction rule: rtranclp_induct)
    case (step y z)
    then show ?case using worker_frames worker_keeps worker_pinv by metis
  qed (use inv in simp)
  have "in_flight s' = flushing s @ (if output_running s' then [] else outputList s') @ (if convert_running s then [] else convertList s')"
    using stuck_rest [OF assms(4)] run by simp
  moreover have "frameNumber r \<in> set (answered s') \<or> frameNumber r \<in> frameNumber ` set (lost s') \<or>
      frameNumber r \<in> frameNumber ` set (in_flight s')" if "r \<in> set (in_flight s)" for r
  proof -
    have "frameNumber r \<in> set (frames_used s')" using run that by (auto simp: frames_used_def)
    then show ?thesis by (auto simp: frames_used_def)
  qed
  moreover have "wfp (\<lambda>x y. worker cfg y x)"
    by (rule wfp_if_convertible_to_nat [of _ weight]) (rule worker_weight)
  ultimately show ?thesis using workers_running [OF assms(3)] by blast
qed

section \<open>Closing\<close>

text \<open>Once the output thread is stopped by a close nothing is sent any more.\<close>

definition shut :: "session \<Rightarrow> bool" where
  "shut s \<longleftrightarrow> closing s \<and> \<not> output_running s \<and> flushing s = [] \<and> processing s = None"

lemma step_shut:
  assumes "step cfg s s'" "shut s"
  shows "shut s' \<and> answered s' = answered s \<and> sent s' = sent s"
  using assms(1)
proof cases
  case (request q e st)
  then have "mClosed s" using assms(2) by (auto simp: idle_interface_def shut_def)
  then have "s' = s" using request(3) by (auto simp: processOneCaptureRequest_def initStatus_def)
  then show ?thesis using assms(2) by simp
next
  case (configure d nm ss blob st out)
  then have "mClosed s" using assms(2) by (auto simp: idle_interface_def shut_def)
  then have "s' = s" using configure(2) by (auto simp: configureStreams_def initStatus_def Let_def split: if_splits)
  then show ?thesis using assms(2) by simp
next
  case work
  then show ?thesis using assms(2)
  proof cases
    case (w_finish r qbuf deliver pre share e)
    then show ?thesis using assms(2) by (simp add: shut_def)
  qed (auto simp: shut_def state_defs convert_take_def convert_done_def output_take_def split: list.splits option.splits if_splits)
next
  case flush
  then show ?thesis using assms(2) by (auto simp: idle_interface_def shut_def initStatus_def split: if_splits)
next
  case (answer qbuf deliver)
  then show ?thesis using assms(2) by (simp add: shut_def flush_answer_def)
next
  case (close_end d)
  obtain r v where "v4l2StreamOffLocked d (subDevice cfg) (hv s) = (r, v)" by fastforce
  then show ?thesis using assms(2) close_end(5) by (auto simp: close_end_def bind_eq_Some_conv shut_def state_defs)
qed (use assms(2) in \<open>auto simp: shut_def state_defs idle_interface_def\<close>)

lemma steps_shut:
  assumes "steps cfg s s'" "shut s"
  shows "shut s' \<and> answered s' = answered s \<and> sent s' = sent s"
  using assms(1) unfolding steps_def
  by (induction rule: rtranclp_induct) (use assms(2) step_shut in \<open>simp, metis\<close>)

text \<open>A flaw of the code. \<open>close\<close> flushes only the list of the output thread. A request that is still with the convert
  thread when the output thread has been stopped is never answered, whatever happens afterwards; its callback,
  its buffers and its fences are not returned to the framework.\<close>

theorem close_strands_requests:
  assumes "initial s0" "steps cfg s0 s" and shut: "closing s" "\<not> output_running s" "flushing s = []" "processing s = None"
    and r: "r \<in> set (convertList s) \<or> converting s = Some r \<or> r \<in> set (outputList s)" and later: "steps cfg s s'"
  shows "frameNumber r \<notin> set (answered s') \<and> sent s' = sent s"
proof -
  have s: "shut s" using shut by (simp add: shut_def)
  have "pinv cfg [] s" using steps_pinv [OF assms(2) initial_pinv [OF assms(1)]] .
  then have "distinct (answered s @ map frameNumber (in_flight s @ lost s))"
    using once_append [of "answered s" frameNumber "in_flight s @ lost s"] by (simp add: pinv_def ac_simps)
  moreover have "r \<in> set (in_flight s)" using r by (auto simp: in_flight_def)
  ultimately have "frameNumber r \<notin> set (answered s)" by auto
  then show ?thesis using steps_shut [OF later s] by simp
qed

section \<open>A stream that was never configured\<close>

text \<open>A flaw of the code. The stream ids of a request are not checked. A request for an id that was never configured is
  accepted, and whatever the conversions do the output thread meets an unknown output format: it
  reports a device error and ends, so the session never answers anything again except by a flush.\<close>

theorem unknown_stream_stops_output:
  assumes run: "processOneCaptureRequest cfg e q s = (OK, s')"
    and q: "cr_outputs q = [((sid, bid, h), Some (- 1))]" and unknown: "map_of (mStreamMap s) sid = None"
  shows "\<exists>r. convertList s' = convertList s @ [r] \<and> frameNumber r = cr_frameNumber q \<and>
    (\<forall>pre share env. process_request pre share env r = DeviceFail) \<and>
    (\<forall>t qbuf deliver. processing t = Some r \<longrightarrow>
      (\<exists>t'. output_finish cfg qbuf deliver DeviceFail t = Some t' \<and> \<not> output_running t' \<and> r \<in> set (lost t')))"
proof -
  define s0 where "s0 = (case cr_settings q of Settings r \<Rightarrow> s\<lparr>fps_setting := r\<rparr> | _ \<Rightarrow> s)"
  have s0: "mStreamMap s0 = mStreamMap s" "convertList s0 = convertList s" by (simp_all add: s0_def split: settings.split)
  have guards: "initStatus s = OK" "cr_input q = - 1" "mV4l2Streaming (hv s)" "cr_settings q \<noteq> Corrupt"
    "\<not> (mFirstRequest s0 \<and> cr_settings q = NoSettings)" "cr_outputs q \<noteq> []"
    using run q unfolding processOneCaptureRequest_def s0_def [symmetric] Let_def by (auto split: if_splits)
  obtain s1 where s1: "change_fps cfg (r_driver e) s0 = Some s1"
    using run guards unfolding processOneCaptureRequest_def s0_def [symmetric] Let_def by (auto split: option.splits)
  have m1: "mStreamMap s1 = mStreamMap s" "convertList s1 = convertList s"
    using change_fps_cases [OF s1] s0 by (auto simp: reconfigured_def)
  obtain st2 ps fds cl c2 where imp: "importRequestLockedImpl (r_import e) (\<lambda>f. f) False (cr_outputs q) (hcache s1) = (st2, ps, fds, cl, c2)"
    using prod_cases5 by blast
  have st2: "st2 = OK"
    using run guards s1 imp unfolding processOneCaptureRequest_def s0_def [symmetric] Let_def by (auto split: if_splits)
  have slot: "ps = [Slot sid bid]" "fds = [- 1]"
    using imp st2 unfolding q importRequestLockedImpl_def
    by (auto simp: importBufferImpl_def Let_def split: if_splits option.splits prod.splits status.splits)
  obtain i t s3 where dq: "dequeueV4l2FrameLocked cfg (r_dq e) (s1\<lparr>hcache := c2\<rparr>) = (Some (i, t), s3)"
    using run guards s1 imp st2 unfolding processOneCaptureRequest_def s0_def [symmetric] Let_def by (auto split: prod.splits option.splits)
  have m3: "mStreamMap s3 = mStreamMap s" "convertList s3 = convertList s"
    using dq m1 by (auto simp: dequeueV4l2FrameLocked_def dequeue_main_def take_buffer_def give_buffer_def count_dequeued_def Let_def
        split: if_splits option.splits)
  define b where "b = \<lparr>hb_streamId = sid, hb_bufferId = bid, hb_width = 0, hb_height = 0, hb_format = OtherFormat 0, bufPtr = Slot sid bid,
    acquireFence = - 1, fenceTimeout = False\<rparr>"
  have hb: "hal_buffers (zip (cr_outputs q) (zip ps fds)) (mStreamMap s3) = ([b], (sid, no_stream) # mStreamMap s)"
    using unknown by (simp add: q slot m3 b_def no_stream_def Let_def)
  define r where "r = \<lparr>frameNumber = cr_frameNumber q, mBufferIndex = i, mFourcc = fourcc (mV4l2StreamingFmt (hv s3)),
    shutterTs = t, buffers = [b]\<rparr>"
  have "convertList s' = convertList s @ [r]"
    using run guards s1 imp st2 dq hb m3 unfolding processOneCaptureRequest_def s0_def [symmetric] Let_def by (auto simp: r_def)
  moreover have "process_request pre share env r = DeviceFail" for pre share env
    by (simp add: process_request_def r_def fill_buffer_def b_def wait_fence_def)
  moreover have "\<exists>t'. output_finish cfg qbuf deliver DeviceFail t = Some t' \<and> \<not> output_running t' \<and> r \<in> set (lost t')"
    if "processing t = Some r" for t qbuf deliver
    using that by (simp add: output_finish_def Let_def)
  ultimately show ?thesis by (intro exI [of _ r]) (simp add: r_def)
qed

section \<open>The order of the messages\<close>

text \<open>Each result comes after the shutter notification of its frame; \<open>A\<close> are the frames notified so far.\<close>

fun announced :: "u32 set \<Rightarrow> message list \<Rightarrow> bool" where
  "announced A [] = True"
| "announced A (Shutter n t # ms) = announced (insert n A) ms"
| "announced A (ErrorMsg n i c # ms) = announced A ms"
| "announced A (Result n bs # ms) = (n \<in> A \<and> announced A ms)"

definition notified :: "message list \<Rightarrow> u32 set" where
  "notified ms = {n. \<exists>t. Shutter n t \<in> set ms}"

lemma announced_append: "announced A (xs @ ys) \<longleftrightarrow> announced A xs \<and> announced (A \<union> notified xs) ys"
proof (induction A xs rule: announced.induct)
  case (2 A n t ms)
  moreover have "A \<union> notified (Shutter n t # ms) = insert n A \<union> notified ms" by (auto simp: notified_def)
  ultimately show ?case by simp
next
  case (3 A n i c ms)
  moreover have "notified (ErrorMsg n i c # ms) = notified ms" by (auto simp: notified_def)
  ultimately show ?case by simp
next
  case (4 A n bs ms)
  moreover have "notified (Result n bs # ms) = notified ms" by (auto simp: notified_def)
  ultimately show ?case by simp
qed (simp add: notified_def)

lemma announced_errors: "announced A (map (\<lambda>x. ErrorMsg n (f x) c) xs)"
  by (induction xs) auto

lemma announced_answers:
  assumes "announced {} (sent s)"
  shows "announced {} (sent (processCaptureRequestError cfg q d r s))" "announced {} (sent (processCaptureResult cfg q d r s))"
proof -
  have "frameNumber r \<in> notified (sent s @ Shutter (frameNumber r) (shutterTs r) # es)" for es
    by (auto simp: notified_def)
  then show "announced {} (sent (processCaptureRequestError cfg q d r s))" "announced {} (sent (processCaptureResult cfg q d r s))"
    using assms
    by (simp_all add: processCaptureResult_def processCaptureRequestError_def Let_def send_def invokeProcessCaptureResultCallback_def
        erase_inflight_def enqueueV4l2Frame_def give_buffer_def count_dequeued_def announced_append announced_errors)
qed

lemma step_announced:
  assumes "step cfg s s'" "pinv cfg [] s" "announced {} (sent s)"
  shows "announced {} (sent s')"
  using assms(1)
proof cases
  case (request q e st)
  then show ?thesis using request_pinv(4) [OF request(3) assms(2) request(2,4)] assms(3) by simp
next
  case (configure d nm ss blob st out)
  show ?thesis using configure_pinv(4) [OF configure(2) assms(2)] assms(3) by simp
next
  case work
  then show ?thesis
  proof cases
    case (w_finish r qbuf deliver pre share e)
    have "sent (signalRequestDone t) = sent t" "sent (clear_scaled t) = sent t" for t
      by (simp_all add: signalRequestDone_def clear_scaled_def)
    then show ?thesis using w_finish assms(3) announced_answers
      by (auto simp: output_finish_def Let_def send_def announced_append split: fill_outcome.splits)
  qed (use assms(3) in \<open>auto simp: convert_take_def convert_done_def output_take_def split: list.splits option.splits if_splits\<close>)
next
  case (answer qbuf deliver)
  then show ?thesis using assms(3) announced_answers by (auto simp: flush_answer_def split: list.splits)
next
  case (close_end d)
  then show ?thesis using close_end_pinv(5) [OF close_end(5) assms(2)] assms(3) by simp
qed (use assms(3) in \<open>auto simp: flush_take_def close_begin_def\<close>)

text \<open>C27: A result never comes before its shutter notification. In all runs, in the order in which the callbacks are
  made, each capture result is preceded by the shutter notification of the same frame, for completed and for
  failed requests alike.\<close>

theorem shutter_before_result:
  assumes "initial s" "steps cfg s s'"
  shows "announced {} (sent s')"
proof -
  have "pinv cfg [] s' \<and> announced {} (sent s')"
    using assms(2) unfolding steps_def
  proof (induction rule: rtranclp_induct)
    case base
    then show ?case using initial_pinv [OF assms(1)] assms(1) by (simp add: initial_def)
  next
    case (step y z)
    then show ?case using step_pinv step_announced by blast
  qed
  then show ?thesis by blast
qed

section \<open>An example run\<close>

definition configured :: session where
  "configured = new_session\<lparr>mFirstRequest := True,
     hv := \<lparr>mV4l2Streaming = True, mV4l2StreamingFmt = example_fmt 1280 800, mV4l2StreamingFps = 15, mV4L2BufferCount = 1,
       mMaxV4L2BufferSize = 0, mNumDequeuedV4l2Buffers = 0\<rparr>,
     hcache := \<lparr>mCirculatingBuffers = [(0, []), (1, [])], imported = [], freed = []\<rparr>,
     mStreamMap := [(1, example_stream 1 1280 800), (0, example_stream 0 640 400)],
     hob := \<lparr>mYu12Frame = Some \<lparr>af_width = 1280, af_height = 800, af_size = 1536000\<rparr>,
       mYu12ThumbFrame = Some \<lparr>af_width = 320, af_height = 240, af_size = 115200\<rparr>,
       ob_pool = \<lparr>mScaledYu12Frames = [],
         mIntermediateBuffers = [((640, 400), \<lparr>af_width = 640, af_height = 400, af_size = 384000\<rparr>)]\<rparr>,
       ob_mBlobBufferSize = 0\<rparr>\<rparr>"

definition example_request :: "int \<Rightarrow> CaptureRequest" where
  "example_request sid = \<lparr>cr_frameNumber = 1, cr_settings = Settings [], cr_input = - 1, cr_outputs = [((sid, 11, Some 7), Some (- 1))]\<rparr>"

definition example_env :: req_env where
  "example_env = \<lparr>r_dq = \<lparr>e_wait = True, e_first = None, e_requeue = True, e_second = None, e_now = 5\<rparr>,
     r_driver = example_driver, r_import = Some\<rparr>"

definition example_hal :: "int \<Rightarrow> Stream \<Rightarrow> HalRequest" where
  "example_hal sid st = \<lparr>frameNumber = 1, mBufferIndex = 0, mFourcc = PIX_SRGGB10, shutterTs = 5,
     buffers = [\<lparr>hb_streamId = sid, hb_bufferId = 11, hb_width = st_width st, hb_height = st_height st, hb_format = st_format st,
       bufPtr = Slot sid 11, acquireFence = - 1, fenceTimeout = False\<rparr>]\<rparr>"

definition accepted :: "int \<Rightarrow> Stream \<Rightarrow> (int \<times> Stream) list \<Rightarrow> (stream_id \<times> CirculatingBuffers) list \<Rightarrow> session" where
  "accepted sid st m c = configured\<lparr>mFirstRequest := False, hv := (hv configured)\<lparr>mNumDequeuedV4l2Buffers := 1\<rparr>,
     hcache := \<lparr>mCirculatingBuffers = c, imported = [7], freed = []\<rparr>, mStreamMap := m, mInflightFrames := {1},
     convertList := [example_hal sid st]\<rparr>"

lemma configured_step: "step example_cfg new_session configured"
proof (rule configure)
  show "configureStreams example_cfg example_driver True [example_stream 0 640 400, example_stream 1 1280 800] 0 new_session =
      Some (OK, [(0, YCBCR_420_888, 0, 1), (1, YCBCR_420_888, 0, 1)], configured)"
    using example_selected
    by (simp add: configureStreams_def isStreamCombinationSupported_def isSupported_def kMaxProcessedStream_def kMaxStallStream_def
      initStatus_def new_session_def add_streams_def add_stream_def set_cbs_def configureV4l2StreamLocked_def v4l2StreamOffLocked_def
      getMaxThumbnailResolution_def allocateIntermediateBuffers_def renew_frame_def new_frame_def allocate_def example_cfg_def
      example_fmt_def example_stream_def queue_after_def Let_def known_format_def set_usage_def frame_bytes_def configured_def)
qed (simp add: idle_interface_def new_session_def)

lemmas request_defs = processOneCaptureRequest_def change_fps_def importRequestLockedImpl_def importBufferImpl_def set_cbs_def cbs_of_def
  dequeueV4l2FrameLocked_def count_dequeued_def initStatus_def example_request_def example_env_def example_cfg_def accepted_def
  example_hal_def configured_def new_session_def example_fmt_def Let_def

lemma known_request:
  "processOneCaptureRequest example_cfg example_env (example_request 0) configured =
    (OK, accepted 0 (example_stream 0 640 400) (mStreamMap configured) [(0, [(11, 7)]), (1, [])])"
  by (simp add: request_defs example_stream_def)

lemma unknown_request:
  "processOneCaptureRequest example_cfg example_env (example_request 9) configured =
    (OK, accepted 9 no_stream ((9, no_stream) # mStreamMap configured) [(0, []), (1, []), (9, [(11, 7)])])"
  by (simp add: request_defs example_stream_def no_stream_def)

lemma request_step:
  assumes "processOneCaptureRequest example_cfg example_env (example_request sid) configured = (OK, s')"
  shows "step example_cfg configured s'"
  using assms
  by (intro request) (auto simp: idle_interface_def configured_def new_session_def frames_used_def answered_def in_flight_def
    example_request_def honest_def example_env_def)

lemma new_session_initial: "initial new_session"
  by (simp add: initial_def in_flight_def new_session_def)

definition at_output :: "int \<Rightarrow> Stream \<Rightarrow> (int \<times> Stream) list \<Rightarrow> (stream_id \<times> CirculatingBuffers) list \<Rightarrow> session" where
  "at_output sid st m c = (accepted sid st m c)\<lparr>convertList := [], processing := Some (example_hal sid st), mProcessingRequest := True\<rparr>"

lemma accepted_steps:
  assumes "processOneCaptureRequest example_cfg example_env (example_request sid) configured = (OK, accepted sid st m c)"
  shows "steps example_cfg new_session (accepted sid st m c)"
    "(worker example_cfg)\<^sup>*\<^sup>* (accepted sid st m c) (at_output sid st m c)"
proof -
  show "steps example_cfg new_session (accepted sid st m c)"
    unfolding steps_def using configured_step request_step [OF assms]
    by (rule rtranclp.rtrancl_into_rtrancl [OF r_into_rtranclp])
  let ?a = "accepted sid st m c"
  let ?b = "?a\<lparr>convertList := [], converting := Some (example_hal sid st)\<rparr>"
  let ?c = "?a\<lparr>convertList := [], outputList := [example_hal sid st]\<rparr>"
  have "worker example_cfg ?a ?b"
    by (rule w_take) (simp add: convert_take_def accepted_def configured_def new_session_def)
  moreover have "worker example_cfg ?b ?c"
    by (rule w_convert) (simp add: convert_done_def accepted_def configured_def new_session_def supported_fourcc_def example_hal_def)
  moreover have "worker example_cfg ?c (at_output sid st m c)"
    by (rule w_output) (simp add: output_take_def at_output_def accepted_def configured_def new_session_def)
  ultimately show "(worker example_cfg)\<^sup>*\<^sup>* ?a (at_output sid st m c)"
    by (rule converse_rtranclp_into_rtranclp [OF _ converse_rtranclp_into_rtranclp [OF _ r_into_rtranclp]])
qed

lemma worker_steps: "(worker cfg)\<^sup>*\<^sup>* s s' \<Longrightarrow> steps cfg s s'"
  unfolding steps_def by (induction rule: rtranclp_induct) (auto intro: work rtranclp.rtrancl_into_rtrancl)

lemma pix_distinct: "PIX_SRGGB10 \<noteq> PIX_YUYV" "PIX_SRGGB10 \<noteq> PIX_NV12"
  by code_simp+

abbreviation known_run :: "session \<Rightarrow> bool" where
  "known_run s \<equiv> s = accepted 0 (example_stream 0 640 400) (mStreamMap configured) [(0, [(11, 7)]), (1, [])]"

lemma known_run_steps: "known_run s \<Longrightarrow> steps example_cfg new_session s"
  using accepted_steps(1) [OF known_request] by simp

definition answered_run :: session where
  "answered_run = the (output_finish example_cfg True True (Completed (buffers (example_hal 0 (example_stream 0 640 400))))
     (at_output 0 (example_stream 0 640 400) (mStreamMap configured) [(0, [(11, 7)]), (1, [])]))"

lemma answered_run_fields:
  "convertList answered_run = []" "converting answered_run = None" "outputList answered_run = []" "processing answered_run = None"
  "output_running answered_run" "flushing answered_run = []" "sent answered_run = [Shutter 1 5, Result 1 [(0, 11, True, - 1)]]"
  "lost answered_run = []" "undelivered answered_run = []"
  by (simp_all add: answered_run_def output_finish_def at_output_def accepted_def configured_def new_session_def example_hal_def
      processCaptureResult_def invokeProcessCaptureResultCallback_def erase_inflight_def send_def enqueueV4l2Frame_def
      count_dequeued_def example_cfg_def clear_scaled_def signalRequestDone_def release_fence_def Let_def)

lemma answered_run_worker:
  "(worker example_cfg)\<^sup>*\<^sup>* (accepted 0 (example_stream 0 640 400) (mStreamMap configured) [(0, [(11, 7)]), (1, [])]) answered_run"
proof -
  let ?o = "at_output 0 (example_stream 0 640 400) (mStreamMap configured) [(0, [(11, 7)]), (1, [])]"
  have p: "processing ?o = Some (example_hal 0 (example_stream 0 640 400))" by (simp add: at_output_def)
  have "process_request True True (\<lambda>_. \<lparr>b_sync = True, b_jpeg = True, b_convert = True, b_rel_fence = - 1, b_share_fd = 3\<rparr>)
      (example_hal 0 (example_stream 0 640 400)) = Completed (buffers (example_hal 0 (example_stream 0 640 400)))"
    using pix_distinct by (simp add: process_request_def supported_fourcc_def example_hal_def fill_buffer_def fill_ycbcr_def wait_fence_def example_stream_def)
  moreover obtain s' where "output_finish example_cfg True True (Completed (buffers (example_hal 0 (example_stream 0 640 400)))) ?o = Some s'"
    using p by (auto simp: output_finish_def Let_def)
  ultimately have "worker example_cfg ?o s'" "answered_run = s'"
    using w_finish [OF p, of example_cfg True True True True "\<lambda>_. \<lparr>b_sync = True, b_jpeg = True, b_convert = True, b_rel_fence = - 1, b_share_fd = 3\<rparr>" s']
    by (simp_all add: answered_run_def)
  then have "worker example_cfg ?o answered_run" by simp
  then show ?thesis by (rule rtranclp.rtrancl_into_rtrancl [OF accepted_steps(2) [OF known_request]])
qed

lemma answered_run_stuck: "\<not> worker example_cfg answered_run s"
  by (auto elim!: worker.cases simp: convert_take_def convert_done_def output_take_def answered_run_fields)

theorem requests_accounted_witness:
  "\<exists>s. steps example_cfg new_session s \<and> mInflightFrames s = {1} \<and> distinct (frames_used s) \<and>
    mInflightFrames s = frameNumber ` set (in_flight s @ lost s) \<and>
    mNumDequeuedV4l2Buffers (hv s) = length (in_flight s) + length (lost s) + length (unreturned s)"
proof -
  define s where "s = accepted 0 (example_stream 0 640 400) (mStreamMap configured) [(0, [(11, 7)]), (1, [])]"
  have "steps example_cfg new_session s" using known_run_steps s_def by simp
  then show ?thesis using requests_accounted [OF new_session_initial, of example_cfg s]
    by (intro exI [of _ s] conjI) (simp_all add: s_def accepted_def)
qed

theorem shutter_before_result_witness:
  "\<exists>s. steps example_cfg new_session s \<and> sent s = [Shutter 1 5, Result 1 [(0, 11, True, - 1)]] \<and> announced {} (sent s)"
proof -
  have "steps example_cfg new_session answered_run"
    using known_run_steps [OF refl] worker_steps [OF answered_run_worker] unfolding steps_def by (rule rtranclp_trans)
  then show ?thesis using shutter_before_result [OF new_session_initial] answered_run_fields by blast
qed

theorem workers_drain_witness:
  "\<exists>s. steps example_cfg new_session s \<and> in_flight s \<noteq> [] \<and> in_flight answered_run = [] \<and>
    (\<forall>r \<in> set (in_flight s). frameNumber r \<in> set (answered answered_run) \<or> frameNumber r \<in> frameNumber ` set (lost answered_run)) \<and>
    (\<exists>ms. sent answered_run = sent s @ ms \<and> \<not> device_error ms)"
proof -
  define s where "s = accepted 0 (example_stream 0 640 400) (mStreamMap configured) [(0, [(11, 7)]), (1, [])]"
  have "steps example_cfg new_session s" using known_run_steps s_def by simp
  moreover have "convert_running s" "flushing s = []" "in_flight s \<noteq> []"
    by (simp_all add: s_def accepted_def configured_def new_session_def in_flight_def)
  ultimately show ?thesis
    using workers_drain [OF new_session_initial _ answered_run_worker answered_run_stuck] answered_run_fields(5)
    by (intro exI [of _ s]) (auto simp: s_def)
qed

theorem unknown_stream_stops_output_witness:
  "\<exists>s' r. processOneCaptureRequest example_cfg example_env (example_request 9) configured = (OK, s') \<and>
    convertList s' = convertList configured @ [r] \<and> (\<forall>pre share env. process_request pre share env r = DeviceFail)"
proof -
  have "cr_outputs (example_request 9) = [((9, 11, Some 7), Some (- 1))]" by (simp add: example_request_def)
  moreover have "map_of (mStreamMap configured) 9 = None" by (simp add: configured_def)
  ultimately show ?thesis using unknown_stream_stops_output [OF unknown_request] unknown_request by blast
qed

definition dropped_run :: session where
  "dropped_run = the (output_finish example_cfg True True DeviceFail
     (at_output 9 no_stream ((9, no_stream) # mStreamMap configured) [(0, []), (1, []), (9, [(11, 7)])]))"

lemma dropped_run_steps: "steps example_cfg new_session dropped_run" "example_hal 9 no_stream \<in> set (lost dropped_run)"
proof -
  let ?o = "at_output 9 no_stream ((9, no_stream) # mStreamMap configured) [(0, []), (1, []), (9, [(11, 7)])]"
  have p: "processing ?o = Some (example_hal 9 no_stream)" by (simp add: at_output_def)
  have "process_request True True (\<lambda>_. undefined) (example_hal 9 no_stream) = DeviceFail"
    by (simp add: process_request_def supported_fourcc_def example_hal_def fill_buffer_def wait_fence_def no_stream_def)
  moreover obtain s' where s': "output_finish example_cfg True True DeviceFail ?o = Some s'"
    using p by (auto simp: output_finish_def Let_def)
  ultimately have "worker example_cfg ?o s'" "dropped_run = s'"
    using w_finish [OF p, of example_cfg True True True True "\<lambda>_. undefined" s'] by (simp_all add: dropped_run_def)
  then have "worker example_cfg ?o dropped_run" by simp
  then have "(worker example_cfg)\<^sup>*\<^sup>* (accepted 9 no_stream ((9, no_stream) # mStreamMap configured) [(0, []), (1, []), (9, [(11, 7)])]) dropped_run"
    by (rule rtranclp.rtrancl_into_rtrancl [OF accepted_steps(2) [OF unknown_request]])
  then show "steps example_cfg new_session dropped_run"
    using accepted_steps(1) [OF unknown_request] worker_steps unfolding steps_def by (blast intro: rtranclp_trans)
  show "example_hal 9 no_stream \<in> set (lost dropped_run)"
    using p by (simp add: dropped_run_def output_finish_def Let_def)
qed

theorem dropped_request_blocks_configuration_witness:
  "configureStreams example_cfg example_driver True [example_stream 0 640 400] 0 dropped_run = Some (INTERNAL_ERROR, [], dropped_run)"
proof (rule dropped_request_blocks_configuration [OF new_session_initial dropped_run_steps])
  show "steps example_cfg dropped_run dropped_run" by (simp add: steps_def)
  show "isStreamCombinationSupported (depthEnabled example_cfg) (mSupportedFormats example_cfg) True [example_stream 0 640 400] = OK"
    by (simp add: isStreamCombinationSupported_def isSupported_def example_cfg_def example_stream_def example_fmt_def
      kMaxProcessedStream_def kMaxStallStream_def)
qed

theorem close_strands_requests_witness:
  "\<exists>s r. steps example_cfg new_session s \<and> closing s \<and> r \<in> set (convertList s) \<and> frameNumber r \<notin> set (answered s)"
proof -
  define a where "a = accepted 0 (example_stream 0 640 400) (mStreamMap configured) [(0, [(11, 7)]), (1, [])]"
  define s where "s = (close_begin a)\<lparr>output_running := False\<rparr>"
  have f: "flushing a = []" "outputList a = []" "processing a = None" "\<not> closing a" "\<not> mClosed a"
    "convertList a = [example_hal 0 (example_stream 0 640 400)]"
    by (simp_all add: a_def accepted_def configured_def new_session_def)
  have "step example_cfg a (close_begin a)" using f by (intro close) (simp_all add: idle_interface_def)
  moreover have "step example_cfg (close_begin a) s"
    unfolding s_def using f by (intro stop_output) (simp_all add: close_begin_def flush_take_def)
  ultimately have "steps example_cfg new_session s"
    using known_run_steps [of a] unfolding steps_def a_def by (meson rtranclp.rtrancl_into_rtrancl)
  moreover have "closing s" "\<not> output_running s" "flushing s = []" "processing s = None"
    "example_hal 0 (example_stream 0 640 400) \<in> set (convertList s)"
    using f by (simp_all add: s_def close_begin_def flush_take_def)
  moreover have "steps example_cfg s s" by (simp add: steps_def)
  ultimately show ?thesis using close_strands_requests [OF new_session_initial] by blast
qed

lemma retry_True: "retry (\<lambda>_. True)"
  by (simp add: retry_def retry_loop.simps)

theorem buffers_exclusive_witness:
  "\<exists>s. steps (example_cfg\<lparr>subDevice := False\<rparr>) new_session s \<and> length (driver_queue s) = 4 \<and>
    distinct (driver_queue s @ map mBufferIndex (in_flight s @ lost s @ unreturned s))"
proof -
  let ?cfg = "example_cfg\<lparr>subDevice := False\<rparr>"
  obtain out s where run: "configureStreams ?cfg example_driver True [example_stream 0 640 400, example_stream 1 1280 800] 0 new_session =
      Some (OK, out, s)" and q: "driver_queue s = [0..<4]"
    using example_selected
    by (simp add: configureStreams_def isStreamCombinationSupported_def isSupported_def kMaxProcessedStream_def kMaxStallStream_def
      initStatus_def new_session_def add_streams_def add_stream_def set_cbs_def configureV4l2StreamLocked_def v4l2StreamOffLocked_def
      configure_capture_def example_driver_def pick_fps_def retry_True
      getMaxThumbnailResolution_def allocateIntermediateBuffers_def renew_frame_def new_frame_def allocate_def example_cfg_def
      example_fmt_def example_stream_def queue_after_def Let_def known_format_def)
  have "steps ?cfg new_session s"
    unfolding steps_def by (intro r_into_rtranclp configure [OF _ run]) (simp add: idle_interface_def new_session_def)
  then show ?thesis using buffers_exclusive [OF new_session_initial, of ?cfg s] q by (intro exI [of _ s]) simp
qed

end
