(* ===== verification/Jpeg_Output.thy ===== *)
theory Jpeg_Output
  imports Stream_Config
begin

text \<open>
  JPEG output of the camera HAL (\<open>camera_vir/device/VirtualCameraDeviceSession.cpp\<close>):
  \<open>cropAndScaleThumbLocked\<close>, which chooses in single precision the part of the picture the thumbnail
  shows, \<open>getMaxJpegResolution\<close> and \<open>getJpegBufferSize\<close>, the estimate of the code size, and
  \<open>createJpegLocked\<close>, which puts thumbnail, header, picture and trailer together. The codec, the EXIF
  library and the buffer lock are known by their results.
\<close>

section \<open>Single precision\<close>

fun f32_mult :: "f32 \<Rightarrow> f32 \<Rightarrow> f32" where
  "f32_mult (Fin a) (Fin b) = Fin (f32_round (a * b))"
| "f32_mult PInf (Fin b) = (if 0 < b then PInf else NaN)"
| "f32_mult (Fin a) PInf = (if 0 < a then PInf else NaN)"
| "f32_mult PInf PInf = PInf"
| "f32_mult _ _ = NaN"

fun f32_add :: "f32 \<Rightarrow> f32 \<Rightarrow> f32" where
  "f32_add (Fin a) (Fin b) = Fin (f32_round (a + b))"
| "f32_add PInf (Fin b) = PInf"
| "f32_add (Fin a) PInf = PInf"
| "f32_add PInf PInf = PInf"
| "f32_add _ _ = NaN"

text \<open>\<open>std::min\<close> returns its first argument unless the second is smaller.\<close>

definition f32_min :: "f32 \<Rightarrow> f32 \<Rightarrow> f32" where
  "f32_min a b = (if f32_less b a then b else a)"

fun f32_half :: "f32 \<Rightarrow> f32" where
  "f32_half (Fin a) = f32_div a 2"
| "f32_half x = x"

text \<open>The conversion to an integer drops the fraction and is undefined when the result does not fit.\<close>

fun f32_trunc :: "f32 \<Rightarrow> int \<Rightarrow> int \<Rightarrow> int option" where
  "f32_trunc (Fin a) lo hi = (let n = (if 0 \<le> a then \<lfloor>a\<rfloor> else - \<lfloor>- a\<rfloor>) in if lo \<le> n \<and> n < hi then Some n else None)"
| "f32_trunc _ _ _ = None"

section \<open>The thumbnail\<close>

text \<open>What is handed to libyuv: the crop, the layouts of the source and of the thumbnail frame, and the size.\<close>

record thumb_call =
  tc_crop :: Rect
  tc_in :: YCbCrLayout
  tc_out :: YCbCrLayout
  tc_size :: Size

definition thumb_half :: "rat \<Rightarrow> rat \<Rightarrow> rat \<Rightarrow> rat \<Rightarrow> (u32 \<times> u32) option" where
  "thumb_half fWin fHin fWout fHout =
     (let scaleFactor = f32_min (f32_div fHin fHout) (f32_div fWin fWout);
          fWcrop = f32_mult scaleFactor (Fin fWout);
          fHcrop = f32_mult scaleFactor (Fin fHout)
      in do {
        w \<leftarrow> f32_trunc (f32_half fWcrop) 0 (2 ^ 32);
        h \<leftarrow> f32_trunc (f32_half fHcrop) 0 (2 ^ 32);
        Some (word_of_int w, word_of_int h) })"

text \<open>Unsigned arithmetic wraps; the sums of the last test are on \<open>int\<close>.\<close>

definition thumb_crop :: "Size \<Rightarrow> Size \<Rightarrow> Rect option option" where
  "thumb_crop inSz outSz = do {
     (cw, ch) \<leftarrow> thumb_half (f32_of_u32 (fst inSz)) (f32_of_u32 (snd inSz)) (f32_of_u32 (fst outSz)) (f32_of_u32 (snd outSz));
     let cropW = 2 * cw;
     let cropH = 2 * ch;
     let r = \<lparr>left = 2 * to_int ((fst inSz - cropW) div 4), top = 2 * to_int ((snd inSz - cropH) div 4),
         rwidth = to_int cropW, rheight = to_int cropH\<rparr>;
     let inW = to_int (fst inSz);
     let inH = to_int (snd inSz);
     if top r < 0 \<or> inH \<le> top r \<or> left r < 0 \<or> inW \<le> left r \<or> rwidth r \<le> 0 then Some None
     else do {
       right \<leftarrow> c_int (rwidth r + left r);
       if inW < right \<or> rheight r \<le> 0 then Some None
       else do {
         bottom \<leftarrow> c_int (rheight r + top r);
         Some (if inH < bottom then None else Some r) } } }"

definition cropAndScaleThumbLocked ::
  "int \<Rightarrow> AllocatedFrame \<Rightarrow> AllocatedFrame \<Rightarrow> Size \<Rightarrow> (int \<times> thumb_call option) option" where
  "cropAndScaleThumbLocked scale_ret inp thumb outSz =
     (if af_width thumb * af_height thumb < fst outSz * snd outSz then Some (- 1, None)
      else do {
        crop \<leftarrow> thumb_crop (af_width inp, af_height inp) outSz;
        case crop of None \<Rightarrow> Some (- 1, None)
        | Some r \<Rightarrow> do {
            (ret, l) \<leftarrow> getCroppedLayout inp r;
            case l of None \<Rightarrow> Some (ret, None)
            | Some inl \<Rightarrow> do {
                (ret, l) \<leftarrow> getLayout thumb;
                case l of None \<Rightarrow> Some (ret, None)
                | Some out \<Rightarrow> Some (scale_ret, Some \<lparr>tc_crop = r, tc_in = inl, tc_out = out, tc_size = outSz\<rparr>) } } })"


section \<open>The size of the code\<close>

definition getMaxJpegResolution :: "SupportedV4L2Format list \<Rightarrow> Size" where
  "getMaxJpegResolution fmts =
     foldl (\<lambda>(w, h) f. if w * h < fmt_width f * fmt_height f then (fmt_width f, fmt_height f) else (w, h)) (0, 0) fmts"

definition BAD_VALUE :: int where "BAD_VALUE = - 22"

text \<open>\<open>sizeof(CameraBlob)\<close> is eight.\<close>

definition CameraBlob_size :: int where "CameraBlob_size = 8"
definition kMinJpegBufferSize :: int where "kMinJpegBufferSize = 256 * 1024 + CameraBlob_size"

text \<open>\<open>jpegBufMaxSize\<close> is the entry of the static metadata, if there is one.\<close>

definition getJpegBufferSize :: "Size \<Rightarrow> int option \<Rightarrow> Size \<Rightarrow> int option" where
  "getJpegBufferSize mMaxJpegResolution jpegBufMaxSize sz =
     (if fst mMaxJpegResolution = 0 then Some BAD_VALUE
      else case jpegBufMaxSize of None \<Rightarrow> Some BAD_VALUE
      | Some maxJpegBufferSize \<Rightarrow>
          if maxJpegBufferSize \<le> kMinJpegBufferSize then Some BAD_VALUE
          else do {
            let scaleFactor = f32_div (f32_of_u32 (fst sz * snd sz)) (f32_of_u32 (fst mMaxJpegResolution * snd mMaxJpegResolution));
            jpegBufferSize \<leftarrow> f32_trunc
              (f32_add (f32_mult scaleFactor (Fin (f32_round (of_int (maxJpegBufferSize - kMinJpegBufferSize)))))
                       (Fin (f32_round (of_int kMinJpegBufferSize)))) (- (2 ^ 63)) (2 ^ 63);
            Some (if maxJpegBufferSize < jpegBufferSize then maxJpegBufferSize else jpegBufferSize) })"

section \<open>Putting the picture together\<close>

text \<open>The settings of the request the picture depends on, and the answers of the libraries: scaling and encoding
  the thumbnail and the picture, the length of the thumbnail's and of the picture's code, the header, the lock and the
  fence of the unlock.\<close>

record jpeg_settings =
  jpeg_quality :: "nat option"
  thumb_quality :: "nat option"
  thumb_size :: "Size option"

record jpeg_env =
  je_scale_thumb :: int
  je_scale_main :: int
  je_thumb_code :: "int \<times> nat"
  je_app1 :: bool
  je_lock :: bool
  je_code :: "int \<times> nat"
  je_rel_fence :: int

text \<open>What is in the output buffer: its size, the length of the code and the offset and contents of the trailer.\<close>

record jpeg_out =
  jo_size :: int
  jo_code :: nat
  jo_blob_at :: int
  jo_blob_size :: u32

definition lfail :: "'a \<Rightarrow> (int \<times> 'a) option" where
  "lfail x = Some (1, x)"

text \<open>The trailer is stored in the last eight bytes of the buffer also when the picture could not be encoded;
  storing it before the buffer, which a buffer of fewer bytes leads to, is undefined. \<open>mJpegSize\<close> stands for
  \<open>getJpegBufferSize\<close>. The state is the buffer that was written, the fence and the pool.\<close>

definition createJpegLocked ::
  "CroppingType \<Rightarrow> (Size \<Rightarrow> int option) \<Rightarrow> jpeg_env \<Rightarrow> jpeg_settings \<Rightarrow> AllocatedFrame \<Rightarrow> AllocatedFrame \<Rightarrow> u32 \<Rightarrow>
    HalStreamBuffer \<Rightarrow> pool \<Rightarrow> (int \<times> jpeg_out option \<times> HalStreamBuffer \<times> pool) option" where
  "createJpegLocked ct jpegSize e setting yu12 thumb mBlobBufferSize b p =
     (case (jpeg_quality setting, thumb_quality setting, thumb_size setting) of
        (Some q, Some tq, Some tsz) \<Rightarrow> do {
          let outputThumbnail = \<not> (fst tsz = 0 \<and> snd tsz = 0);
          let sz = (hb_width b, hb_height b);
          maxJpegCodeSize \<leftarrow> (if mBlobBufferSize = 0 then jpegSize sz else Some (uint mBlobBufferSize));
          if maxJpegCodeSize < 0 then lfail (None, b, p)
          else do {
            (ret, _) \<leftarrow> (if outputThumbnail then cropAndScaleThumbLocked (je_scale_thumb e) yu12 thumb tsz else Some (0, None));
            if ret \<noteq> 0 then lfail (None, b, p)
            else do {
              (ret, _, p) \<leftarrow> cropAndScaleLocked ct (je_scale_main e) yu12 sz p;
              if ret \<noteq> 0 then lfail (None, b, p)
              else if outputThumbnail \<and> fst (je_thumb_code e) \<noteq> 0 then lfail (None, b, p)
              else if \<not> je_app1 e then lfail (None, b, p)
              else if \<not> je_lock e then lfail (None, b, p)
              else if maxJpegCodeSize < CameraBlob_size then None
              else
                let out = \<lparr>jo_size = maxJpegCodeSize, jo_code = snd (je_code e),
                      jo_blob_at = maxJpegCodeSize - CameraBlob_size, jo_blob_size = of_nat (snd (je_code e))\<rparr>;
                    b = (if 0 \<le> je_rel_fence e then b\<lparr>acquireFence := je_rel_fence e\<rparr> else b)
                in Some (if fst (je_code e) \<noteq> 0 then 1 else 0, Some out, b, p) } } }
      | _ \<Rightarrow> lfail (None, b, p))"

section \<open>Rounding errors\<close>

lemma round_even_error: "\<bar>of_int (round_even x) - x\<bar> \<le> 1 / 2"
proof -
  have "of_int \<lfloor>x\<rfloor> \<le> x" "x < of_int \<lfloor>x\<rfloor> + 1" by linarith+
  then show ?thesis by (auto simp: round_even_def Let_def abs_if; linarith)
qed

lemma f32_round_error:
  assumes "0 \<le> x"
  shows "f32_round x \<le> x + x / 16777216" "x - x / 16777216 \<le> f32_round x"
proof -
  have "\<bar>f32_round x - x\<bar> \<le> x / 16777216"
  proof (cases "x = 0")
    case False
    then have x: "0 < x" using assms by simp
    define u :: rat where "u = 2 powi (exponent x - 23)"
    have u: "0 < u" "x * 2 powi (23 - exponent x) * u = x" "u * 2 ^ 23 = 2 powi exponent x"
      by (auto simp: u_def simp flip: power_int_add power_int_of_nat power_int_numeral mult.assoc)
    have "f32_round x - x = (of_int (round_even (x * 2 powi (23 - exponent x))) - x * 2 powi (23 - exponent x)) * u"
      using u(2) by (simp add: f32_round_pos [OF x] u_def [symmetric] algebra_simps)
    then have "\<bar>f32_round x - x\<bar> \<le> 1 / 2 * u"
      using round_even_error [of "x * 2 powi (23 - exponent x)"] u(1) by (simp only: abs_mult) (simp add: mult_right_mono)
    also have "1 / 2 * u \<le> x / 16777216" using u(3) exponent_bounds(1) [OF x] by simp
    finally show ?thesis .
  qed simp
  then show "f32_round x \<le> x + x / 16777216" "x - x / 16777216 \<le> f32_round x" by linarith+
qed

text \<open>The crop computed for one side: three roundings off the exact \<open>X\<close>, less than one half off \<open>X / 2\<close>.\<close>

lemma thrice_rounded:
  assumes s: "0 \<le> s" "s \<le> q + q / 16777216" "q - q / 16777216 \<le> s" and o: "0 < o1" and X: "q * o1 = X" "0 \<le> X" "X < 2 ^ 22"
  shows "f32_round (f32_round (s * o1) / 2) < X / 2 + 1 / 2" "X / 2 - 1 / 2 < f32_round (f32_round (s * o1) / 2)"
proof -
  define y where "y = s * o1"
  define z where "z = f32_round y"
  have y: "0 \<le> y" using s(1) o by (simp add: y_def)
  have z0: "0 \<le> z" using f32_round_mono [OF y] by (simp add: z_def)
  have "y \<le> (q + q / 16777216) * o1" "(q - q / 16777216) * o1 \<le> y"
    unfolding y_def using s(2,3) o by (intro mult_right_mono, simp, simp)+
  then have "y \<le> X + X / 16777216" "X - X / 16777216 \<le> y" unfolding X(1) [symmetric] by (simp_all add: algebra_simps)
  moreover have "z \<le> y + y / 16777216" "y - y / 16777216 \<le> z" unfolding z_def by (rule f32_round_error [OF y])+
  moreover have "f32_round (z / 2) \<le> z / 2 + z / 2 / 16777216" "z / 2 - z / 2 / 16777216 \<le> f32_round (z / 2)"
    using f32_round_error [of "z / 2"] z0 by simp_all
  moreover have "X < 4194304" using X(3) by simp
  ultimately show "f32_round (f32_round (s * o1) / 2) < X / 2 + 1 / 2" "X / 2 - 1 / 2 < f32_round (f32_round (s * o1) / 2)"
    unfolding y_def [symmetric] z_def [symmetric] using X(2) by linarith+
qed


section \<open>The crop for the thumbnail\<close>

lemma f32_min_round: "f32_min (Fin (f32_round a)) (Fin (f32_round b)) = Fin (f32_round (min a b))"
  using f32_round_mono [of a b] f32_round_mono [of b a] by (auto simp: f32_min_def min_def)

lemma trunc_half:
  assumes v: "v < X / 2 + 1 / 2" "X / 2 - 1 / 2 < v" and X: "0 \<le> X" "X \<le> of_nat W" "W < 2 ^ 22" "even W" and v0: "0 \<le> v"
  shows "\<exists>a. f32_trunc (Fin v) 0 (2 ^ 32) = Some (int a) \<and> 2 * a \<le> W \<and> X < of_nat (2 * a) + 3 \<and> of_nat (2 * a) < X + 1"
proof -
  define n where "n = \<lfloor>v\<rfloor>"
  have n: "of_int n \<le> v" "v < of_int n + 1" unfolding n_def by linarith+
  then have n0: "0 \<le> n" using v0 by (simp add: n_def)
  obtain k where k: "W = 2 * k" using X(4) by (auto elim: evenE)
  have "(of_int n :: rat) < of_nat k + 1" using n(1) v(1) X(2) by (simp add: k)
  then have le: "n \<le> int k" by linarith
  then have "n < 2 ^ 32" using X(3) by (simp add: k)
  then have "f32_trunc (Fin v) 0 (2 ^ 32) = Some (int (nat n))" using v0 n0 by (simp add: n_def Let_def)
  moreover have "2 * nat n \<le> W" using le n0 by (simp add: k)
  moreover have "(of_nat (2 * nat n) :: rat) = 2 * of_int n" using n0 by simp
  then have "X < of_nat (2 * nat n) + 3" "of_nat (2 * nat n) < X + 1" using n v by linarith+
  ultimately show ?thesis by blast
qed

lemma thumb_half_ok:
  assumes in_frame: "0 < W" "0 < H" "even W" "even H" "W < 2 ^ 22" "H < 2 ^ 22" and out: "0 < w" "0 < h"
  defines "q \<equiv> min (of_nat H / of_nat h) (of_nat W / of_nat w) :: rat"
  shows "\<exists>a b. thumb_half (of_nat W) (of_nat H) (of_nat w) (of_nat h) = Some (of_nat a, of_nat b) \<and>
    2 * a \<le> W \<and> q * of_nat w < of_nat (2 * a) + 3 \<and> of_nat (2 * a) < q * of_nat w + 1 \<and>
    2 * b \<le> H \<and> q * of_nat h < of_nat (2 * b) + 3 \<and> of_nat (2 * b) < q * of_nat h + 1"
proof -
  define s where "s = f32_round q"
  have q: "0 < q" "q * of_nat w \<le> of_nat W" "q * of_nat h \<le> of_nat H"
    using in_frame(1,2) out by (simp_all add: q_def min_def field_simps)
  have s: "0 \<le> s" "s \<le> q + q / 16777216" "q - q / 16777216 \<le> s"
    using f32_round_error [of q] f32_round_pos_pos [of q] q(1) by (simp_all add: s_def)
  have small: "(of_nat W :: rat) < 2 ^ 22" "(of_nat H :: rat) < 2 ^ 22"
    using in_frame(5,6) by (metis of_nat_less_iff of_nat_numeral of_nat_power)+
  have half: "\<exists>a. f32_trunc (f32_half (f32_mult (Fin s) (Fin (of_nat o1)))) 0 (2 ^ 32) = Some (int a) \<and> 2 * a \<le> N \<and>
      q * of_nat o1 < of_nat (2 * a) + 3 \<and> of_nat (2 * a) < q * of_nat o1 + 1"
    if o1: "0 < o1" "q * of_nat o1 \<le> of_nat N" "N < 2 ^ 22" "(of_nat N :: rat) < 2 ^ 22" "even N" for o1 N
  proof -
    have X: "0 \<le> q * of_nat o1" "q * of_nat o1 < 2 ^ 22" using q(1) o1(2,4) by (simp, linarith)
    have "0 \<le> f32_round (f32_round (s * of_nat o1) / 2)"
      using f32_round_mono [of 0 "f32_round (s * of_nat o1) / 2"] f32_round_mono [of 0 "s * of_nat o1"] s(1) by simp
    then show ?thesis
      using trunc_half [OF thrice_rounded [OF s _ refl X] X(1) o1(2,3,5)] o1(1) by (simp add: f32_div_def)
  qed
  have "f32_min (f32_div (of_nat H) (of_nat h)) (f32_div (of_nat W) (of_nat w)) = Fin s"
    using out by (simp add: f32_div_def f32_min_round q_def s_def)
  then show ?thesis
    using half [OF out(1) q(2) in_frame(5) small(1) in_frame(3)] half [OF out(2) q(3) in_frame(6) small(2) in_frame(4)]
    by (force simp: thumb_half_def)
qed


text \<open>Back from rationals to integers.\<close>

lemma crop_side:
  assumes "0 < w"
  shows "(of_nat N :: rat) < of_nat (2 * a) + 3 \<Longrightarrow> int N - 2 \<le> int (2 * a)"
    "(of_nat M :: rat) / of_nat w < of_nat (2 * b) + 3 \<Longrightarrow> of_nat (2 * b) < (of_nat M :: rat) / of_nat w + 1 \<Longrightarrow>
      \<bar>int (2 * b) * int w - int M\<bar> < 3 * int w"
proof -
  show "int N - 2 \<le> int (2 * a)" if "(of_nat N :: rat) < of_nat (2 * a) + 3"
  proof -
    have "(of_nat N :: rat) < of_nat (2 * a + 3)" using that by simp
    then have "N < 2 * a + 3" by (simp only: of_nat_less_iff)
    then show ?thesis by simp
  qed
  show "\<bar>int (2 * b) * int w - int M\<bar> < 3 * int w"
    if "(of_nat M :: rat) / of_nat w < of_nat (2 * b) + 3" "of_nat (2 * b) < (of_nat M :: rat) / of_nat w + 1"
  proof -
    have "(of_nat M :: rat) < of_nat (2 * b * w + 3 * w)" "(of_nat (2 * b * w) :: rat) < of_nat (M + w)"
      using that assms by (simp_all add: field_simps)
    then have "M < 2 * b * w + 3 * w" "2 * b * w < M + w" by (simp_all only: of_nat_less_iff)
    then have "int M < int (2 * b * w) + 3 * int w" "int (2 * b * w) < int M + int w" by linarith+
    then show ?thesis using assms by simp
  qed
qed

lemma thumb_crop_ok:
  assumes in_frame: "4 \<le> W" "4 \<le> H" "even W" "even H" "W < 2 ^ 22" "H < 2 ^ 22"
    and out: "0 < w" "0 < h" "w < 2 ^ 24" "h < 2 ^ 24" "3 * h \<le> H * w" "3 * w \<le> W * h"
  shows "\<exists>r. thumb_crop (of_nat W, of_nat H) (of_nat w, of_nat h) = Some (Some r) \<and> rect_in r W H \<and>
    \<bar>2 * left r + rwidth r - int W\<bar> < 4 \<and> \<bar>2 * top r + rheight r - int H\<bar> < 4 \<and>
    (if W * h \<le> H * w then int W - 2 \<le> rwidth r \<and> \<bar>rheight r * int w - int (W * h)\<bar> < 3 * int w
     else int H - 2 \<le> rheight r \<and> \<bar>rwidth r * int h - int (H * w)\<bar> < 3 * int h)"
proof -
  define q :: rat where "q = min (of_nat H / of_nat h) (of_nat W / of_nat w)"
  obtain a b where half: "thumb_half (of_nat W) (of_nat H) (of_nat w) (of_nat h) = Some (of_nat a, of_nat b)"
    and a: "2 * a \<le> W" "q * of_nat w < of_nat (2 * a) + 3" "of_nat (2 * a) < q * of_nat w + 1"
    and b: "2 * b \<le> H" "q * of_nat h < of_nat (2 * b) + 3" "of_nat (2 * b) < q * of_nat h + 1"
    using thumb_half_ok [of W H w h] assms unfolding q_def by fastforce
  have cases: "if W * h \<le> H * w then q * of_nat w = of_nat W \<and> q * of_nat h = of_nat (W * h) / of_nat w
      else q * of_nat h = of_nat H \<and> q * of_nat w = of_nat (H * w) / of_nat h"
  proof -
    have "W * h \<le> H * w \<longleftrightarrow> (of_nat W / of_nat w :: rat) \<le> of_nat H / of_nat h"
      using out(1,2) by (simp add: field_simps flip: of_nat_mult)
    then show ?thesis using out(1,2) by (auto simp: q_def min_def)
  qed
  have large: "3 \<le> q * of_nat w" "3 \<le> q * of_nat h"
  proof -
    have "(of_nat (3 * h) :: rat) \<le> of_nat (H * w)" "(of_nat (3 * w) :: rat) \<le> of_nat (W * h)"
      using out(5,6) by (simp_all only: of_nat_le_iff)
    then have "(3 :: rat) \<le> of_nat (H * w) / of_nat h" "(3 :: rat) \<le> of_nat (W * h) / of_nat w"
      using out(1,2) by (simp_all add: field_simps)
    moreover have "(3 :: rat) \<le> of_nat W" "(3 :: rat) \<le> of_nat H" using in_frame(1,2) by simp_all
    ultimately show "3 \<le> q * of_nat w" "3 \<le> q * of_nat h" using cases by (auto split: if_splits)
  qed
  have pos: "0 < a" "0 < b" using a(2) b(2) large by (auto intro: gr0I)
  define r where "r = \<lparr>left = int (2 * ((W - 2 * a) div 4)), top = int (2 * ((H - 2 * b) div 4)), rwidth = int (2 * a), rheight = int (2 * b)\<rparr>"
  have w: "f32_of_u32 (of_nat n) = of_nat n" if "n < 2 ^ 24" for n
  proof -
    have "unat (of_nat n :: u32) = n" using that by (simp add: unat_u32)
    then show ?thesis using f32_of_u32_exact [of "of_nat n"] that by (simp only:)
  qed
  have side: "to_int ((of_nat N - 2 * of_nat k) div 4) = int ((N - 2 * k) div 4)" "to_int (2 * of_nat k) = int (2 * k)"
    if "2 * k \<le> N" "N < 2 ^ 22" for k N
  proof -
    have "(of_nat N - 2 * of_nat k :: u32) = of_nat (N - 2 * k)" using that(1) by (simp add: of_nat_diff)
    moreover have "(of_nat (N - 2 * k) div 4 :: u32) = of_nat ((N - 2 * k) div 4)"
      using that(2) by (simp add: word_arith_nat_div unat_u32)
    ultimately show "to_int ((of_nat N - 2 * of_nat k) div 4) = int ((N - 2 * k) div 4)"
      using that by (simp add: to_int_of_nat)
    show "to_int (2 * of_nat k) = int (2 * k)" using to_int_of_nat [of "2 * k"] that by simp
  qed
  have fits: "2 * int k + 2 * int ((N - 2 * k) div 4) \<le> int N" "in_int (2 * int k + 2 * int ((N - 2 * k) div 4))"
    if "2 * k \<le> N" "N < 2 ^ 22" for k N
  proof -
    show le: "2 * int k + 2 * int ((N - 2 * k) div 4) \<le> int N" using that(1) by linarith
    then show "in_int (2 * int k + 2 * int ((N - 2 * k) div 4))" using that(2) by (simp add: in_int_def)
  qed
  have "thumb_crop (of_nat W, of_nat H) (of_nat w, of_nat h) = Some (Some r)"
    using half in_frame out(3,4) a(1) b(1) pos side [OF a(1) in_frame(5)] side [OF b(1) in_frame(6)]
      fits [OF a(1) in_frame(5)] fits [OF b(1) in_frame(6)]
    by (simp add: thumb_crop_def w r_def Let_def to_int_of_nat c_int_def)
  moreover have "rect_in r W H" using a(1) b(1) by (auto simp: rect_in_def r_def)
  moreover have "\<bar>2 * left r + rwidth r - int W\<bar> < 4" "\<bar>2 * top r + rheight r - int H\<bar> < 4"
    using a(1) b(1) by (auto simp: r_def)
  moreover have "if W * h \<le> H * w then int W - 2 \<le> rwidth r \<and> \<bar>rheight r * int w - int (W * h)\<bar> < 3 * int w
     else int H - 2 \<le> rheight r \<and> \<bar>rwidth r * int h - int (H * w)\<bar> < 3 * int h"
  proof (cases "W * h \<le> H * w")
    case True
    then have q: "q * of_nat w = of_nat W" "q * of_nat h = of_nat (W * h) / of_nat w" using cases by auto
    show ?thesis using True crop_side(1) [OF out(1) a(2) [unfolded q(1)]] crop_side(2) [OF out(1) b(2,3) [unfolded q(2)]]
      by (simp add: r_def)
  next
    case False
    then have q: "q * of_nat h = of_nat H" "q * of_nat w = of_nat (H * w) / of_nat h" using cases by auto
    show ?thesis using False crop_side(1) [OF out(2) b(2) [unfolded q(1)]] crop_side(2) [OF out(2) a(2,3) [unfolded q(2)]]
      by (simp add: r_def)
  qed
  ultimately show ?thesis by blast
qed


lemma rect_shows:
  assumes "af_width f = of_nat W" "af_height f = of_nat H" "even W" "even H" "W * H * 3 < 2 ^ 32" "W < 2 ^ 31" "H < 2 ^ 31"
    and r: "rect_in r W H"
  shows "\<exists>l. getCroppedLayout f r = Some (0, Some l) \<and> shows_crop l r W H"
proof -
  obtain a b c d m n where h: "r = \<lparr>left = int (2 * a), top = int (2 * b), rwidth = int (2 * c), rheight = int (2 * d)\<rparr>"
    "a + c \<le> m" "b + d \<le> n" "W = 2 * m" "H = 2 * n"
    using rect_in_halves assms(3,4) r by metis
  show ?thesis
    unfolding h(4,5) using crop_shown [OF h(1-3)] assms(1,2,5-7) unfolding h(4,5) by blast
qed

lemma full_layout:
  assumes "af_width f = of_nat W" "af_height f = of_nat H" "even W" "even H" "W * H * 3 < 2 ^ 32" "W < 2 ^ 31" "H < 2 ^ 31"
  shows "\<exists>l. getLayout f = Some (0, Some l) \<and> shows_crop l \<lparr>left = 0, top = 0, rwidth = int W, rheight = int H\<rparr> W H"
  using rect_shows [OF assms, of "\<lparr>left = 0, top = 0, rwidth = int W, rheight = int H\<rparr>"] assms
  by (simp add: getLayout_def rect_in_def to_int_of_nat)

lemma thumb_shows:
  assumes frame: "af_width f = of_nat W" "af_height f = of_nat H" "even W" "even H" "4 \<le> W" "4 \<le> H" "W < 2 ^ 22" "H < 2 ^ 22"
      "W * H * 3 < 2 ^ 32"
    and thumb: "af_width t = of_nat tw" "af_height t = of_nat th" "even tw" "even th" "tw * th * 3 < 2 ^ 32" "tw < 2 ^ 24" "th < 2 ^ 24"
    and out: "0 < w" "0 < h" "w < 2 ^ 24" "h < 2 ^ 24" "w * h \<le> tw * th" "3 * h \<le> H * w" "3 * w \<le> W * h"
  shows "\<exists>c. cropAndScaleThumbLocked ret f t (of_nat w, of_nat h) = Some (ret, Some c) \<and> tc_size c = (of_nat w, of_nat h) \<and>
    rect_in (tc_crop c) W H \<and> shows_crop (tc_in c) (tc_crop c) W H \<and>
    \<bar>2 * left (tc_crop c) + rwidth (tc_crop c) - int W\<bar> < 4 \<and> \<bar>2 * top (tc_crop c) + rheight (tc_crop c) - int H\<bar> < 4 \<and>
    (if W * h \<le> H * w
     then int W - 2 \<le> rwidth (tc_crop c) \<and> \<bar>rheight (tc_crop c) * int w - int (W * h)\<bar> < 3 * int w
     else int H - 2 \<le> rheight (tc_crop c) \<and> \<bar>rwidth (tc_crop c) * int h - int (H * w)\<bar> < 3 * int h)"
proof -
  obtain r where r: "thumb_crop (of_nat W, of_nat H) (of_nat w, of_nat h) = Some (Some r)" "rect_in r W H"
    and near: "\<bar>2 * left r + rwidth r - int W\<bar> < 4" "\<bar>2 * top r + rheight r - int H\<bar> < 4"
      "if W * h \<le> H * w then int W - 2 \<le> rwidth r \<and> \<bar>rheight r * int w - int (W * h)\<bar> < 3 * int w
       else int H - 2 \<le> rheight r \<and> \<bar>rwidth r * int h - int (H * w)\<bar> < 3 * int h"
    using thumb_crop_ok [of W H w h] frame(3-8) out by blast
  have "W < 2 ^ 31" "H < 2 ^ 31" using frame(7,8) by simp_all
  then obtain l where l: "getCroppedLayout f r = Some (0, Some l)" "shows_crop l r W H"
    using rect_shows [OF frame(1-4,9) _ _ r(2)] by blast
  have "tw < 2 ^ 31" "th < 2 ^ 31" using thumb(6,7) by simp_all
  then obtain lo where lo: "getLayout t = Some (0, Some lo)"
    using full_layout [OF thumb(1-5)] by blast
  have "tw * th < 2 ^ 32" "w * h < 2 ^ 32" using thumb(5) out(5) by linarith+
  then have "unat (of_nat tw * of_nat th :: u32) = tw * th" "unat (of_nat w * of_nat h :: u32) = w * h"
    unfolding of_nat_mult [symmetric] by (intro unat_u32; simp)+
  then have "\<not> (of_nat tw * of_nat th :: u32) < of_nat w * of_nat h" using out(5) by (simp add: word_less_nat_alt)
  then have "cropAndScaleThumbLocked ret f t (of_nat w, of_nat h) =
      Some (ret, Some \<lparr>tc_crop = r, tc_in = l, tc_out = lo, tc_size = (of_nat w, of_nat h)\<rparr>)"
    using r(1) l(1) lo frame(1,2) thumb(1,2) by (simp add: cropAndScaleThumbLocked_def)
  then show ?thesis using r(2) l(2) near by (simp del: of_nat_mult)
qed

lemma thumb_too_large:
  assumes thumb: "af_width t = of_nat tw" "af_height t = of_nat th" "tw * th * 3 < 2 ^ 32" and out: "w * h < 2 ^ 32" "tw * th < w * h"
  shows "cropAndScaleThumbLocked ret f t (of_nat w, of_nat h) = Some (- 1, None)"
proof -
  have "unat (of_nat tw * of_nat th :: u32) = tw * th" "unat (of_nat w * of_nat h :: u32) = w * h"
    using thumb(3) out(1) unfolding of_nat_mult [symmetric] by (intro unat_u32; simp)+
  then have "(of_nat tw * of_nat th :: u32) < of_nat w * of_nat h" using out(2) by (simp add: word_less_nat_alt)
  then show ?thesis using thumb(1,2) by (simp add: cropAndScaleThumbLocked_def)
qed

text \<open>C15: The thumbnail shows the picture, cropped on one side only. The crop is computed in single precision with four
  roundings; all the same, for a picture of even sides below \<open>2^22\<close> and a requested size that is not extremely long or
  flat (each side of the crop has at least three samples), the request is refused exactly when its area is larger than
  that of the thumbnail frame, and the code never gives up with a wrong rectangle: the rectangle is inside the picture, even,
  centred, reaches over the whole picture in one direction (but for two samples), has the requested proportions (but for
  less than three samples) in the other, and its layout addresses exactly these samples.\<close>

theorem thumbnail_shows_picture:
  assumes frame: "af_width f = of_nat W" "af_height f = of_nat H" "even W" "even H" "4 \<le> W" "4 \<le> H" "W < 2 ^ 22" "H < 2 ^ 22"
      "W * H * 3 < 2 ^ 32"
    and thumb: "af_width t = of_nat tw" "af_height t = of_nat th" "even tw" "even th" "tw * th * 3 < 2 ^ 32" "tw < 2 ^ 24" "th < 2 ^ 24"
    and out: "0 < w" "0 < h" "w < 2 ^ 24" "h < 2 ^ 24" "w * h < 2 ^ 32" "3 * h \<le> H * w" "3 * w \<le> W * h"
  shows "if tw * th < w * h then cropAndScaleThumbLocked ret f t (of_nat w, of_nat h) = Some (- 1, None)
   else \<exists>c. cropAndScaleThumbLocked ret f t (of_nat w, of_nat h) = Some (ret, Some c) \<and> tc_size c = (of_nat w, of_nat h) \<and>
    rect_in (tc_crop c) W H \<and> shows_crop (tc_in c) (tc_crop c) W H \<and>
    \<bar>2 * left (tc_crop c) + rwidth (tc_crop c) - int W\<bar> < 4 \<and> \<bar>2 * top (tc_crop c) + rheight (tc_crop c) - int H\<bar> < 4 \<and>
    (if W * h \<le> H * w
     then int W - 2 \<le> rwidth (tc_crop c) \<and> \<bar>rheight (tc_crop c) * int w - int (W * h)\<bar> < 3 * int w
     else int H - 2 \<le> rheight (tc_crop c) \<and> \<bar>rwidth (tc_crop c) * int h - int (H * w)\<bar> < 3 * int h)"
proof (cases "tw * th < w * h")
  case True
  then show ?thesis unfolding if_P [OF True] by (rule thumb_too_large [OF thumb(1,2,5) out(5)])
next
  case False
  then have "w * h \<le> tw * th" by simp
  then show ?thesis unfolding if_not_P [OF False] using out by (intro thumb_shows [OF frame thumb])
qed

theorem thumbnail_shows_picture_witness:
  "\<exists>c. cropAndScaleThumbLocked 0 \<lparr>af_width = of_nat 1280, af_height = of_nat 800, af_size = 1536000\<rparr>
      \<lparr>af_width = of_nat 240, af_height = of_nat 180, af_size = 64800\<rparr> (of_nat 176, of_nat 144) = Some (0, Some c) \<and>
    rect_in (tc_crop c) 1280 800 \<and> 798 \<le> rheight (tc_crop c) \<and> \<bar>rwidth (tc_crop c) * 144 - 140800\<bar> < 432"
  using thumbnail_shows_picture [of "\<lparr>af_width = of_nat 1280, af_height = of_nat 800, af_size = 1536000\<rparr>" 1280 800
      "\<lparr>af_width = of_nat 240, af_height = of_nat 180, af_size = 64800\<rparr>" 240 180 176 144 0]
  by auto


section \<open>Thumbnails wider than the frame\<close>

text \<open>A flaw of the code. Only the areas are compared, so a size that is wider than the thumbnail frame, as two of the sizes
  the device advertises are, is accepted; the rows the scaler writes and the encoder reads are a frame width
  apart and overlap: the last samples of each row are those of the next row.\<close>

theorem wide_thumbnail_rows_overlap:
  assumes c: "cropAndScaleThumbLocked ret f t (of_nat w, of_nat h) = Some (ret, Some c)"
    and t: "af_width t = of_nat tw" "af_height t = of_nat th" "even tw" "even th" "tw * th * 3 < 2 ^ 32" "tw < 2 ^ 31" "th < 2 ^ 31"
    and wide: "0 < tw" "0 < th" "tw \<le> x" "x < w" "Suc y < h"
  shows "l_y (tc_out c) + int (unat (yStride (tc_out c)) * y + x) = l_y (tc_out c) + int (unat (yStride (tc_out c)) * Suc y + (x - tw))"
proof -
  obtain l where l: "getLayout t = Some (0, Some l)" using full_layout [OF t] by blast
  then have "tc_out c = l"
    using c by (auto simp: cropAndScaleThumbLocked_def bind_eq_Some_conv split: if_splits option.splits)
  moreover have "yStride l = of_nat tw"
    using l t(1) by (auto simp: getLayout_def getCroppedLayout_def Let_def bind_eq_Some_conv split: if_splits)
  moreover have "unat (of_nat tw :: u32) = tw" using t(6) by (intro unat_u32) simp
  ultimately show ?thesis using wide(3) by simp
qed

section \<open>The size of the code and the trailer\<close>

lemma kMin_exact: "f32_round (of_int kMinJpegBufferSize) = of_int kMinJpegBufferSize"
  by (rule f32_round_of_int) (simp_all add: kMinJpegBufferSize_def CameraBlob_size_def)

lemma f32_trunc_ge:
  assumes "f32_trunc (Fin a) lo hi = Some n" "of_int k \<le> a" "0 \<le> k"
  shows "k \<le> n"
proof -
  have "(0 :: rat) \<le> of_int k" using assms(3) by simp
  then have "0 \<le> a" using assms(2) by linarith
  then have "n = \<lfloor>a\<rfloor>" using assms(1) by (auto simp: Let_def split: if_splits)
  then show ?thesis using assms(2) by (simp add: le_floor_iff)
qed

lemma f32_of_u32_nonneg: "0 \<le> f32_of_u32 w"
proof -
  have "(0 :: rat) \<le> of_int (uint w)" unfolding of_int_0_le_iff by simp
  then have "f32_round 0 \<le> f32_round (of_int (uint w))" by (rule f32_round_mono)
  then show ?thesis unfolding f32_of_u32_def by (simp only: f32_round_0)
qed

lemma jpeg_size_bounds:
  assumes "getJpegBufferSize mx m sz = Some n" "n \<noteq> BAD_VALUE"
  shows "kMinJpegBufferSize \<le> n" "m \<noteq> None" "n \<le> the m"
proof -
  obtain mb where m: "m = Some mb" "kMinJpegBufferSize < mb"
    using assms by (auto simp: getJpegBufferSize_def not_le split: option.splits if_splits)
  define sf where "sf = f32_div (f32_of_u32 (fst sz * snd sz)) (f32_of_u32 (fst mx * snd mx))"
  obtain k where k: "f32_trunc (f32_add (f32_mult sf (Fin (f32_round (of_int (mb - kMinJpegBufferSize)))))
      (Fin (f32_round (of_int kMinJpegBufferSize)))) (- (2 ^ 63)) (2 ^ 63) = Some k" and n: "n = (if mb < k then mb else k)"
    using assms m by (auto simp: getJpegBufferSize_def sf_def bind_eq_Some_conv split: if_splits)
  obtain a where sf: "sf = Fin a" using k by (cases sf) (auto split: if_splits)
  have a: "0 \<le> a"
  proof -
    have q: "0 \<le> f32_of_u32 (fst sz * snd sz) / f32_of_u32 (fst mx * snd mx)"
      by (rule divide_nonneg_nonneg) (rule f32_of_u32_nonneg)+
    show ?thesis using sf f32_round_mono [OF q] by (auto simp: sf_def f32_div_def split: if_splits)
  qed
  have "(0 :: rat) \<le> of_int (mb - kMinJpegBufferSize)" using m(2) by simp
  then have "0 \<le> f32_round (of_int (mb - kMinJpegBufferSize))" using f32_round_mono [of 0] by fastforce
  then have "0 \<le> a * f32_round (of_int (mb - kMinJpegBufferSize))" using a by simp
  then have p: "0 \<le> f32_round (a * f32_round (of_int (mb - kMinJpegBufferSize)))" using f32_round_mono [of 0] by fastforce
  have "of_int kMinJpegBufferSize \<le> f32_round (a * f32_round (of_int (mb - kMinJpegBufferSize))) + f32_round (of_int kMinJpegBufferSize)"
    unfolding kMin_exact using p by linarith
  then have "f32_round (of_int kMinJpegBufferSize) \<le>
      f32_round (f32_round (a * f32_round (of_int (mb - kMinJpegBufferSize))) + f32_round (of_int kMinJpegBufferSize))"
    by (rule f32_round_mono)
  then have "kMinJpegBufferSize \<le> k"
    using f32_trunc_ge [OF k [unfolded sf f32_mult.simps f32_add.simps]]
    unfolding kMin_exact by (simp add: kMinJpegBufferSize_def CameraBlob_size_def)
  then show "kMinJpegBufferSize \<le> n" "m \<noteq> None" "n \<le> the m" using n m by auto
qed


lemma f32_of_u32_mono: "a \<le> b \<Longrightarrow> f32_of_u32 a \<le> f32_of_u32 b"
  unfolding f32_of_u32_def by (rule f32_round_mono) (simp only: of_int_le_iff word_le_def)

lemma f32_of_u32_pos: "a \<noteq> 0 \<Longrightarrow> 0 < f32_of_u32 a"
proof -
  assume "a \<noteq> 0"
  then have "0 < uint a" by (metis uint_0_iff uint_lt_0 linorder_cases)
  then have "(0 :: rat) < of_int (uint a)" unfolding of_int_0_less_iff .
  then show ?thesis unfolding f32_of_u32_def by (rule f32_round_pos_pos)
qed

lemma round_le_twice: "0 \<le> x \<Longrightarrow> x \<le> c \<Longrightarrow> f32_round x \<le> 2 * c"
  using f32_round_error(1) [of x] by linarith

text \<open>For a size whose area is at most the largest one's, the conversion to an integer does not overflow.\<close>

lemma jpeg_size_defined:
  assumes mx: "fst mx \<noteq> 0" "fst mx * snd mx \<noteq> 0" "fst sz * snd sz \<le> fst mx * snd mx"
    and mb: "kMinJpegBufferSize < mb" "mb < 2 ^ 31"
  shows "\<exists>n. getJpegBufferSize mx (Some mb) sz = Some n \<and> kMinJpegBufferSize \<le> n \<and> n \<le> mb"
proof -
  define A where "A = f32_of_u32 (fst mx * snd mx)"
  define d where "d = f32_round (of_int (mb - kMinJpegBufferSize))"
  define a where "a = f32_round (f32_of_u32 (fst sz * snd sz) / A)"
  have A: "0 < A" "f32_of_u32 (fst sz * snd sz) \<le> A" using f32_of_u32_pos [OF mx(2)] f32_of_u32_mono [OF mx(3)] by (auto simp: A_def)
  then have q: "0 \<le> f32_of_u32 (fst sz * snd sz) / A" "f32_of_u32 (fst sz * snd sz) / A \<le> 1"
    by (simp_all add: f32_of_u32_nonneg)
  have a: "0 \<le> a" "a \<le> 1" using f32_round_mono [OF q(1)] f32_round_mono [OF q(2)] f32_round_of_int [of 1] by (simp_all add: a_def)
  have m0: "(0 :: rat) \<le> of_int (mb - kMinJpegBufferSize)" unfolding of_int_0_le_iff using mb(1) by simp
  have "mb - kMinJpegBufferSize < 2 ^ 31" using mb by (simp add: kMinJpegBufferSize_def CameraBlob_size_def)
  then have "(of_int (mb - kMinJpegBufferSize) :: rat) < of_int (2 ^ 31)" by (simp only: of_int_less_iff)
  then have "of_int (mb - kMinJpegBufferSize) \<le> (2 ^ 31 :: rat)" unfolding of_int_power of_int_numeral by (rule less_imp_le)
  then have d: "0 \<le> d" "d \<le> 2 ^ 32"
    using f32_round_mono [OF m0] round_le_twice [OF m0, of "2 ^ 31"] by (simp_all add: d_def)
  have ad: "0 \<le> a * d" "a * d \<le> 2 ^ 32" using a d mult_mono [of a 1 d "2 ^ 32"] by simp_all
  have r1: "0 \<le> f32_round (a * d)" "f32_round (a * d) \<le> 2 ^ 33"
    using f32_round_mono [OF ad(1)] round_le_twice [OF ad] by simp_all
  have k: "of_int kMinJpegBufferSize = (262152 :: rat)" by (simp add: kMinJpegBufferSize_def CameraBlob_size_def)
  have s0: "0 \<le> f32_round (a * d) + 262152" using r1(1) by linarith
  have r2: "0 \<le> f32_round (f32_round (a * d) + 262152)" "f32_round (f32_round (a * d) + 262152) < 2 ^ 35"
    using f32_round_mono [OF s0] round_le_twice [OF s0, of "2 ^ 33 + 262152"] r1(2) by simp_all
  have "\<lfloor>f32_round (f32_round (a * d) + 262152)\<rfloor> < 2 ^ 63" unfolding floor_less_iff using r2(2) by simp
  then obtain n where n: "f32_trunc (Fin (f32_round (f32_round (a * d) + 262152))) (- (2 ^ 63)) (2 ^ 63) = Some n"
    using r2(1) by (simp add: Let_def)
  have e: "f32_div (f32_of_u32 (fst sz * snd sz)) (f32_of_u32 (fst mx * snd mx)) = Fin a"
    using A(1) by (simp add: f32_div_def A_def a_def)
  have n2: "f32_trunc (f32_add (f32_mult (Fin a) (Fin (f32_round (of_int (mb - kMinJpegBufferSize))))) (Fin (f32_round (of_int kMinJpegBufferSize))))
      (- (2 ^ 63)) (2 ^ 63) = Some n"
    using n unfolding f32_mult.simps f32_add.simps d_def kMin_exact unfolding k .
  have run: "getJpegBufferSize mx (Some mb) sz = Some (if mb < n then mb else n)"
    unfolding getJpegBufferSize_def option.case Let_def e n2 Option.bind.simps using mx(1) mb(1) by simp
  then obtain n' where n': "getJpegBufferSize mx (Some mb) sz = Some n'" by blast
  show ?thesis
  proof (cases "n' = BAD_VALUE")
    case True
    have "0 \<le> n" using f32_trunc_ge [OF n, of 0] r2(1) by simp
    moreover have "n' = (if mb < n then mb else n)" using n' run by simp
    ultimately show ?thesis using True mb by (auto simp: BAD_VALUE_def kMinJpegBufferSize_def CameraBlob_size_def split: if_splits)
  next
    case False
    then show ?thesis using jpeg_size_bounds [OF n'] n' by auto
  qed
qed


text \<open>A picture of the capture size, or one whose shape can be cropped and whose buffer is in the pool, is scaled.\<close>

lemma cropAndScale_pool:
  assumes small: "small_size (af_width f) (af_height f)" "small_size (fst sz) (snd sz)"
    and crop: "sz = (af_width f, af_height f) \<or> (\<exists>r. getCropRect ct (af_width f, af_height f) sz = Some (0, Some r)) \<and>
      (\<exists>b. map_of (mScaledYu12Frames p @ mIntermediateBuffers p) sz = Some b \<and> (af_width b, af_height b) = sz)"
  shows "\<exists>out p'. cropAndScaleLocked ct 0 f sz p = Some (0, Some out, p')"
proof (cases "sz = (af_width f, af_height f)")
  case True
  then show ?thesis using layout_ok [OF small(1)] by (auto simp: cropAndScaleLocked_def)
next
  case False
  then obtain r b where r: "getCropRect ct (af_width f, af_height f) sz = Some (0, Some r)"
    and b: "map_of (mScaledYu12Frames p @ mIntermediateBuffers p) sz = Some b" "(af_width b, af_height b) = sz" using crop by blast
  obtain l where l: "getCroppedLayout f r = Some (0, Some l)" using cropped_ok [OF small(1) r] by blast
  have buf: "(case map_of (mScaledYu12Frames p) sz of Some b \<Rightarrow> Some b | None \<Rightarrow> map_of (mIntermediateBuffers p) sz) = Some b"
    using b(1) by (auto simp: map_add_def split: option.splits)
  obtain lb where "getLayout b = Some (0, Some lb)" using layout_ok [of b] small(2) b(2) by auto
  then show ?thesis using r l buf False by (auto simp: cropAndScaleLocked_def)
qed

text \<open>C14: A picture is created whenever everything it needs is there. Suppose the request has the three settings, its
  thumbnail size is zero or passes the test of the thumbnail frame, the picture has the capture size or a shape that can be
  cropped from it and a buffer of its size in the pool, and the libraries succeed: scaling and encoding thumbnail and
  picture, making the header, locking the buffer. Then \<open>createJpegLocked\<close> returns success. With a size from the
  framework (of at least eight bytes) the buffer has it; otherwise the buffer has the estimated size, which is defined and
  lies between the smallest and the configured largest one. The trailer fills exactly the last eight bytes of the buffer
  and holds the length of the code, when the encoder kept within the buffer. It is not said that the code ends before the
  trailer: the encoder may use the whole buffer, and the trailer is then stored over the end of the code.\<close>

theorem jpeg_created:
  assumes set: "jpeg_quality setting \<noteq> None" "thumb_quality setting \<noteq> None" "thumb_size setting = Some (of_nat w, of_nat h)"
    and frame: "af_width f = of_nat W" "af_height f = of_nat H" "even W" "even H" "4 \<le> W" "4 \<le> H" "W < 2 ^ 22" "H < 2 ^ 22"
      "W * H * 3 < 2 ^ 32"
    and thumb: "af_width t = of_nat tw" "af_height t = of_nat th" "even tw" "even th" "tw * th * 3 < 2 ^ 32" "tw < 2 ^ 24" "th < 2 ^ 24"
    and out: "w = 0 \<and> h = 0 \<or> 0 < w \<and> 0 < h \<and> w < 2 ^ 24 \<and> h < 2 ^ 24 \<and> w * h \<le> tw * th \<and> 3 * h \<le> H * w \<and> 3 * w \<le> W * h"
    and pic: "small_size (hb_width b) (hb_height b)"
    and main: "(hb_width b, hb_height b) = (of_nat W, of_nat H) \<or>
      (\<exists>r. getCropRect ct (of_nat W, of_nat H) (hb_width b, hb_height b) = Some (0, Some r)) \<and>
      (\<exists>a. map_of (mScaledYu12Frames p @ mIntermediateBuffers p) (hb_width b, hb_height b) = Some a \<and>
        (af_width a, af_height a) = (hb_width b, hb_height b))"
    and libs: "je_scale_thumb e = 0" "je_scale_main e = 0" "fst (je_thumb_code e) = 0" "je_app1 e" "je_lock e" "fst (je_code e) = 0"
    and size: "8 \<le> uint blob \<or> blob = 0 \<and> fst mx \<noteq> 0 \<and> fst mx * snd mx \<noteq> 0 \<and> hb_width b * hb_height b \<le> fst mx * snd mx \<and>
      kMinJpegBufferSize < mb \<and> mb < 2 ^ 31"
  shows "\<exists>o1 p'. createJpegLocked ct (getJpegBufferSize mx (Some mb)) e setting f t blob b p =
      Some (0, Some o1, if 0 \<le> je_rel_fence e then b\<lparr>acquireFence := je_rel_fence e\<rparr> else b, p') \<and>
    (if blob = 0 then kMinJpegBufferSize \<le> jo_size o1 \<and> jo_size o1 \<le> mb else jo_size o1 = uint blob) \<and>
    jo_code o1 = snd (je_code e) \<and> 0 \<le> jo_blob_at o1 \<and> jo_blob_at o1 + 8 = jo_size o1 \<and>
    (int (jo_code o1) \<le> jo_size o1 \<longrightarrow> unat (jo_blob_size o1) = jo_code o1)"
proof -
  obtain q tq where q: "jpeg_quality setting = Some q" "thumb_quality setting = Some tq" using set by blast
  define thumbnail where "thumbnail \<longleftrightarrow> \<not> ((of_nat w :: u32) = 0 \<and> (of_nat h :: u32) = 0)"
  obtain x where x: "(if thumbnail then cropAndScaleThumbLocked (je_scale_thumb e) f t (of_nat w, of_nat h) else Some (0, None)) = Some (0, x)"
  proof (cases "w = 0")
    case True
    then show ?thesis using out that by (simp add: thumbnail_def)
  next
    case False
    then have o1: "0 < w" "0 < h" "w < 2 ^ 24" "h < 2 ^ 24" "w * h \<le> tw * th" "3 * h \<le> H * w" "3 * w \<le> W * h" using out by auto
    have "unat (of_nat w :: u32) = w" using o1(3) by (intro unat_u32) simp
    then have "(of_nat w :: u32) \<noteq> 0" using False by (metis unat_0)
    then have "thumbnail" by (simp add: thumbnail_def)
    then show ?thesis using thumb_shows [OF frame thumb o1, of 0] that libs(1) by auto
  qed
  have "unat (of_nat W :: u32) = W" "unat (of_nat H :: u32) = H" using frame(7,8) by (intro unat_u32; simp)+
  then have "small_size (af_width f) (af_height f)" unfolding frame(1,2) small_size_def using frame(3-9) by simp
  then obtain res p' where scaled: "cropAndScaleLocked ct (je_scale_main e) f (hb_width b, hb_height b) p = Some (0, res, p')"
    using cropAndScale_pool [of f "(hb_width b, hb_height b)" ct p] pic main libs(2) unfolding frame(1,2) by auto
  obtain n where n: "(if blob = 0 then getJpegBufferSize mx (Some mb) (hb_width b, hb_height b) else Some (uint blob)) = Some n"
    "8 \<le> n" "if blob = 0 then kMinJpegBufferSize \<le> n \<and> n \<le> mb else n = uint blob" "n < 2 ^ 32"
  proof (cases "blob = 0")
    case True
    then show ?thesis using size jpeg_size_defined [of mx "(hb_width b, hb_height b)" mb] that
      by (auto simp: kMinJpegBufferSize_def CameraBlob_size_def)
  next
    case False
    then show ?thesis using size that uint_lt2p [of blob] by auto
  qed
  have "unat (of_nat c :: u32) = c" if "int c \<le> n" for c using that n(4) by (intro unat_u32) simp
  then show ?thesis
    unfolding createJpegLocked_def q set(3) option.case prod.case Let_def fst_conv snd_conv thumbnail_def [symmetric] n(1) Option.bind.simps x scaled
    using n(2,3) libs by (simp add: CameraBlob_size_def)
qed


section \<open>Example\<close>

definition example_frame :: "nat \<Rightarrow> nat \<Rightarrow> AllocatedFrame" where
  "example_frame w h = \<lparr>af_width = of_nat w, af_height = of_nat h, af_size = w * h * 3 div 2\<rparr>"

definition example_jpeg_env :: jpeg_env where
  "example_jpeg_env = \<lparr>je_scale_thumb = 0, je_scale_main = 0, je_thumb_code = (0, 9000), je_app1 = True, je_lock = True,
     je_code = (0, 250000), je_rel_fence = - 1\<rparr>"

definition example_jpeg_buffer :: HalStreamBuffer where
  "example_jpeg_buffer = \<lparr>hb_streamId = 1, hb_bufferId = 7, hb_width = of_nat 1280, hb_height = of_nat 800, hb_format = BLOB,
     bufPtr = EmptyBuffer, acquireFence = - 1, fenceTimeout = False\<rparr>"

theorem jpeg_created_witness:
  "\<exists>o1 p'. createJpegLocked VERTICAL (getJpegBufferSize (of_nat 1280, of_nat 800) (Some 5242880)) example_jpeg_env
      \<lparr>jpeg_quality = Some 90, thumb_quality = Some 80, thumb_size = Some (of_nat 176, of_nat 144)\<rparr>
      (example_frame 1280 800) (example_frame 240 180) 0 example_jpeg_buffer \<lparr>mScaledYu12Frames = [], mIntermediateBuffers = []\<rparr> =
      Some (0, Some o1, example_jpeg_buffer, p') \<and>
    262152 \<le> jo_size o1 \<and> jo_size o1 \<le> 5242880 \<and> jo_blob_at o1 + 8 = jo_size o1 \<and> unat (jo_blob_size o1) = 250000"
proof -
  have "small_size (of_nat 1280) (of_nat 800)" by (simp add: small_size_def)
  then show ?thesis
    using jpeg_created [where setting = "\<lparr>jpeg_quality = Some 90, thumb_quality = Some 80, thumb_size = Some (of_nat 176, of_nat 144)\<rparr>"
        and w = 176 and h = 144 and f = "example_frame 1280 800" and W = 1280 and H = 800 and t = "example_frame 240 180"
        and tw = 240 and th = 180 and ct = VERTICAL and e = example_jpeg_env and b = example_jpeg_buffer and blob = 0
        and p = "\<lparr>mScaledYu12Frames = [], mIntermediateBuffers = []\<rparr>" and mx = "(of_nat 1280, of_nat 800)" and mb = 5242880]
    by (auto simp: example_frame_def example_jpeg_env_def example_jpeg_buffer_def kMinJpegBufferSize_def CameraBlob_size_def)
qed

theorem wide_thumbnail_rows_overlap_witness:
  "\<exists>c. cropAndScaleThumbLocked 0 (example_frame 1280 800) (example_frame 240 180) (of_nat 256, of_nat 144) = Some (0, Some c) \<and>
    l_y (tc_out c) + int (unat (yStride (tc_out c)) * 3 + 250) = l_y (tc_out c) + int (unat (yStride (tc_out c)) * 4 + 10)"
proof -
  obtain c where c: "cropAndScaleThumbLocked 0 (example_frame 1280 800) (example_frame 240 180) (of_nat 256, of_nat 144) = Some (0, Some c)"
    using thumb_shows [of "example_frame 1280 800" 1280 800 "example_frame 240 180" 240 180 256 144 0]
    by (auto simp: example_frame_def)
  show ?thesis
    using wide_thumbnail_rows_overlap [OF c, of 240 180 250 3] c by (auto simp: example_frame_def)
qed

end
