(* ===== verification/Rga_Crop.thy ===== *)
theory Rga_Crop
  imports VC_Prelude
begin

text \<open>
  Cropping and scaling with the raster graphics engine (\<open>camera_vir/device/RgaCropScale.cpp\<close>): the choice of the
  source rectangle of a blit in whole percents, and the checks before a blit. The engine is a parameter that
  answers a blit of two images with a status.
\<close>

section \<open>A blit\<close>

datatype rga_format = NV12 | NV21 | OtherRga int

record rga_rect =
  xoffset :: int
  yoffset :: int
  rwidth :: int
  rheight :: int
  wstride :: int
  hstride :: int
  rformat :: rga_format

text \<open>An image is a descriptor, or an address when the descriptor is \<open>-1\<close>.\<close>

record rga_info =
  rga_fd :: int
  virAddr :: u64
  rect :: rga_rect
  flip_h :: bool

definition rga_set_rect :: "int \<Rightarrow> int \<Rightarrow> int \<Rightarrow> int \<Rightarrow> int \<Rightarrow> int \<Rightarrow> rga_format \<Rightarrow> rga_rect" where
  "rga_set_rect x y w h sw sh f = \<lparr>xoffset = x, yoffset = y, rwidth = w, rheight = h, wstride = sw, hstride = sh, rformat = f\<rparr>"

text \<open>The sizes the engine can address, which depend on its version.\<close>

record rga =
  RGA_VIRTUAL_W :: int
  RGA_VIRTUAL_H :: int
  RkRgaBlit :: "rga_info \<Rightarrow> rga_info \<Rightarrow> int"

section \<open>Scaling a picture as it is given\<close>

record Params =
  p_fd :: int
  vir_addr :: u64
  p_fmt :: rga_format
  offset_x :: int
  offset_y :: int
  width_stride :: int
  height_stride :: int
  p_width :: int
  p_height :: int
  p_mirror :: bool

definition params_image :: "Params \<Rightarrow> bool \<Rightarrow> rga_info" where
  "params_image p flip = \<lparr>rga_fd = p_fd p, virAddr = (if p_fd p = - 1 then vir_addr p else 0),
     rect = rga_set_rect (offset_x p) (offset_y p) (p_width p) (p_height p) (width_stride p) (height_stride p) (p_fmt p),
     flip_h = flip\<rparr>"

definition CropScaleNV12Or21 :: "rga \<Rightarrow> Params option \<Rightarrow> Params option \<Rightarrow> int" where
  "CropScaleNV12Or21 r inp outp =
     (case (inp, outp) of (Some i, Some out) \<Rightarrow>
        if p_width out > RGA_VIRTUAL_W r \<or> p_height out > RGA_VIRTUAL_H r then - 1
        else if p_fmt i \<noteq> NV12 \<and> p_fmt i \<noteq> NV21 \<or> p_fmt out \<noteq> NV12 \<and> p_fmt out \<noteq> NV21 then - 1
        else if RkRgaBlit r (params_image i (p_mirror i)) (params_image out False) \<noteq> 0 then - 1
        else 0
      | _ \<Rightarrow> - 1)"

section \<open>Cropping to the shape of the output\<close>

text \<open>\<open>a * 100 / b\<close>, and \<open>x & ~0x01\<close>.\<close>

definition percent :: "int \<Rightarrow> int \<Rightarrow> int option" where
  "percent a b = do { x \<leftarrow> c_int (a * 100); c_div x b }"

definition even_part :: "int \<Rightarrow> int" where
  "even_part x = x AND NOT 1"

text \<open>Half of what is left beside the crop; \<open>>> 1\<close> keeps the sign.\<close>

definition margin :: "int \<Rightarrow> int \<Rightarrow> int option" where
  "margin whole crop = do { d \<leftarrow> c_int (whole - crop); Some (even_part (drop_bit 1 d)) }"

text \<open>The first choice: width, height, left and top of the rectangle.\<close>

definition shape_crop :: "bool \<Rightarrow> int \<Rightarrow> int \<Rightarrow> int \<Rightarrow> int \<Rightarrow> (int \<times> int \<times> int \<times> int) option" where
  "shape_crop isNeedCrop sw sh dw dh = do {
     differs \<leftarrow> (if isNeedCrop then do { a \<leftarrow> percent sw sh; b \<leftarrow> percent dw dh; Some (a \<noteq> b) } else Some False);
     if differs then do {
       x \<leftarrow> percent sw dw;
       y \<leftarrow> percent sh dh;
       let ratio = (if x \<ge> y then y else x);
       w \<leftarrow> c_int (ratio * dw);
       w \<leftarrow> c_div w 100;
       h \<leftarrow> c_int (ratio * dh);
       h \<leftarrow> c_div h 100;
       l \<leftarrow> margin sw (even_part w);
       t \<leftarrow> margin sh (even_part h);
       Some (even_part w, even_part h, l, t) }
     else Some (sw, sh, 0, 0) }"

definition zoom_crop :: "int \<Rightarrow> int \<Rightarrow> int \<Rightarrow> int \<times> int \<times> int \<times> int \<Rightarrow> (int \<times> int \<times> int \<times> int) option" where
  "zoom_crop zoom_val sw sh crop = (case crop of (w, h, l, t) \<Rightarrow>
     if zoom_val > 100 then do {
       w \<leftarrow> percent w zoom_val;
       h \<leftarrow> percent h zoom_val;
       l \<leftarrow> margin sw (even_part w);
       t \<leftarrow> margin sh (even_part h);
       Some (even_part w, even_part h, l, t) }
     else Some (w, h, l, t))"

definition source_rect :: "bool \<Rightarrow> int \<Rightarrow> bool \<Rightarrow> int \<Rightarrow> int \<Rightarrow> int \<Rightarrow> int \<Rightarrow> (int \<times> int \<times> int \<times> int) option" where
  "source_rect isNeedCrop zoom_val is16Align sw sh dw dh = do {
     crop \<leftarrow> shape_crop isNeedCrop sw sh dw dh;
     (w, h, l, t) \<leftarrow> zoom_crop zoom_val sw sh crop;
     Some (w, h, l, if is16Align then t else t AND NOT 7) }"

text \<open>The whole function; the two descriptors are given as unsigned longs, one of which may be an address.\<close>

definition rga_nv12_scale_crop ::
  "rga \<Rightarrow> int \<Rightarrow> int \<Rightarrow> u64 \<Rightarrow> u64 \<Rightarrow> int \<Rightarrow> int \<Rightarrow> int \<Rightarrow> bool \<Rightarrow> bool \<Rightarrow> bool \<Rightarrow> bool \<Rightarrow> bool \<Rightarrow> int option" where
  "rga_nv12_scale_crop r src_width src_height src_fd dst_fd dst_width dst_height zoom_val mirror isNeedCrop isDstNV21 is16Align
      isYuyvFormat =
     (if dst_width > RGA_VIRTUAL_W r \<or> dst_height > RGA_VIRTUAL_H r then Some (- 1)
      else do {
        (w, h, l, t) \<leftarrow> source_rect isNeedCrop zoom_val is16Align src_width src_height dst_width dst_height;
        let src = \<lparr>rga_fd = (if isYuyvFormat then - 1 else sint (ucast src_fd :: u32)),
          virAddr = (if isYuyvFormat then src_fd else 0),
          rect = rga_set_rect l t w h src_width src_height NV12, flip_h = mirror\<rparr>;
        let dst = \<lparr>rga_fd = sint (ucast dst_fd :: u32), virAddr = 0,
          rect = rga_set_rect 0 0 dst_width dst_height dst_width dst_height (if isDstNV21 then NV21 else NV12), flip_h = False\<rparr>;
        Some (RkRgaBlit r src dst) })"

section \<open>The properties\<close>

text \<open>Sizes as the callers have them: far below the overflow of a multiplication by 100.\<close>

definition picture_size :: "int \<Rightarrow> bool" where
  "picture_size x \<longleftrightarrow> 0 < x \<and> x \<le> 2 ^ 16"

lemma clear_low_bits: "(x :: int) AND NOT (2 ^ n - 1) = x - x mod 2 ^ n"
proof -
  have "x AND NOT (mask n) = push_bit n (drop_bit n x)"
    by (rule bit_eqI) (auto simp: bit_simps not_le)
  then show ?thesis by (simp add: mask_eq_exp_minus_1 push_bit_eq_mult drop_bit_eq_div minus_mod_eq_div_mult)
qed

lemma even_part_eq: "even_part x = x - x mod 2" "(x :: int) AND NOT 7 = x - x mod 8"
  using clear_low_bits [of x 1] clear_low_bits [of x 3] by (simp_all add: even_part_def)

lemma c_div_nonneg:
  assumes "0 \<le> a" "a \<le> 2147483647" "0 < b"
  shows "c_div a b = Some (a div b)"
proof -
  have "a div b \<le> a" using assms zdiv_mono2 [of a 1 b] by simp
  moreover have "0 \<le> a div b" using assms by (simp add: pos_imp_zdiv_nonneg_iff)
  ultimately show ?thesis using assms by (cases "a = 0") (auto simp: c_simps)
qed

lemma percent_eq:
  assumes "0 \<le> a" "a \<le> 2 ^ 16" "0 < b"
  shows "percent a b = Some (a * 100 div b)"
  using assms by (simp add: percent_def c_int_def in_int_def c_div_nonneg)

lemma margin_eq:
  assumes "0 \<le> crop" "crop \<le> whole" "whole \<le> 2 ^ 16"
  shows "margin whole crop = Some (even_part ((whole - crop) div 2))"
  using assms by (simp add: margin_def c_simps drop_bit_eq_div)

text \<open>A margin leaves room for the crop.\<close>

lemma margin_fits:
  fixes crop whole :: int
  assumes "0 \<le> crop" "crop \<le> whole"
  shows "0 \<le> even_part ((whole - crop) div 2)" "even_part ((whole - crop) div 2) + crop \<le> whole"
    "even (even_part ((whole - crop) div 2))" "whole - crop - 4 < 2 * even_part ((whole - crop) div 2)"
  using assms unfolding even_part_eq by (presburger+)

text \<open>One side of the crop: the scaled output side, by a ratio that is no more than the input allows.\<close>

lemma scaled_side:
  fixes ratio d s :: int
  assumes "0 \<le> ratio" "ratio \<le> s * 100 div d" "picture_size d" "picture_size s"
  shows "c_int (ratio * d) = Some (ratio * d)" "c_div (ratio * d) 100 = Some (ratio * d div 100)"
    "0 \<le> ratio * d div 100" "ratio * d div 100 \<le> s"
proof -
  have "ratio * d \<le> s * 100 div d * d" using assms by (simp add: picture_size_def mult_right_mono)
  also have "\<dots> \<le> s * 100" using assms(3) div_mult_mod_eq [of "s * 100" d] pos_mod_sign [of d "s * 100"]
    unfolding picture_size_def by linarith
  finally have le: "ratio * d \<le> s * 100" .
  have nonneg: "0 \<le> ratio * d" using assms by (simp add: picture_size_def)
  show "c_int (ratio * d) = Some (ratio * d)" using le nonneg assms(4) by (simp add: c_simps picture_size_def)
  show "0 \<le> ratio * d div 100" "ratio * d div 100 \<le> s" using le nonneg by (simp_all add: pos_imp_zdiv_nonneg_iff)
  show "c_div (ratio * d) 100 = Some (ratio * d div 100)"
    by (rule c_div_nonneg) (use le nonneg assms(4) in \<open>simp_all add: picture_size_def\<close>)
qed

definition fits :: "int \<Rightarrow> int \<Rightarrow> int \<times> int \<times> int \<times> int \<Rightarrow> bool" where
  "fits sw sh crop = (case crop of (w, h, l, t) \<Rightarrow>
     0 \<le> l \<and> 0 \<le> t \<and> 0 \<le> w \<and> 0 \<le> h \<and> l + w \<le> sw \<and> t + h \<le> sh \<and> even l \<and> even t)"

lemma even_part_bounds: "0 \<le> x \<Longrightarrow> 0 \<le> even_part x" "even_part x \<le> x" "x - 2 < even_part x" "even (even_part x)"
  unfolding even_part_eq by presburger+

lemma shape_crop_ok:
  assumes size: "picture_size sw" "picture_size sh" "picture_size dw" "picture_size dh"
  shows "\<exists>w h l t. shape_crop need sw sh dw dh = Some (w, h, l, t) \<and> fits sw sh (w, h, l, t) \<and>
    (need \<and> sw * 100 div sh \<noteq> dw * 100 div dh \<longrightarrow>
      \<bar>w * dh - h * dw\<bar> \<le> 2 * max dw dh \<and> (100 * (sw - w) < dw + 199 \<or> 100 * (sh - h) < dh + 199))"
proof (cases "need \<and> sw * 100 div sh \<noteq> dw * 100 div dh")
  case False
  then show ?thesis using size
    by (auto simp: shape_crop_def percent_eq picture_size_def fits_def)
next
  case True
  define x where "x = sw * 100 div dw"
  define y where "y = sh * 100 div dh"
  define r where "r = (if x \<ge> y then y else x)"
  have r: "0 \<le> r" "r \<le> sw * 100 div dw" "r \<le> sh * 100 div dh"
    using size by (auto simp: r_def x_def y_def picture_size_def pos_imp_zdiv_nonneg_iff)
  define w where "w = even_part (r * dw div 100)"
  define h where "h = even_part (r * dh div 100)"
  note sw = scaled_side [OF r(1,2) size(3,1)] and sh = scaled_side [OF r(1,3) size(4,2)]
  have w: "0 \<le> w" "w \<le> sw" and h: "0 \<le> h" "h \<le> sh"
    using sw(3,4) sh(3,4) even_part_bounds [of "r * dw div 100"] even_part_bounds [of "r * dh div 100"]
    by (auto simp: w_def h_def)
  have run: "shape_crop need sw sh dw dh = Some (w, h, even_part ((sw - w) div 2), even_part ((sh - h) div 2))"
    using True size sw(1,2) sh(1,2) margin_eq [OF w] margin_eq [OF h]
    by (simp add: shape_crop_def percent_eq picture_size_def r_def [symmetric] x_def [symmetric] y_def [symmetric]
        w_def [symmetric] h_def [symmetric])
  have ok: "fits sw sh (w, h, even_part ((sw - w) div 2), even_part ((sh - h) div 2))"
    using w h margin_fits [OF w] margin_fits [OF h] by (auto simp: fits_def)
  have low: "r * dw - 199 \<le> 100 * w" "100 * w \<le> r * dw" "r * dh - 199 \<le> 100 * h" "100 * h \<le> r * dh"
    unfolding w_def h_def even_part_eq by presburger+
  have "(100 * w) * dh \<le> r * dw * dh" "(r * dh - 199) * dw \<le> (100 * h) * dw"
    "(r * dw - 199) * dh \<le> (100 * w) * dh" "(100 * h) * dw \<le> r * dh * dw"
    using low size by (intro mult_right_mono; simp add: picture_size_def)+
  then have "100 * (w * dh - h * dw) \<le> 199 * dw" "100 * (h * dw - w * dh) \<le> 199 * dh"
    by (simp_all add: algebra_simps)
  then have shape: "\<bar>w * dh - h * dw\<bar> \<le> 2 * max dw dh" using size by (simp add: picture_size_def max_def abs_if)
  have "sw * 100 - dw < r * dw \<or> sh * 100 - dh < r * dh"
  proof (cases "x \<ge> y")
    case True
    then have "r * dh = sh * 100 - sh * 100 mod dh" by (simp add: r_def y_def minus_mod_eq_div_mult)
    then show ?thesis using pos_mod_bound [of dh "sh * 100"] size(4) unfolding picture_size_def by linarith
  next
    case False
    then have "r * dw = sw * 100 - sw * 100 mod dw" by (simp add: r_def x_def minus_mod_eq_div_mult)
    then show ?thesis using pos_mod_bound [of dw "sw * 100"] size(3) unfolding picture_size_def by linarith
  qed
  moreover have "sw * 100 - dw < r * dw \<Longrightarrow> 100 * (sw - w) < dw + 199" using low(1) by (simp add: algebra_simps)
  moreover have "sh * 100 - dh < r * dh \<Longrightarrow> 100 * (sh - h) < dh + 199" using low(3) by (simp add: algebra_simps)
  ultimately have "100 * (sw - w) < dw + 199 \<or> 100 * (sh - h) < dh + 199" by blast
  then show ?thesis using run ok shape by blast
qed

lemma zoom_crop_ok:
  assumes "fits sw sh c" "picture_size sw" "picture_size sh"
  shows "\<exists>c'. zoom_crop z sw sh c = Some c' \<and> fits sw sh c'"
proof -
  obtain w h l t where c: "c = (w, h, l, t)" by (cases c)
  have wh: "0 \<le> w" "w \<le> sw" "0 \<le> h" "h \<le> sh" using assms(1) by (auto simp: c fits_def)
  show ?thesis
  proof (cases "z > 100")
    case True
    have zoomed: "percent x z = Some (x * 100 div z)" "0 \<le> even_part (x * 100 div z)" "even_part (x * 100 div z) \<le> s"
      if x: "0 \<le> x" "x \<le> s" "picture_size s" for x s
    proof -
      show "percent x z = Some (x * 100 div z)" by (rule percent_eq) (use x True in \<open>simp_all add: picture_size_def\<close>)
      have "x * 100 div z \<le> x * 100 div 100" using x(1) True by (intro zdiv_mono2) auto
      moreover have "0 \<le> x * 100 div z" using x(1) True by (simp add: pos_imp_zdiv_nonneg_iff)
      ultimately show "0 \<le> even_part (x * 100 div z)" "even_part (x * 100 div z) \<le> s"
        using x(2) even_part_bounds [of "x * 100 div z"] by auto
    qed
    note W = zoomed [OF wh(1,2) assms(2)] and H = zoomed [OF wh(3,4) assms(3)]
    show ?thesis
      using True W H margin_eq [OF W(2,3)] margin_eq [OF H(2,3)] margin_fits [OF W(2,3)] margin_fits [OF H(2,3)] assms(2,3)
      by (simp add: c zoom_crop_def fits_def picture_size_def)
  qed (use assms(1) c in \<open>simp add: zoom_crop_def\<close>)
qed

text \<open>C25: The rectangle handed to the raster engine lies in the source. For pictures of up to 65536 rows and columns, whatever the
  zoom, the computation has no overflow, and the rectangle it chooses is inside the source picture, at an even
  offset, a multiple of 8 from the top when the picture is not aligned to 16 rows. When the shapes of source and output
  differ by a percent and there is no zoom, the rectangle has the shape of the output up to two samples of
  a side, and reaches along one side of the source up to two samples and a hundredth of the output.\<close>

theorem rga_source_in_picture:
  assumes "picture_size sw" "picture_size sh" "picture_size dw" "picture_size dh"
  shows "\<exists>w h l t. source_rect need z aligned sw sh dw dh = Some (w, h, l, t) \<and>
    0 \<le> l \<and> 0 \<le> t \<and> 0 \<le> w \<and> 0 \<le> h \<and> l + w \<le> sw \<and> t + h \<le> sh \<and> even l \<and> even t \<and> (\<not> aligned \<longrightarrow> 8 dvd t) \<and>
    (need \<and> sw * 100 div sh \<noteq> dw * 100 div dh \<and> z \<le> 100 \<longrightarrow>
      \<bar>w * dh - h * dw\<bar> \<le> 2 * max dw dh \<and> (100 * (sw - w) < dw + 199 \<or> 100 * (sh - h) < dh + 199))"
proof -
  obtain w h l t where c: "shape_crop need sw sh dw dh = Some (w, h, l, t)" "fits sw sh (w, h, l, t)"
    "need \<and> sw * 100 div sh \<noteq> dw * 100 div dh \<longrightarrow>
      \<bar>w * dh - h * dw\<bar> \<le> 2 * max dw dh \<and> (100 * (sw - w) < dw + 199 \<or> 100 * (sh - h) < dh + 199)"
    using shape_crop_ok [OF assms] by blast
  obtain w' h' l' t' where z: "zoom_crop z sw sh (w, h, l, t) = Some (w', h', l', t')" "fits sw sh (w', h', l', t')"
    using zoom_crop_ok [OF c(2) assms(1,2)] by (metis prod_cases4)
  have same: "z \<le> 100 \<Longrightarrow> w' = w \<and> h' = h" using z(1) by (simp add: zoom_crop_def)
  have "0 \<le> t' \<Longrightarrow> 0 \<le> t' - t' mod 8" "t' - t' mod 8 \<le> t'" "8 dvd t' - t' mod 8" "even t' \<Longrightarrow> even (t' - t' mod 8)" by presburger+
  moreover have "source_rect need z aligned sw sh dw dh = Some (w', h', l', if aligned then t' else t' - t' mod 8)"
    unfolding source_rect_def even_part_eq(2) by (simp add: c(1) z(1))
  moreover have "t' - t' mod 8 + h' \<le> sh" using z(2) pos_mod_sign [of 8 t'] unfolding fits_def prod.case by linarith
  ultimately show ?thesis using c(3) z(2) same by (simp add: fits_def)
qed

text \<open>A wide source for a square output is cropped in the middle; with twice the zoom, again.\<close>

theorem rga_source_in_picture_witness:
  "source_rect True 100 True 1280 800 640 640 = Some (800, 800, 240, 0) \<and>
   (\<exists>w h l t. source_rect True 100 True 1280 800 640 640 = Some (w, h, l, t) \<and> l + w \<le> 1280 \<and> \<bar>w * 640 - h * 640\<bar> \<le> 2 * max 640 640)"
proof -
  have "picture_size 1280" "picture_size 800" "picture_size 640" by (simp_all add: picture_size_def)
  note inside = rga_source_in_picture [OF this(1,2,3,3), of True 100 True]
  have "source_rect True 100 True 1280 800 640 640 = Some (800, 800, 240, 0)" by code_simp
  then show ?thesis using inside by auto
qed

end
