(* ===== verification/Camera_Config.thy ===== *)
theory Camera_Config
  imports Camera_Session Complex_Main "HOL-Library.Multiset"
begin

text \<open>
  The configuration of the camera HAL (\<open>VirtualCameraConfig\<close> in \<open>camera_vir/device/VirtualCameraUtils.cpp\<close>):
  the defaults, \<open>loadFromCfg\<close>, which reads an XML document and returns early in several places, and
  \<open>updateFpsList\<close>. tinyxml2 is used through an element tree; its conversions of attribute texts to
  numbers are parameters.
\<close>

section \<open>Documents\<close>

datatype xml = Element (el_name: string) (el_text: "string option") (el_attrs: "(string \<times> string) list") (el_children: "xml list")

text \<open>\<open>FirstChildElement\<close>; the elements of one name, in order, are what \<open>FirstChildElement\<close> and then
  \<open>NextSiblingElement\<close> visit.\<close>

definition children_named :: "string \<Rightarrow> xml \<Rightarrow> xml list" where
  "children_named n e = filter (\<lambda>c. el_name c = n) (el_children e)"

definition first_child :: "string \<Rightarrow> xml \<Rightarrow> xml option" where
  "first_child n e = (case children_named n e of [] \<Rightarrow> None | c # _ \<Rightarrow> Some c)"

text \<open>\<open>UnsignedAttribute\<close> and its like return the default for an attribute that is missing or does not convert.\<close>

definition attr_or :: "(string \<Rightarrow> 'a option) \<Rightarrow> string \<Rightarrow> 'a \<Rightarrow> xml \<Rightarrow> 'a" where
  "attr_or conv n d e = (case map_of (el_attrs e) n of None \<Rightarrow> d | Some s \<Rightarrow> (case conv s of None \<Rightarrow> d | Some v \<Rightarrow> v))"

record xml_conv =
  to_unsigned :: "string \<Rightarrow> u32 option"
  to_sint :: "string \<Rightarrow> int option"
  to_double :: "string \<Rightarrow> rat option"
  to_boolean :: "string \<Rightarrow> bool option"

section \<open>The configuration\<close>

record FpsLimitation =
  lim_width :: u32
  lim_height :: u32
  fpsUpperBound :: rat

record VirtualCameraConfig =
  cameraIdOffset :: u32
  mInternalDevices :: "string set"
  maxJpegBufSize :: u32
  cfg_numVideoBuffers :: u32
  cfg_numStillBuffers :: u32
  cfg_depthEnabled :: bool
  fpsLimits :: "FpsLimitation list"
  depthFpsLimits :: "FpsLimitation list"
  minStreamSize :: "u32 \<times> u32"
  cfg_orientation :: int
  snsName :: string

definition kDefaultJpegBufSize :: u32 where "kDefaultJpegBufSize = push_bit 20 5"
definition kDefaultNumVideoBuffer :: u32 where "kDefaultNumVideoBuffer = 4"
definition kDefaultNumStillBuffer :: u32 where "kDefaultNumStillBuffer = 2"

definition default_config :: VirtualCameraConfig where
  "default_config = \<lparr>cameraIdOffset = 200, mInternalDevices = {}, maxJpegBufSize = kDefaultJpegBufSize,
     cfg_numVideoBuffers = kDefaultNumVideoBuffer, cfg_numStillBuffers = kDefaultNumStillBuffer, cfg_depthEnabled = False,
     fpsLimits = [\<lparr>lim_width = 640, lim_height = 480, fpsUpperBound = 30\<rparr>, \<lparr>lim_width = 1280, lim_height = 720, fpsUpperBound = 15 / 2\<rparr>,
       \<lparr>lim_width = 1920, lim_height = 1080, fpsUpperBound = 5\<rparr>],
     depthFpsLimits = [], minStreamSize = (0, 0), cfg_orientation = 0, snsName = []\<rparr>"

section \<open>updateFpsList\<close>

definition read_limit :: "xml_conv \<Rightarrow> xml \<Rightarrow> FpsLimitation" where
  "read_limit cv row = \<lparr>lim_width = attr_or (to_unsigned cv) ''width'' 0 row, lim_height = attr_or (to_unsigned cv) ''height'' 0 row,
     fpsUpperBound = attr_or (to_double cv) ''fpsBound'' 1000 row\<rparr>"

text \<open>The limit each row is compared with is declared inside the loop, so it is always the initial one.\<close>

definition out_of_order :: "FpsLimitation \<Rightarrow> FpsLimitation \<Rightarrow> bool" where
  "out_of_order prevLimit limit \<longleftrightarrow> lim_width limit \<le> lim_width prevLimit \<or> lim_height limit \<le> lim_height prevLimit \<or>
     fpsUpperBound prevLimit \<le> fpsUpperBound limit"

definition prevLimit0 :: FpsLimitation where
  "prevLimit0 = \<lparr>lim_width = 0, lim_height = 0, fpsUpperBound = 1000\<rparr>"

fun fps_rows :: "xml_conv \<Rightarrow> xml list \<Rightarrow> FpsLimitation list \<Rightarrow> FpsLimitation list option" where
  "fps_rows cv [] limits = Some limits"
| "fps_rows cv (row # rows) limits =
     (let limit = read_limit cv row in if out_of_order prevLimit0 limit then None else fps_rows cv rows (limits @ [limit]))"

definition updateFpsList :: "xml_conv \<Rightarrow> xml \<Rightarrow> FpsLimitation list \<Rightarrow> bool \<times> FpsLimitation list" where
  "updateFpsList cv fpsList old =
     (case fps_rows cv (children_named ''Limit'' fpsList) [] of None \<Rightarrow> (False, old) | Some limits \<Rightarrow> (True, limits))"

section \<open>loadFromCfg\<close>

text \<open>The part under \<open>Device\<close>. A rejected list ends the reading, what was read before it is kept. A \<open>Sensor\<close>
  without a name is undefined: \<open>std::string\<close> of a null pointer.\<close>

definition load_sizes :: "xml_conv \<Rightarrow> xml \<Rightarrow> VirtualCameraConfig \<Rightarrow> VirtualCameraConfig" where
  "load_sizes cv dev c =
     (let c = (case first_child ''MaxJpegBufferSize'' dev of None \<Rightarrow> c
               | Some e \<Rightarrow> c\<lparr>maxJpegBufSize := attr_or (to_unsigned cv) ''bytes'' kDefaultJpegBufSize e\<rparr>);
          c = (case first_child ''NumVideoBuffers'' dev of None \<Rightarrow> c
               | Some e \<Rightarrow> c\<lparr>cfg_numVideoBuffers := attr_or (to_unsigned cv) ''count'' kDefaultNumVideoBuffer e\<rparr>)
      in (case first_child ''NumStillBuffers'' dev of None \<Rightarrow> c
               | Some e \<Rightarrow> c\<lparr>cfg_numStillBuffers := attr_or (to_unsigned cv) ''count'' kDefaultNumStillBuffer e\<rparr>))"

definition load_rest :: "xml_conv \<Rightarrow> xml \<Rightarrow> VirtualCameraConfig \<Rightarrow> VirtualCameraConfig option" where
  "load_rest cv dev c =
     (let c = (case first_child ''MinimumStreamSize'' dev of None \<Rightarrow> c
               | Some e \<Rightarrow> c\<lparr>minStreamSize := (attr_or (to_unsigned cv) ''width'' 0 e, attr_or (to_unsigned cv) ''height'' 0 e)\<rparr>);
          c = (case first_child ''Orientation'' dev of None \<Rightarrow> c
               | Some e \<Rightarrow> c\<lparr>cfg_orientation := attr_or (to_sint cv) ''degree'' 0 e\<rparr>)
      in case first_child ''Sensor'' dev of None \<Rightarrow> Some c
         | Some e \<Rightarrow> (case map_of (el_attrs e) ''name'' of None \<Rightarrow> None | Some s \<Rightarrow> Some (c\<lparr>snsName := s\<rparr>)))"

definition load_device :: "xml_conv \<Rightarrow> xml \<Rightarrow> VirtualCameraConfig \<Rightarrow> VirtualCameraConfig option" where
  "load_device cv dev c =
     (let c = load_sizes cv dev c;
          (ok, limits) = (case first_child ''FpsList'' dev of None \<Rightarrow> (True, fpsLimits c) | Some l \<Rightarrow> updateFpsList cv l (fpsLimits c));
          c = c\<lparr>fpsLimits := limits\<rparr>
      in if \<not> ok then Some c
         else
           let c = c\<lparr>cfg_depthEnabled := (case first_child ''Depth16Supported'' dev of None \<Rightarrow> False
                     | Some e \<Rightarrow> attr_or (to_boolean cv) ''enabled'' False e)\<rparr>;
               (ok, limits) = (if cfg_depthEnabled c
                     then (case first_child ''DepthFpsList'' dev of None \<Rightarrow> (True, depthFpsLimits c)
                           | Some l \<Rightarrow> updateFpsList cv l (depthFpsLimits c))
                     else (True, depthFpsLimits c));
               c = c\<lparr>depthFpsLimits := limits\<rparr>
           in if \<not> ok then Some c else load_rest cv dev c)"

text \<open>\<open>atoi\<close> of a null pointer is undefined. \<open>roots\<close> are the top elements of the document, none when it cannot be
  loaded.\<close>

definition loadFromCfg :: "xml_conv \<Rightarrow> xml list \<Rightarrow> VirtualCameraConfig option" where
  "loadFromCfg cv roots =
     (let ret = default_config in
      case filter (\<lambda>c. el_name c = ''VirtualCamera'') roots of [] \<Rightarrow> Some ret
      | extCam # _ \<Rightarrow>
          (case first_child ''Provider'' extCam of None \<Rightarrow> Some ret
           | Some providerCfg \<Rightarrow> do {
               ret \<leftarrow> (case first_child ''CameraIdOffset'' providerCfg of None \<Rightarrow> Some ret
                       | Some e \<Rightarrow> do { s \<leftarrow> el_text e; v \<leftarrow> c_atoi s; Some (ret\<lparr>cameraIdOffset := word_of_int v\<rparr>) });
               case first_child ''ignore'' providerCfg of None \<Rightarrow> Some ret
               | Some ignore \<Rightarrow>
                   let ret = ret\<lparr>mInternalDevices := set (List.map_filter el_text (children_named ''id'' ignore))\<rparr> in
                   case first_child ''Device'' extCam of None \<Rightarrow> Some ret
                   | Some deviceCfg \<Rightarrow> load_device cv deviceCfg ret }))"


lemma first_child_simps [simp]:
  "first_child n (Element m t as []) = None"
  "first_child n (Element m t as (c # cs)) = (if el_name c = n then Some c else first_child n (Element m t as cs))"
  by (simp_all add: first_child_def children_named_def)

section \<open>The limits\<close>

lemma fps_rows_eq:
  "fps_rows cv rows acc =
    (if \<forall>row \<in> set rows. \<not> out_of_order prevLimit0 (read_limit cv row) then Some (acc @ map (read_limit cv) rows) else None)"
  by (induction rows arbitrary: acc) (auto simp: Let_def)

text \<open>A flaw of the code. The message of \<open>updateFpsList\<close> says that the limits must have increasing sizes and
  decreasing rates, but each row is compared with the same initial limit. So a list is accepted exactly when each of its rows,
  by itself, has a positive size and a rate below 1000; then it is taken as it is, and so is every rearrangement of it.
  A rejected list leaves the limits as they were.\<close>

theorem fps_list_order_unchecked:
  "updateFpsList cv e old =
     (if \<forall>row \<in> set (children_named ''Limit'' e). 0 < lim_width (read_limit cv row) \<and> 0 < lim_height (read_limit cv row) \<and>
         fpsUpperBound (read_limit cv row) < 1000
      then (True, map (read_limit cv) (children_named ''Limit'' e)) else (False, old)) \<and>
   (mset (children_named ''Limit'' e') = mset (children_named ''Limit'' e) \<longrightarrow>
     fst (updateFpsList cv e' old) = fst (updateFpsList cv e old))"
proof -
  have ok: "\<not> out_of_order prevLimit0 l \<longleftrightarrow> 0 < lim_width l \<and> 0 < lim_height l \<and> fpsUpperBound l < 1000" for l
    by (auto simp: out_of_order_def prevLimit0_def word_neq_0_conv not_le)
  have "set (children_named ''Limit'' e') = set (children_named ''Limit'' e)"
    if "mset (children_named ''Limit'' e') = mset (children_named ''Limit'' e)"
    using that by (metis set_mset_mset)
  then show ?thesis by (auto simp: updateFpsList_def fps_rows_eq ok)
qed

section \<open>Writing a configuration\<close>

text \<open>The document that describes a configuration, with its parts in the order of the reader.\<close>

record xml_print =
  show_unsigned :: "u32 \<Rightarrow> string"
  show_sint :: "int \<Rightarrow> string"
  show_double :: "rat \<Rightarrow> string"
  show_boolean :: "bool \<Rightarrow> string"

definition show_limit :: "xml_print \<Rightarrow> FpsLimitation \<Rightarrow> xml" where
  "show_limit pr l = Element ''Limit'' None [(''width'', show_unsigned pr (lim_width l)), (''height'', show_unsigned pr (lim_height l)),
     (''fpsBound'', show_double pr (fpsUpperBound l))] []"

definition show_config :: "xml_print \<Rightarrow> string list \<Rightarrow> VirtualCameraConfig \<Rightarrow> xml" where
  "show_config pr ids c = Element ''VirtualCamera'' None [] [
     Element ''Provider'' None [] [
       Element ''CameraIdOffset'' (Some (dec (unat (cameraIdOffset c)))) [] [],
       Element ''ignore'' None [] (map (\<lambda>s. Element ''id'' (Some s) [] []) ids)],
     Element ''Device'' None [] [
       Element ''MaxJpegBufferSize'' None [(''bytes'', show_unsigned pr (maxJpegBufSize c))] [],
       Element ''NumVideoBuffers'' None [(''count'', show_unsigned pr (cfg_numVideoBuffers c))] [],
       Element ''NumStillBuffers'' None [(''count'', show_unsigned pr (cfg_numStillBuffers c))] [],
       Element ''FpsList'' None [] (map (show_limit pr) (fpsLimits c)),
       Element ''Depth16Supported'' None [(''enabled'', show_boolean pr (cfg_depthEnabled c))] [],
       Element ''DepthFpsList'' None [] (map (show_limit pr) (depthFpsLimits c)),
       Element ''MinimumStreamSize'' None [(''width'', show_unsigned pr (fst (minStreamSize c))), (''height'', show_unsigned pr (snd (minStreamSize c)))] [],
       Element ''Orientation'' None [(''degree'', show_sint pr (cfg_orientation c))] [],
       Element ''Sensor'' None [(''name'', snsName c)] []]]"

text \<open>The library reads back the numbers of this configuration as they were printed.\<close>

definition reads_back :: "xml_conv \<Rightarrow> xml_print \<Rightarrow> VirtualCameraConfig \<Rightarrow> bool" where
  "reads_back cv pr c \<longleftrightarrow> (\<forall>w. to_unsigned cv (show_unsigned pr w) = Some w) \<and> (\<forall>b. to_boolean cv (show_boolean pr b) = Some b) \<and>
     to_sint cv (show_sint pr (cfg_orientation c)) = Some (cfg_orientation c) \<and>
     (\<forall>l \<in> set (fpsLimits c @ depthFpsLimits c). to_double cv (show_double pr (fpsUpperBound l)) = Some (fpsUpperBound l))"

text \<open>The order the message of \<open>updateFpsList\<close> asks for: sizes rise and rates fall from row to row, beginning with the
  initial limit.\<close>

definition rising_limits :: "FpsLimitation list \<Rightarrow> bool" where
  "rising_limits ls \<longleftrightarrow> sorted_wrt (\<lambda>prev limit. \<not> out_of_order prev limit) (prevLimit0 # ls)"

definition config_ok :: "VirtualCameraConfig \<Rightarrow> bool" where
  "config_ok c \<longleftrightarrow> unat (cameraIdOffset c) < 2 ^ 31 \<and> (\<not> cfg_depthEnabled c \<longrightarrow> depthFpsLimits c = []) \<and>
     rising_limits (fpsLimits c) \<and> rising_limits (depthFpsLimits c)"

lemma show_limit_name [simp]: "el_name (show_limit pr l) = ''Limit''"
  by (simp add: show_limit_def)

lemma read_show_limits:
  assumes "\<forall>w. to_unsigned cv (show_unsigned pr w) = Some w"
    and "\<forall>l \<in> set ls. to_double cv (show_double pr (fpsUpperBound l)) = Some (fpsUpperBound l)"
    and "rising_limits ls"
  shows "updateFpsList cv (Element n t as (map (show_limit pr) ls)) old = (True, ls)"
proof -
  have kids: "children_named ''Limit'' (Element n t as (map (show_limit pr) ls)) = map (show_limit pr) ls"
    by (simp add: children_named_def filter_map o_def)
  have read: "read_limit cv (show_limit pr l) = l" if "l \<in> set ls" for l
    using that assms(1,2) by (simp add: read_limit_def show_limit_def attr_or_def)
  then have "map (read_limit cv) (map (show_limit pr) ls) = ls" by (simp add: map_idI)
  moreover have "\<not> out_of_order prevLimit0 l" if "l \<in> set ls" for l
    using that assms(3) by (simp add: rising_limits_def)
  ultimately show ?thesis unfolding updateFpsList_def kids fps_rows_eq by (auto simp: read)
qed

text \<open>C38: A configuration is read back as it was written. For each configuration the format is meant to express (each list
  of limits with strictly rising positive sizes and strictly falling rates below 1000, as the message of \<open>updateFpsList\<close>
  demands, depth limits only with depth enabled, an id offset below \<open>2^31\<close>), \<open>loadFromCfg\<close> on the document that describes
  it returns exactly this configuration, provided the library reads back the numbers it contains.\<close>

theorem config_round_trip:
  assumes c: "config_ok c" and num: "reads_back cv pr c" and ids: "set ids = mInternalDevices c"
  shows "loadFromCfg cv [show_config pr ids c] = Some c"
proof -
  have limits: "updateFpsList cv (Element n t as (map (show_limit pr) (fpsLimits c))) old = (True, fpsLimits c)"
    "updateFpsList cv (Element n t as (map (show_limit pr) (depthFpsLimits c))) old = (True, depthFpsLimits c)" for n t as old
    using c num by (intro read_show_limits; simp add: config_ok_def reads_back_def)+
  have offset: "c_atoi (dec (unat (cameraIdOffset c))) = Some (int (unat (cameraIdOffset c)))"
    using c by (intro c_atoi_dec) (simp add: config_ok_def)
  have internal: "set (List.map_filter el_text (children_named ''id'' (Element n t as (map (\<lambda>s. Element ''id'' (Some s) [] []) ids)))) =
      mInternalDevices c" for n t as
    unfolding ids [symmetric] by (auto simp: children_named_def map_filter_def filter_map o_def image_image)
  have n: "to_unsigned cv (show_unsigned pr w) = Some w" "to_boolean cv (show_boolean pr b) = Some b"
    "to_sint cv (show_sint pr (cfg_orientation c)) = Some (cfg_orientation c)" for w b
    using num by (auto simp: reads_back_def)
  have depth: "\<not> cfg_depthEnabled c \<Longrightarrow> depthFpsLimits c = []" using c by (auto simp: config_ok_def)
  have sizes: "load_device cv (Element ''Device'' None [] [
       Element ''MaxJpegBufferSize'' None [(''bytes'', show_unsigned pr (maxJpegBufSize c))] [],
       Element ''NumVideoBuffers'' None [(''count'', show_unsigned pr (cfg_numVideoBuffers c))] [],
       Element ''NumStillBuffers'' None [(''count'', show_unsigned pr (cfg_numStillBuffers c))] [],
       Element ''FpsList'' None [] (map (show_limit pr) (fpsLimits c)),
       Element ''Depth16Supported'' None [(''enabled'', show_boolean pr (cfg_depthEnabled c))] [],
       Element ''DepthFpsList'' None [] (map (show_limit pr) (depthFpsLimits c)),
       Element ''MinimumStreamSize'' None [(''width'', show_unsigned pr (fst (minStreamSize c))), (''height'', show_unsigned pr (snd (minStreamSize c)))] [],
       Element ''Orientation'' None [(''degree'', show_sint pr (cfg_orientation c))] [],
       Element ''Sensor'' None [(''name'', snsName c)] []])
     (default_config\<lparr>cameraIdOffset := cameraIdOffset c, mInternalDevices := mInternalDevices c\<rparr>) = Some c"
    using depth by (cases "cfg_depthEnabled c") (auto simp: load_device_def load_sizes_def load_rest_def limits n attr_or_def default_config_def
        intro!: VirtualCameraConfig.equality)
  show ?thesis
    unfolding show_config_def loadFromCfg_def
    by (simp add: offset internal sizes)
qed


section \<open>Examples\<close>

definition demo_conv :: xml_conv where
  "demo_conv = \<lparr>to_unsigned = \<lambda>s. Some (of_nat (digits_val s)), to_sint = c_atoi, to_double = map_of [(''30.0'', 30), (''7.5'', 15 / 2)],
     to_boolean = map_of [(''true'', True), (''false'', False)]\<rparr>"

definition demo_print :: xml_print where
  "demo_print = \<lparr>show_unsigned = \<lambda>w. dec (unat w), show_sint = \<lambda>i. dec (nat i), show_double = \<lambda>q. if q = 30 then ''30.0'' else ''7.5'',
     show_boolean = \<lambda>b. if b then ''true'' else ''false''\<rparr>"

definition demo_config :: VirtualCameraConfig where
  "demo_config = default_config\<lparr>cameraIdOffset := 100, mInternalDevices := {''0'', ''1''}, maxJpegBufSize := 3145728,
     fpsLimits := [\<lparr>lim_width = 640, lim_height = 400, fpsUpperBound = 30\<rparr>, \<lparr>lim_width = 1280, lim_height = 800, fpsUpperBound = 15 / 2\<rparr>],
     cfg_orientation := 90, snsName := ''ov9281''\<rparr>"

lemma demo_reads_back: "reads_back demo_conv demo_print demo_config"
  using dec_digits c_atoi_dec [of 90]
  by (auto simp: reads_back_def demo_conv_def demo_print_def demo_config_def default_config_def)

theorem config_round_trip_witness:
  "loadFromCfg demo_conv [show_config demo_print [''0'', ''1''] demo_config] = Some demo_config"
  by (rule config_round_trip [OF _ demo_reads_back]) (auto simp: config_ok_def rising_limits_def out_of_order_def prevLimit0_def
    demo_config_def default_config_def)

definition falling_limits :: "xml list" where
  "falling_limits = [show_limit demo_print \<lparr>lim_width = 1280, lim_height = 800, fpsUpperBound = 15 / 2\<rparr>,
     show_limit demo_print \<lparr>lim_width = 640, lim_height = 400, fpsUpperBound = 30\<rparr>]"

theorem fps_list_order_unchecked_witness:
  "updateFpsList demo_conv (Element ''FpsList'' None [] falling_limits) [] =
     (True, [\<lparr>lim_width = 1280, lim_height = 800, fpsUpperBound = 15 / 2\<rparr>, \<lparr>lim_width = 640, lim_height = 400, fpsUpperBound = 30\<rparr>]) \<and>
   fst (updateFpsList demo_conv (Element ''FpsList'' None [] (rev falling_limits)) []) = True"
proof -
  have read: "read_limit demo_conv (show_limit demo_print \<lparr>lim_width = w, lim_height = h, fpsUpperBound = q\<rparr>) =
      \<lparr>lim_width = w, lim_height = h, fpsUpperBound = q\<rparr>" if "q = 30 \<or> q = 15 / 2" for w h q
    using that dec_digits by (auto simp: read_limit_def show_limit_def attr_or_def demo_conv_def demo_print_def)
  have kids: "children_named ''Limit'' (Element ''FpsList'' None [] falling_limits) = falling_limits"
    "children_named ''Limit'' (Element ''FpsList'' None [] (rev falling_limits)) = rev falling_limits"
    by (auto simp: children_named_def falling_limits_def)
  show ?thesis
    using fps_list_order_unchecked [of demo_conv "Element ''FpsList'' None [] falling_limits" "[]" "Element ''FpsList'' None [] (rev falling_limits)"]
    unfolding kids by (simp add: falling_limits_def read)
qed

section \<open>Documents without an ignore list\<close>

text \<open>A flaw of the code. The element \<open>ignore\<close> only lists devices to be left alone, but when it is missing the reading ends, and
  everything configured under \<open>Device\<close> is ignored.\<close>

theorem no_ignore_no_device:
  assumes "filter (\<lambda>c. el_name c = ''VirtualCamera'') roots = [cam]" "first_child ''Provider'' cam = Some p"
    and "first_child ''ignore'' p = None" "loadFromCfg cv roots = Some c"
  shows "c\<lparr>cameraIdOffset := 200\<rparr> = default_config"
  using assms by (auto simp: loadFromCfg_def Let_def bind_eq_Some_conv default_config_def split: option.splits)

end
