(* ===== verification/Camera_Device.thy ===== *)
theory Camera_Device
  imports Camera_Config Stream_Config
begin

text \<open>
  The camera device of the HAL (\<open>camera_vir/device/VirtualCameraDevice.cpp\<close>): its constructor, the formats
  it supports, the characteristics it advertises, and \<open>open\<close> with the constructor, the initialisation and the
  destructor of the session it creates (\<open>VirtualCameraDeviceSession.cpp\<close>).

  Not in the model: the two tables of constants \<open>initDefaultCharsKeys\<close> and \<open>initCameraControlsCharsKeys\<close>, which
  are known by their status, and the functions \<open>trimSupportedFormats\<close>, \<open>updateFpsBounds\<close> and
  \<open>getFrameRateList\<close>, which only code that is compiled out calls.
\<close>

section \<open>The device\<close>

text \<open>The characteristics are the values written with \<open>update\<close>, per tag; each call replaces what the tag had.\<close>

datatype tag = STREAM_CONFIGURATIONS | MIN_FRAME_DURATIONS | STALL_DURATIONS
  | DEPTH_STREAM_CONFIGURATIONS | DEPTH_MIN_FRAME_DURATIONS | DEPTH_STALL_DURATIONS
  | TARGET_FPS_RANGES | MAX_FRAME_DURATION
  | PRE_CORRECTION_ACTIVE_ARRAY_SIZE | ACTIVE_ARRAY_SIZE | PIXEL_ARRAY_SIZE | AVAILABLE_CAPABILITIES

type_synonym metadata = "tag \<Rightarrow> int list option"

text \<open>\<open>dv_chars\<close> is \<open>None\<close> while \<open>mCameraCharacteristics\<close> is empty. \<open>dv_Session\<close> is \<open>None\<close> when the weak pointer
  to the session cannot be promoted, and otherwise says whether the session is closed.\<close>

record VirtualCameraDevice =
  dv_CameraId :: string
  dv_DevicePath :: string
  dv_Cfg :: VirtualCameraConfig
  dv_SubDevice :: bool
  dv_Formats :: "SupportedV4L2Format list"
  dv_CroppingType :: CroppingType
  dv_Initialized :: bool
  dv_InitFailed :: bool
  dv_chars :: "metadata option"
  dv_Session :: "bool option"

text \<open>The two static variables named \<open>mainId\<close>, of the constructor of the device and of that of the session.
  Each keeps the value of the first call.\<close>

record statics =
  device_mainId :: "int option"
  session_mainId :: "int option"

text \<open>\<open>std::regex_match (mDevicePath, sm, "/dev/video([0-9]+)")\<close>, with the group it captures.\<close>

definition matchDevicePath :: "string \<Rightarrow> string option" where
  "matchDevicePath p =
     (if take 10 p = ''/dev/video'' \<and> drop 10 p \<noteq> [] \<and> list_all isdigit (drop 10 p) then Some (drop 10 p) else None)"

text \<open>\<open>std::stoi\<close> on decimal digits throws outside \<open>int\<close>, and nothing catches it.\<close>

definition c_stoi :: "string \<Rightarrow> int option" where
  "c_stoi ds = c_int (int (digits_val ds))"

definition new_VirtualCameraDevice :: "string \<Rightarrow> VirtualCameraConfig \<Rightarrow> statics \<Rightarrow> (VirtualCameraDevice \<times> statics) option" where
  "new_VirtualCameraDevice devicePath cfg g =
     (let dev = \<lparr>dv_CameraId = ''-1'', dv_DevicePath = devicePath, dv_Cfg = cfg, dv_SubDevice = False, dv_Formats = [],
        dv_CroppingType = HORIZONTAL, dv_Initialized = False, dv_InitFailed = False, dv_chars = None, dv_Session = None\<rparr>
      in case matchDevicePath devicePath of
        None \<Rightarrow> Some (dev\<lparr>dv_CameraId := devicePath\<rparr>, g)
      | Some sm \<Rightarrow> do {
          n \<leftarrow> c_stoi sm;
          let cid = dec (unat (cameraIdOffset cfg + word_of_int n));
          v \<leftarrow> c_stoi cid;
          let mainId = (case device_mainId g of None \<Rightarrow> v | Some m \<Rightarrow> m);
          Some (dev\<lparr>dv_CameraId := cid, dv_SubDevice := v > mainId\<rparr>, g\<lparr>device_mainId := Some mainId\<rparr>) })"

section \<open>The formats\<close>

definition candidate :: "bool \<Rightarrow> u32 \<Rightarrow> SupportedV4L2Format" where
  "candidate sub fcc =
     (let w = (if sub then 1280 div 2 else 1280); h = (if sub then 800 div 2 else 800)
      in \<lparr>fmt_width = w, fmt_height = h, fourcc = fcc,
          frameRates = [\<lparr>durationNumerator = 1, durationDenominator = 30\<rparr>]\<rparr>)"

text \<open>The part of the function that is compiled: it looks at none of its arguments.\<close>

definition getCandidateSupportedFormatsLocked :: "bool \<Rightarrow> SupportedV4L2Format list" where
  "getCandidateSupportedFormatsLocked sub = [candidate sub PIX_SGRBG16, candidate sub PIX_SRGGB10, candidate sub PIX_NV12]"

definition choose_formats :: "SupportedV4L2Format list \<Rightarrow> SupportedV4L2Format list \<Rightarrow> VirtualCameraDevice \<Rightarrow> VirtualCameraDevice" where
  "choose_formats hor vert dev =
     (let H = dev\<lparr>dv_Formats := hor, dv_CroppingType := HORIZONTAL\<rparr>;
          V = dev\<lparr>dv_Formats := vert, dv_CroppingType := VERTICAL\<rparr>
      in if hor = [] \<and> vert = [] then dev
         else if hor = [] then V
         else if vert = [] then H
         else
           let a = last hor; b = last vert in
           if fmt_width a = fmt_width b \<and> fmt_height a = fmt_height b
           then (if length hor > length vert then H else V)
           else if fmt_width a \<ge> fmt_width b \<and> fmt_height a \<ge> fmt_height b then H
           else if fmt_width a \<le> fmt_width b \<and> fmt_height a \<le> fmt_height b then V
           else if length hor > length vert then H else V)"

definition initSupportedFormatsLocked :: "VirtualCameraDevice \<Rightarrow> VirtualCameraDevice" where
  "initSupportedFormatsLocked dev =
     choose_formats (getCandidateSupportedFormatsLocked (dv_SubDevice dev))
       (getCandidateSupportedFormatsLocked (dv_SubDevice dev)) dev"

section \<open>The characteristics\<close>

text \<open>The codes of the pixel formats in the graphics headers of the platform.\<close>

fun hal_format :: "PixelFormat \<Rightarrow> int" where
  "hal_format BLOB = 33"
| "hal_format YCBCR_420_888 = 35"
| "hal_format IMPLEMENTATION_DEFINED = 34"
| "hal_format YV12 = 842094169"
| "hal_format YCRCB_420_SP = 17"
| "hal_format Y16 = 540422489"
| "hal_format RAW10 = 37"
| "hal_format RAW12 = 38"
| "hal_format RAW16 = 32"
| "hal_format (OtherFormat n) = to_int n"

definition halFormats :: "PixelFormat list" where
  "halFormats = [BLOB, YCBCR_420_888, IMPLEMENTATION_DEFINED, RAW10, RAW12, RAW16]"

text \<open>What the metadata library and the two tables of constants answer.\<close>

record device_env =
  accepts_tag :: "tag \<Rightarrow> bool"
  default_keys :: int
  control_keys :: int

text \<open>\<open>UPDATE\<close> writes a tag; a refusal makes the function that uses it return at once.\<close>

definition UPDATE :: "device_env \<Rightarrow> (tag \<times> int list) list \<Rightarrow> metadata \<Rightarrow> bool \<times> metadata" where
  "UPDATE e ws m = foldl (\<lambda>(ok, m) (t, d). if ok \<and> accepts_tag e t then (True, m(t \<mapsto> d)) else (False, m)) (True, m) ws"

definition frame_duration :: "FrameRate \<Rightarrow> int option" where
  "frame_duration fr =
     (if durationDenominator fr = 0 then None
      else Some (1000000000 * uint (durationNumerator fr) div uint (durationDenominator fr)))"

definition min_frame_duration :: "FrameRate list \<Rightarrow> int option" where
  "min_frame_duration rates =
     foldl (\<lambda>acc fr. do { m \<leftarrow> acc; d \<leftarrow> frame_duration fr; Some (if d < m then d else m) }) (Some (2 ^ 63 - 1)) rates"

definition config_rows :: "PixelFormat list \<Rightarrow> SupportedV4L2Format \<Rightarrow> (PixelFormat \<Rightarrow> int) \<Rightarrow> int list" where
  "config_rows fmts f v = concat (map (\<lambda>x. [hal_format x, to_int (fmt_width f), to_int (fmt_height f), v x]) fmts)"

text \<open>The stream configurations, minimal frame durations and stall durations of one encoding. In the code it has the
  return type of a status and returns \<open>true\<close> or \<open>-EINVAL\<close>; the callers ignore it.\<close>

definition initOutputCharskeysByFormat ::
  "device_env \<Rightarrow> SupportedV4L2Format list \<Rightarrow> u32 \<Rightarrow> PixelFormat list \<Rightarrow> tag \<times> tag \<times> tag \<Rightarrow> metadata \<Rightarrow> metadata option" where
  "initOutputCharskeysByFormat e formats fcc fmts tags m =
     (case tags of (t1, t2, t3) \<Rightarrow>
        if formats = [] then Some m
        else do {
          let fs = filter (\<lambda>f. fourcc f = fcc) formats;
          ds \<leftarrow> those (map (\<lambda>f. min_frame_duration (frameRates f)) fs);
          Some (snd (UPDATE e [(t1, concat (map (\<lambda>f. config_rows fmts f (\<lambda>_. 0)) fs)),
            (t2, concat (map (\<lambda>(f, d). config_rows fmts f (\<lambda>_. d)) (zip fs ds))),
            (t3, concat (map (\<lambda>f. config_rows fmts f (\<lambda>x. if x = BLOB then 1000000000 else 0)) fs))] m)) })"

text \<open>\<open>static_cast<int32_t> (fr.getDouble ())\<close>: a quotient of two 32-bit numbers that is not whole is further from
  the next whole number than the rounding to double precision can move it.\<close>

definition rate_int :: "FrameRate \<Rightarrow> int option" where
  "rate_int fr = (if durationNumerator fr = 0 then None else c_int \<lfloor>getDouble fr\<rfloor>)"

definition calculateMinFps :: "device_env \<Rightarrow> SupportedV4L2Format list \<Rightarrow> metadata \<Rightarrow> metadata option" where
  "calculateMinFps e formats m = do {
     rates \<leftarrow> those (map rate_int (concat (map frameRates formats)));
     let minFps = foldl min 2147483647 rates;
     ranges \<leftarrow> those (map (\<lambda>r. do { h \<leftarrow> c_div r 2; Some [h, r] }) (sort (remdups rates)));
     half \<leftarrow> c_div minFps 2;
     d \<leftarrow> (if half = 0 then None else Some (sgn half * (1000000000 div \<bar>half\<bar>)));
     Some (snd (UPDATE e [(TARGET_FPS_RANGES, concat ranges), (MAX_FRAME_DURATION, [d])] m)) }"

definition maximumFormat :: "SupportedV4L2Format list \<Rightarrow> u32 \<times> u32" where
  "maximumFormat formats =
     foldl (\<lambda>(w, h) f. if fmt_width f \<ge> w \<and> fmt_height f \<ge> h then (fmt_width f, fmt_height f) else (w, h)) (0, 0) formats"

definition scaler_tags :: "tag \<times> tag \<times> tag" where
  "scaler_tags = (STREAM_CONFIGURATIONS, MIN_FRAME_DURATIONS, STALL_DURATIONS)"
definition depth_tags :: "tag \<times> tag \<times> tag" where
  "depth_tags = (DEPTH_STREAM_CONFIGURATIONS, DEPTH_MIN_FRAME_DURATIONS, DEPTH_STALL_DURATIONS)"

definition EINVAL :: int where "EINVAL = 22"
definition UNKNOWN_ERROR :: int where "UNKNOWN_ERROR = - 2147483648"

definition initOutputCharsKeys :: "device_env \<Rightarrow> VirtualCameraDevice \<Rightarrow> metadata \<Rightarrow> (int \<times> VirtualCameraDevice \<times> metadata) option" where
  "initOutputCharsKeys e dev m =
     (let dev = initSupportedFormatsLocked dev;
          formats = dv_Formats dev;
          has = (\<lambda>fcc. list_ex (\<lambda>f. fourcc f = fcc) formats);
          keys = (\<lambda>fcc tags on m. if on then initOutputCharskeysByFormat e formats fcc halFormats tags m else Some m)
      in if formats = [] then Some (UNKNOWN_ERROR, dev, m)
      else do {
        m \<leftarrow> keys PIX_Z16 depth_tags (has PIX_Z16) m;
        m \<leftarrow> keys PIX_MJPEG scaler_tags (has PIX_MJPEG) m;
        m \<leftarrow> keys PIX_YUYV scaler_tags (\<not> has PIX_MJPEG \<and> has PIX_YUYV) m;
        m \<leftarrow> keys PIX_NV12 scaler_tags (has PIX_NV12) m;
        m \<leftarrow> keys PIX_SRGGB10 scaler_tags (has PIX_SRGGB10) m;
        m \<leftarrow> keys PIX_SGRBG12 scaler_tags (has PIX_SGRBG12) m;
        m \<leftarrow> keys PIX_SGRBG16 scaler_tags (has PIX_SGRBG16) m;
        m \<leftarrow> calculateMinFps e formats m;
        let (w, h) = (case maximumFormat formats of (w, h) \<Rightarrow> (to_int w, to_int h));
        let (ok, m) = UPDATE e [(PRE_CORRECTION_ACTIVE_ARRAY_SIZE, [0, 0, w, h]), (ACTIVE_ARRAY_SIZE, [0, 0, w, h]),
          (PIXEL_ARRAY_SIZE, [w, h])] m;
        Some (if ok then 0 else - EINVAL, dev, m) })"

text \<open>The codes of the capabilities in the metadata tags of the platform.\<close>

definition CAP_BACKWARD_COMPATIBLE :: int where "CAP_BACKWARD_COMPATIBLE = 0"
definition CAP_RAW :: int where "CAP_RAW = 3"
definition CAP_DEPTH_OUTPUT :: int where "CAP_DEPTH_OUTPUT = 8"

definition initAvailableCapabilities :: "device_env \<Rightarrow> SupportedV4L2Format list \<Rightarrow> metadata \<Rightarrow> int \<times> metadata" where
  "initAvailableCapabilities e formats m =
     (let has = (\<lambda>fccs. list_ex (\<lambda>f. fourcc f \<in> set fccs) formats);
          caps = (if has [PIX_Z16] then [CAP_DEPTH_OUTPUT] else [])
            @ (if has [PIX_MJPEG, PIX_YUYV, PIX_NV12] then [CAP_BACKWARD_COMPATIBLE] else [])
            @ (if has [PIX_SRGGB10, PIX_SGRBG12, PIX_SGRBG16] then [CAP_RAW] else [])
      in if formats = [] then (UNKNOWN_ERROR, m)
      else if caps = [] then (0, m)
      else case UPDATE e [(AVAILABLE_CAPABILITIES, caps)] m of (ok, m) \<Rightarrow> (if ok then 0 else - EINVAL, m))"

definition initCameraCharacteristics :: "device_env \<Rightarrow> VirtualCameraDevice \<Rightarrow> (int \<times> VirtualCameraDevice) option" where
  "initCameraCharacteristics e dev =
     (if dv_chars dev \<noteq> None then Some (0, dev)
      else if default_keys e \<noteq> 0 then Some (default_keys e, dev)
      else if control_keys e \<noteq> 0 then Some (control_keys e, dev)
      else do {
        (ret, dev, m) \<leftarrow> initOutputCharsKeys e dev (\<lambda>_. None);
        if ret \<noteq> 0 then Some (ret, dev)
        else case initAvailableCapabilities e (dv_Formats dev) m of (ret, m) \<Rightarrow>
          if ret \<noteq> 0 then Some (ret, dev) else Some (0, dev\<lparr>dv_chars := Some m\<rparr>) })"

definition isInitFailedLocked :: "device_env \<Rightarrow> VirtualCameraDevice \<Rightarrow> (bool \<times> VirtualCameraDevice) option" where
  "isInitFailedLocked e dev =
     (if dv_Initialized dev then Some (dv_InitFailed dev, dev)
      else do {
        (ret, dev) \<leftarrow> initCameraCharacteristics e dev;
        let dev = (if ret \<noteq> 0 then dev\<lparr>dv_InitFailed := True\<rparr> else dev)\<lparr>dv_Initialized := True\<rparr>;
        Some (dv_InitFailed dev, dev) })"

section \<open>Opening the device\<close>

text \<open>What else \<open>open\<close> meets: the status of \<open>initDefaultRequests\<close>, the two metadata queues, and what the session reads
  from the characteristics of the metadata library.\<close>

record open_env =
  default_requests :: int
  request_queue :: bool
  result_queue :: bool
  thumb_sizes :: "Size list"
  usage_flags :: u64

text \<open>A new session: what its constructor sets, and whether \<open>initOutputThread\<close> has made its threads. The thread
  pointers are null until then.\<close>

record fresh_session =
  ns_config :: config
  ns_fd :: int
  ns_threads :: bool

definition VirtualCameraDeviceSession ::
  "open_env \<Rightarrow> VirtualCameraDevice \<Rightarrow> int \<Rightarrow> statics \<Rightarrow> (fresh_session \<times> statics) option" where
  "VirtualCameraDeviceSession env dev fd g = do {
     n \<leftarrow> c_atoi (dv_CameraId dev);
     let mainId = (case session_mainId g of None \<Rightarrow> n | Some m \<Rightarrow> m);
     Some (\<lparr>ns_config = \<lparr>subDevice = n > mainId, mainDevice = (n = mainId), mCroppingType = dv_CroppingType dev,
         mSupportedFormats = dv_Formats dev, depthEnabled = cfg_depthEnabled (dv_Cfg dev),
         numVideoBuffers = cfg_numVideoBuffers (dv_Cfg dev), numStillBuffers = cfg_numStillBuffers (dv_Cfg dev),
         thumbSizes = thumb_sizes env, camera_usage = usage_flags env\<rparr>, ns_fd = fd, ns_threads = False\<rparr>,
       g\<lparr>session_mainId := Some mainId\<rparr>) }"

text \<open>\<open>initialize\<close>; true means that it failed.\<close>

definition initialize :: "open_env \<Rightarrow> fresh_session \<Rightarrow> bool \<times> fresh_session" where
  "initialize env ns =
     (if \<not> subDevice (ns_config ns) \<and> ns_fd ns < 0 then (True, ns)
      else
        let ns = ns\<lparr>ns_threads := True\<rparr> in
        if default_requests env \<noteq> 0 then (True, ns)
        else if \<not> request_queue env then (True, ns)
        else if \<not> result_queue env then (True, ns)
        else (False, ns))"

text \<open>The destructor of a session that is not closed calls \<open>close\<close>, which calls the threads through their pointers.\<close>

definition delete_session :: "fresh_session \<Rightarrow> unit option" where
  "delete_session ns = (if ns_threads ns then Some () else None)"

text \<open>The descriptor that is handed to the session is a \<open>unique_fd\<close> that holds nothing.\<close>

definition NO_FD :: int where "NO_FD = - 1"

definition open_device ::
  "device_env \<Rightarrow> open_env \<Rightarrow> bool \<Rightarrow> VirtualCameraDevice \<Rightarrow> statics \<Rightarrow> (status \<times> config option \<times> VirtualCameraDevice \<times> statics) option" where
  "open_device e env callback dev g =
     (if \<not> callback then Some (ILLEGAL_ARGUMENT, None, dev, g)
      else do {
        (failed, dev) \<leftarrow> isInitFailedLocked e dev;
        if failed then Some (INTERNAL_ERROR, None, dev, g)
        else if dv_Session dev = Some False then Some (CAMERA_IN_USE, None, dev, g)
        else do {
          (ns, g) \<leftarrow> VirtualCameraDeviceSession env dev NO_FD g;
          case initialize env ns of (True, ns) \<Rightarrow> do { _ \<leftarrow> delete_session ns; Some (INTERNAL_ERROR, None, dev, g) }
          | (False, ns) \<Rightarrow> Some (OK, Some (ns_config ns), dev\<lparr>dv_Session := Some False\<rparr>, g) } })"

section \<open>What a device advertises\<close>

text \<open>The stream configurations as a reader of the characteristics sees them: rows of four numbers. A format number the
  platform names is represented by its constructor, never by \<open>OtherFormat\<close>.\<close>

fun rows4 :: "int list \<Rightarrow> (int \<times> int \<times> int \<times> int) list" where
  "rows4 (a # b # c # d # xs) = (a, b, c, d) # rows4 xs"
| "rows4 _ = []"

definition rows_of :: "tag \<Rightarrow> VirtualCameraDevice \<Rightarrow> (int \<times> int \<times> int \<times> int) list" where
  "rows_of t dev = (case dv_chars dev of None \<Rightarrow> [] | Some m \<Rightarrow> (case m t of None \<Rightarrow> [] | Some xs \<Rightarrow> rows4 xs))"

definition advertised :: "VirtualCameraDevice \<Rightarrow> Stream \<Rightarrow> bool" where
  "advertised dev s \<longleftrightarrow> known_format (st_format s) \<and>
     (hal_format (st_format s), to_int (st_width s), to_int (st_height s), 0) \<in> set (rows_of STREAM_CONFIGURATIONS dev)"

definition side :: "bool \<Rightarrow> int \<times> int" where
  "side sub = (if sub then (640, 400) else (1280, 800))"

definition full_metadata :: "int \<times> int \<Rightarrow> metadata" where
  "full_metadata wh = (case wh of (w, h) \<Rightarrow> let row = (\<lambda>v. concat (map (\<lambda>x. [hal_format x, w, h, v x]) halFormats)) in
     (\<lambda>_. None)(STREAM_CONFIGURATIONS \<mapsto> row (\<lambda>_. 0), MIN_FRAME_DURATIONS \<mapsto> row (\<lambda>_. 33333333),
       STALL_DURATIONS \<mapsto> row (\<lambda>x. if x = BLOB then 1000000000 else 0),
       TARGET_FPS_RANGES \<mapsto> [15, 30], MAX_FRAME_DURATION \<mapsto> [66666666],
       PRE_CORRECTION_ACTIVE_ARRAY_SIZE \<mapsto> [0, 0, w, h], ACTIVE_ARRAY_SIZE \<mapsto> [0, 0, w, h], PIXEL_ARRAY_SIZE \<mapsto> [w, h],
       AVAILABLE_CAPABILITIES \<mapsto> [CAP_BACKWARD_COMPATIBLE, CAP_RAW]))"

lemma pix_facts:
  "PIX_SGRBG16 \<noteq> PIX_SRGGB10" "PIX_SGRBG16 \<noteq> PIX_NV12" "PIX_SRGGB10 \<noteq> PIX_NV12"
  "PIX_SGRBG16 \<noteq> PIX_Z16" "PIX_SGRBG16 \<noteq> PIX_MJPEG" "PIX_SGRBG16 \<noteq> PIX_YUYV" "PIX_SGRBG16 \<noteq> PIX_SGRBG12"
  "PIX_SRGGB10 \<noteq> PIX_Z16" "PIX_SRGGB10 \<noteq> PIX_MJPEG" "PIX_SRGGB10 \<noteq> PIX_YUYV" "PIX_SRGGB10 \<noteq> PIX_SGRBG12"
  "PIX_NV12 \<noteq> PIX_Z16" "PIX_NV12 \<noteq> PIX_MJPEG" "PIX_NV12 \<noteq> PIX_YUYV" "PIX_NV12 \<noteq> PIX_SGRBG12"
  by (simp_all add: PIX_SGRBG16_def PIX_SRGGB10_def PIX_NV12_def PIX_Z16_def PIX_MJPEG_def PIX_YUYV_def PIX_SGRBG12_def
      v4l2_fourcc_def)

lemmas pix_simps = pix_facts pix_facts [symmetric]

lemma candidate_sel:
  "fourcc (candidate sub f) = f" "frameRates (candidate sub f) = [\<lparr>durationNumerator = 1, durationDenominator = 30\<rparr>]"
  "fmt_width (candidate sub f) = (if sub then 640 else 1280)" "fmt_height (candidate sub f) = (if sub then 400 else 800)"
  by (simp_all add: candidate_def Let_def)

lemma candidate_dims:
  "to_int (fmt_width (candidate sub f)) = fst (side sub)" "to_int (fmt_height (candidate sub f)) = snd (side sub)"
  by (simp_all add: candidate_sel side_def to_int_def)

lemma initSupported:
  "initSupportedFormatsLocked dev =
     dev\<lparr>dv_Formats := getCandidateSupportedFormatsLocked (dv_SubDevice dev), dv_CroppingType := VERTICAL\<rparr>"
  by (simp add: initSupportedFormatsLocked_def choose_formats_def getCandidateSupportedFormatsLocked_def Let_def)

lemma frame_33ms: "min_frame_duration [\<lparr>durationNumerator = 1, durationDenominator = 30\<rparr>] = Some 33333333"
  by (simp add: min_frame_duration_def frame_duration_def)

lemma rate_30: "rate_int \<lparr>durationNumerator = 1, durationDenominator = 30\<rparr> = Some 30"
  by (simp add: rate_int_def getDouble_def c_simps)

lemma UPDATE_ok:
  assumes "accepts_tag e = (\<lambda>_. True)"
  shows "UPDATE e ws m = (True, foldl (\<lambda>m (t, d). m(t \<mapsto> d)) m ws)"
proof -
  have "foldl (\<lambda>(ok, m) (t, d). if ok \<and> accepts_tag e t then (True, m(t \<mapsto> d)) else (False, m)) (True, m) ws =
      (True, foldl (\<lambda>m (t, d). m(t \<mapsto> d)) m ws)"
    by (induction ws arbitrary: m) (auto simp: assms)
  then show ?thesis by (simp add: UPDATE_def)
qed

lemma minFps_30:
  assumes "accepts_tag e = (\<lambda>_. True)"
  shows "calculateMinFps e (getCandidateSupportedFormatsLocked sub) m =
    Some (m(TARGET_FPS_RANGES \<mapsto> [15, 30], MAX_FRAME_DURATION \<mapsto> [66666666]))"
  by (simp add: calculateMinFps_def getCandidateSupportedFormatsLocked_def candidate_sel rate_30 UPDATE_ok [OF assms] c_simps)

lemma keys_ok:
  assumes "accepts_tag e = (\<lambda>_. True)" "f \<in> {PIX_SGRBG16, PIX_SRGGB10, PIX_NV12}" "side sub = (w, h)"
  shows "initOutputCharskeysByFormat e (getCandidateSupportedFormatsLocked sub) f halFormats scaler_tags m =
    Some (m(STREAM_CONFIGURATIONS \<mapsto> concat (map (\<lambda>x. [hal_format x, w, h, 0]) halFormats),
      MIN_FRAME_DURATIONS \<mapsto> concat (map (\<lambda>x. [hal_format x, w, h, 33333333]) halFormats),
      STALL_DURATIONS \<mapsto> concat (map (\<lambda>x. [hal_format x, w, h, if x = BLOB then 1000000000 else 0]) halFormats)))"
proof -
  have "filter (\<lambda>c. fourcc c = f) (getCandidateSupportedFormatsLocked sub) = [candidate sub f]"
    using assms(2) by (auto simp: getCandidateSupportedFormatsLocked_def candidate_sel pix_simps)
  moreover have "getCandidateSupportedFormatsLocked sub \<noteq> []" by (simp add: getCandidateSupportedFormatsLocked_def)
  ultimately show ?thesis using assms(3)
    by (simp add: initOutputCharskeysByFormat_def scaler_tags_def candidate_sel(2) frame_33ms UPDATE_ok [OF assms(1)]
        config_rows_def candidate_dims)
qed

lemma has_formats:
  "list_ex (\<lambda>f. fourcc f = PIX_Z16) (getCandidateSupportedFormatsLocked sub) = False"
  "list_ex (\<lambda>f. fourcc f = PIX_MJPEG) (getCandidateSupportedFormatsLocked sub) = False"
  "list_ex (\<lambda>f. fourcc f = PIX_YUYV) (getCandidateSupportedFormatsLocked sub) = False"
  "list_ex (\<lambda>f. fourcc f = PIX_NV12) (getCandidateSupportedFormatsLocked sub) = True"
  "list_ex (\<lambda>f. fourcc f = PIX_SRGGB10) (getCandidateSupportedFormatsLocked sub) = True"
  "list_ex (\<lambda>f. fourcc f = PIX_SGRBG12) (getCandidateSupportedFormatsLocked sub) = False"
  "list_ex (\<lambda>f. fourcc f = PIX_SGRBG16) (getCandidateSupportedFormatsLocked sub) = True"
  "getCandidateSupportedFormatsLocked sub \<noteq> []"
  by (simp_all add: getCandidateSupportedFormatsLocked_def candidate_sel pix_simps)

lemma maximum_candidate:
  "maximumFormat (getCandidateSupportedFormatsLocked sub) = (if sub then (640, 400) else (1280, 800))"
  by (simp add: maximumFormat_def getCandidateSupportedFormatsLocked_def candidate_sel)

lemma capabilities_ok:
  assumes "accepts_tag e = (\<lambda>_. True)"
  shows "initAvailableCapabilities e (getCandidateSupportedFormatsLocked sub) m =
    (0, m(AVAILABLE_CAPABILITIES \<mapsto> [CAP_BACKWARD_COMPATIBLE, CAP_RAW]))"
  by (simp add: initAvailableCapabilities_def getCandidateSupportedFormatsLocked_def candidate_sel pix_simps UPDATE_ok [OF assms] Let_def)

text \<open>The library and the two tables work.\<close>

definition accepting :: "device_env \<Rightarrow> bool" where
  "accepting e \<longleftrightarrow> accepts_tag e = (\<lambda>_. True) \<and> default_keys e = 0 \<and> control_keys e = 0"

definition initialised :: "VirtualCameraDevice \<Rightarrow> VirtualCameraDevice" where
  "initialised dev = dev\<lparr>dv_Formats := getCandidateSupportedFormatsLocked (dv_SubDevice dev), dv_CroppingType := VERTICAL,
     dv_chars := Some (full_metadata (side (dv_SubDevice dev))), dv_Initialized := True\<rparr>"

lemma upd_twice:
  "t \<noteq> u \<Longrightarrow> t \<noteq> v \<Longrightarrow> u \<noteq> v \<Longrightarrow> m(t \<mapsto> a, u \<mapsto> b, v \<mapsto> c, t \<mapsto> a, u \<mapsto> b, v \<mapsto> c) = m(t \<mapsto> a, u \<mapsto> b, v \<mapsto> c)"
  by (rule ext) auto

lemma output_keys_ok:
  assumes e: "accepts_tag e = (\<lambda>_. True)" and w: "side (dv_SubDevice dev) = (w, h)"
  shows "initOutputCharsKeys e dev (\<lambda>_. None) =
    Some (0, initSupportedFormatsLocked dev, (full_metadata (w, h))(AVAILABLE_CAPABILITIES := None))"
proof -
  have mx: "(case maximumFormat (getCandidateSupportedFormatsLocked (dv_SubDevice dev)) of (w, h) \<Rightarrow> (to_int w, to_int h)) = (w, h)"
    using w by (auto simp: maximum_candidate side_def to_int_def split: if_splits)
  have md: "(full_metadata (w, h))(AVAILABLE_CAPABILITIES := None) =
      (\<lambda>_. None)(STREAM_CONFIGURATIONS \<mapsto> concat (map (\<lambda>x. [hal_format x, w, h, 0]) halFormats),
      MIN_FRAME_DURATIONS \<mapsto> concat (map (\<lambda>x. [hal_format x, w, h, 33333333]) halFormats),
      STALL_DURATIONS \<mapsto> concat (map (\<lambda>x. [hal_format x, w, h, if x = BLOB then 1000000000 else 0]) halFormats),
       TARGET_FPS_RANGES \<mapsto> [15, 30], MAX_FRAME_DURATION \<mapsto> [66666666],
       PRE_CORRECTION_ACTIVE_ARRAY_SIZE \<mapsto> [0, 0, w, h], ACTIVE_ARRAY_SIZE \<mapsto> [0, 0, w, h], PIXEL_ARRAY_SIZE \<mapsto> [w, h])"
    by (rule ext) (simp add: full_metadata_def Let_def)
  show ?thesis
    unfolding md initOutputCharsKeys_def initSupported
    by (simp add: has_formats keys_ok [OF e _ w] upd_twice minFps_30 [OF e] mx UPDATE_ok [OF e] Let_def)
qed

lemma initialised_ok:
  assumes "accepting e" "\<not> dv_Initialized dev" "dv_chars dev = None" "\<not> dv_InitFailed dev"
  shows "isInitFailedLocked e dev = Some (False, initialised dev)"
proof -
  obtain w h where s: "side (dv_SubDevice dev) = (w, h)" by (cases "side (dv_SubDevice dev)")
  have e: "accepts_tag e = (\<lambda>_. True)" "default_keys e = 0" "control_keys e = 0" using assms(1) by (simp_all add: accepting_def)
  have md: "((full_metadata (w, h))(AVAILABLE_CAPABILITIES := None))(AVAILABLE_CAPABILITIES \<mapsto> [CAP_BACKWARD_COMPATIBLE, CAP_RAW]) =
      full_metadata (w, h)" by (rule ext) (simp add: full_metadata_def Let_def)
  have "initCameraCharacteristics e dev = Some (0, (initSupportedFormatsLocked dev)\<lparr>dv_chars := Some (full_metadata (w, h))\<rparr>)"
    using assms(3) md by (simp add: initCameraCharacteristics_def e output_keys_ok [OF e(1) s] initSupported capabilities_ok [OF e(1)]
      del: fun_upd_upd)
  then show ?thesis using assms(2,4) s by (simp add: isInitFailedLocked_def initialised_def initSupported)
qed

lemma constructed:
  assumes "new_VirtualCameraDevice path cfg g = Some (dev, g')"
  shows "\<not> dv_Initialized dev" "dv_chars dev = None" "\<not> dv_InitFailed dev" "dv_Session dev = None"
  using assms by (auto simp: new_VirtualCameraDevice_def Let_def bind_Some_iff split: option.splits)

section \<open>The properties\<close>

lemma rows_halFormats:
  "rows4 (concat (map (\<lambda>x. [hal_format x, w, h, v x]) halFormats)) = map (\<lambda>x. (hal_format x, w, h, v x)) halFormats"
  by (simp add: halFormats_def)

lemma rows_initialised:
  assumes "side (dv_SubDevice dev) = (w, h)"
  shows "rows_of STREAM_CONFIGURATIONS (initialised dev) = map (\<lambda>x. (hal_format x, w, h, 0)) halFormats"
    "rows_of MIN_FRAME_DURATIONS (initialised dev) = map (\<lambda>x. (hal_format x, w, h, 33333333)) halFormats"
    "rows_of STALL_DURATIONS (initialised dev) = map (\<lambda>x. (hal_format x, w, h, if x = BLOB then 1000000000 else 0)) halFormats"
  by (simp_all add: rows_of_def initialised_def full_metadata_def assms Let_def rows_halFormats del: rows4.simps)

text \<open>What a device advertises. A newly built device whose metadata library works initialises, once, without
  failure: it advertises each of the six output formats at 1280 by 800, or at half of that when its number is above
  that of the first device; with a shortest frame of 33333333 ns, which is the duration of a frame at its only rate;
  one target range of 15 to 30 frames per second, and a longest frame that fits the lower end of the range. The three
  encodings write the same tags one after the other; since they have the same size and rate, nothing is lost.\<close>

theorem device_characteristics:
  assumes "new_VirtualCameraDevice path cfg g = Some (dev, g')" "accepting e"
  shows "\<exists>dev' m. isInitFailedLocked e dev = Some (False, dev') \<and> isInitFailedLocked e dev' = Some (False, dev') \<and>
    dv_chars dev' = Some m \<and>
    (\<forall>w h. (w, h) = (if dv_SubDevice dev then (640, 400) else (1280, 800)) \<longrightarrow>
      rows_of STREAM_CONFIGURATIONS dev' = map (\<lambda>x. (hal_format x, w, h, 0)) halFormats \<and>
      rows_of MIN_FRAME_DURATIONS dev' = map (\<lambda>x. (hal_format x, w, h, 33333333)) halFormats \<and>
      (\<forall>f \<in> set (dv_Formats dev'). (to_int (fmt_width f), to_int (fmt_height f)) = (w, h) \<and>
        min_frame_duration (frameRates f) = Some 33333333) \<and>
      m ACTIVE_ARRAY_SIZE = Some [0, 0, w, h]) \<and>
    m TARGET_FPS_RANGES = Some [15, 30] \<and> m MAX_FRAME_DURATION = Some [1000000000 div 15] \<and>
    m AVAILABLE_CAPABILITIES = Some [CAP_BACKWARD_COMPATIBLE, CAP_RAW]"
proof (intro exI conjI)
  note new = constructed [OF assms(1)]
  show "isInitFailedLocked e dev = Some (False, initialised dev)"
    using initialised_ok [OF assms(2)] new by blast
  show "isInitFailedLocked e (initialised dev) = Some (False, initialised dev)"
    using new by (simp add: isInitFailedLocked_def initialised_def)
  show "dv_chars (initialised dev) = Some (full_metadata (side (dv_SubDevice dev)))" by (simp add: initialised_def)
  show "\<forall>w h. (w, h) = (if dv_SubDevice dev then (640, 400) else (1280, 800)) \<longrightarrow>
      rows_of STREAM_CONFIGURATIONS (initialised dev) = map (\<lambda>x. (hal_format x, w, h, 0)) halFormats \<and>
      rows_of MIN_FRAME_DURATIONS (initialised dev) = map (\<lambda>x. (hal_format x, w, h, 33333333)) halFormats \<and>
      (\<forall>f \<in> set (dv_Formats (initialised dev)). (to_int (fmt_width f), to_int (fmt_height f)) = (w, h) \<and>
        min_frame_duration (frameRates f) = Some 33333333) \<and>
      full_metadata (side (dv_SubDevice dev)) ACTIVE_ARRAY_SIZE = Some [0, 0, w, h]"
  proof (intro allI impI conjI)
    fix w h assume "(w, h) = (if dv_SubDevice dev then (640, 400) else (1280 :: int, 800 :: int))"
    then have s: "side (dv_SubDevice dev) = (w, h)" by (simp add: side_def)
    show "rows_of STREAM_CONFIGURATIONS (initialised dev) = map (\<lambda>x. (hal_format x, w, h, 0)) halFormats"
      "rows_of MIN_FRAME_DURATIONS (initialised dev) = map (\<lambda>x. (hal_format x, w, h, 33333333)) halFormats"
      using rows_initialised [OF s] by blast+
    show "\<forall>f \<in> set (dv_Formats (initialised dev)). (to_int (fmt_width f), to_int (fmt_height f)) = (w, h) \<and>
        min_frame_duration (frameRates f) = Some 33333333"
      by (simp add: initialised_def getCandidateSupportedFormatsLocked_def candidate_dims candidate_sel(2) frame_33ms s)
    show "full_metadata (side (dv_SubDevice dev)) ACTIVE_ARRAY_SIZE = Some [0, 0, w, h]"
      by (simp add: full_metadata_def s Let_def)
  qed
qed (auto simp: full_metadata_def side_def Let_def)

definition working_env :: device_env where
  "working_env = \<lparr>accepts_tag = (\<lambda>_. True), default_keys = 0, control_keys = 0\<rparr>"

definition plain_device :: "string \<Rightarrow> VirtualCameraDevice" where
  "plain_device n = \<lparr>dv_CameraId = n, dv_DevicePath = n, dv_Cfg = default_config, dv_SubDevice = False, dv_Formats = [],
     dv_CroppingType = HORIZONTAL, dv_Initialized = False, dv_InitFailed = False, dv_chars = None, dv_Session = None\<rparr>"

lemma plain_constructed:
  "new_VirtualCameraDevice ''1'' default_config \<lparr>device_mainId = None, session_mainId = Some 0\<rparr> =
     Some (plain_device ''1'', \<lparr>device_mainId = None, session_mainId = Some 0\<rparr>)"
  "accepting working_env"
  by (simp_all add: new_VirtualCameraDevice_def matchDevicePath_def plain_device_def accepting_def working_env_def)

theorem device_characteristics_witness:
  "\<exists>dev'. isInitFailedLocked working_env (plain_device ''1'') = Some (False, dev') \<and>
     rows_of STREAM_CONFIGURATIONS dev' = map (\<lambda>x. (hal_format x, 1280, 800, 0)) halFormats"
  using device_characteristics [OF plain_constructed] by (auto simp: plain_device_def)

lemma same_size_desired:
  assumes "ss \<noteq> []" "\<And>s. s \<in> set ss \<Longrightarrow> st_width s = w \<and> st_height s = h" "ASPECT_RATIO w h = Fin r" "0 < w"
    and r: "r < (2 ^ 24 - 1) * 2 ^ 104"
  shows "desired VERTICAL ss = (Fin r, w)"
proof -
  define F where "F = (\<lambda>(ar, maxDim) s. (if better_ratio VERTICAL (stream_ratio s) ar then stream_ratio s else ar,
         if maxDim < stream_dim VERTICAL s then stream_dim VERTICAL s else maxDim))"
  have F: "F (ar, d) s = (if f32_less (Fin r) ar then Fin r else ar, if d < w then w else d)" if "s \<in> set ss" for ar d s
    using assms(2) [OF that] assms(3) by (simp add: F_def better_ratio_def stream_ratio_def stream_dim_def)
  have "foldl F (Fin r, w) xs = (Fin r, w)" if "set xs \<subseteq> set ss" for xs
    using that by (induction xs) (auto simp: F)
  moreover obtain x xs where x: "ss = x # xs" using assms(1) by (cases ss) auto
  moreover have "F (kMaxAspectRatio, 0) x = (Fin r, w)" using F [of x] x assms(4) r by (simp add: kMaxAspectRatio_def)
  ultimately have "foldl F (kMaxAspectRatio, 0) ss = (Fin r, w)" by auto
  then show ?thesis by (simp add: desired_def F_def)
qed

lemma candidate_selected:
  assumes "ss \<noteq> []" "\<And>s. s \<in> set ss \<Longrightarrow> (to_int (st_width s), to_int (st_height s)) = side sub"
  shows "selectFormat VERTICAL (getCandidateSupportedFormatsLocked sub) ss = Some (candidate sub PIX_SRGGB10)"
    "\<And>s. s \<in> set ss \<Longrightarrow> st_width s = fmt_width (candidate sub PIX_SRGGB10) \<and> st_height s = fmt_height (candidate sub PIX_SRGGB10)"
proof -
  have inj: "x = y" if "to_int x = to_int y" for x y :: u32 using that by (simp add: to_int_def signed_word_eqI)
  show dims: "st_width s = fmt_width (candidate sub PIX_SRGGB10) \<and> st_height s = fmt_height (candidate sub PIX_SRGGB10)"
    if "s \<in> set ss" for s
    using assms(2) [OF that] candidate_dims [of sub PIX_SRGGB10] inj by (auto simp: prod_eq_iff)
  have "desired VERTICAL ss = (Fin (13421773 / 8388608), if sub then 640 else 1280)"
    by (rule same_size_desired [OF assms(1), of _ "if sub then 400 else 800"]) (use dims in \<open>auto simp: candidate_sel ratio_8_5\<close>)
  then show "selectFormat VERTICAL (getCandidateSupportedFormatsLocked sub) ss = Some (candidate sub PIX_SRGGB10)"
    by (simp add: selectFormat_def getCandidateSupportedFormatsLocked_def candidate_sel fmt_dim_def fmt_ratio_def ratio_8_5
        nonzero_width_def pix_simps)
qed

text \<open>C22: The session accepts what the device advertises. Take a device that initialised without failure and a session
  made from it. Each combination of output streams without rotation that are advertised in the characteristics, with
  the JPEG data space for each blob, at most three other streams and at most one blob, is supported; and the format
  the session captures in is the Bayer format of exactly the size of the streams, so that nothing is cropped.\<close>

theorem advertised_streams_accepted:
  assumes "new_VirtualCameraDevice path cfg g = Some (dev, g')" "accepting e" "isInitFailedLocked e dev = Some (False, dev')"
    and session: "VirtualCameraDeviceSession env dev' fd g' = Some (ns, g'')"
    and streams: "ss \<noteq> []" "\<And>s. s \<in> set ss \<Longrightarrow> advertised dev' s \<and> st_output s \<and> st_rotation_0 s \<and> (st_format s = BLOB \<longrightarrow> ds_jfif s)"
    and count: "length (filter (\<lambda>s. st_format s \<noteq> BLOB) ss) \<le> 3" "length (filter (\<lambda>s. st_format s = BLOB) ss) \<le> 1"
  shows "isStreamCombinationSupported (depthEnabled (ns_config ns)) (mSupportedFormats (ns_config ns)) True ss = OK \<and>
    (\<exists>f. selectFormat (mCroppingType (ns_config ns)) (mSupportedFormats (ns_config ns)) ss = Some f \<and>
      fourcc f = PIX_SRGGB10 \<and> (\<forall>s \<in> set ss. st_width s = fmt_width f \<and> st_height s = fmt_height f))"
proof
  define sub where "sub = dv_SubDevice dev"
  obtain w h where wh: "side (dv_SubDevice dev) = (w, h)" by (cases "side (dv_SubDevice dev)")
  have dev': "dev' = initialised dev" using initialised_ok [OF assms(2)] constructed [OF assms(1)] assms(3) by simp
  have c: "mSupportedFormats (ns_config ns) = getCandidateSupportedFormatsLocked sub" "mCroppingType (ns_config ns) = VERTICAL"
    using session by (auto simp: VirtualCameraDeviceSession_def Let_def bind_Some_iff dev' initialised_def sub_def)
  have "(hal_format (st_format s), to_int (st_width s), to_int (st_height s), 0 :: int) \<in> set (map (\<lambda>x. (hal_format x, w, h, 0)) halFormats)"
    if "s \<in> set ss" for s using streams(2) [OF that] unfolding advertised_def dev' rows_initialised [OF wh] by blast
  then have dims: "(to_int (st_width s), to_int (st_height s)) = side sub" and fmt: "hal_format (st_format s) \<in> hal_format ` set halFormats"
    if "s \<in> set ss" for s using that by (auto simp: sub_def wh)
  note sel = candidate_selected [OF streams(1) dims]
  have "isSupported (depthEnabled (ns_config ns)) (getCandidateSupportedFormatsLocked sub) s" if "s \<in> set ss" for s
    using streams(2) [OF that] fmt [OF that] sel(2) [OF _ that]
    by (auto simp: isSupported_def halFormats_def known_format_def advertised_def getCandidateSupportedFormatsLocked_def candidate_sel
        split: PixelFormat.splits)
  then show "isStreamCombinationSupported (depthEnabled (ns_config ns)) (mSupportedFormats (ns_config ns)) True ss = OK"
    using streams(1) count by (simp add: isStreamCombinationSupported_def c list_all_iff kMaxProcessedStream_def kMaxStallStream_def)
  show "\<exists>f. selectFormat (mCroppingType (ns_config ns)) (mSupportedFormats (ns_config ns)) ss = Some f \<and>
      fourcc f = PIX_SRGGB10 \<and> (\<forall>s \<in> set ss. st_width s = fmt_width f \<and> st_height s = fmt_height f)"
    using sel by (auto simp: c candidate_sel(1))
qed

definition preview_stream :: Stream where
  "preview_stream = \<lparr>st_id = 0, st_width = 1280, st_height = 800, st_format = YCBCR_420_888, st_usage = 0, ds_jfif = False,
     ds_depth = False, st_output = True, st_rotation_0 = True\<rparr>"

definition plain_open :: open_env where
  "plain_open = \<lparr>default_requests = 0, request_queue = True, result_queue = True, thumb_sizes = [], usage_flags = 0\<rparr>"

theorem advertised_streams_accepted_witness:
  "\<exists>ns g. VirtualCameraDeviceSession plain_open (initialised (plain_device ''1'')) (- 1) \<lparr>device_mainId = None, session_mainId = Some 0\<rparr> = Some (ns, g) \<and>
     isStreamCombinationSupported (depthEnabled (ns_config ns)) (mSupportedFormats (ns_config ns)) True [preview_stream] = OK"
proof -
  have init: "isInitFailedLocked working_env (plain_device ''1'') = Some (False, initialised (plain_device ''1''))"
    by (rule initialised_ok) (simp_all add: plain_constructed plain_device_def)
  have "c_atoi ''1'' = Some 1" by code_simp
  then obtain ns g where ns: "VirtualCameraDeviceSession plain_open (initialised (plain_device ''1'')) (- 1)
      \<lparr>device_mainId = None, session_mainId = Some 0\<rparr> = Some (ns, g)"
    by (simp add: VirtualCameraDeviceSession_def initialised_def plain_device_def Let_def)
  have "rows_of STREAM_CONFIGURATIONS (initialised (plain_device ''1'')) = map (\<lambda>x. (hal_format x, 1280, 800, 0)) halFormats"
    using rows_initialised(1) [of "plain_device ''1''" 1280 800] by (simp add: side_def plain_device_def)
  then have "advertised (initialised (plain_device ''1'')) preview_stream"
    by (simp add: advertised_def preview_stream_def known_format_def halFormats_def to_int_def)
  then show ?thesis
    using advertised_streams_accepted [OF plain_constructed init ns, of "[preview_stream]"] ns by (simp add: preview_stream_def)
qed

section \<open>No open succeeds\<close>

text \<open>The calls of \<open>open\<close> in one process, each on one of its devices; \<open>None\<close> when one of them is undefined.\<close>

fun opens :: "(device_env \<times> open_env \<times> bool \<times> nat) list \<Rightarrow> VirtualCameraDevice list \<Rightarrow> statics \<Rightarrow> status list option" where
  "opens [] devs g = Some []"
| "opens ((e, env, callback, i) # calls) devs g =
     (if i < length devs then do {
        (st, c, dev, g) \<leftarrow> open_device e env callback (devs ! i) g;
        sts \<leftarrow> opens calls (devs[i := dev]) g;
        Some (st # sts) }
      else opens calls devs g)"

lemma initOutput_keeps:
  assumes "initOutputCharsKeys e dev m = Some (ret, dev', m')"
  shows "dev' = initSupportedFormatsLocked dev"
  using assms by (simp add: initOutputCharsKeys_def initSupported has_formats Let_def bind_Some_iff case_prod_unfold) auto

lemma initFailed_keeps:
  assumes "isInitFailedLocked e dev = Some (failed, dev')"
  shows "dv_Session dev' = dv_Session dev" "dv_CameraId dev' = dv_CameraId dev"
proof -
  have "dv_Session d = dv_Session dev \<and> dv_CameraId d = dv_CameraId dev" if run: "initCameraCharacteristics e dev = Some (ret, d)" for ret d
  proof (cases "dv_chars dev \<noteq> None \<or> default_keys e \<noteq> 0 \<or> control_keys e \<noteq> 0")
    case True
    then show ?thesis using run by (auto simp: initCameraCharacteristics_def split: if_split_asm)
  next
    case False
    then obtain ret' d' m where out: "initOutputCharsKeys e dev (\<lambda>_. None) = Some (ret', d', m)"
      "(if ret' \<noteq> 0 then Some (ret', d') else case initAvailableCapabilities e (dv_Formats d') m of (ret, m) \<Rightarrow>
          if ret \<noteq> 0 then Some (ret, d') else Some (0, d'\<lparr>dv_chars := Some m\<rparr>)) = Some (ret, d)"
      using run by (auto simp: initCameraCharacteristics_def bind_Some_iff)
    then show ?thesis using initOutput_keeps [OF out(1)]
      by (auto simp: initSupported split: if_split_asm prod.splits)
  qed
  note kept = this
  have "dv_Session dev' = dv_Session dev \<and> dv_CameraId dev' = dv_CameraId dev"
  proof (cases "dv_Initialized dev")
    case True
    then show ?thesis using assms by (simp add: isInitFailedLocked_def)
  next
    case False
    obtain ret d where run: "initCameraCharacteristics e dev = Some (ret, d)"
      using assms False by (cases "initCameraCharacteristics e dev") (auto simp: isInitFailedLocked_def)
    have "dev' = d\<lparr>dv_InitFailed := True, dv_Initialized := True\<rparr> \<or> dev' = d\<lparr>dv_Initialized := True\<rparr>"
      using assms False run by (cases "ret = 0") (simp_all add: isInitFailedLocked_def Let_def)
    then show ?thesis using kept [OF run] by auto
  qed
  then show "dv_Session dev' = dv_Session dev" "dv_CameraId dev' = dv_CameraId dev" by blast+
qed

lemma open_before_first:
  assumes "session_mainId g = None" "dv_Session dev \<noteq> Some False" "open_device e env callback dev g = Some (st, c, dev', g')"
  shows "st = ILLEGAL_ARGUMENT \<or> st = INTERNAL_ERROR" "g' = g" "dv_Session dev' = dv_Session dev"
proof -
  have "(st = ILLEGAL_ARGUMENT \<or> st = INTERNAL_ERROR) \<and> g' = g \<and> dv_Session dev' = dv_Session dev"
  proof (cases callback)
    case True
    then obtain failed d where init: "isInitFailedLocked e dev = Some (failed, d)"
      using assms(3) by (auto simp: open_device_def bind_Some_iff)
    then have kept: "dv_Session d = dv_Session dev" by (rule initFailed_keeps)
    have undef: "initialize env ns = (True, ns) \<and> delete_session ns = None"
      if "VirtualCameraDeviceSession env d NO_FD g = Some (ns, g'')" for ns g''
      using that assms(1)
      by (auto simp: VirtualCameraDeviceSession_def initialize_def delete_session_def NO_FD_def Let_def bind_Some_iff)
    have failed
    proof (rule ccontr)
      assume "\<not> failed"
      then obtain ns g'' where "VirtualCameraDeviceSession env d NO_FD g = Some (ns, g'')"
          "(case initialize env ns of (True, ns) \<Rightarrow> Option.bind (delete_session ns) (\<lambda>_. Some (INTERNAL_ERROR, None, d, g''))
            | (False, ns) \<Rightarrow> Some (OK, Some (ns_config ns), d\<lparr>dv_Session := Some False\<rparr>, g'')) = Some (st, c, dev', g')"
        using assms(2,3) True init kept by (auto simp: open_device_def bind_Some_iff)
      then show False using undef by force
    qed
    then show ?thesis using assms(3) True init kept by (simp add: open_device_def)
  qed (use assms(3) in \<open>simp add: open_device_def\<close>)
  then show "st = ILLEGAL_ARGUMENT \<or> st = INTERNAL_ERROR" "g' = g" "dv_Session dev' = dv_Session dev" by auto
qed

lemma opens_fail:
  assumes "session_mainId g = None" "\<And>dev. dev \<in> set devs \<Longrightarrow> dv_Session dev = None" "opens calls devs g = Some sts"
  shows "set sts \<subseteq> {ILLEGAL_ARGUMENT, INTERNAL_ERROR}"
  using assms(2,3)
proof (induction calls arbitrary: devs sts)
  case (Cons call calls)
  obtain e env cb i where call: "call = (e, env, cb, i)" by (cases call) auto
  show ?case
  proof (cases "i < length devs")
    case True
    then obtain st c d g' sts' where run: "open_device e env cb (devs ! i) g = Some (st, c, d, g')"
        "opens calls (devs[i := d]) g' = Some sts'" "sts = st # sts'"
      using Cons.prems(2) by (auto simp: call bind_Some_iff)
    have none: "dv_Session (devs ! i) = None" using Cons.prems(1) True by simp
    note first = open_before_first [OF assms(1) _ run(1)]
    have "dv_Session x = None" if "x \<in> set (devs[i := d])" for x
      using that set_update_subset_insert [of devs i d] Cons.prems(1) first(3) none by auto
    then have "set sts' \<subseteq> {ILLEGAL_ARGUMENT, INTERNAL_ERROR}" using Cons.IH [of "devs[i := d]"] run(2) first(2) none by simp
    then show ?thesis using first(1) none run(3) by auto
  next
    case False
    then show ?thesis using Cons.IH [of devs sts] Cons.prems by (simp add: call)
  qed
qed simp

lemma first_open_undefined:
  assumes "session_mainId g = None" "dv_Session dev = None" "dv_CameraId dev = dec n" "n < 2 ^ 31"
    "isInitFailedLocked e dev = Some (False, dev')"
  shows "open_device e env True dev g = None"
proof -
  have "dv_Session dev' = None" "dv_CameraId dev' = dec n" using initFailed_keeps [OF assms(5)] assms(2,3) by simp_all
  then show ?thesis using assms c_atoi_dec [OF assms(4)]
    by (simp add: open_device_def VirtualCameraDeviceSession_def initialize_def delete_session_def NO_FD_def)
qed

text \<open>C24: A flaw of the code. No camera can ever be opened. \<open>open\<close> hands the session a descriptor that holds nothing,
  and the first session of a process counts as the main one, which needs a descriptor: its initialisation fails
  before the threads are made, and its destructor calls them through null pointers. So in a process that has made
  no session yet, whatever devices it has and in whatever order they are opened, either every call of \<open>open\<close> answers
  with an error before a session is made, or the execution is undefined.\<close>

theorem open_never_succeeds:
  assumes "session_mainId g = None" "\<And>dev. dev \<in> set devs \<Longrightarrow> dv_Session dev = None" "opens calls devs g = Some sts"
  shows "set sts \<subseteq> {ILLEGAL_ARGUMENT, INTERNAL_ERROR} \<and>
    (\<forall>dev \<in> set devs. \<forall>n e env dev'. dv_CameraId dev = dec n \<and> n < 2 ^ 31 \<and> isInitFailedLocked e dev = Some (False, dev') \<longrightarrow>
      open_device e env True dev g = None)"
  using opens_fail [OF assms] first_open_undefined [OF assms(1)] assms(2) by blast

theorem open_never_succeeds_witness:
  "set [ILLEGAL_ARGUMENT] \<subseteq> {ILLEGAL_ARGUMENT, INTERNAL_ERROR} \<and>
   open_device working_env plain_open True (plain_device ''0'') \<lparr>device_mainId = None, session_mainId = None\<rparr> = None"
proof
  have run: "opens [(working_env, plain_open, False, 0)] [plain_device ''0''] \<lparr>device_mainId = None, session_mainId = None\<rparr> =
      Some [ILLEGAL_ARGUMENT]" by (simp add: open_device_def)
  have idle: "dv_Session dev = None" if "dev \<in> set [plain_device ''0'']" for dev using that by (simp add: plain_device_def)
  note all = open_never_succeeds [OF _ idle run]
  show "set [ILLEGAL_ARGUMENT] \<subseteq> {ILLEGAL_ARGUMENT, INTERNAL_ERROR}" by simp
  have init: "isInitFailedLocked working_env (plain_device ''0'') = Some (False, initialised (plain_device ''0''))"
    by (rule initialised_ok) (simp_all add: plain_constructed plain_device_def)
  have "dv_CameraId (plain_device ''0'') = dec 0" by (simp add: plain_device_def) code_simp
  then show "open_device working_env plain_open True (plain_device ''0'') \<lparr>device_mainId = None, session_mainId = None\<rparr> = None"
    using conjunct2 [OF all, rule_format, of "plain_device ''0''" 0 working_env "initialised (plain_device ''0'')" plain_open] init by simp
qed

end
