(* ===== verification/Camera_Provider.thy ===== *)
theory Camera_Provider
  imports Camera_Device
begin

text \<open>
  The provider of the camera HAL (\<open>camera_vir/provider/VirtualCameraProviderImpl_2_4.cpp\<close>): the list of cameras it
  announces to the camera server through a callback, the lookup of a camera by name, and the start of the hot
  plug thread. The loop of that thread that reads the events of \<open>inotify\<close> does nothing with them and is not
  in the model.
\<close>

section \<open>Names\<close>

definition strip_prefix :: "string \<Rightarrow> string \<Rightarrow> string option" where
  "strip_prefix p s = (if take (length p) s = p then Some (drop (length p) s) else None)"

text \<open>The regular expression \<open>device@([0-9]+\.[0-9]+)/virtual/(.+)\<close>; its dot matches no end of line. Both groups
  of digits are followed by a character that is no digit, so each matches as far as it can.\<close>

definition line_end :: "char \<Rightarrow> bool" where
  "line_end c \<longleftrightarrow> c = char_of (10 :: nat) \<or> c = char_of (13 :: nat)"

definition matchDeviceName :: "string \<Rightarrow> (string \<times> string) option" where
  "matchDeviceName deviceName = do {
     r \<leftarrow> strip_prefix ''device@'' deviceName;
     let a = takeWhile isdigit r;
     r \<leftarrow> strip_prefix ''.'' (dropWhile isdigit r);
     let b = takeWhile isdigit r;
     path \<leftarrow> strip_prefix ''/virtual/'' (dropWhile isdigit r);
     if a = [] \<or> b = [] \<or> path = [] \<or> list_ex line_end path then None else Some (a @ ''.'' @ b, path) }"

definition device_name :: "int \<Rightarrow> string \<Rightarrow> string" where
  "device_name minor cid =
     (if minor = 6 then ''device@3.6/virtual/'' @ cid
      else if minor = 5 then ''device@3.5/virtual/'' @ cid
      else ''device@3.4/virtual/'' @ cid)"

section \<open>The provider\<close>

datatype CameraDeviceStatus = PRESENT | NOT_PRESENT

text \<open>\<open>pv_callback\<close> says whether \<open>mCallbacks\<close> is set. \<open>pv_sent\<close> is what no data of the code holds: the notifications
  the present callback has got. The map is unordered in the code: the order of the list stands for the order of
  its iteration.\<close>

record provider =
  pv_Cfg :: VirtualCameraConfig
  mPreferredHal3MinorVersion :: int
  mCameraStatusMap :: "(string \<times> CameraDeviceStatus) list"
  pv_callback :: bool
  pv_sent :: "(string \<times> CameraDeviceStatus) list"

definition VirtualCameraProviderImpl_2_4 :: "VirtualCameraConfig \<Rightarrow> int \<Rightarrow> provider" where
  "VirtualCameraProviderImpl_2_4 cfg property =
     \<lparr>pv_Cfg = cfg, mPreferredHal3MinorVersion = (if property \<in> {4, 5, 6} then property else 4),
      mCameraStatusMap = [], pv_callback = False, pv_sent = []\<rparr>"

definition cameraDeviceStatusChange :: "string \<Rightarrow> CameraDeviceStatus \<Rightarrow> provider \<Rightarrow> provider" where
  "cameraDeviceStatusChange n st p = (if pv_callback p then p\<lparr>pv_sent := pv_sent p @ [(n, st)]\<rparr> else p)"

text \<open>The source sets the call-back under \<open>mLock\<close> and then goes through \<open>mCameraStatusMap\<close> without it. Here
  \<open>setCallback\<close> is one step, as every call of the provider is, so a camera that is added or removed by another thread while the
  loop runs is not in the model.\<close>

definition setCallback :: "bool \<Rightarrow> provider \<Rightarrow> provider" where
  "setCallback callback p =
     (let p = p\<lparr>pv_callback := callback, pv_sent := []\<rparr>
      in if \<not> callback then p else foldl (\<lambda>p (n, st). cameraDeviceStatusChange n st p) p (mCameraStatusMap p))"

text \<open>\<open>mCameraStatusMap[n] = st\<close> and \<open>mCameraStatusMap.erase (n)\<close>.\<close>

definition status_set :: "string \<Rightarrow> CameraDeviceStatus \<Rightarrow> (string \<times> CameraDeviceStatus) list \<Rightarrow> (string \<times> CameraDeviceStatus) list" where
  "status_set n st m = (if map_of m n = None then m @ [(n, st)] else map (\<lambda>(k, v). if k = n then (k, st) else (k, v)) m)"

definition addCamera :: "string \<Rightarrow> provider \<Rightarrow> provider" where
  "addCamera devName p =
     (let n = device_name (mPreferredHal3MinorVersion p) devName
      in cameraDeviceStatusChange n PRESENT (p\<lparr>mCameraStatusMap := status_set n PRESENT (mCameraStatusMap p)\<rparr>))"

definition deviceAdded :: "device_env \<Rightarrow> string \<Rightarrow> provider \<Rightarrow> statics \<Rightarrow> (provider \<times> statics) option" where
  "deviceAdded e devName p g = do {
     (dev, g) \<leftarrow> new_VirtualCameraDevice devName (pv_Cfg p) g;
     (failed, dev) \<leftarrow> isInitFailedLocked e dev;
     Some (if failed then (p, g) else (addCamera devName p, g)) }"

text \<open>The number after the first ten characters is read, and then not used; a shorter name has no such place.\<close>

definition kDevicePrefixLen :: nat where "kDevicePrefixLen = 5 + 5"

definition deviceRemoved :: "string \<Rightarrow> provider \<Rightarrow> provider option" where
  "deviceRemoved devName p = do {
     _ \<leftarrow> (if length devName < kDevicePrefixLen then None else c_atoi (drop kDevicePrefixLen devName));
     let n = device_name (mPreferredHal3MinorVersion p) devName;
     Some (if map_of (mCameraStatusMap p) n \<noteq> None
       then cameraDeviceStatusChange n NOT_PRESENT (p\<lparr>mCameraStatusMap := filter (\<lambda>(k, _). k \<noteq> n) (mCameraStatusMap p)\<rparr>)
       else p) }"

text \<open>The answer is a status with the device when it is \<open>OK\<close>. For the minor versions 5 and 6 the construction of a
  device is commented out, and the pointer stays null.\<close>

definition getCameraDeviceInterface_V3_x ::
  "device_env \<Rightarrow> string \<Rightarrow> provider \<Rightarrow> statics \<Rightarrow> (status \<times> VirtualCameraDevice option \<times> statics) option" where
  "getCameraDeviceInterface_V3_x e name p g =
     (case matchDeviceName name of
        None \<Rightarrow> Some (ILLEGAL_ARGUMENT, None, g)
      | Some (version, path) \<Rightarrow>
          if map_of (mCameraStatusMap p) name \<noteq> Some PRESENT then Some (ILLEGAL_ARGUMENT, None, g)
          else if mPreferredHal3MinorVersion p = 4 then do {
            (dev, g) \<leftarrow> new_VirtualCameraDevice path (pv_Cfg p) g;
            (failed, dev) \<leftarrow> isInitFailedLocked e dev;
            Some (if failed then (INTERNAL_ERROR, None, g) else (OK, Some dev, g)) }
          else Some (INTERNAL_ERROR, None, g))"

definition getCameraIdList :: "provider \<Rightarrow> status \<times> string list" where
  "getCameraIdList p = (OK, [])"

text \<open>The start of the hot plug thread, given whether \<open>/dev\<close> can be read and the name of the capture device that
  \<open>get_media_info\<close> found. Two cameras are made when there is none.\<close>

definition hotplug_start :: "device_env \<Rightarrow> bool \<Rightarrow> string \<Rightarrow> provider \<Rightarrow> statics \<Rightarrow> (provider \<times> statics) option" where
  "hotplug_start e devdir dev_name p g =
     (if \<not> devdir then Some (p, g)
      else if length dev_name > 0 then Some (p, g)
      else do { (p, g) \<leftarrow> deviceAdded e ''0'' p g; deviceAdded e ''1'' p g })"

section \<open>The provider in use\<close>

text \<open>What the camera server and the kernel do to the provider, one call after the other.\<close>

datatype provider_call = SetCallback bool | Added device_env string | Removed string | Interface device_env string

definition call :: "provider_call \<Rightarrow> provider \<times> statics \<Rightarrow> (provider \<times> statics) option" where
  "call c s = (case s of (p, g) \<Rightarrow> (case c of
      SetCallback b \<Rightarrow> Some (setCallback b p, g)
    | Added e n \<Rightarrow> deviceAdded e n p g
    | Removed n \<Rightarrow> do { p \<leftarrow> deviceRemoved n p; Some (p, g) }
    | Interface e n \<Rightarrow> do { (_, _, g) \<leftarrow> getCameraDeviceInterface_V3_x e n p g; Some (p, g) }))"

fun calls :: "provider_call list \<Rightarrow> provider \<times> statics \<Rightarrow> (provider \<times> statics) option" where
  "calls [] s = Some s"
| "calls (c # cs) s = do { s \<leftarrow> call c s; calls cs s }"

text \<open>The abstract view: the set of cameras that are present, for the provider and for a client that only has the
  notifications.\<close>

definition present :: "provider \<Rightarrow> string set" where
  "present p = fst ` set (mCameraStatusMap p)"

fun replay :: "(string \<times> CameraDeviceStatus) list \<Rightarrow> string set \<Rightarrow> string set" where
  "replay [] S = S"
| "replay ((n, st) # ms) S = replay ms (if st = PRESENT then insert n S else S - {n})"

definition provider_ok :: "provider \<Rightarrow> bool" where
  "provider_ok p \<longleftrightarrow> distinct (map fst (mCameraStatusMap p)) \<and> (\<forall>(n, st) \<in> set (mCameraStatusMap p). st = PRESENT) \<and>
     (pv_callback p \<longrightarrow> replay (pv_sent p) {} = present p)"

lemma replay_append: "replay (ms @ ms') S = replay ms' (replay ms S)"
  by (induction ms arbitrary: S) auto

lemma change_simps:
  "mCameraStatusMap (cameraDeviceStatusChange n st p) = mCameraStatusMap p"
  "pv_callback (cameraDeviceStatusChange n st p) = pv_callback p"
  "mPreferredHal3MinorVersion (cameraDeviceStatusChange n st p) = mPreferredHal3MinorVersion p"
  "pv_Cfg (cameraDeviceStatusChange n st p) = pv_Cfg p"
  "pv_callback p \<Longrightarrow> pv_sent (cameraDeviceStatusChange n st p) = pv_sent p @ [(n, st)]"
  by (simp_all add: cameraDeviceStatusChange_def)

lemma status_set_simps:
  "map fst (status_set n st m) = map fst m @ (if map_of m n = None then [n] else [])"
  "snd ` set (status_set n st m) \<subseteq> insert st (snd ` set m)"
  by (auto simp: status_set_def case_prod_unfold)

lemma sent_all:
  "pv_callback p \<Longrightarrow> pv_sent (foldl (\<lambda>p (n, st). cameraDeviceStatusChange n st p) p m) = pv_sent p @ m \<and>
     mCameraStatusMap (foldl (\<lambda>p (n, st). cameraDeviceStatusChange n st p) p m) = mCameraStatusMap p"
  by (induction m arbitrary: p) (auto simp: change_simps)

lemma replay_present: "\<forall>(n, st) \<in> set m. st = PRESENT \<Longrightarrow> replay m S = S \<union> fst ` set m"
proof (induction m arbitrary: S)
  case (Cons x m)
  then show ?case by (cases x) simp
qed simp

lemma setCallback_ok: "provider_ok p \<Longrightarrow> provider_ok (setCallback b p)"
  using sent_all [of "p\<lparr>pv_callback := True, pv_sent := []\<rparr>" "mCameraStatusMap p"]
    replay_present [of "mCameraStatusMap p" "{}"]
  by (auto simp: provider_ok_def setCallback_def present_def Let_def)

lemma addCamera_ok:
  assumes "provider_ok p"
  shows "provider_ok (addCamera n p)" "present (addCamera n p) = insert (device_name (mPreferredHal3MinorVersion p) n) (present p)"
proof -
  define k where "k = device_name (mPreferredHal3MinorVersion p) n"
  define m where "m = status_set k PRESENT (mCameraStatusMap p)"
  have add: "addCamera n p = cameraDeviceStatusChange k PRESENT (p\<lparr>mCameraStatusMap := m\<rparr>)"
    by (simp add: addCamera_def k_def m_def Let_def)
  have keys: "fst ` set m = insert k (present p)"
  proof -
    have "set (map fst m) = insert k (present p)"
      unfolding m_def status_set_simps set_append by (auto simp: present_def map_of_eq_None_iff)
    then show ?thesis by simp
  qed
  show p: "present (addCamera n p) = insert k (present p)" by (simp add: add change_simps present_def keys)
  have "distinct (map fst m)" using assms
    by (auto simp: m_def status_set_simps provider_ok_def map_of_eq_None_iff)
  moreover have "\<forall>(n, st) \<in> set m. st = PRESENT"
    using status_set_simps(2) [of k PRESENT "mCameraStatusMap p"] assms by (fastforce simp: m_def provider_ok_def)
  moreover have "replay (pv_sent (addCamera n p)) {} = present (addCamera n p)" if "pv_callback p"
    using assms that p by (simp add: add provider_ok_def change_simps(5) replay_append)
  ultimately show "provider_ok (addCamera n p)" by (simp add: provider_ok_def add change_simps)
qed

lemma deviceRemoved_ok:
  assumes "provider_ok p" "deviceRemoved n p = Some p'"
  shows "provider_ok p'" "present p' = present p - {device_name (mPreferredHal3MinorVersion p) n}"
proof -
  define k where "k = device_name (mPreferredHal3MinorVersion p) n"
  define m where "m = filter (\<lambda>(x, _). x \<noteq> k) (mCameraStatusMap p)"
  have p': "p' = (if k \<in> present p then cameraDeviceStatusChange k NOT_PRESENT (p\<lparr>mCameraStatusMap := m\<rparr>) else p)"
    using assms(2) by (auto simp: deviceRemoved_def k_def m_def present_def bind_Some_iff map_of_eq_None_iff Let_def split: if_splits)
  have keys: "fst ` set m = present p - {k}" by (force simp: m_def present_def)
  then show q: "present p' = present p - {k}" by (auto simp: p' present_def change_simps)
  have "distinct (map fst m)" using assms(1) by (simp add: m_def provider_ok_def distinct_map_filter)
  moreover have "\<forall>(n, st) \<in> set m. st = PRESENT" using assms(1) by (auto simp: m_def provider_ok_def)
  moreover have "replay (pv_sent p') {} = present p'" if "pv_callback p" "k \<in> present p"
    using assms(1) that q by (simp add: p' provider_ok_def change_simps(5) replay_append)
  ultimately show "provider_ok p'" using assms(1) by (auto simp: provider_ok_def p' change_simps)
qed

lemma call_ok:
  assumes "provider_ok p" "call c (p, g) = Some (p', g')"
  shows "provider_ok p'" "mPreferredHal3MinorVersion p' = mPreferredHal3MinorVersion p"
proof -
  have minor: "mPreferredHal3MinorVersion (foldl (\<lambda>p (n, st). cameraDeviceStatusChange n st p) q m) = mPreferredHal3MinorVersion q" for q m
    by (induction m arbitrary: q) (auto simp: change_simps)
  have "provider_ok p' \<and> mPreferredHal3MinorVersion p' = mPreferredHal3MinorVersion p"
  proof (cases c)
    case (SetCallback b)
    then show ?thesis using assms setCallback_ok minor by (auto simp: call_def setCallback_def Let_def)
  next
    case (Added e n)
    then have "p' = p \<or> p' = addCamera n p"
      using assms(2) by (auto simp: call_def deviceAdded_def bind_Some_iff split: if_splits)
    then show ?thesis using addCamera_ok(1) [OF assms(1)] assms(1) by (auto simp: addCamera_def change_simps Let_def)
  next
    case (Removed n)
    then have "deviceRemoved n p = Some p'" using assms(2) by (simp add: call_def bind_Some_iff)
    moreover from this have "mPreferredHal3MinorVersion p' = mPreferredHal3MinorVersion p"
      by (auto simp: deviceRemoved_def bind_Some_iff change_simps Let_def split: if_splits)
    ultimately show ?thesis using deviceRemoved_ok(1) [OF assms(1)] by simp
  next
    case (Interface e n)
    then show ?thesis using assms by (auto simp: call_def bind_Some_iff)
  qed
  then show "provider_ok p'" "mPreferredHal3MinorVersion p' = mPreferredHal3MinorVersion p" by blast+
qed

lemma calls_ok:
  assumes "provider_ok p" "calls cs (p, g) = Some (p', g')"
  shows "provider_ok p'"
  using assms
proof (induction cs arbitrary: p g)
  case (Cons c cs)
  then obtain q h where "call c (p, g) = Some (q, h)" "calls cs (q, h) = Some (p', g')" by (auto simp: bind_Some_iff)
  then show ?case using Cons.IH call_ok(1) [OF Cons.prems(1)] by blast
qed simp

section \<open>The properties\<close>

text \<open>C23: The notifications tell a client exactly which cameras there are. After any sequence of calls on a provider
  that was just made (callbacks set, replaced and taken away, devices added, removed and looked up, in any order), a
  client that has a callback and replays what this callback was sent since it was set ends with exactly the cameras
  that a lookup would find present; each of them is in the map once.\<close>

theorem notifications_tell_cameras:
  assumes "calls cs (VirtualCameraProviderImpl_2_4 cfg property, g) = Some (p, g')"
  shows "(pv_callback p \<longrightarrow> replay (pv_sent p) {} = {n. map_of (mCameraStatusMap p) n = Some PRESENT}) \<and>
    distinct (map fst (mCameraStatusMap p))"
proof
  have "provider_ok (VirtualCameraProviderImpl_2_4 cfg property)"
    by (simp add: provider_ok_def VirtualCameraProviderImpl_2_4_def)
  then have ok: "provider_ok p" using calls_ok assms by blast
  then show "distinct (map fst (mCameraStatusMap p))" by (simp add: provider_ok_def)
  then have "{n. map_of (mCameraStatusMap p) n = Some PRESENT} = present p"
    using ok by (force simp: provider_ok_def present_def)
  then show "pv_callback p \<longrightarrow> replay (pv_sent p) {} = {n. map_of (mCameraStatusMap p) n = Some PRESENT}"
    using ok by (simp add: provider_ok_def)
qed

definition plain_provider :: provider where
  "plain_provider = VirtualCameraProviderImpl_2_4 default_config 4"

definition no_statics :: statics where "no_statics = \<lparr>device_mainId = None, session_mainId = None\<rparr>"

lemma plain_device_new:
  assumes "take 10 n \<noteq> ''/dev/video''"
  shows "new_VirtualCameraDevice n default_config no_statics = Some (plain_device n, no_statics)"
    "isInitFailedLocked working_env (plain_device n) = Some (False, initialised (plain_device n))"
  using initialised_ok [OF plain_constructed(2), of "plain_device n"] assms
  by (simp_all add: new_VirtualCameraDevice_def matchDevicePath_def plain_device_def)

theorem notifications_tell_cameras_witness:
  "\<exists>p g. calls [Added working_env ''0'', SetCallback True, Added working_env ''1''] (plain_provider, no_statics) = Some (p, g) \<and>
     replay (pv_sent p) {} = {n. map_of (mCameraStatusMap p) n = Some PRESENT}"
proof -
  have "\<exists>p g. calls [Added working_env ''0'', SetCallback True, Added working_env ''1''] (plain_provider, no_statics) = Some (p, g) \<and>
      pv_callback p"
    by (simp add: call_def deviceAdded_def plain_device_new plain_provider_def VirtualCameraProviderImpl_2_4_def addCamera_def
        change_simps setCallback_def Let_def status_set_def device_name_def)
  then show ?thesis using notifications_tell_cameras unfolding plain_provider_def by blast
qed

lemma match_name: "path \<noteq> [] \<Longrightarrow> \<not> list_ex line_end path \<Longrightarrow> matchDeviceName (''device@3.4/virtual/'' @ path) = Some (''3.4'', path)"
  "path \<noteq> [] \<Longrightarrow> \<not> list_ex line_end path \<Longrightarrow> matchDeviceName (''device@3.5/virtual/'' @ path) = Some (''3.5'', path)"
  "path \<noteq> [] \<Longrightarrow> \<not> list_ex line_end path \<Longrightarrow> matchDeviceName (''device@3.6/virtual/'' @ path) = Some (''3.6'', path)"
  by (simp_all add: matchDeviceName_def strip_prefix_def isdigit_def)

lemma match_device_name:
  assumes "path \<noteq> []" "\<not> list_ex line_end path"
  shows "\<exists>v. matchDeviceName (device_name minor path) = Some (v, path)"
  using match_name [OF assms] by (simp add: device_name_def)

text \<open>Building the device again gives the same device: the static variable has its value by then.\<close>

lemma device_built_again:
  assumes "new_VirtualCameraDevice path cfg g = Some (dev, g')"
  shows "new_VirtualCameraDevice path cfg g' = Some (dev, g')"
  using assms by (auto simp: new_VirtualCameraDevice_def Let_def bind_Some_iff split: option.splits)

lemma built_path: "new_VirtualCameraDevice path cfg g = Some (dev, g') \<Longrightarrow> dv_DevicePath dev = path"
  by (auto simp: new_VirtualCameraDevice_def Let_def bind_Some_iff split: option.splits)

text \<open>C37: A camera that was added is found, when the version is 4, and never otherwise. Let a device be added to a provider
  that has been in use, with a name of at least one character and no line end, and with a metadata library that works.
  Then the provider has the camera under the name it announces. A lookup of that name gives, in version 4, a
  device with the path that was added and with its characteristics; in the versions 5 and 6, which the provider accepts
  as well, it fails although the camera is announced. When the removal of the device is defined, lookups fail
  afterwards; it is not defined for a name below ten characters, such as the names of the two cameras
  the provider makes itself.\<close>

theorem added_camera_found:
  assumes use: "calls cs (VirtualCameraProviderImpl_2_4 cfg property, g0) = Some (p, g)"
    and name: "path \<noteq> []" "\<not> list_ex line_end path" and lib: "accepting e"
    and added: "deviceAdded e path p g = Some (p', g')"
  shows "map_of (mCameraStatusMap p') (device_name (mPreferredHal3MinorVersion p) path) = Some PRESENT \<and>
    (if mPreferredHal3MinorVersion p = 4
      then (\<exists>dev. getCameraDeviceInterface_V3_x e (device_name (mPreferredHal3MinorVersion p) path) p' g' = Some (OK, Some dev, g') \<and>
        dv_DevicePath dev = path \<and> dv_chars dev = Some (full_metadata (side (dv_SubDevice dev))))
      else getCameraDeviceInterface_V3_x e (device_name (mPreferredHal3MinorVersion p) path) p' g' = Some (INTERNAL_ERROR, None, g')) \<and>
    (if length path < 10 then deviceRemoved path p' = None
      else \<forall>p''. deviceRemoved path p' = Some p'' \<longrightarrow>
        getCameraDeviceInterface_V3_x e (device_name (mPreferredHal3MinorVersion p) path) p'' g' = Some (ILLEGAL_ARGUMENT, None, g'))"
proof (intro conjI)
  let ?n = "device_name (mPreferredHal3MinorVersion p) path"
  have "provider_ok (VirtualCameraProviderImpl_2_4 cfg property)"
    by (simp add: provider_ok_def VirtualCameraProviderImpl_2_4_def)
  then have ok: "provider_ok p" using calls_ok use by blast
  obtain dev where dev: "new_VirtualCameraDevice path (pv_Cfg p) g = Some (dev, g')" "p' = addCamera path p"
    using added initialised_ok [OF lib] constructed
    by (auto simp: deviceAdded_def bind_Some_iff split: if_splits)
  have same: "mPreferredHal3MinorVersion p' = mPreferredHal3MinorVersion p" "pv_Cfg p' = pv_Cfg p"
    by (simp_all add: dev(2) addCamera_def change_simps Let_def)
  have ok': "provider_ok p'" and "?n \<in> present p'" using addCamera_ok [OF ok] by (simp_all add: dev(2))
  then obtain st where "(?n, st) \<in> set (mCameraStatusMap p')" by (auto simp: present_def)
  then show found: "map_of (mCameraStatusMap p') ?n = Some PRESENT" using ok' by (auto simp: provider_ok_def)
  obtain v where v: "matchDeviceName ?n = Some (v, path)" using match_device_name [OF name] by blast
  note again = device_built_again [OF dev(1)] initialised_ok [OF lib constructed(1,2,3) [OF dev(1)]]
  have "getCameraDeviceInterface_V3_x e ?n p' g' =
      (if mPreferredHal3MinorVersion p = 4 then Some (OK, Some (initialised dev), g') else Some (INTERNAL_ERROR, None, g'))"
    using found v again by (simp add: getCameraDeviceInterface_V3_x_def same)
  moreover have "dv_DevicePath (initialised dev) = path"
    "dv_chars (initialised dev) = Some (full_metadata (side (dv_SubDevice (initialised dev))))"
    using built_path [OF dev(1)] by (simp_all add: initialised_def)
  ultimately show "if mPreferredHal3MinorVersion p = 4
      then (\<exists>dev. getCameraDeviceInterface_V3_x e ?n p' g' = Some (OK, Some dev, g') \<and> dv_DevicePath dev = path \<and>
        dv_chars dev = Some (full_metadata (side (dv_SubDevice dev))))
      else getCameraDeviceInterface_V3_x e ?n p' g' = Some (INTERNAL_ERROR, None, g')"
    by (metis (no_types))
  have "getCameraDeviceInterface_V3_x e ?n p'' g' = Some (ILLEGAL_ARGUMENT, None, g')" if "deviceRemoved path p' = Some p''" for p''
  proof -
    have "?n \<notin> present p''" using deviceRemoved_ok(2) [OF ok' that] same by simp
    then show ?thesis using v by (simp add: getCameraDeviceInterface_V3_x_def present_def map_of_eq_None_iff [THEN iffD2])
  qed
  then show "if length path < 10 then deviceRemoved path p' = None
      else \<forall>p''. deviceRemoved path p' = Some p'' \<longrightarrow> getCameraDeviceInterface_V3_x e ?n p'' g' = Some (ILLEGAL_ARGUMENT, None, g')"
    by (simp add: deviceRemoved_def kDevicePrefixLen_def)
qed

theorem added_camera_found_witness:
  "\<exists>p dev. deviceAdded working_env ''0'' plain_provider no_statics = Some (p, no_statics) \<and>
     getCameraDeviceInterface_V3_x working_env ''device@3.4/virtual/0'' p no_statics = Some (OK, Some dev, no_statics) \<and>
     dv_DevicePath dev = ''0'' \<and> deviceRemoved ''0'' p = None"
proof -
  have minor: "mPreferredHal3MinorVersion plain_provider = 4" "pv_Cfg plain_provider = default_config"
    by (simp_all add: plain_provider_def VirtualCameraProviderImpl_2_4_def)
  have added: "deviceAdded working_env ''0'' plain_provider no_statics = Some (addCamera ''0'' plain_provider, no_statics)"
    by (simp add: deviceAdded_def plain_device_new minor)
  have "calls [] (VirtualCameraProviderImpl_2_4 default_config 4, no_statics) = Some (plain_provider, no_statics)"
    by (simp add: plain_provider_def)
  note found = added_camera_found [OF this _ _ plain_constructed(2) added]
  have zero: "''0'' \<noteq> []" "\<not> list_ex line_end ''0''" by simp code_simp
  show ?thesis using found [OF zero] added minor by (simp add: device_name_def) blast
qed


section \<open>The provider's own cameras\<close>

lemma status_set_map: "map_of (status_set n st m) k = (if k = n then Some st else map_of m k)"
proof -
  have "map_of (map (\<lambda>(k, v). if k = n then (k, st) else (k, v)) m) k =
      (case map_of m k of None \<Rightarrow> None | Some v \<Rightarrow> Some (if k = n then st else v))"
    by (induction m) auto
  then show ?thesis by (auto simp: status_set_def map_add_def split: option.splits)
qed

lemma addCamera_map:
  "map_of (mCameraStatusMap (addCamera n p)) k =
     (if k = device_name (mPreferredHal3MinorVersion p) n then Some PRESENT else map_of (mCameraStatusMap p) k)"
  "mPreferredHal3MinorVersion (addCamera n p) = mPreferredHal3MinorVersion p" "pv_Cfg (addCamera n p) = pv_Cfg p"
  by (simp_all add: addCamera_def change_simps status_set_map Let_def)

text \<open>The two cameras the provider makes itself have names that are no device paths; so neither is a sub device, and both
  advertise the full size.\<close>

theorem own_cameras_alike:
  assumes "accepting e" "mPreferredHal3MinorVersion p = 4" "hotplug_start e True [] p g = Some (p', g')" "n = ''0'' \<or> n = ''1''"
  shows "\<exists>dev. getCameraDeviceInterface_V3_x e (device_name 4 n) p' g' = Some (OK, Some dev, g') \<and> \<not> dv_SubDevice dev"
proof -
  have built: "new_VirtualCameraDevice k cfg h = Some ((plain_device k)\<lparr>dv_Cfg := cfg\<rparr>, h)" if "take 10 k \<noteq> ''/dev/video''" for k cfg h
    using that by (simp add: new_VirtualCameraDevice_def matchDevicePath_def plain_device_def)
  have init: "isInitFailedLocked e ((plain_device k)\<lparr>dv_Cfg := cfg\<rparr>) = Some (False, initialised ((plain_device k)\<lparr>dv_Cfg := cfg\<rparr>))" for k cfg
    by (rule initialised_ok [OF assms(1)]) (simp_all add: plain_device_def)
  have p': "g' = g" "p' = addCamera ''1'' (addCamera ''0'' p)"
    using assms(3) by (simp_all add: hotplug_start_def deviceAdded_def built init)
  have "map_of (mCameraStatusMap p') (device_name 4 n) = Some PRESENT"
    using assms(2,4) by (auto simp: p' addCamera_map)
  moreover have "\<not> list_ex line_end n" "n \<noteq> []" using assms(4) by (elim disjE; simp; code_simp)+
  then obtain v where "matchDeviceName (device_name 4 n) = Some (v, n)" using match_device_name by blast
  moreover have "take 10 n \<noteq> ''/dev/video''" using assms(4) by auto
  ultimately have "getCameraDeviceInterface_V3_x e (device_name 4 n) p' g' =
      Some (OK, Some (initialised ((plain_device n)\<lparr>dv_Cfg := pv_Cfg p'\<rparr>)), g')"
    using assms(2) by (simp add: getCameraDeviceInterface_V3_x_def p' addCamera_map built init)
  then show ?thesis by (simp add: initialised_def plain_device_def)
qed

end
