(* ===== verification/Sensor_Probe.thy ===== *)
theory Sensor_Probe
  imports Media_Build Camera_Session
begin

text \<open>
  The search for a sensor of the HAL provider (\<open>rkisp_get_devname\<close>, \<open>rkisp_enumrate_modules\<close> and \<open>get_media_info\<close> of
  \<open>camera_vir/provider/VirtualCameraProviderImpl_2_4.cpp\<close>), which goes through the media devices with the
  functions of \<open>mediactl.c\<close>. The structure the search fills in is a local variable that nothing initialises: a field
  that was not written yet is \<open>None\<close>, and reading it is undefined.
\<close>

section \<open>Data\<close>







section \<open>The modules of one device\<close>







section \<open>The media devices\<close>










section \<open>What the search finds\<close>

























section \<open>Two kernels\<close>






declare enum_entities_loop.simps [code]





end
