(* ===== verification/Spec2Isabelle.thy ===== *)
theory Spec2Isabelle
  imports Bitstream Sps_Pps Circular_List Ansync_Decoder Event_Loop Network_Socket Threads Media_Build
    Frame_Copy Yuv_Convert Rtp_Transport Camera_Session Preview_Memory Mp4_Recorder Ir_Image Capture_Safety
    Jpeg_Output Rga_Crop Camera_Provider Sensor_Probe
begin

text \<open>
  The virtual camera.

  \<^bold>\<open>The program.\<close> A phone shows the picture of a remote camera as if it were a camera of its own. The sources under
  \<open>src\<close> have two halves.

  \<^item> \<open>VirtualCamera\<close> receives the pictures. \<open>VirtualCameraService.cpp\<close> is a binder service that opens an RTP session to
    the address in a file, runs a receiving thread, and hands each packet to the asynchronous decoder
    (\<open>AnsyncDecoder\<close>). A second thread decodes the packets and gives the pictures to a window or to the call-back surface
    of an application (\<open>jrtplibutil_jni.cpp\<close>); coded frames may also be recorded (\<open>ff_mp4.c\<close>). The sender
    side cuts a frame into packets (\<open>JRTPLIB/src/rtpsession.cpp\<close>). \<open>Common\<close> has the ring, the event loop, the sockets
    and the thread wrappers these use.
  \<^item> \<open>camera_vir\<close> is the camera HAL. Its provider announces cameras, each a device with an XML configuration; opening a
    device makes a session, which configures streams, takes capture requests, and answers them by two worker threads: the
    first converts the captured picture, the second crops and scales it into the buffers of the request or
    compresses it, with the raster engine for some of the scaling. \<open>provider/mediactl\<close> reads the graph of the media controller and sets up its links.

  \<^bold>\<open>Theories.\<close> In the order of their imports; each opens with the files and functions it translates.

  \<^item> \<open>VC_Prelude\<close>: machine types, the C operations that may be undefined, lemmas on options and bits. \<open>C_String\<close>: digits and
    decimal numbers. \<open>Float32\<close>: single precision with rounding to even, as the HAL uses it on picture sizes.
  \<^item> \<open>Bitstream\<close> (\<open>bs.h\<close>), \<open>Sps_Pps\<close> (\<open>sps_pps.c\<close>): the bit reader and writer refine lists of bits; Golomb codes; the parameter
    sets of H.264, read safely from every input without a start code, with the fields the standard gives them.
  \<^item> \<open>Circular_List\<close>, \<open>Ansync_Decoder\<close>: the ring of 240 nodes (locale \<open>ring\<close>), and the decoder on it, which
    implements a bounded queue (locale \<open>bounded_queue\<close>); a transition system of the two threads and its invariant.
  \<^item> \<open>Event_Loop\<close> (locale \<open>slot_pool\<close>, once for sockets and once for timers), \<open>Network_Socket\<close>, \<open>Threads\<close>.
  \<^item> \<open>Media_Graph\<close>, \<open>Media_Parse\<close>, \<open>Media_Enum\<close>, \<open>Media_Build\<close>: the media graph with its twin links, the parser of link
    setups, enumeration, and the graph that enumeration builds from a listing of the kernel.
  \<^item> \<open>Frame_Copy\<close>, \<open>Yuv_Convert\<close>: copies of a picture to a window and its conversion to YUV 4:2:0.
  \<^item> \<open>Rtp_Transport\<close>: slicing, reassembly, and the client of the decoder (locale \<open>frame_sink\<close>, interpreted by the decoder).
  \<^item> \<open>Camera_Session\<close>: the service, its address file, and the life of a session as a transition system of three threads.
  \<^item> \<open>Mp4_Recorder\<close>, \<open>Preview_Memory\<close>: the recorder; the preview buffers and their lock.
  \<^item> \<open>Buffer_Cache\<close>, \<open>V4l2_Stream\<close>, \<open>Frame_Layout\<close>, \<open>Ir_Image\<close>, \<open>Rga_Crop\<close>, \<open>Jpeg_Output\<close>: parts of the HAL session that stand alone: imported
    buffers, the capture stream, frames with crops, the infrared and YUYV kernels, crops for the raster engine, and JPEG pictures with their thumbnails.
  \<^item> \<open>Hal_Session\<close>, \<open>Stream_Config\<close>: the state of the session and \<open>configureStreams\<close>, with the choice of the capture format.
  \<^item> \<open>Capture_Request\<close>, \<open>Capture_Pipeline\<close>, \<open>Capture_Safety\<close>: capture requests, and the session, the two workers, flush and
    close as a transition system.
  \<^item> \<open>Camera_Config\<close>, \<open>Camera_Device\<close>, \<open>Camera_Provider\<close>: the configuration file, the device with what it advertises and its
    \<open>open\<close>, and the provider. \<open>Sensor_Probe\<close>: the provider's search for a sensor in the media graphs.

  \<^bold>\<open>Conventions.\<close> A C structure is a record, an enumeration a datatype, an unsigned integer a word of its width, and an \<open>int\<close> a
  value of type \<open>int\<close> whose operations are undefined outside the range. A function that may be undefined (out of bounds,
  null, overflow, a lock taken twice) gives an option, and \<open>None\<close> stands for that; so safety is always a proved \<open>Some\<close>.
  Status codes are values of a datatype or the number in the code. Blocking calls and threads are steps of a relation.

  \<^bold>\<open>Lemma groups.\<close> The decoder, the RTP path and the session of the service: every byte that is sent arrives once and in
  order, the threads of the decoder always have a step left, each bound of a buffer is kept, and a session can always be
  ended. The parsers: what they read is what was written, on every input they stop, and they stay in bounds. The media
  graph: enumeration and setup keep the graph well formed. The HAL: a configured stream can be served in spite of rounding, each
  request is answered at most once and accounted for, the pipeline drains unless a device error ends its last thread, no buffer is in two hands, imported handles
  are freed once, what a device advertises its session accepts, and the notifications of the provider
  tell its cameras. Flaws of the code that modelling showed are theorems as well; the text before each says so.

  \<^bold>\<open>Bounds and fuel.\<close> Loops over data are structural or have a measure. Two loops that the input may keep from ending are partial
  functions into options: the enumeration of entities, which ends when the kernel lists finitely many, and the
  parser of link setups, which is proved to end on every text. A loop with a bound in the code has this
  bound as its argument: 240 nodes, 64 slots, 4 numbers of an address, 15 attempts of the driver. No other fuel is used.

  \<^bold>\<open>Not modelled.\<close>
  \<^item> \<open>libcameraservice\<close>: the camera server of the Android platform with few changes; code of another project.
  \<^item> JRTPLIB (but for the slicing), JThread, the headers of FFmpeg and libev: vendored. What is used of them is a parameter.
  \<^item> The Java application, the JNI entry points and the OpenGL display: glue without state of its own.
  \<^item> The binder proxies: parcels, marshalled by a library of the platform.
  \<^item> Of the HAL: the tables of constants in the metadata, EXIF and gralloc calls, functions that only
    code that is compiled out calls, the loop of the hot plug thread, which ignores what it reads, and its events.
  \<^item> Kernel, codecs, libyuv, libjpeg and the XML parser are parameters, known by what their documentation says they return.
\<close>

end
